(* ===== verification/Rstd_Prelude.thy ===== *)
theory Rstd_Prelude
  imports Main "HOL-Library.Word"
begin

text \<open>
  Shared vocabulary of the development: the result type of the library, the names of the
  machine integer types, and the generic facts on lists, options and words that the component
  theories use.  \<open>Result<T, E>\<close> of src/core/src/result.cppm is the sum type with the error on the
  left, \<open>Option<T>\<close> is the HOL option type.
\<close>

section \<open>Results\<close>

type_synonym ('e, 'a) result = "'e + 'a"

abbreviation Err :: "'e \<Rightarrow> ('e, 'a) result" where
  "Err \<equiv> Inl"

abbreviation Ok :: "'a \<Rightarrow> ('e, 'a) result" where
  "Ok \<equiv> Inr"

text \<open>The early return \<open>if (r.is_err()) return Err(...)\<close> that the code writes out everywhere.\<close>

definition and_then :: "('e, 'a) result \<Rightarrow> ('a \<Rightarrow> ('e, 'b) result) \<Rightarrow> ('e, 'b) result" where
  "and_then r f = (case r of Err e \<Rightarrow> Err e | Ok x \<Rightarrow> f x)"

section \<open>Machine integers\<close>

type_synonym u8 = "8 word"
type_synonym u16 = "16 word"
type_synonym u32 = "32 word"
type_synonym u64 = "64 word"
type_synonym u128 = "128 word"
type_synonym i32 = "32 word"
type_synonym i64 = "64 word"

section \<open>Collections of rewrite rules\<close>

named_theorems result_simps \<open>rewriting of results and early returns\<close>
named_theorems word_bounds \<open>bounds on the unsigned reading of machine integers\<close>

lemma and_then_Ok [simp, result_simps]: "and_then (Ok x) f = f x"
  by (simp add: and_then_def)

lemma and_then_Err [simp, result_simps]: "and_then (Err e) f = Err e"
  by (simp add: and_then_def)

lemma and_then_eq_Ok [result_simps]:
  "and_then r f = Ok y \<longleftrightarrow> (\<exists>x. r = Ok x \<and> f x = Ok y)"
  by (cases r) auto

lemma and_then_eq_Err [result_simps]:
  "and_then r f = Err e \<longleftrightarrow> r = Err e \<or> (\<exists>x. r = Ok x \<and> f x = Err e)"
  by (cases r) auto

lemma and_then_cong [fundef_cong]:
  "r = r' \<Longrightarrow> (\<And>x. r' = Ok x \<Longrightarrow> f x = g x) \<Longrightarrow> and_then r f = and_then r' g"
  by (cases r') auto

section \<open>Lists\<close>

lemma nth_eq_hd_drop: "i < length xs \<Longrightarrow> xs ! i = hd (drop i xs)"
  by (simp add: hd_drop_conv_nth)

lemma take_Suc_append_nth: "i < length xs \<Longrightarrow> take (Suc i) xs = take i xs @ [xs ! i]"
  by (rule take_Suc_conv_app_nth)

section \<open>Words\<close>

unbundle bit_operations_syntax

lemma unat_lt_64 [word_bounds]: "unat (w :: u64) < 2 ^ 64"
  by (rule order_less_le_trans [OF unsigned_less]) simp

lemma unat_lt_32 [word_bounds]: "unat (w :: u32) < 2 ^ 32"
  by (rule order_less_le_trans [OF unsigned_less]) simp

lemma unat_lt_16 [word_bounds]: "unat (w :: u16) < 2 ^ 16"
  by (rule order_less_le_trans [OF unsigned_less]) simp

lemma unat_lt_8 [word_bounds]: "unat (w :: u8) < 2 ^ 8"
  by (rule order_less_le_trans [OF unsigned_less]) simp

lemma word_eq_unat: "v = w \<longleftrightarrow> unat v = unat (w :: 'a::len word)"
  by (auto intro: unsigned_word_eqI)

lemma unat_ucast_mod: "unat (ucast (w :: 'a::len word) :: 'b::len word) = unat w mod 2 ^ LENGTH('b)"
  by (simp add: unsigned_ucast_eq take_bit_eq_mod)

text \<open>
  Bit operations as arithmetic on the unsigned reading: masking is \<open>mod\<close>, shifting right is
  \<open>div\<close>, and an \<open>OR\<close> of values with disjoint bits is a sum.
\<close>

lemma nat_or_low: "(b::nat) < 2 ^ k \<Longrightarrow> push_bit k a OR b = push_bit k a + b"
  by (rule sym, rule disjunctive_add_eq_or, rule bit_eqI)
     (auto simp: bit_simps, metis bit_take_bit_iff linorder_not_le take_bit_nat_eq_self)

lemma unat_and_mask: "unat (w AND mask k :: 'a::len word) = unat w mod 2 ^ k"
proof -
  have "unat (w AND mask k) = unat (take_bit k w)" by (simp only: take_bit_eq_mask)
  also have "\<dots> = take_bit k (unat w)" by transfer (simp add: take_bit_nat_eq ac_simps)
  finally show ?thesis by (simp add: take_bit_eq_mod)
qed

lemma unat_drop_bit: "unat (drop_bit k w :: 'a::len word) = unat w div 2 ^ k"
  unfolding unat_drop_bit_eq by (simp add: drop_bit_eq_div)

lemma unat_or_disjoint:
  fixes v w :: "'a::len word"
  assumes "unat v = a * 2 ^ k" and "unat w < 2 ^ k"
  shows "unat (v OR w) = unat v + unat w"
proof -
  have "unat (v OR w) = unat v OR unat w" by (simp add: unsigned_or_eq)
  also have "\<dots> = push_bit k a OR unat w" by (simp add: assms(1) push_bit_eq_mult mult.commute)
  also have "\<dots> = push_bit k a + unat w" using assms(2) by (rule nat_or_low)
  finally show ?thesis by (simp add: assms(1) push_bit_eq_mult mult.commute)
qed

lemma unat_and_high:
  fixes w :: "'a::len word"
  shows "unat (w AND NOT (mask k)) = unat w div 2 ^ k * 2 ^ k"
proof -
  have "(w AND NOT (mask k)) + (w AND mask k) = (w AND NOT (mask k)) OR (w AND mask k)"
    by (rule disjunctive_add_eq_or, rule bit_word_eqI) (auto simp: bit_simps)
  also have "\<dots> = w" by (rule bit_word_eqI) (auto simp: bit_simps)
  finally have "w AND NOT (mask k) = w - (w AND mask k)" by (simp add: eq_diff_eq)
  then have "unat (w AND NOT (mask k)) = unat (w - (w AND mask k))" by simp
  also have "\<dots> = unat w - unat (w AND mask k)"
    by (rule unat_sub) (simp add: word_and_le2)
  finally show ?thesis by (simp add: unat_and_mask minus_mod_eq_div_mult)
qed

lemma ucast_of_nat_down:
  "LENGTH('b) \<le> LENGTH('a) \<Longrightarrow> ucast (of_nat n :: 'a::len word) = (of_nat n :: 'b::len word)"
  by (simp add: word_eq_unat unat_ucast_mod unat_of_nat mod_mod_cancel le_imp_power_dvd)

end
