(* ===== verification/Utf8.thy ===== *)
theory Utf8
  imports Rstd_Prelude
begin

text \<open>
  UTF-8 encoding and decoding of single code points, src/core/src/char/utf8.cppm.  A code point
  (\<open>char32_t\<close>) is a 32-bit word, a byte an 8-bit word, and a pointer with a length the list of the
  bytes it spans.  The encoders return the bytes they write to the buffer together with the
  count they return.
\<close>

unbundle bit_operations_syntax

section \<open>The code\<close>

definition MAX_SCALAR :: u32 where
  "MAX_SCALAR = 0x10FFFF"

definition REPLACEMENT :: u32 where
  "REPLACEMENT = 0xFFFD"

definition is_scalar :: "u32 \<Rightarrow> bool" where
  "is_scalar c \<longleftrightarrow> c \<le> 0x10FFFF \<and> (c < 0xD800 \<or> c > 0xDFFF)"

definition len_utf8_scalar :: "u32 \<Rightarrow> nat" where
  "len_utf8_scalar c = (if c \<le> 0x7F then 1 else if c \<le> 0x7FF then 2 else if c \<le> 0xFFFF then 3 else 4)"

definition encode_utf8_scalar :: "u32 \<Rightarrow> u8 list \<times> nat" where
  "encode_utf8_scalar c =
    (if c \<le> 0x7F then ([ucast c], 1)
     else if c \<le> 0x7FF then
       ([ucast (0xC0 OR drop_bit 6 c),
         ucast (0x80 OR (c AND 0x3F))], 2)
     else if c \<le> 0xFFFF then
       ([ucast (0xE0 OR drop_bit 12 c),
         ucast (0x80 OR (drop_bit 6 c AND 0x3F)),
         ucast (0x80 OR (c AND 0x3F))], 3)
     else
       ([ucast (0xF0 OR drop_bit 18 c),
         ucast (0x80 OR (drop_bit 12 c AND 0x3F)),
         ucast (0x80 OR (drop_bit 6 c AND 0x3F)),
         ucast (0x80 OR (c AND 0x3F))], 4))"

definition len_utf8 :: "u32 \<Rightarrow> nat" where
  "len_utf8 c = (if \<not> is_scalar c then 0 else len_utf8_scalar c)"

definition encode_utf8 :: "u32 \<Rightarrow> u8 list \<times> nat" where
  "encode_utf8 c = (if \<not> is_scalar c then ([], 0) else encode_utf8_scalar c)"

text \<open>The loop over the continuation bytes: \<open>None\<close> is its early return.\<close>

fun consume_continuation :: "u8 list \<Rightarrow> u32 \<Rightarrow> u32 option" where
  "consume_continuation [] cp = Some cp"
| "consume_continuation (b # bs) cp =
     (if b AND 0xC0 \<noteq> 0x80 then None
      else consume_continuation bs (push_bit 6 cp OR ucast (b AND 0x3F)))"

definition sequence_of_lead :: "u8 \<Rightarrow> (nat \<times> u32) option" where
  "sequence_of_lead b0 =
    (if b0 AND 0xE0 = 0xC0 then Some (2, ucast (b0 AND 0x1F))
     else if b0 AND 0xF0 = 0xE0 then Some (3, ucast (b0 AND 0x0F))
     else if b0 AND 0xF8 = 0xF0 then Some (4, ucast (b0 AND 0x07))
     else None)"

definition decode_utf8 :: "u8 list \<Rightarrow> u32 \<times> nat" where
  "decode_utf8 bs =
    (case bs of
       [] \<Rightarrow> (REPLACEMENT, 0)
     | b0 # rest \<Rightarrow>
        if b0 \<le> 0x7F then (ucast b0, 1)
        else case sequence_of_lead b0 of
          None \<Rightarrow> (REPLACEMENT, 1)
        | Some (seq_len, cp0) \<Rightarrow>
            if seq_len > length bs then (REPLACEMENT, 1)
            else case consume_continuation (take (seq_len - 1) rest) cp0 of
              None \<Rightarrow> (REPLACEMENT, 1)
            | Some cp \<Rightarrow>
                if seq_len = 2 \<and> cp < 0x80 then (REPLACEMENT, 1)
                else if seq_len = 3 \<and> cp < 0x800 then (REPLACEMENT, 1)
                else if seq_len = 4 \<and> cp < 0x10000 then (REPLACEMENT, 1)
                else if \<not> is_scalar cp then (REPLACEMENT, 1)
                else (cp, seq_len))"

definition is_continuation :: "u8 \<Rightarrow> bool" where
  "is_continuation b \<longleftrightarrow> b AND 0xC0 = 0x80"

definition is_char_boundary :: "u8 list \<Rightarrow> nat \<Rightarrow> bool" where
  "is_char_boundary bs pos =
    (if pos = 0 \<or> pos = length bs then True
     else if pos > length bs then False
     else \<not> is_continuation (bs ! pos))"

lemma decode_utf8_consumes: "bs \<noteq> [] \<Longrightarrow> 0 < snd (decode_utf8 bs)"
  by (auto simp: decode_utf8_def sequence_of_lead_def split: list.splits option.splits)

text \<open>The scanning loop of the validator, on the bytes from the current index on.\<close>

function is_valid_utf8 :: "u8 list \<Rightarrow> bool" where
  "is_valid_utf8 bs =
    (if bs = [] then True
     else let (cp, consumed) = decode_utf8 bs in
       if cp = REPLACEMENT \<and> consumed \<le> 1 \<and> hd bs > 0x7F then False
       else is_valid_utf8 (drop consumed bs))"
  by pat_completeness auto
termination
proof (relation "measure length")
  fix bs :: "u8 list" and x cp n
  assume "bs \<noteq> []" and "x = decode_utf8 bs" and "(cp, n) = x"
  then show "(drop n bs, bs) \<in> measure length"
    using decode_utf8_consumes [of bs] by (metis diff_less in_measure length_drop length_greater_0_conv snd_conv)
qed simp

declare is_valid_utf8.simps [simp del]

section \<open>Encoding a string\<close>

text \<open>
  The reference the validator and the boundary test are compared with: the concatenation of the
  encodings of a list of scalar values, which is what well-formed UTF-8 text is.
\<close>

abbreviation enc :: "u32 \<Rightarrow> u8 list" where
  "enc c \<equiv> fst (encode_utf8_scalar c)"

definition encode_all :: "u32 list \<Rightarrow> u8 list" where
  "encode_all cs = concat (map enc cs)"

section \<open>Bytes as numbers\<close>

lemma unat_ucast_u8: "unat (ucast (w :: 'a::len word) :: u8) = unat w mod 256"
  by (simp add: unat_ucast_mod)

lemma unat_ucast_u32: "unat (ucast (w :: u8) :: u32) = unat w"
  using unat_lt_8 [of w] by (simp add: unat_ucast_mod)

lemma and_C0: "unat (b AND 0xC0 :: u8) = unat b div 64 * 64"
proof -
  have "(0xC0 :: u8) = NOT (mask 6)" by (simp add: mask_eq_exp_minus_1)
  then show ?thesis using unat_and_high [of b 6] by simp
qed

lemma and_high8:
  "unat (b AND 0xE0 :: u8) = unat b div 32 * 32"
  "unat (b AND 0xF0 :: u8) = unat b div 16 * 16"
  "unat (b AND 0xF8 :: u8) = unat b div 8 * 8"
proof -
  have "(0xE0 :: u8) = NOT (mask 5)" "(0xF0 :: u8) = NOT (mask 4)" "(0xF8 :: u8) = NOT (mask 3)"
    by (simp_all add: mask_eq_exp_minus_1)
  then show "unat (b AND 0xE0 :: u8) = unat b div 32 * 32"
    "unat (b AND 0xF0 :: u8) = unat b div 16 * 16"
    "unat (b AND 0xF8 :: u8) = unat b div 8 * 8"
    using unat_and_high [of b 5] unat_and_high [of b 4] unat_and_high [of b 3] by simp_all
qed

lemma and_low8: "unat (b AND 0x3F :: u8) = unat b mod 64"
  "unat (b AND 0x1F :: u8) = unat b mod 32"
  "unat (b AND 0x0F :: u8) = unat b mod 16"
  "unat (b AND 0x07 :: u8) = unat b mod 8"
  using unat_and_mask [of b 6] unat_and_mask [of b 5] unat_and_mask [of b 4] unat_and_mask [of b 3]
  by (simp_all add: mask_eq_exp_minus_1)

lemma and_low32: "unat (c AND 0x3F :: u32) = unat c mod 64"
  using unat_and_mask [of c 6] by (simp add: mask_eq_exp_minus_1)

lemma is_continuation_iff: "b AND 0xC0 = (0x80 :: u8) \<longleftrightarrow> unat b div 64 = 2"
  by (auto simp: word_eq_unat and_C0)

lemma sequence_of_lead_eq:
  "sequence_of_lead b =
    (if unat b div 32 = 6 then Some (2, word_of_nat (unat b mod 32))
     else if unat b div 16 = 14 then Some (3, word_of_nat (unat b mod 16))
     else if unat b div 8 = 30 then Some (4, word_of_nat (unat b mod 8))
     else None)"
proof -
  have c: "b AND 0xE0 = 0xC0 \<longleftrightarrow> unat b div 32 = 6" "b AND 0xF0 = 0xE0 \<longleftrightarrow> unat b div 16 = 14"
    "b AND 0xF8 = 0xF0 \<longleftrightarrow> unat b div 8 = 30"
    by (auto simp: word_eq_unat and_high8)
  have v: "(ucast w :: u32) = word_of_nat (unat w)" for w :: u8
    by simp
  show ?thesis unfolding sequence_of_lead_def c v and_low8 ..
qed

lemma consume_step:
  assumes "unat cp < 2 ^ 26"
  shows "unat (push_bit 6 cp OR ucast (b AND 0x3F :: u8) :: u32) = unat cp * 64 + unat b mod 64"
proof -
  have p: "unat (push_bit 6 cp) = unat cp * 2 ^ 6"
    using assms unfolding unsigned_push_bit_eq by (simp add: push_bit_eq_mult take_bit_eq_mod)
  have "unat (push_bit 6 cp OR ucast (b AND 0x3F :: u8) :: u32) = unat (push_bit 6 cp) + unat (ucast (b AND 0x3F :: u8) :: u32)"
    by (rule unat_or_disjoint [OF p]) (simp add: unat_ucast_u32 and_low8)
  then show ?thesis by (simp add: p unat_ucast_u32 and_low8)
qed

lemma consume_continuation_Cons:
  assumes "unat cp < 2 ^ 26"
  shows "consume_continuation (b # bs) cp =
    (if unat b div 64 = 2 then consume_continuation bs (word_of_nat (unat cp * 64 + unat b mod 64)) else None)"
proof -
  have "push_bit 6 cp OR ucast (b AND 0x3F) = (word_of_nat (unat cp * 64 + unat b mod 64) :: u32)"
    unfolding consume_step [OF assms, of b, symmetric] by (simp del: push_bit_eq_mult)
  then show ?thesis by (simp add: is_continuation_iff)
qed

lemma unat_word_of_nat_small: "n < 2 ^ LENGTH('a) \<Longrightarrow> unat (word_of_nat n :: 'a::len word) = n"
  by (simp add: unat_of_nat)

lemma unat_ucast_or:
  assumes "unat (v :: u32) = a * 2 ^ k" and "unat (w :: u32) < 2 ^ k" and "a * 2 ^ k + 2 ^ k \<le> 256"
  shows "unat (ucast (v OR w) :: u8) = a * 2 ^ k + unat w"
  using unat_or_disjoint [OF assms(1,2)] assms by (simp add: unat_ucast_u8)

lemma encode_bytes:
  "unat (ucast (0x80 OR (c AND 0x3F) :: u32) :: u8) = 128 + unat c mod 64"
  "unat (ucast (0x80 OR (drop_bit k c AND 0x3F) :: u32) :: u8) = 128 + unat c div 2 ^ k mod 64"
  "unat c div 64 < 32 \<Longrightarrow> unat (ucast (0xC0 OR drop_bit 6 c :: u32) :: u8) = 192 + unat c div 64"
  "unat c div 4096 < 16 \<Longrightarrow> unat (ucast (0xE0 OR drop_bit 12 c :: u32) :: u8) = 224 + unat c div 4096"
  "unat c div 262144 < 8 \<Longrightarrow> unat (ucast (0xF0 OR drop_bit 18 c :: u32) :: u8) = 240 + unat c div 262144"
  using unat_ucast_or [of "0x80" 2 6 "c AND 0x3F"] unat_ucast_or [of "0x80" 2 6 "drop_bit k c AND 0x3F"]
    unat_ucast_or [of "0xC0" 6 5 "drop_bit 6 c"] unat_ucast_or [of "0xE0" 14 4 "drop_bit 12 c"]
    unat_ucast_or [of "0xF0" 30 3 "drop_bit 18 c"]
  by (simp_all add: and_low32 unat_drop_bit)

lemma is_scalar_iff: "is_scalar c \<longleftrightarrow> unat c \<le> 0x10FFFF \<and> (unat c < 0xD800 \<or> unat c > 0xDFFF)"
  by (simp add: is_scalar_def word_le_nat_alt word_less_nat_alt)

lemma unat_ucast_small: "unat (c :: u32) < 256 \<Longrightarrow> unat (ucast c :: u8) = unat c"
  by (simp add: unat_ucast_u8)

lemma encode_utf8_scalar_unat:
  assumes "unat c \<le> 0x10FFFF"
  shows "map unat (fst (encode_utf8_scalar c)) =
    (if unat c < 0x80 then [unat c]
     else if unat c < 0x800 then [192 + unat c div 64, 128 + unat c mod 64]
     else if unat c < 0x10000 then [224 + unat c div 4096, 128 + unat c div 64 mod 64, 128 + unat c mod 64]
     else [240 + unat c div 262144, 128 + unat c div 4096 mod 64, 128 + unat c div 64 mod 64, 128 + unat c mod 64])"
  using assms encode_bytes(2) [of 6 c] encode_bytes(2) [of 12 c]
  by (auto simp: encode_utf8_scalar_def word_le_nat_alt unat_ucast_small encode_bytes not_le)

lemma length_encode_utf8_scalar: "length (fst (encode_utf8_scalar c)) = len_utf8_scalar c"
  by (simp add: encode_utf8_scalar_def len_utf8_scalar_def)

lemma snd_encode_utf8_scalar: "snd (encode_utf8_scalar c) = len_utf8_scalar c"
  by (simp add: encode_utf8_scalar_def len_utf8_scalar_def)


section \<open>The decoder, by the class of the lead byte\<close>

lemma decode_ascii: "unat b0 < 128 \<Longrightarrow> decode_utf8 (b0 # rest) = (ucast b0, 1)"
  by (simp add: decode_utf8_def word_le_nat_alt)

lemma lead_class:
  "unat b div 16 = 14 \<Longrightarrow> unat b div 32 = 7"
  "unat b div 8 = 30 \<Longrightarrow> unat b div 32 = 7"
  "unat b div 8 = 30 \<Longrightarrow> unat b div 16 = 15"
  for b :: u8
  using div_mult2_eq [of "unat b" 16 2] div_mult2_eq [of "unat b" 8 4] div_mult2_eq [of "unat b" 8 2]
  by simp_all

lemma lead_not_ascii: "6 \<le> unat b div 32 \<Longrightarrow> \<not> b \<le> 0x7F" for b :: u8
  using div_le_mono [of "unat b" 127 32] by (auto simp: word_le_nat_alt)

lemma decode_lead2:
  assumes "unat b0 div 32 = 6" and v_def: "v = unat b0 mod 32 * 64 + unat b1 mod 64"
  shows "decode_utf8 (b0 # b1 # rest) =
    (if unat b1 div 64 = 2 \<and> 0x80 \<le> v then (word_of_nat v, 2) else (REPLACEMENT, 1))"
proof -
  have "unat b0 mod 32 < 32" "unat b1 mod 64 < 64" by simp_all
  then have v: "v < 0x800" unfolding v_def by linarith
  have l: "sequence_of_lead b0 = Some (2, word_of_nat (unat b0 mod 32))"
    using assms(1) by (simp add: sequence_of_lead_eq)
  have u: "unat (word_of_nat (unat b0 mod 32) :: u32) = unat b0 mod 32"
    by (rule unat_word_of_nat_small) simp
  have w: "unat (word_of_nat v :: u32) = v" using v by (intro unat_word_of_nat_small) simp
  have c: "consume_continuation [b1] (word_of_nat (unat b0 mod 32)) =
    (if unat b1 div 64 = 2 then Some (word_of_nat v) else None)"
    by (subst consume_continuation_Cons) (simp_all add: u v_def)
  show ?thesis
    using v lead_not_ascii [of b0] assms(1)
    by (simp add: decode_utf8_def l c is_scalar_iff w word_less_nat_alt del: consume_continuation.simps(2))
qed

lemma decode_lead3:
  assumes "unat b0 div 16 = 14"
    and v_def: "v = (unat b0 mod 16 * 64 + unat b1 mod 64) * 64 + unat b2 mod 64"
  shows "decode_utf8 (b0 # b1 # b2 # rest) =
    (if unat b1 div 64 = 2 \<and> unat b2 div 64 = 2 \<and> 0x800 \<le> v \<and> (v < 0xD800 \<or> 0xDFFF < v)
     then (word_of_nat v, 3) else (REPLACEMENT, 1))"
proof -
  define v1 where "v1 = unat b0 mod 16 * 64 + unat b1 mod 64"
  have b: "unat b0 mod 16 < 16" "unat b1 mod 64 < 64" "unat b2 mod 64 < 64" by simp_all
  have v1: "v1 < 1024" using b unfolding v1_def by linarith
  have vv: "v = v1 * 64 + unat b2 mod 64" by (simp add: v_def v1_def)
  have v: "v < 0x10000" using b v1 vv by linarith
  have l: "sequence_of_lead b0 = Some (3, word_of_nat (unat b0 mod 16))"
    using assms(1) lead_class(1) [of b0] by (simp add: sequence_of_lead_eq)
  have u: "unat (word_of_nat (unat b0 mod 16) :: u32) = unat b0 mod 16"
    by (rule unat_word_of_nat_small) simp
  have u1: "unat (word_of_nat v1 :: u32) = v1" using v1 by (intro unat_word_of_nat_small) simp
  have w: "unat (word_of_nat v :: u32) = v" using v by (intro unat_word_of_nat_small) simp
  have c1: "consume_continuation [b2] (word_of_nat v1) = (if unat b2 div 64 = 2 then Some (word_of_nat v) else None)"
    using v1 by (subst consume_continuation_Cons) (simp_all add: u1 vv)
  have c: "consume_continuation [b1, b2] (word_of_nat (unat b0 mod 16)) =
    (if unat b1 div 64 = 2 \<and> unat b2 div 64 = 2 then Some (word_of_nat v) else None)"
    by (subst consume_continuation_Cons) (simp_all add: u c1 flip: v1_def del: consume_continuation.simps(2))
  show ?thesis
    using v lead_not_ascii [of b0] assms(1) lead_class(1) [of b0]
    by (auto simp: decode_utf8_def l c is_scalar_iff w word_less_nat_alt simp del: consume_continuation.simps(2))
qed

lemma decode_lead4:
  assumes "unat b0 div 8 = 30"
    and v_def: "v = ((unat b0 mod 8 * 64 + unat b1 mod 64) * 64 + unat b2 mod 64) * 64 + unat b3 mod 64"
  shows "decode_utf8 (b0 # b1 # b2 # b3 # rest) =
    (if unat b1 div 64 = 2 \<and> unat b2 div 64 = 2 \<and> unat b3 div 64 = 2 \<and> 0x10000 \<le> v \<and> v \<le> 0x10FFFF
     then (word_of_nat v, 4) else (REPLACEMENT, 1))"
proof -
  define v1 v2 where "v1 = unat b0 mod 8 * 64 + unat b1 mod 64" and "v2 = v1 * 64 + unat b2 mod 64"
  have b: "unat b0 mod 8 < 8" "unat b1 mod 64 < 64" "unat b2 mod 64 < 64" "unat b3 mod 64 < 64" by simp_all
  have v1: "v1 < 512" using b unfolding v1_def by linarith
  have v2: "v2 < 32768" using b v1 unfolding v2_def by linarith
  have vv: "v = v2 * 64 + unat b3 mod 64" by (simp add: v_def v2_def v1_def)
  have v: "v < 2097152" using b v2 vv by linarith
  have l: "sequence_of_lead b0 = Some (4, word_of_nat (unat b0 mod 8))"
    using assms(1) lead_class [of b0] by (simp add: sequence_of_lead_eq)
  have u: "unat (word_of_nat (unat b0 mod 8) :: u32) = unat b0 mod 8"
    by (rule unat_word_of_nat_small) simp
  have u1: "unat (word_of_nat v1 :: u32) = v1" using v1 by (intro unat_word_of_nat_small) simp
  have u2: "unat (word_of_nat v2 :: u32) = v2" using v2 by (intro unat_word_of_nat_small) simp
  have w: "unat (word_of_nat v :: u32) = v" using v by (intro unat_word_of_nat_small) simp
  have c2: "consume_continuation [b3] (word_of_nat v2) = (if unat b3 div 64 = 2 then Some (word_of_nat v) else None)"
    using v2 by (subst consume_continuation_Cons) (simp_all add: u2 vv)
  have c1: "consume_continuation [b2, b3] (word_of_nat v1) =
    (if unat b2 div 64 = 2 \<and> unat b3 div 64 = 2 then Some (word_of_nat v) else None)"
    using v1 by (subst consume_continuation_Cons) (simp_all add: u1 c2 flip: v2_def del: consume_continuation.simps(2))
  have c: "consume_continuation [b1, b2, b3] (word_of_nat (unat b0 mod 8)) =
    (if unat b1 div 64 = 2 \<and> unat b2 div 64 = 2 \<and> unat b3 div 64 = 2 then Some (word_of_nat v) else None)"
    by (subst consume_continuation_Cons) (simp_all add: u c1 flip: v1_def del: consume_continuation.simps(2))
  show ?thesis
    using v lead_not_ascii [of b0] assms(1) lead_class(2) [of b0]
    by (auto simp: decode_utf8_def l c is_scalar_iff w word_less_nat_alt simp del: consume_continuation.simps(2))
qed


lemma digit_split: "n = k * m + r \<Longrightarrow> r < m \<Longrightarrow> n div m = k \<and> n mod m = r" for n :: nat
  by auto

lemma base64_digits: "n div 4096 * 64 + n div 64 mod 64 = n div 64" for n :: nat
  using div_mult_mod_eq [of "n div 64" 64] div_mult2_eq [of n 64 64] by simp

lemma decode_encode_scalar:
  assumes "is_scalar c"
  shows "decode_utf8 (fst (encode_utf8_scalar c) @ rest) = (c, len_utf8_scalar c)"
proof -
  let ?n = "unat c" and ?bs = "fst (encode_utf8_scalar c)"
  have n: "?n \<le> 0x10FFFF" "?n < 0xD800 \<or> 0xDFFF < ?n" using assms by (auto simp: is_scalar_iff)
  note e = encode_utf8_scalar_unat [OF n(1)]
  have low: "unat b = 128 + r \<Longrightarrow> r < 64 \<Longrightarrow> unat b div 64 = 2 \<and> unat b mod 64 = r" for b :: u8 and r
    using digit_split [of "unat b" 2 64 r] by simp
  consider (1) "?n < 0x80" | (2) "0x80 \<le> ?n" "?n < 0x800" | (3) "0x800 \<le> ?n" "?n < 0x10000"
    | (4) "0x10000 \<le> ?n" by linarith
  then show ?thesis
  proof cases
    case 1
    then have "c \<le> 0x7F" by (simp add: word_le_nat_alt)
    then show ?thesis using 1 e
      by (simp add: encode_utf8_scalar_def len_utf8_scalar_def decode_ascii unat_ucast_u8) (simp add: word_eq_unat unat_ucast_mod)
  next
    case 2
    then obtain b0 b1 where b: "?bs = [b0, b1]" "unat b0 = 192 + ?n div 64" "unat b1 = 128 + ?n mod 64"
      using e by (auto simp: map_eq_Cons_conv)
    have "unat b0 div 32 = 6 \<and> unat b0 mod 32 = ?n div 64"
      using 2 b(2) by (intro digit_split) (auto simp: div_less_mono)
    then show ?thesis using 2 low [OF b(3)] decode_lead2 [of b0 "?n" b1 rest]
      by (simp add: b(1) len_utf8_scalar_def word_le_nat_alt)
  next
    case 3
    then obtain b0 b1 b2 where b: "?bs = [b0, b1, b2]" "unat b0 = 224 + ?n div 4096"
        "unat b1 = 128 + ?n div 64 mod 64" "unat b2 = 128 + ?n mod 64"
      using e by (auto simp: map_eq_Cons_conv)
    have "unat b0 div 16 = 14 \<and> unat b0 mod 16 = ?n div 4096"
      using 3 b(2) by (intro digit_split) auto
    then show ?thesis using 3 n low [OF b(3)] low [OF b(4)] decode_lead3 [of b0 "?n" b1 b2 rest]
      by (simp add: b(1) len_utf8_scalar_def word_le_nat_alt base64_digits)
  next
    case 4
    then obtain b0 b1 b2 b3 where b: "?bs = [b0, b1, b2, b3]" "unat b0 = 240 + ?n div 262144"
        "unat b1 = 128 + ?n div 4096 mod 64" "unat b2 = 128 + ?n div 64 mod 64" "unat b3 = 128 + ?n mod 64"
      using e by (auto simp: map_eq_Cons_conv)
    have "unat b0 div 8 = 30 \<and> unat b0 mod 8 = ?n div 262144"
      using 4 n b(2) by (intro digit_split) auto
    moreover have "?n div 262144 * 64 + ?n div 4096 mod 64 = ?n div 4096"
      using div_mult_mod_eq [of "?n div 4096" 64] div_mult2_eq [of ?n 4096 64] by simp
    ultimately show ?thesis using 4 n low [OF b(3)] low [OF b(4)] low [OF b(5)] decode_lead4 [of b0 "?n" b1 b2 b3 rest]
      by (simp add: b(1) len_utf8_scalar_def word_le_nat_alt base64_digits)
  qed
qed


lemma enc_eqI: "is_scalar c \<Longrightarrow> map unat (enc c) = map unat bs \<Longrightarrow> enc c = bs"
  by (rule map_injective [of unat]) (auto simp: inj_def word_eq_unat)

lemma decode_error_cases:
  assumes "decode_utf8 (b0 # rest) = (c, n)" and "\<not> (c = REPLACEMENT \<and> n \<le> 1)" and "\<not> unat b0 < 128"
  obtains (two) b1 rs where "unat b0 div 32 = 6" "rest = b1 # rs"
  | (three) b1 b2 rs where "unat b0 div 16 = 14" "rest = b1 # b2 # rs"
  | (four) b1 b2 b3 rs where "unat b0 div 8 = 30" "rest = b1 # b2 # b3 # rs"
proof -
  have na: "\<not> b0 \<le> 0x7F" using assms(3) by (simp add: word_le_nat_alt)
  obtain k cp where l: "sequence_of_lead b0 = Some (k, cp)" and k: "k \<le> Suc (length rest)"
    using assms(1,2) na by (auto simp: decode_utf8_def split: option.splits if_splits)
  then consider "unat b0 div 32 = 6" "k = 2" | "unat b0 div 16 = 14" "k = 3" | "unat b0 div 8 = 30" "k = 4"
    by (auto simp: sequence_of_lead_eq split: if_splits)
  then show thesis
  proof cases
    case 1 then show thesis using k two by (cases rest) auto
  next
    case 2 then show thesis using k three by (cases rest; cases "tl rest") auto
  next
    case 3 then show thesis using k four by (cases rest; cases "tl rest"; cases "tl (tl rest)") auto
  qed
qed

lemma byte_of_digits: "unat (b :: u8) div m = k \<Longrightarrow> unat b mod m = r \<Longrightarrow> unat b = k * m + r"
  using div_mult_mod_eq [of "unat b" m] by simp

lemma decode_utf8_sound:
  assumes d: "decode_utf8 bs = (c, n)" and "bs \<noteq> []" and ok: "\<not> (c = REPLACEMENT \<and> n \<le> 1)"
  shows "is_scalar c \<and> bs = enc c @ drop n bs \<and> n = len_utf8_scalar c"
proof -
  obtain b0 rest where bs: "bs = b0 # rest" using \<open>bs \<noteq> []\<close> by (cases bs) auto
  have key: ?thesis if "is_scalar c" "map unat (enc c) = map unat (take n bs)" "n \<le> length bs"
  proof -
    have "enc c = take n bs" using that by (intro enc_eqI)
    moreover from this have "n = len_utf8_scalar c"
      using that(3) length_encode_utf8_scalar [of c] by simp
    ultimately show ?thesis using that(1) by (metis append_take_drop_id)
  qed
  show ?thesis
  proof (cases "unat b0 < 128")
    case True
    then have "c = ucast b0" "n = 1" using d bs by (simp_all add: decode_ascii)
    then show ?thesis using True bs
      by (intro key) (simp_all add: is_scalar_iff unat_ucast_u32 encode_utf8_scalar_unat)
  next
    case False
    from d bs ok False consider (two) b1 rs where "unat b0 div 32 = 6" "rest = b1 # rs"
      | (three) b1 b2 rs where "unat b0 div 16 = 14" "rest = b1 # b2 # rs"
      | (four) b1 b2 b3 rs where "unat b0 div 8 = 30" "rest = b1 # b2 # b3 # rs"
      using decode_error_cases by blast
    then show ?thesis
    proof cases
      case two
      define v where "v = unat b0 mod 32 * 64 + unat b1 mod 64"
      have v: "unat b1 div 64 = 2" "0x80 \<le> v" "c = word_of_nat v" "n = 2"
        using d ok bs two decode_lead2 [OF two(1) v_def] by (auto split: if_splits)
      have "v div 64 = unat b0 mod 32 \<and> v mod 64 = unat b1 mod 64"
        by (rule digit_split) (simp_all add: v_def)
      moreover have "v < 0x800" using div_less_iff_less_mult [of 64 v 32] calculation by simp
      moreover have "unat c = v" using \<open>v < 0x800\<close> v(3) by (simp add: unat_of_nat)
      moreover have "unat b0 = 6 * 32 + v div 64"
        using byte_of_digits [OF two(1) refl] calculation(1) by linarith
      moreover have "unat b1 = 2 * 64 + v mod 64"
        using byte_of_digits [OF v(1) refl] calculation(1) by linarith
      ultimately show ?thesis using bs two v
        by (intro key) (simp_all add: is_scalar_iff encode_utf8_scalar_unat)
    next
      case three
      define v where "v = (unat b0 mod 16 * 64 + unat b1 mod 64) * 64 + unat b2 mod 64"
      have v: "unat b1 div 64 = 2" "unat b2 div 64 = 2" "0x800 \<le> v" "v < 0xD800 \<or> 0xDFFF < v" "c = word_of_nat v" "n = 3"
        using d ok bs three decode_lead3 [OF three(1) v_def] by (auto split: if_splits)
      have d1: "v div 64 = unat b0 mod 16 * 64 + unat b1 mod 64 \<and> v mod 64 = unat b2 mod 64"
        by (rule digit_split) (simp_all add: v_def)
      have d2: "v div 64 div 64 = unat b0 mod 16 \<and> v div 64 mod 64 = unat b1 mod 64"
        by (rule digit_split) (simp_all add: d1)
      have d3: "v div 4096 = unat b0 mod 16" using d2 div_mult2_eq [of v 64 64] by simp
      have vb: "v < 0x10000" using div_less_iff_less_mult [of 4096 v 16] d3 by simp
      have "unat b0 = 14 * 16 + v div 4096"
        using byte_of_digits [OF three(1) refl] d3 by linarith
      moreover have "unat b1 = 2 * 64 + v div 64 mod 64"
        using byte_of_digits [OF v(1) refl] d2 by linarith
      moreover have "unat b2 = 2 * 64 + v mod 64"
        using byte_of_digits [OF v(2) refl] d1 by linarith
      moreover have "unat c = v" using vb v(5) by (simp add: unat_of_nat)
      ultimately show ?thesis using bs three(2) v(3-) vb
        by (intro key) (simp_all add: is_scalar_iff encode_utf8_scalar_unat)
    next
      case four
      define v where "v = ((unat b0 mod 8 * 64 + unat b1 mod 64) * 64 + unat b2 mod 64) * 64 + unat b3 mod 64"
      have v: "unat b1 div 64 = 2" "unat b2 div 64 = 2" "unat b3 div 64 = 2" "0x10000 \<le> v" "v \<le> 0x10FFFF" "c = word_of_nat v" "n = 4"
        using d ok bs four decode_lead4 [OF four(1) v_def] by (auto split: if_splits)
      have d1: "v div 64 = (unat b0 mod 8 * 64 + unat b1 mod 64) * 64 + unat b2 mod 64 \<and> v mod 64 = unat b3 mod 64"
        by (rule digit_split) (simp_all add: v_def)
      have d2: "v div 64 div 64 = unat b0 mod 8 * 64 + unat b1 mod 64 \<and> v div 64 mod 64 = unat b2 mod 64"
        by (rule digit_split) (simp_all add: d1)
      have d3: "v div 64 div 64 div 64 = unat b0 mod 8 \<and> v div 64 div 64 mod 64 = unat b1 mod 64"
        by (rule digit_split) (simp_all add: d2)
      have d4: "v div 4096 = v div 64 div 64" "v div 262144 = v div 64 div 64 div 64"
        using div_mult2_eq [of v 64 64] div_mult2_eq [of v 4096 64] by simp_all
      have "unat b0 = 30 * 8 + v div 262144"
        using byte_of_digits [OF four(1) refl] d3 unfolding d4 by presburger
      moreover have "unat b1 = 2 * 64 + v div 4096 mod 64"
        using byte_of_digits [OF v(1) refl] d3 unfolding d4 by linarith
      moreover have "unat b2 = 2 * 64 + v div 64 mod 64"
        using byte_of_digits [OF v(2) refl] d2 by linarith
      moreover have "unat b3 = 2 * 64 + v mod 64"
        using byte_of_digits [OF v(3) refl] d1 by linarith
      moreover have "unat c = v" using v(5,6) by (simp add: unat_of_nat)
      ultimately show ?thesis using bs four(2) v(4-)
        by (intro key) (simp_all add: is_scalar_iff encode_utf8_scalar_unat)
    qed
  qed
qed

section \<open>Strings of code points\<close>

lemma encode_all_Nil [simp]: "encode_all [] = []"
  by (simp add: encode_all_def)

lemma encode_all_Cons [simp]: "encode_all (c # cs) = enc c @ encode_all cs"
  by (simp add: encode_all_def)

lemma encode_all_append: "encode_all (cs @ ds) = encode_all cs @ encode_all ds"
  by (simp add: encode_all_def)

lemma len_utf8_scalar_pos [simp]: "0 < len_utf8_scalar c"
  by (simp add: len_utf8_scalar_def)

lemma enc_not_Nil [simp]: "enc c \<noteq> []"
  using length_encode_utf8_scalar [of c] len_utf8_scalar_pos [of c] by (metis length_greater_0_conv)

lemma replacement_len: "len_utf8_scalar REPLACEMENT = 3"
  by (simp add: len_utf8_scalar_def REPLACEMENT_def)

lemma is_valid_utf8_encode_step:
  assumes "is_scalar c"
  shows "is_valid_utf8 (enc c @ bs) = is_valid_utf8 bs"
  using decode_encode_scalar [OF assms, of bs] replacement_len length_encode_utf8_scalar [of c]
  by (subst is_valid_utf8.simps) auto

lemma is_valid_utf8_encode_all: "list_all is_scalar cs \<Longrightarrow> is_valid_utf8 (encode_all cs)"
  by (induction cs) (simp_all add: is_valid_utf8_encode_step is_valid_utf8.simps [of "[]"])

lemma is_valid_utf8_decodes: "is_valid_utf8 bs \<Longrightarrow> \<exists>cs. list_all is_scalar cs \<and> bs = encode_all cs"
proof (induction bs rule: is_valid_utf8.induct)
  case (1 bs)
  show ?case
  proof (cases "bs = []")
    case True
    then show ?thesis by (intro exI [of _ "[]"]) simp
  next
    case False
    obtain c n where d: "decode_utf8 bs = (c, n)" by fastforce
    have ok: "\<not> (c = REPLACEMENT \<and> n \<le> 1)"
    proof
      assume e: "c = REPLACEMENT \<and> n \<le> 1"
      then have "\<not> 0x7F < hd bs" using "1.prems" d False by (subst (asm) is_valid_utf8.simps) (simp split: if_splits)
      then have "unat (hd bs) < 128" by (simp add: word_less_nat_alt)
      then have "c = ucast (hd bs)" using d False by (cases bs) (simp_all add: decode_ascii)
      then show False using e \<open>unat (hd bs) < 128\<close> by (auto simp: word_eq_unat REPLACEMENT_def unat_ucast_u32)
    qed
    then have "is_valid_utf8 (drop n bs)"
      using "1.prems" d False by (subst (asm) is_valid_utf8.simps) (auto split: if_splits)
    moreover have "\<not> (c = REPLACEMENT \<and> n \<le> 1 \<and> 0x7F < hd bs)" using ok by blast
    ultimately obtain cs where "list_all is_scalar cs" "drop n bs = encode_all cs"
      using "1.IH" [OF False d [symmetric] refl] by blast
    then show ?thesis using decode_utf8_sound [OF d False ok]
      by (intro exI [of _ "c # cs"]) auto
  qed
qed

lemma is_valid_utf8_iff: "is_valid_utf8 bs \<longleftrightarrow> (\<exists>cs. list_all is_scalar cs \<and> bs = encode_all cs)"
  using is_valid_utf8_decodes is_valid_utf8_encode_all by blast

lemma is_continuation_unat: "is_continuation b \<longleftrightarrow> unat b div 64 = 2"
  by (simp add: is_continuation_def is_continuation_iff)

lemma enc_continuation:
  assumes "is_scalar c"
  shows "\<not> is_continuation (hd (enc c)) \<and> list_all is_continuation (tl (enc c))"
proof -
  let ?cont = "\<lambda>n. n div 64 = (2 :: nat)" and ?n = "unat c"
  have n: "?n \<le> 0x10FFFF" using assms by (simp add: is_scalar_iff)
  have h: "is_continuation (hd (enc c)) \<longleftrightarrow> ?cont (hd (map unat (enc c)))"
    by (simp add: is_continuation_unat hd_map)
  have t: "list_all is_continuation (tl (enc c)) \<longleftrightarrow> list_all ?cont (tl (map unat (enc c)))"
    by (simp add: is_continuation_unat list_all_iff map_tl [symmetric])
  have low: "(128 + k mod 64) div 64 = 2" for k :: nat
    using digit_split [of "128 + k mod 64" 2 64 "k mod 64"] by simp
  have lead: "192 \<le> k \<Longrightarrow> k div 64 \<noteq> 2" for k :: nat
    using div_le_mono [of 192 k 64] by simp
  show ?thesis
    unfolding h t encode_utf8_scalar_unat [OF n] using lead by (auto simp: low)
qed

lemma boundary_in_encode_all:
  assumes "list_all is_scalar cs" and "pos < length (encode_all cs)"
  shows "\<not> is_continuation (encode_all cs ! pos) \<longleftrightarrow>
    (\<exists>k \<le> length cs. pos = length (encode_all (take k cs)))"
  using assms
proof (induction cs arbitrary: pos)
  case Nil
  then show ?case by simp
next
  case (Cons c cs)
  let ?l = "length (enc c)"
  have c: "is_scalar c" using Cons.prems by simp
  have shift: "(\<exists>k \<le> length (c # cs). pos = length (encode_all (take k (c # cs)))) \<longleftrightarrow>
    pos = 0 \<or> (\<exists>k \<le> length cs. pos = ?l + length (encode_all (take k cs)))"
    (is "?L = ?R")
  proof
    assume ?L
    then obtain k where k: "k \<le> Suc (length cs)" "pos = length (encode_all (take k (c # cs)))" by auto
    then show ?R by (cases k) auto
  next
    assume ?R
    then show ?L by (auto intro: exI [of _ 0] exI [of _ "Suc k" for k])
  qed
  show ?case
  proof (cases "pos < ?l")
    case True
    have "encode_all (c # cs) ! pos = enc c ! pos" using True by (simp add: nth_append)
    moreover have "is_continuation (enc c ! pos) \<longleftrightarrow> pos \<noteq> 0"
      using True enc_continuation [OF c]
      by (cases "enc c"; cases pos) (auto simp: list_all_length)
    ultimately show ?thesis using True unfolding shift by auto
  next
    case False
    then have p: "encode_all (c # cs) ! pos = encode_all cs ! (pos - ?l)" and "pos - ?l < length (encode_all cs)"
      using Cons.prems(2) by (auto simp: nth_append)
    with Cons have "\<not> is_continuation (encode_all cs ! (pos - ?l)) \<longleftrightarrow>
      (\<exists>k \<le> length cs. pos - ?l = length (encode_all (take k cs)))" by simp
    moreover have "pos \<noteq> 0" using False by (metis enc_not_Nil length_0_conv not_gr_zero)
    ultimately show ?thesis unfolding shift p using False by (auto intro: le_add_diff_inverse [symmetric])
  qed
qed

lemma is_char_boundary_iff:
  assumes "list_all is_scalar cs"
  shows "is_char_boundary (encode_all cs) pos \<longleftrightarrow> (\<exists>k \<le> length cs. pos = length (encode_all (take k cs)))"
proof -
  have le: "length (encode_all (take k cs)) \<le> length (encode_all cs)" for k
    by (metis append_take_drop_id encode_all_append le_add1 length_append)
  consider "pos = 0" | "pos = length (encode_all cs)" | "pos > length (encode_all cs)"
    | "0 < pos" "pos < length (encode_all cs)" by linarith
  then show ?thesis
  proof cases
    case 1 then show ?thesis by (auto simp: is_char_boundary_def intro: exI [of _ 0])
  next
    case 2 then show ?thesis by (auto simp: is_char_boundary_def intro!: exI [of _ "length cs"])
  next
    case 3 then show ?thesis using le by (auto simp: is_char_boundary_def not_le[symmetric])
  next
    case 4 then show ?thesis using boundary_in_encode_all [OF assms] by (simp add: is_char_boundary_def)
  qed
qed

section \<open>Properties\<close>

text \<open>C22. Decoding the bytes that \<open>encode_utf8\<close> writes for a scalar value, followed by any other
  bytes, gives that scalar back and consumes exactly the bytes written, whose number is the count
  the encoder returned and what \<open>len_utf8\<close> says; for a surrogate or a value beyond U+10FFFF the
  encoder writes nothing and both lengths are 0.\<close>

theorem utf8_decode_encode:
  "(is_scalar c \<longrightarrow> decode_utf8 (fst (encode_utf8 c) @ rest) = (c, len_utf8 c)) \<and>
   (\<not> is_scalar c \<longrightarrow> fst (encode_utf8 c) = []) \<and>
   snd (encode_utf8 c) = len_utf8 c \<and> length (fst (encode_utf8 c)) = len_utf8 c"
  by (simp add: encode_utf8_def len_utf8_def decode_encode_scalar snd_encode_utf8_scalar
      length_encode_utf8_scalar)

theorem utf8_decode_encode_witness:
  "decode_utf8 (fst (encode_utf8 0x20AC) @ [0x41]) = (0x20AC, 3) \<and> fst (encode_utf8 0xD800) = []"
  using utf8_decode_encode [of "0x20AC" "[0x41]"] utf8_decode_encode [of "0xD800" "[]"]
  by (simp add: is_scalar_def len_utf8_def len_utf8_scalar_def)

text \<open>C11. The decoder accepts nothing but canonical encodings: when it does not report an error
  (the pair of the replacement character and a length of at most 1), the code point it returns
  is a scalar value, and the bytes it consumed are exactly the encoding of that scalar, so overlong
  forms, surrogates, stray continuation bytes and truncated sequences are all rejected.\<close>

theorem utf8_decode_canonical:
  assumes "bs \<noteq> []" and "decode_utf8 bs = (c, n)" and "\<not> (c = REPLACEMENT \<and> n \<le> 1)"
  shows "is_scalar c \<and> n = len_utf8 c \<and> bs = fst (encode_utf8 c) @ drop n bs"
  using decode_utf8_sound [OF assms(2,1,3)] by (auto simp: encode_utf8_def len_utf8_def)

theorem utf8_decode_canonical_witness:
  "is_scalar 0xE9 \<and> [0xC3, 0xA9, 0x21] = fst (encode_utf8 0xE9) @ [0x21]"
proof -
  have d: "decode_utf8 [0xC3, 0xA9, 0x21] = (0xE9, 2)" by code_simp
  show ?thesis using utf8_decode_canonical [OF _ d] by (simp add: REPLACEMENT_def)
qed

text \<open>C23. The validator accepts exactly the byte strings that are the concatenated encodings of some
  list of scalar values.\<close>

theorem utf8_valid_iff_encoded:
  "is_valid_utf8 bs \<longleftrightarrow> (\<exists>cs. list_all is_scalar cs \<and> bs = encode_all cs)"
  by (rule is_valid_utf8_iff)

text \<open>In well-formed text the character boundaries that \<open>is_char_boundary\<close> recognises, by looking
  at a single byte, are exactly the offsets at which a prefix of the code points ends.\<close>

lemma utf8_char_boundary_iff:
  assumes "list_all is_scalar cs"
  shows "is_char_boundary (encode_all cs) pos \<longleftrightarrow>
    (\<exists>k \<le> length cs. pos = length (encode_all (take k cs)))"
  using assms by (rule is_char_boundary_iff)

end
