(* ===== verification/Integers.thy ===== *)
theory Integers
  imports Rstd_Prelude
begin

text \<open>
  The integer wrappers \<open>u8 \<dots> u128\<close>, \<open>i8 \<dots> i128\<close>, \<open>usize\<close>, \<open>isize\<close>: the class template
  \<open>Integer\<close> of src/core/src/num/types.cppm and the methods of src/core/src/num/integer_methods.cppm.
  The template is instantiated by the primitive type; here a value is a word of the type's width,
  and the Boolean \<open>s\<close> says whether the primitive is signed (the template's \<open>IS_SIGNED\<close>).  \<open>val\<close> reads
  the word as the C++ primitive does.  Panics are values of \<open>panic\<close>; \<open>chk\<close> is the build's
  \<open>should_check_integer_overflow()\<close>.
\<close>

unbundle bit_operations_syntax

section \<open>The code\<close>

datatype panic = PanicOverflow | PanicDivideByZero | PanicInvalidShift

definition val :: "bool \<Rightarrow> 'a::len word \<Rightarrow> int" where
  "val s w = (if s then sint w else uint w)"

definition INT_MIN :: "bool \<Rightarrow> 'a::len word" where
  "INT_MIN s = (if s then push_bit (LENGTH('a) - 1) 1 else 0)"

definition INT_MAX :: "bool \<Rightarrow> 'a::len word" where
  "INT_MAX s = (if s then mask (LENGTH('a) - 1) else mask (LENGTH('a)))"

text \<open>The range of the primitive, and the wrap-around of the compiler builtins: the result is the
  low bits of the exact one, and the flag says that the exact one does not fit.\<close>

definition fits :: "bool \<Rightarrow> 'a::len word itself \<Rightarrow> int \<Rightarrow> bool" where
  "fits s T z \<longleftrightarrow> val s (INT_MIN s :: 'a word) \<le> z \<and> z \<le> val s (INT_MAX s :: 'a word)"

definition add_with_overflow :: "bool \<Rightarrow> 'a::len word \<Rightarrow> 'a word \<Rightarrow> 'a word \<times> bool" where
  "add_with_overflow s lhs rhs = (lhs + rhs, \<not> fits s TYPE('a word) (val s lhs + val s rhs))"

definition sub_with_overflow :: "bool \<Rightarrow> 'a::len word \<Rightarrow> 'a word \<Rightarrow> 'a word \<times> bool" where
  "sub_with_overflow s lhs rhs = (lhs - rhs, \<not> fits s TYPE('a word) (val s lhs - val s rhs))"

definition mul_with_overflow :: "bool \<Rightarrow> 'a::len word \<Rightarrow> 'a word \<Rightarrow> 'a word \<times> bool" where
  "mul_with_overflow s lhs rhs = (lhs * rhs, \<not> fits s TYPE('a word) (val s lhs * val s rhs))"

text \<open>C++ division truncates towards zero.\<close>

definition trunc_div :: "int \<Rightarrow> int \<Rightarrow> int" where
  "trunc_div a b = sgn a * sgn b * (\<bar>a\<bar> div \<bar>b\<bar>)"

definition trunc_rem :: "int \<Rightarrow> int \<Rightarrow> int" where
  "trunc_rem a b = a - trunc_div a b * b"

definition prim_min :: "bool \<Rightarrow> 'a::len word \<Rightarrow> 'a word \<Rightarrow> 'a word" where
  "prim_min s a rhs = (if val s a \<le> val s rhs then a else rhs)"

definition prim_max :: "bool \<Rightarrow> 'a::len word \<Rightarrow> 'a word \<Rightarrow> 'a word" where
  "prim_max s a rhs = (if val s a \<ge> val s rhs then a else rhs)"

definition overflowing_add :: "bool \<Rightarrow> 'a::len word \<Rightarrow> 'a word \<Rightarrow> 'a word \<times> bool" where
  "overflowing_add s a rhs = add_with_overflow s a rhs"

definition overflowing_sub :: "bool \<Rightarrow> 'a::len word \<Rightarrow> 'a word \<Rightarrow> 'a word \<times> bool" where
  "overflowing_sub s a rhs = sub_with_overflow s a rhs"

definition overflowing_mul :: "bool \<Rightarrow> 'a::len word \<Rightarrow> 'a word \<Rightarrow> 'a word \<times> bool" where
  "overflowing_mul s a rhs = mul_with_overflow s a rhs"

definition overflowing_div :: "bool \<Rightarrow> 'a::len word \<Rightarrow> 'a word \<Rightarrow> (panic, 'a word \<times> bool) result" where
  "overflowing_div s a rhs =
    (if rhs = 0 then Err PanicDivideByZero
     else if s \<and> a = INT_MIN s \<and> val s rhs = -1 then Ok (INT_MIN s, True)
     else Ok (word_of_int (trunc_div (val s a) (val s rhs)), False))"

definition overflowing_rem :: "bool \<Rightarrow> 'a::len word \<Rightarrow> 'a word \<Rightarrow> (panic, 'a word \<times> bool) result" where
  "overflowing_rem s a rhs =
    (if rhs = 0 then Err PanicDivideByZero
     else if s \<and> a = INT_MIN s \<and> val s rhs = -1 then Ok (0, True)
     else Ok (word_of_int (trunc_rem (val s a) (val s rhs)), False))"

definition overflowing_neg :: "bool \<Rightarrow> 'a::len word \<Rightarrow> 'a word \<times> bool" where
  "overflowing_neg s a = sub_with_overflow s 0 a"

definition overflowing_shl :: "'a::len word \<Rightarrow> u64 \<Rightarrow> 'a word \<times> bool" where
  "overflowing_shl a rhs =
    (let overflow = unat rhs \<ge> LENGTH('a); amount = unat rhs mod LENGTH('a)
     in (push_bit amount a, overflow))"

definition overflowing_shr :: "bool \<Rightarrow> 'a::len word \<Rightarrow> u64 \<Rightarrow> 'a word \<times> bool" where
  "overflowing_shr s a rhs =
    (let overflow = unat rhs \<ge> LENGTH('a); amount = unat rhs mod LENGTH('a)
     in (if s then signed_drop_bit amount a else drop_bit amount a, overflow))"

text \<open>Square and multiply; the loop variables are \<open>remaining\<close>, \<open>value\<close>, \<open>base\<close>, \<open>overflow\<close>.\<close>

function pow_loop :: "bool \<Rightarrow> nat \<Rightarrow> 'a::len word \<Rightarrow> 'a word \<Rightarrow> bool \<Rightarrow> 'a word \<times> bool" where
  "pow_loop s remaining v b ov =
    (if remaining = 0 then (v, ov)
     else
       let (v1, ov1) =
             (if odd remaining
              then (let (next, next_overflow) = overflowing_mul s v b in (next, ov \<or> next_overflow))
              else (v, ov));
           remaining1 = remaining div 2;
           (b1, ov2) =
             (if remaining1 \<noteq> 0
              then (let (next, next_overflow) = overflowing_mul s b b in (next, ov1 \<or> next_overflow))
              else (b, ov1))
       in pow_loop s remaining1 v1 b1 ov2)"
  by pat_completeness auto
termination
  by (relation "measure (\<lambda>(s, remaining, v, b, ov). remaining)") auto

declare pow_loop.simps [simp del]

definition overflowing_pow :: "bool \<Rightarrow> 'a::len word \<Rightarrow> u32 \<Rightarrow> 'a word \<times> bool" where
  "overflowing_pow s a rhs = pow_loop s (unat rhs) 1 a False"

text \<open>Mixed signedness: \<open>*_unsigned\<close> on a signed value, \<open>*_signed\<close> on an unsigned one.\<close>

definition overflowing_add_unsigned :: "'a::len word \<Rightarrow> 'a word \<Rightarrow> 'a word \<times> bool" where
  "overflowing_add_unsigned a rhs =
    (let sign_bit = push_bit (LENGTH('a) - 1) 1;
         maximum = sign_bit - 1;
         capacity = (if val True a < 0 then 0 - a + maximum else maximum - a)
     in (a + rhs, rhs > capacity))"

definition overflowing_sub_unsigned :: "'a::len word \<Rightarrow> 'a word \<Rightarrow> 'a word \<times> bool" where
  "overflowing_sub_unsigned a rhs =
    (let sign_bit = push_bit (LENGTH('a) - 1) 1; capacity = a XOR sign_bit
     in (a - rhs, rhs > capacity))"

definition overflowing_add_signed :: "'a::len word \<Rightarrow> 'a word \<Rightarrow> 'a word \<times> bool" where
  "overflowing_add_signed a rhs =
    (if val True rhs < 0
     then (let magnitude = 0 - rhs in (a - magnitude, magnitude > a))
     else (a + rhs, rhs > INT_MAX False - a))"

definition overflowing_sub_signed :: "'a::len word \<Rightarrow> 'a word \<Rightarrow> 'a word \<times> bool" where
  "overflowing_sub_signed a rhs =
    (if val True rhs < 0
     then (let magnitude = 0 - rhs in (a + magnitude, magnitude > INT_MAX False - a))
     else (a - rhs, rhs > a))"

definition wrapping_add :: "bool \<Rightarrow> 'a::len word \<Rightarrow> 'a word \<Rightarrow> 'a word" where
  "wrapping_add s a rhs = fst (overflowing_add s a rhs)"

definition wrapping_sub :: "bool \<Rightarrow> 'a::len word \<Rightarrow> 'a word \<Rightarrow> 'a word" where
  "wrapping_sub s a rhs = fst (overflowing_sub s a rhs)"

definition wrapping_mul :: "bool \<Rightarrow> 'a::len word \<Rightarrow> 'a word \<Rightarrow> 'a word" where
  "wrapping_mul s a rhs = fst (overflowing_mul s a rhs)"

definition wrapping_pow :: "bool \<Rightarrow> 'a::len word \<Rightarrow> u32 \<Rightarrow> 'a word" where
  "wrapping_pow s a rhs = fst (overflowing_pow s a rhs)"

definition rotate_left :: "'a::len word \<Rightarrow> u64 \<Rightarrow> 'a word" where
  "rotate_left a rhs =
    (let amount = unat rhs mod LENGTH('a) in
     if amount = 0 then a else push_bit amount a OR drop_bit (LENGTH('a) - amount) a)"

definition rotate_right :: "'a::len word \<Rightarrow> u64 \<Rightarrow> 'a word" where
  "rotate_right a rhs =
    (let amount = unat rhs mod LENGTH('a) in
     if amount = 0 then a else drop_bit amount a OR push_bit (LENGTH('a) - amount) a)"

definition saturating_add :: "bool \<Rightarrow> 'a::len word \<Rightarrow> 'a word \<Rightarrow> 'a word" where
  "saturating_add s a rhs =
    (let (v, overflow) = overflowing_add s a rhs in
     if \<not> overflow then v
     else if s then (if val s rhs < 0 then INT_MIN s else INT_MAX s)
     else INT_MAX s)"

definition saturating_sub :: "bool \<Rightarrow> 'a::len word \<Rightarrow> 'a word \<Rightarrow> 'a word" where
  "saturating_sub s a rhs =
    (let (v, overflow) = overflowing_sub s a rhs in
     if \<not> overflow then v
     else if s then (if val s rhs < 0 then INT_MAX s else INT_MIN s)
     else INT_MIN s)"

definition saturating_mul :: "bool \<Rightarrow> 'a::len word \<Rightarrow> 'a word \<Rightarrow> 'a word" where
  "saturating_mul s a rhs =
    (let (v, overflow) = overflowing_mul s a rhs in
     if \<not> overflow then v
     else if s then (if (val s a < 0) \<noteq> (val s rhs < 0) then INT_MIN s else INT_MAX s)
     else INT_MAX s)"

definition saturating_div :: "bool \<Rightarrow> 'a::len word \<Rightarrow> 'a word \<Rightarrow> (panic, 'a word) result" where
  "saturating_div s a rhs =
    (if rhs = 0 then Err PanicDivideByZero
     else if s \<and> a = INT_MIN s \<and> val s rhs = -1 then Ok (INT_MAX s)
     else Ok (word_of_int (trunc_div (val s a) (val s rhs))))"

definition saturating_neg :: "bool \<Rightarrow> 'a::len word \<Rightarrow> 'a word" where
  "saturating_neg s a =
    (let (v, overflow) = overflowing_neg s a in
     if \<not> overflow then v else if s then INT_MAX s else INT_MIN s)"

definition saturating_pow :: "bool \<Rightarrow> 'a::len word \<Rightarrow> u32 \<Rightarrow> 'a word" where
  "saturating_pow s a rhs =
    (let (v, overflow) = overflowing_pow s a rhs in
     if \<not> overflow then v
     else if s then (if val s a < 0 \<and> odd (unat rhs) then INT_MIN s else INT_MAX s)
     else INT_MAX s)"

definition saturating_add_unsigned :: "'a::len word \<Rightarrow> 'a word \<Rightarrow> 'a word" where
  "saturating_add_unsigned a rhs =
    (let (v, overflow) = overflowing_add_unsigned a rhs in if overflow then INT_MAX True else v)"

definition saturating_sub_unsigned :: "'a::len word \<Rightarrow> 'a word \<Rightarrow> 'a word" where
  "saturating_sub_unsigned a rhs =
    (let (v, overflow) = overflowing_sub_unsigned a rhs in if overflow then INT_MIN True else v)"

definition saturating_add_signed :: "'a::len word \<Rightarrow> 'a word \<Rightarrow> 'a word" where
  "saturating_add_signed a rhs =
    (let (v, overflow) = overflowing_add_signed a rhs in
     if overflow then (if val True rhs < 0 then INT_MIN False else INT_MAX False) else v)"

definition saturating_sub_signed :: "'a::len word \<Rightarrow> 'a word \<Rightarrow> 'a word" where
  "saturating_sub_signed a rhs =
    (let (v, overflow) = overflowing_sub_signed a rhs in
     if overflow then (if val True rhs < 0 then INT_MAX False else INT_MIN False) else v)"

definition int_abs :: "bool \<Rightarrow> bool \<Rightarrow> 'a::len word \<Rightarrow> (panic, 'a word) result" where
  "int_abs chk s a =
    (if \<not> s then Ok a
     else if a = INT_MIN s then (if chk then Err PanicOverflow else Ok a)
     else Ok (if val s a < 0 then - a else a))"

definition unsigned_abs :: "bool \<Rightarrow> 'a::len word \<Rightarrow> 'a word" where
  "unsigned_abs s a = (if \<not> s then a else if val s a < 0 then 0 - a else a)"

definition abs_diff :: "bool \<Rightarrow> 'a::len word \<Rightarrow> 'a word \<Rightarrow> 'a word" where
  "abs_diff s a rhs = (if val s a \<ge> val s rhs then a - rhs else rhs - a)"

definition is_power_of_two :: "bool \<Rightarrow> 'a::len word \<Rightarrow> bool" where
  "is_power_of_two s a \<longleftrightarrow> val s a > 0 \<and> a AND (a - 1) = 0"

text \<open>The operators panic on overflow when the build checks for it.\<close>

definition op_add :: "bool \<Rightarrow> bool \<Rightarrow> 'a::len word \<Rightarrow> 'a word \<Rightarrow> (panic, 'a word) result" where
  "op_add chk s lhs rhs =
    (let (v, overflow) = overflowing_add s lhs rhs in if overflow \<and> chk then Err PanicOverflow else Ok v)"

definition op_sub :: "bool \<Rightarrow> bool \<Rightarrow> 'a::len word \<Rightarrow> 'a word \<Rightarrow> (panic, 'a word) result" where
  "op_sub chk s lhs rhs =
    (let (v, overflow) = overflowing_sub s lhs rhs in if overflow \<and> chk then Err PanicOverflow else Ok v)"

definition op_mul :: "bool \<Rightarrow> bool \<Rightarrow> 'a::len word \<Rightarrow> 'a word \<Rightarrow> (panic, 'a word) result" where
  "op_mul chk s lhs rhs =
    (let (v, overflow) = overflowing_mul s lhs rhs in if overflow \<and> chk then Err PanicOverflow else Ok v)"

definition op_div :: "bool \<Rightarrow> 'a::len word \<Rightarrow> 'a word \<Rightarrow> (panic, 'a word) result" where
  "op_div s lhs rhs =
    and_then (overflowing_div s lhs rhs) (\<lambda>(v, overflow). if overflow then Err PanicOverflow else Ok v)"

definition op_rem :: "bool \<Rightarrow> 'a::len word \<Rightarrow> 'a word \<Rightarrow> (panic, 'a word) result" where
  "op_rem s lhs rhs =
    and_then (overflowing_rem s lhs rhs) (\<lambda>(v, overflow). if overflow then Err PanicOverflow else Ok v)"

definition op_neg :: "bool \<Rightarrow> bool \<Rightarrow> 'a::len word \<Rightarrow> (panic, 'a word) result" where
  "op_neg chk s a =
    (let (v, overflow) = overflowing_neg s a in if overflow \<and> chk then Err PanicOverflow else Ok v)"

text \<open>The checked methods of integer_methods.cppm.\<close>

definition checked_add :: "bool \<Rightarrow> 'a::len word \<Rightarrow> 'a word \<Rightarrow> 'a word option" where
  "checked_add s a rhs = (let (v, overflow) = overflowing_add s a rhs in if overflow then None else Some v)"

definition checked_sub :: "bool \<Rightarrow> 'a::len word \<Rightarrow> 'a word \<Rightarrow> 'a word option" where
  "checked_sub s a rhs = (let (v, overflow) = overflowing_sub s a rhs in if overflow then None else Some v)"

definition checked_mul :: "bool \<Rightarrow> 'a::len word \<Rightarrow> 'a word \<Rightarrow> 'a word option" where
  "checked_mul s a rhs = (let (v, overflow) = overflowing_mul s a rhs in if overflow then None else Some v)"

definition checked_div :: "bool \<Rightarrow> 'a::len word \<Rightarrow> 'a word \<Rightarrow> 'a word option" where
  "checked_div s a rhs =
    (if rhs = 0 then None
     else if s \<and> a = INT_MIN s \<and> val s rhs = -1 then None
     else Some (word_of_int (trunc_div (val s a) (val s rhs))))"

definition checked_rem :: "bool \<Rightarrow> 'a::len word \<Rightarrow> 'a word \<Rightarrow> 'a word option" where
  "checked_rem s a rhs =
    (if rhs = 0 then None
     else if s \<and> a = INT_MIN s \<and> val s rhs = -1 then None
     else Some (word_of_int (trunc_rem (val s a) (val s rhs))))"

definition checked_neg :: "bool \<Rightarrow> 'a::len word \<Rightarrow> 'a word option" where
  "checked_neg s a = (let (v, overflow) = overflowing_neg s a in if overflow then None else Some v)"

definition checked_pow :: "bool \<Rightarrow> 'a::len word \<Rightarrow> u32 \<Rightarrow> 'a word option" where
  "checked_pow s a rhs = (let (v, overflow) = overflowing_pow s a rhs in if overflow then None else Some v)"

definition checked_add_unsigned :: "'a::len word \<Rightarrow> 'a word \<Rightarrow> 'a word option" where
  "checked_add_unsigned a rhs =
    (let (v, overflow) = overflowing_add_unsigned a rhs in if overflow then None else Some v)"

definition checked_sub_unsigned :: "'a::len word \<Rightarrow> 'a word \<Rightarrow> 'a word option" where
  "checked_sub_unsigned a rhs =
    (let (v, overflow) = overflowing_sub_unsigned a rhs in if overflow then None else Some v)"

definition checked_add_signed :: "'a::len word \<Rightarrow> 'a word \<Rightarrow> 'a word option" where
  "checked_add_signed a rhs =
    (let (v, overflow) = overflowing_add_signed a rhs in if overflow then None else Some v)"

definition checked_sub_signed :: "'a::len word \<Rightarrow> 'a word \<Rightarrow> 'a word option" where
  "checked_sub_signed a rhs =
    (let (v, overflow) = overflowing_sub_signed a rhs in if overflow then None else Some v)"

text \<open>Byte order: the loops over the bytes of the value, least significant first.\<close>

fun le_bytes_loop :: "nat \<Rightarrow> 'a::len word \<Rightarrow> u8 list" where
  "le_bytes_loop 0 bits = []"
| "le_bytes_loop (Suc n) bits = ucast bits # le_bytes_loop n (drop_bit 8 bits)"

definition to_le_bytes :: "'a::len word \<Rightarrow> u8 list" where
  "to_le_bytes a = le_bytes_loop (LENGTH('a) div 8) a"

fun be_bytes_loop :: "nat \<Rightarrow> nat \<Rightarrow> u8 list \<Rightarrow> 'a::len word \<Rightarrow> u8 list" where
  "be_bytes_loop sz 0 bytes bits = bytes"
| "be_bytes_loop sz (Suc n) bytes bits =
     be_bytes_loop sz n (bytes[sz - (sz - Suc n) - 1 := ucast bits]) (drop_bit 8 bits)"

definition to_be_bytes :: "'a::len word \<Rightarrow> u8 list" where
  "to_be_bytes a = be_bytes_loop (LENGTH('a) div 8) (LENGTH('a) div 8) (replicate (LENGTH('a) div 8) 0) a"

definition from_le_bytes :: "u8 list \<Rightarrow> 'a::len word" where
  "from_le_bytes bytes = foldr (\<lambda>b bits. push_bit 8 bits OR ucast b) bytes 0"

definition from_be_bytes :: "u8 list \<Rightarrow> 'a::len word" where
  "from_be_bytes bytes = foldl (\<lambda>bits b. push_bit 8 bits OR ucast b) 0 bytes"

section \<open>Specification\<close>

text \<open>The exact result clamped to the range of the type, the exact result when it fits, and the
  invariant of the square-and-multiply loop on the exact values \<open>V\<close>, \<open>B\<close> of its accumulators.\<close>

definition clamp :: "bool \<Rightarrow> 'a::len word itself \<Rightarrow> int \<Rightarrow> int" where
  "clamp s T z = max (val s (INT_MIN s :: 'a word)) (min (val s (INT_MAX s :: 'a word)) z)"

definition pow_ok :: "bool \<Rightarrow> 'a::len word itself \<Rightarrow> nat \<Rightarrow> int \<Rightarrow> int \<Rightarrow> bool \<Rightarrow> bool" where
  "pow_ok s T n V B ov \<longleftrightarrow> (V = 0 \<longrightarrow> B = 0) \<and> (V = -1 \<longrightarrow> \<bar>B\<bar> \<le> 1) \<and>
     (\<not> ov \<longrightarrow> fits s T V \<and> (n \<noteq> 0 \<longrightarrow> fits s T B)) \<and> (ov \<longrightarrow> \<not> fits s T (V * B ^ n))"

definition exact :: "bool \<Rightarrow> int \<Rightarrow> 'a::len word option" where
  "exact s z = (if fits s TYPE('a word) z then Some (word_of_int z) else None)"

section \<open>Readings and ranges\<close>

lemma exp_split: "(2::int) ^ LENGTH('a::len) = 2 ^ (LENGTH('a) - 1) + 2 ^ (LENGTH('a) - 1)"
  by (metis len_gt_0 mult_2 power_eq_if not_gr_zero)

lemma word_of_int_val [simp]: "word_of_int (val s a) = (a :: 'a::len word)"
  by (simp add: val_def)

lemma INT_MIN_signed: "(INT_MIN True :: 'a::len word) = word_of_int (- (2 ^ (LENGTH('a) - 1)))"
proof -
  have "(INT_MIN True :: 'a word) = word_of_int (2 ^ (LENGTH('a) - 1))"
    by (simp add: INT_MIN_def push_bit_eq_mult)
  also have "\<dots> = word_of_int (- (2 ^ (LENGTH('a) - 1)))"
    by (simp only: word_of_int_eq_iff take_bit_eq_mod mod_eq_dvd_iff diff_minus_eq_add exp_split) simp
  finally show ?thesis .
qed

lemma sint_word_of_int_small:
  "- (2 ^ (LENGTH('a) - 1)) \<le> z \<Longrightarrow> z < 2 ^ (LENGTH('a) - 1) \<Longrightarrow> sint (word_of_int z :: 'a::len word) = z"
  unfolding sint_sbintrunc' by (rule signed_take_bit_int_eq_self) simp_all

lemma val_INT_MIN: "val s (INT_MIN s :: 'a::len word) = (if s then - (2 ^ (LENGTH('a) - 1)) else 0)"
  using sint_word_of_int_small [of "- (2 ^ (LENGTH('a) - 1))", where ?'a = 'a]
  by (cases s) (simp_all add: val_def INT_MIN_signed, simp add: INT_MIN_def)

lemma val_INT_MAX:
  "val s (INT_MAX s :: 'a::len word) = (if s then 2 ^ (LENGTH('a) - 1) - 1 else 2 ^ LENGTH('a) - 1)"
proof (cases s)
  case True
  have "(INT_MAX True :: 'a word) = word_of_int (2 ^ (LENGTH('a) - 1) - 1)"
    by (simp add: INT_MAX_def mask_eq_exp_minus_1)
  then show ?thesis using True sint_word_of_int_small [of "2 ^ (LENGTH('a) - 1) - 1", where ?'a = 'a]
    by (simp add: val_def)
next
  case False
  then show ?thesis by (simp add: val_def INT_MAX_def unsigned_minus_1_eq_mask mask_eq_exp_minus_1)
qed

lemma fits_iff: "fits s TYPE('a::len word) z \<longleftrightarrow>
  (if s then - (2 ^ (LENGTH('a) - 1)) \<le> z \<and> z < 2 ^ (LENGTH('a) - 1) else 0 \<le> z \<and> z < 2 ^ LENGTH('a))"
  by (auto simp: fits_def val_INT_MIN val_INT_MAX)

lemma val_fits: "fits s TYPE('a::len word) (val s (a :: 'a word))"
  using sint_greater_eq [of a] sint_less [of a] uint_lt2p [of a]
  by (simp add: fits_iff val_def)

lemma val_word_of_int: "fits s TYPE('a::len word) z \<Longrightarrow> val s (word_of_int z :: 'a word) = z"
  by (cases s) (simp_all add: fits_iff val_def sint_word_of_int_small uint_word_of_int)

lemma val_inject: "val s a = val s b \<longleftrightarrow> a = (b :: 'a::len word)"
  by (metis word_of_int_val)

lemma word_op_val:
  "a + b = (word_of_int (val s a + val s b) :: 'a::len word)"
  "a - b = (word_of_int (val s a - val s b) :: 'a::len word)"
  "a * b = (word_of_int (val s a * val s b) :: 'a::len word)"
  "- a = (word_of_int (- val s a) :: 'a::len word)"
  by simp_all

lemma val_0 [simp]: "val s 0 = 0" by (simp add: val_def)

lemma val_ops:
  "fits s TYPE('a::len word) (val s a + val s b) \<Longrightarrow> val s (a + b) = val s a + val s (b :: 'a word)"
  "fits s TYPE('a::len word) (val s a - val s b) \<Longrightarrow> val s (a - b) = val s a - val s (b :: 'a word)"
  "fits s TYPE('a::len word) (val s a * val s b) \<Longrightarrow> val s (a * b) = val s a * val s (b :: 'a word)"
  by (metis val_word_of_int word_op_val(1), metis val_word_of_int word_op_val(2), metis val_word_of_int word_op_val(3))

lemma clamp_fits: "fits s TYPE('a::len word) z \<Longrightarrow> clamp s TYPE('a word) z = z"
  by (simp add: clamp_def fits_def)

lemma val_bounds:
  "val s (INT_MIN s :: 'a::len word) \<le> val s (a :: 'a word)"  "val s (a :: 'a word) \<le> val s (INT_MAX s :: 'a::len word)"
  using val_fits [of s a] by (simp_all add: fits_def)

lemma saturating_add_val: "val s (saturating_add s a b) = clamp s TYPE('a::len word) (val s a + val s (b :: 'a word))"
proof (cases "fits s TYPE('a word) (val s a + val s b)")
  case True
  then show ?thesis by (simp add: saturating_add_def overflowing_add_def add_with_overflow_def clamp_fits val_ops)
next
  case False
  then show ?thesis
    using val_bounds [of s a] val_bounds [of s b] val_INT_MIN [of s, where ?'a = 'a]
    by (auto simp: saturating_add_def overflowing_add_def add_with_overflow_def clamp_def fits_def val_INT_MIN val_INT_MAX split: if_splits)
qed


lemma saturating_sub_val: "val s (saturating_sub s a b) = clamp s TYPE('a::len word) (val s a - val s (b :: 'a word))"
proof (cases "fits s TYPE('a word) (val s a - val s b)")
  case True
  then show ?thesis by (simp add: saturating_sub_def overflowing_sub_def sub_with_overflow_def clamp_fits val_ops)
next
  case False
  then show ?thesis
    using val_bounds [of s a] val_bounds [of s b]
    by (auto simp: saturating_sub_def overflowing_sub_def sub_with_overflow_def clamp_def fits_def val_INT_MIN val_INT_MAX split: if_splits)
qed

lemma mul_sign: "(x < 0) \<noteq> (y < 0) \<Longrightarrow> x * y \<le> 0" "(x < 0) = (y < 0) \<Longrightarrow> 0 \<le> x * y" for x y :: int
  by (auto simp: mult_le_0_iff zero_le_mult_iff)

lemma saturating_mul_val: "val s (saturating_mul s a b) = clamp s TYPE('a::len word) (val s a * val s (b :: 'a word))"
proof (cases "fits s TYPE('a word) (val s a * val s b)")
  case True
  then show ?thesis by (simp add: saturating_mul_def overflowing_mul_def mul_with_overflow_def clamp_fits val_ops)
next
  case False
  have nn: "\<not> s \<Longrightarrow> 0 \<le> val s a * val s b" by (simp add: val_def)
  define x where "x = val s a * val s b"
  have sgn: "(val s a < 0) \<noteq> (val s b < 0) \<Longrightarrow> x \<le> 0" "(val s a < 0) = (val s b < 0) \<Longrightarrow> 0 \<le> x"
    unfolding x_def by (fact mul_sign)+
  have p: "0 \<le> x \<Longrightarrow> - (2 ^ (LENGTH('a) - Suc 0)) \<le> x" by (rule order_trans [of _ 0]) simp_all
  have "val s (saturating_mul s a b) =
    val s (if s \<and> (val s a < 0) \<noteq> (val s b < 0) then INT_MIN s else INT_MAX s :: 'a word)"
    using False by (simp add: saturating_mul_def overflowing_mul_def mul_with_overflow_def)
  also have "\<dots> = clamp s TYPE('a word) x"
    using False sgn nn p unfolding x_def [symmetric]
    by (cases "(val s a < 0) = (val s b < 0)"; cases s) (auto simp: clamp_def fits_def val_INT_MIN val_INT_MAX)
  finally show ?thesis by (simp add: x_def)
qed

lemma saturating_neg_val: "val s (saturating_neg s a) = clamp s TYPE('a::len word) (- val s (a :: 'a word))"
proof (cases "fits s TYPE('a word) (- val s a)")
  case True
  then show ?thesis using val_ops(2) [of s 0 a]
    by (simp add: saturating_neg_def overflowing_neg_def sub_with_overflow_def clamp_fits)
next
  case False
  then show ?thesis
    using val_bounds [of s a]
    by (auto simp: saturating_neg_def overflowing_neg_def sub_with_overflow_def clamp_def fits_def val_INT_MIN val_INT_MAX split: if_splits)
qed

lemma checked_ops_val:
  "checked_add s a b = (if fits s TYPE('a::len word) (val s a + val s b) then Some (word_of_int (val s a + val s (b :: 'a word))) else None)"
  "checked_sub s a b = (if fits s TYPE('a::len word) (val s a - val s b) then Some (word_of_int (val s a - val s (b :: 'a word))) else None)"
  "checked_mul s a b = (if fits s TYPE('a::len word) (val s a * val s b) then Some (word_of_int (val s a * val s (b :: 'a word))) else None)"
  by (simp_all add: checked_add_def overflowing_add_def add_with_overflow_def
      checked_sub_def overflowing_sub_def sub_with_overflow_def
      checked_mul_def overflowing_mul_def mul_with_overflow_def)



lemma fits_0: "fits s TYPE('a::len word) 0"
  by (simp add: fits_iff)

lemma fits_1: "(s \<longrightarrow> 1 < LENGTH('a)) \<Longrightarrow> fits s TYPE('a::len word) 1"
  using order_trans [of "-1" 0 "2 ^ (LENGTH('a) - 1) :: int"]
  by (simp add: fits_iff one_less_power)

lemma not_fits_mult:
  assumes "\<not> fits s TYPE('a::len word) x" and "1 \<le> c"
  shows "\<not> fits s TYPE('a word) (x * c)"
proof -
  let ?lo = "val s (INT_MIN s :: 'a word)" and ?hi = "val s (INT_MAX s :: 'a word)"
  have lh: "?lo \<le> 0" "0 \<le> ?hi" using fits_0 [of s, where ?'a = 'a] by (simp_all add: fits_def)
  from assms(1) consider "x < ?lo" | "?hi < x" unfolding fits_def by linarith
  then have "x * c < ?lo \<or> ?hi < x * c"
  proof cases
    case 1
    then have "x * c \<le> x * 1" using assms(2) lh by (intro mult_left_mono_neg) auto
    then show ?thesis using 1 by linarith
  next
    case 2
    then have "x * 1 \<le> x * c" using assms(2) lh by (intro mult_left_mono) auto
    then show ?thesis using 2 by linarith
  qed
  then show ?thesis unfolding fits_def by linarith
qed

lemma square_power_ge_1: "B \<noteq> 0 \<Longrightarrow> 1 \<le> (B * B :: int) ^ m"
  by (metis linorder_not_less one_le_power zero_less_mult_iff zless_add1_eq add.left_neutral int_one_le_iff_zero_less linorder_neqE_linordered_idom mult_neg_neg mult_pos_pos)

lemma abs_le_1_square: "\<bar>B\<bar> \<le> 1 \<Longrightarrow> \<bar>if c then B * B else B\<bar> \<le> 1" for B :: int
proof -
  assume "\<bar>B\<bar> \<le> 1"
  then consider "B = -1" | "B = 0" | "B = 1" by linarith
  then show ?thesis by cases auto
qed

lemma mult_eq_minus_1: "V * B = - 1 \<Longrightarrow> \<bar>B\<bar> = 1" for V B :: int
  by (metis abs_minus_cancel abs_one abs_zmult_eq_1 mult.commute)

lemma not_fits_square:
  assumes nf: "\<not> fits s TYPE('a::len word) (B * B)" and m: "m \<noteq> 0"
    and V: "V \<noteq> 0" "V = -1 \<longrightarrow> \<bar>B\<bar> \<le> 1" "\<not> s \<longrightarrow> 0 \<le> V" and l: "s \<longrightarrow> 1 < LENGTH('a)"
  shows "\<not> fits s TYPE('a word) (V * (B * B) ^ m)"
proof -
  have "B \<noteq> 0" using nf fits_0 [of s, where ?'a = 'a] by auto
  have nf': "\<not> fits s TYPE('a word) ((B * B) ^ m)"
    using not_fits_mult [OF nf square_power_ge_1 [OF \<open>B \<noteq> 0\<close>, of "m - 1"]] m
    by (metis not_gr_zero power_eq_if)
  have pos: "1 \<le> (B * B) ^ m" using \<open>B \<noteq> 0\<close> by (rule square_power_ge_1)
  consider "1 \<le> V" | "V = -1" | "V \<le> -2" using V(1) by linarith
  then show ?thesis
  proof cases
    case 1
    then show ?thesis using not_fits_mult [OF nf'] by (simp add: mult.commute)
  next
    case 2
    then have "B = 1 \<or> B = -1" using V(2) \<open>B \<noteq> 0\<close> by auto
    then have "fits s TYPE('a word) (B * B)" using fits_1 [OF l] by auto
    with nf show ?thesis by simp
  next
    case 3
    with V(3) have s by auto
    then have "2 ^ (LENGTH('a) - 1) \<le> (B * B) ^ m"
      using nf' pos by (simp add: fits_iff) (smt (verit) zero_less_power)
    moreover have "V * (B * B) ^ m \<le> -2 * (B * B) ^ m" using 3 pos by (intro mult_right_mono) auto
    moreover have "(0::int) < 2 ^ (LENGTH('a) - 1)" by simp
    ultimately show ?thesis using \<open>s\<close> unfolding fits_iff by (simp only: if_True) linarith
  qed
qed

text \<open>With \<open>V\<close> and \<open>B\<close> the exact values of the two accumulators, the loop computes \<open>V * B ^ remaining\<close>.\<close>

lemma pow_step_exact: "n \<noteq> 0 \<Longrightarrow> (if odd n then V * B else V) * (if n div 2 \<noteq> 0 then B * B else B) ^ (n div 2) = V * B ^ n"
  for V B :: int
proof -
  assume "n \<noteq> 0"
  have "B ^ n = B ^ (2 * (n div 2) + n mod 2)" by simp
  also have "\<dots> = (B * B) ^ (n div 2) * B ^ (n mod 2)" by (simp only: power_add power_mult power2_eq_square)
  finally have *: "B ^ n = (B * B) ^ (n div 2) * B ^ (n mod 2)" .
  show ?thesis
  proof (cases "n div 2 = 0")
    case True
    with \<open>n \<noteq> 0\<close> have "n = 1" by simp
    then show ?thesis by simp
  next
    case False
    then show ?thesis unfolding * by (cases "odd n") (simp_all add: odd_iff_mod_2_eq_one)
  qed
qed

lemma pow_ok_step:
  assumes ok: "pow_ok s TYPE('a::len word) n V B ov" and n: "n \<noteq> 0" and l: "s \<longrightarrow> 1 < LENGTH('a)"
  shows "pow_ok s TYPE('a word) (n div 2) (if odd n then V * B else V) (if n div 2 \<noteq> 0 then B * B else B)
    (ov \<or> odd n \<and> \<not> fits s TYPE('a word) (V * B) \<or> n div 2 \<noteq> 0 \<and> \<not> fits s TYPE('a word) (B * B))"
    (is "pow_ok s _ _ ?V1 ?B1 ?ov2")
proof -
  have prod: "?V1 * ?B1 ^ (n div 2) = V * B ^ n" using n by (rule pow_step_exact)
  have big: "\<not> fits s TYPE('a word) (?V1 * ?B1 ^ (n div 2))" if "?ov2"
  proof (cases ov)
    case True
    then show ?thesis using ok unfolding prod by (simp add: pow_ok_def)
  next
    case False
    with ok n have f: "fits s TYPE('a word) V" "fits s TYPE('a word) B" by (simp_all add: pow_ok_def)
    from that False consider "odd n" "\<not> fits s TYPE('a word) (V * B)"
      | "n div 2 \<noteq> 0" "\<not> fits s TYPE('a word) (B * B)" by auto
    then show ?thesis
    proof cases
      case 1
      then have "B \<noteq> 0" using fits_0 [of s, where ?'a = 'a] by auto
      then have "1 \<le> ?B1 ^ (n div 2)" using square_power_ge_1 by simp
      then show ?thesis using not_fits_mult [OF 1(2)] 1(1) by simp
    next
      case 2
      then have "B \<noteq> 0" using fits_0 [of s, where ?'a = 'a] by auto
      then have "?V1 \<noteq> 0" "?V1 = -1 \<longrightarrow> \<bar>B\<bar> \<le> 1" using ok by (auto simp: pow_ok_def dest: mult_eq_minus_1)
      moreover have "\<not> s \<longrightarrow> 0 \<le> ?V1" using f by (simp add: fits_iff)
      ultimately show ?thesis using not_fits_square [OF 2(2) 2(1) _ _ _ l] 2(1) by simp
    qed
  qed
  have "?V1 = -1 \<longrightarrow> \<bar>B\<bar> \<le> 1" using ok by (auto simp: pow_ok_def dest: mult_eq_minus_1)
  then have "?V1 = -1 \<longrightarrow> \<bar>?B1\<bar> \<le> 1" using abs_le_1_square by blast
  then show ?thesis using ok big by (auto simp: pow_ok_def)
qed

lemma pow_loop_exact:
  fixes V B :: int
  assumes "pow_ok s TYPE('a::len word) n V B ov" and l: "s \<longrightarrow> 1 < LENGTH('a)"
  shows "pow_loop s n (word_of_int V :: 'a word) (word_of_int B) ov =
    (word_of_int (V * B ^ n), \<not> fits s TYPE('a word) (V * B ^ n))"
  using assms(1)
proof (induction n arbitrary: V B ov rule: less_induct)
  case (less n)
  show ?case
  proof (cases "n = 0")
    case True
    then show ?thesis using less.prems by (subst pow_loop.simps) (auto simp: pow_ok_def)
  next
    case False
    let ?V1 = "if odd n then V * B else V" and ?B1 = "if n div 2 \<noteq> 0 then B * B else B"
    let ?ov2 = "ov \<or> odd n \<and> \<not> fits s TYPE('a word) (V * B) \<or> n div 2 \<noteq> 0 \<and> \<not> fits s TYPE('a word) (B * B)"
    let ?w = "\<lambda>z. word_of_int z :: 'a word"
    have val: "\<not> ov \<Longrightarrow> val s (?w V) = V \<and> val s (?w B) = B"
      using less.prems False by (simp add: pow_ok_def val_word_of_int)
    have "pow_loop s n (?w V) (?w B) ov = pow_loop s (n div 2) (?w ?V1) (?w ?B1) ?ov2"
      using False val
      by (cases ov; subst pow_loop.simps; simp add: overflowing_mul_def mul_with_overflow_def Let_def)
    also have "\<dots> = (?w (?V1 * ?B1 ^ (n div 2)), \<not> fits s TYPE('a word) (?V1 * ?B1 ^ (n div 2)))"
      using False by (intro less.IH pow_ok_step less.prems l) simp_all
    finally show ?thesis unfolding pow_step_exact [OF False] .
  qed
qed

lemma overflowing_pow_exact:
  fixes a :: "'a::len word"
  assumes l: "s \<longrightarrow> 1 < LENGTH('a)"
  shows "overflowing_pow s a n =
    (word_of_int (val s a ^ unat n), \<not> fits s TYPE('a word) (val s a ^ unat n))"
proof -
  have "pow_ok s TYPE('a word) (unat n) 1 (val s a) False"
    using fits_1 [OF l] val_fits [of s a] by (simp add: pow_ok_def)
  from pow_loop_exact [OF this l] show ?thesis by (simp add: overflowing_pow_def)
qed

lemma clamp_not_fits:
  assumes "\<not> fits s TYPE('a::len word) z"
  shows "clamp s TYPE('a word) z = val s (if z < 0 then INT_MIN s else INT_MAX s :: 'a word)"
  using assms fits_0 [of s, where ?'a = 'a] unfolding clamp_def fits_def
  by (simp only: if_distrib [of "val s"] max_def min_def split: if_split) linarith

lemma saturating_pow_val:
  fixes a :: "'a::len word"
  assumes l: "s \<longrightarrow> 1 < LENGTH('a)"
  shows "val s (saturating_pow s a n) = clamp s TYPE('a word) (val s a ^ unat n)"
proof (cases "fits s TYPE('a word) (val s a ^ unat n)")
  case True
  then show ?thesis by (simp add: saturating_pow_def overflowing_pow_exact [OF l] clamp_fits val_word_of_int del: of_int_power)
next
  case False
  let ?p = "val s a ^ unat n"
  have sign: "val s a < 0 \<and> odd (unat n) \<longleftrightarrow> ?p < 0" by (auto simp: power_less_zero_eq)
  have "\<not> s \<Longrightarrow> \<not> ?p < 0" by (simp add: val_def not_less)
  then show ?thesis
    using False by (auto simp: saturating_pow_def overflowing_pow_exact [OF l] sign clamp_not_fits)
qed

section \<open>Division\<close>

lemma trunc_div_nonneg: "0 \<le> x \<Longrightarrow> 0 < y \<Longrightarrow> trunc_div x y = x div y"
  by (cases "x = 0") (simp_all add: trunc_div_def)

lemma trunc_div_lt: "x \<noteq> 0 \<Longrightarrow> y \<noteq> 0 \<Longrightarrow> \<bar>y\<bar> \<noteq> 1 \<Longrightarrow> \<bar>trunc_div x y\<bar> < \<bar>x\<bar>"
  using int_div_less_self [of "\<bar>x\<bar>" "\<bar>y\<bar>"] div_int_pos_iff [of "\<bar>x\<bar>" "\<bar>y\<bar>"]
  by (auto simp: trunc_div_def abs_mult abs_sgn_eq)

lemma trunc_div_1: "trunc_div x 1 = x" "trunc_div x (-1) = - x"
  by (simp_all add: trunc_div_def mult_sgn_abs)

lemma fits_trunc_div:
  fixes a b :: "'a::len word"
  assumes "b \<noteq> 0"
  shows "fits s TYPE('a word) (trunc_div (val s a) (val s b)) \<longleftrightarrow> \<not> (s \<and> a = INT_MIN s \<and> val s b = -1)"
proof (cases s)
  case False
  have "0 < uint b" using assms by (simp add: uint_0_iff order_less_le)
  then have "0 \<le> uint a div uint b" "uint a div uint b \<le> uint a"
    using zdiv_mono2 [of "uint a" 1 "uint b"] by (simp_all add: pos_imp_zdiv_nonneg_iff)
  then show ?thesis using False \<open>0 < uint b\<close> order_le_less_trans [OF _ uint_lt2p [of a]]
    by (simp add: fits_iff val_def trunc_div_nonneg)
next
  case True
  have b: "val s b \<noteq> 0" using assms val_inject [of s b 0] by simp
  have min: "a = INT_MIN s \<longleftrightarrow> val s a = - (2 ^ (LENGTH('a) - 1))"
    using val_inject [of s a "INT_MIN s"] True by (simp add: val_INT_MIN)
  note bd = val_fits [of s a]
  consider "val s b = 1" | "val s b = -1" | "\<bar>val s b\<bar> \<noteq> 1" by linarith
  then show ?thesis
  proof cases
    case 1
    then show ?thesis using bd by (simp add: trunc_div_1)
  next
    case 2
    then show ?thesis using bd True unfolding min by (auto simp: trunc_div_1 fits_iff)
  next
    case 3
    define t where "t = trunc_div (val s a) (val s b)"
    have "\<bar>t\<bar> < \<bar>val s a\<bar> \<or> t = 0" 
    proof (cases "val s a = 0")
      case False
      then show ?thesis using trunc_div_lt [OF False b 3] by (simp add: t_def)
    qed (simp add: t_def trunc_div_def)
    then have "fits s TYPE('a word) t" using bd True unfolding fits_iff by (simp only: if_True) linarith
    then show ?thesis using 3 by (auto simp: t_def)
  qed
qed

lemma trunc_rem_eq: "trunc_rem x y = sgn x * (\<bar>x\<bar> mod \<bar>y\<bar>)"
  by (cases x "0::int" rule: linorder_cases; cases y "0::int" rule: linorder_cases)
     (simp_all add: trunc_rem_def trunc_div_def minus_div_mult_eq_mod [symmetric])

lemma trunc_rem_bound:
  fixes a b :: "'a::len word"
  assumes "b \<noteq> 0"
  shows "fits s TYPE('a word) (trunc_rem (val s a) (val s b))"
proof -
  let ?x = "val s a" and ?y = "val s b"
   have "?y \<noteq> 0" using assms val_inject [of s b 0] by simp
  then have "0 \<le> \<bar>?x\<bar> mod \<bar>?y\<bar>" "\<bar>?x\<bar> mod \<bar>?y\<bar> \<le> \<bar>?x\<bar>" by (simp_all add: zmod_le_nonneg_dividend)
  then show ?thesis using val_fits [of s a] fits_0 [of s, where ?'a = 'a] unfolding fits_def trunc_rem_eq
    by (cases "?x" "0 :: int" rule: linorder_cases) auto
qed

section \<open>Mixed signedness\<close>

lemma xor_sign_bit:
  fixes a :: "'a::len word"
  defines "m \<equiv> push_bit (LENGTH('a) - 1) 1 :: 'a word"
  shows "a XOR m = a + m"
proof -
  have add: "c XOR m = c + m" if "\<not> bit c (LENGTH('a) - 1)" for c :: "'a word"
    by (rule sym, rule disjunctive_add_eq_xor, rule bit_word_eqI)
       (use that in \<open>auto simp: m_def bit_simps\<close>)
  have mm: "m + m = 0" 
  proof -
    have "m + m = 2 * 2 ^ (LENGTH('a) - 1)" by (simp add: m_def push_bit_eq_mult)
    also have "\<dots> = 2 ^ LENGTH('a)" by (metis len_gt_0 not_gr_zero power_eq_if)
    also have "\<dots> = 0" by simp
    finally show ?thesis .
  qed
  show ?thesis
  proof (cases "bit a (LENGTH('a) - 1)")
    case False
    then show ?thesis by (rule add)
  next
    case True
    have "a = (a XOR m) XOR m" by (simp add: xor.assoc)
    also have "\<dots> = (a XOR m) + m" by (rule add) (use True in \<open>simp add: m_def bit_simps\<close>)
    finally have "a + m = (a XOR m) + (m + m)" by (metis add.assoc)
    then show ?thesis using mm by simp
  qed
qed

section \<open>Bytes\<close>

lemma from_le_loop:
  fixes w :: "'a::len word"
  shows "8 * n \<le> LENGTH('a) \<Longrightarrow> foldr (\<lambda>b bits. push_bit 8 bits OR ucast b) (le_bytes_loop n w) 0 = take_bit (8 * n) w"
proof (induction n arbitrary: w)
  case (Suc n)
  then have "foldr (\<lambda>b bits. push_bit 8 bits OR ucast b) (le_bytes_loop (Suc n) w) 0 =
    push_bit 8 (take_bit (8 * n) (drop_bit 8 w)) OR (ucast (ucast w :: u8) :: 'a word)" by simp
  also have "\<dots> = take_bit (8 * Suc n) w"
    by (rule bit_word_eqI) (use Suc.prems in \<open>auto simp: bit_simps\<close>)
  finally show ?case .
qed simp

lemma be_loop:
  "n \<le> length bytes \<Longrightarrow> be_bytes_loop (length bytes) n bytes bits = rev (le_bytes_loop n bits) @ drop n bytes"
proof (induction n arbitrary: bytes bits)
  case (Suc n)
  then show ?case
    using Suc.IH [of "bytes[n := ucast bits]" "drop_bit 8 bits"]
    by (simp add: Cons_nth_drop_Suc drop_update_cancel flip: Cons_nth_drop_Suc)
qed simp

lemma length_le_bytes_loop [simp]: "length (le_bytes_loop n w) = n"
  by (induction n arbitrary: w) simp_all

lemma to_be_bytes_rev: "to_be_bytes a = rev (to_le_bytes a)" for a :: "'a::len word"
  using be_loop [of "LENGTH('a) div 8" "replicate (LENGTH('a) div 8) 0" a]
  by (simp add: to_be_bytes_def to_le_bytes_def)

lemma from_be_bytes_rev: "from_be_bytes bytes = from_le_bytes (rev bytes)"
  by (simp add: from_be_bytes_def from_le_bytes_def foldl_conv_foldr)

lemma uint_word_of_int_small: "0 \<le> z \<Longrightarrow> z < 2 ^ LENGTH('a) \<Longrightarrow> uint (word_of_int z :: 'a::len word) = z"
  by (simp add: uint_word_of_int)

lemma sint_range: "- (2 ^ (LENGTH('a) - 1)) \<le> sint a" "sint a < 2 ^ (LENGTH('a) - 1)" for a :: "'a::len word"
  using val_fits [of True a] by (simp_all add: fits_iff val_def)

lemma uint_of_sint: "uint a = (if sint a < 0 then sint a + 2 ^ LENGTH('a) else sint a)" for a :: "'a::len word"
proof -
  have "a = word_of_int (sint a)" by simp
  have "uint a = uint (word_of_int (sint a + (if sint a < 0 then 2 ^ LENGTH('a) else 0)) :: 'a word)" by simp
  also have "\<dots> = sint a + (if sint a < 0 then 2 ^ LENGTH('a) else 0)"
    using sint_range [of a] exp_split [where ?'a = 'a] by (intro uint_word_of_int_small) auto
  finally show ?thesis by simp
qed

lemma add_unsigned_capacity:
  "uint (if sint a < 0 then 0 - a + (push_bit (LENGTH('a) - 1) 1 - 1) else push_bit (LENGTH('a) - 1) 1 - 1 - a) =
     2 ^ (LENGTH('a) - 1) - 1 - sint a" for a :: "'a::len word"
proof -
  have "uint (word_of_int (2 ^ (LENGTH('a) - 1) - 1 - sint a) :: 'a word) = 2 ^ (LENGTH('a) - 1) - 1 - sint a"
    using sint_range [of a] exp_split [where ?'a = 'a] by (intro uint_word_of_int_small) linarith+
  then show ?thesis by (simp add: push_bit_eq_mult algebra_simps)
qed

lemma overflowing_add_unsigned_exact:
  "overflowing_add_unsigned a b = (word_of_int (sint a + uint b), \<not> fits True TYPE('a word) (sint a + uint b))"
  for a b :: "'a::len word"
proof -
  have "- (2 ^ (LENGTH('a) - 1)) \<le> sint a + uint b" using sint_range [of a] uint_ge_0 [of b] by linarith
  then have "\<not> fits True TYPE('a word) (sint a + uint b) \<longleftrightarrow> uint b > 2 ^ (LENGTH('a) - 1) - 1 - sint a"
    by (auto simp: fits_iff)
  then show ?thesis
    unfolding overflowing_add_unsigned_def Let_def val_def
    by (simp only: if_True word_less_def add_unsigned_capacity) simp
qed

lemma overflowing_sub_unsigned_exact:
  "overflowing_sub_unsigned a b = (word_of_int (sint a - uint b), \<not> fits True TYPE('a word) (sint a - uint b))"
  for a b :: "'a::len word"
proof -
  have "uint (word_of_int (sint a + 2 ^ (LENGTH('a) - 1)) :: 'a word) = sint a + 2 ^ (LENGTH('a) - 1)"
    using sint_range [of a] exp_split [where ?'a = 'a] by (intro uint_word_of_int_small) linarith+
  then have c: "uint (a XOR push_bit (LENGTH('a) - 1) 1) = sint a + 2 ^ (LENGTH('a) - 1)"
    unfolding xor_sign_bit by (simp add: push_bit_eq_mult)
  have "sint a - uint b < 2 ^ (LENGTH('a) - 1)" using sint_range [of a] uint_ge_0 [of b] by linarith
  then have "\<not> fits True TYPE('a word) (sint a - uint b) \<longleftrightarrow> uint b > sint a + 2 ^ (LENGTH('a) - 1)"
    by (auto simp: fits_iff)
  then show ?thesis
    unfolding overflowing_sub_unsigned_def Let_def by (simp only: word_less_def c) simp
qed

lemma uint_magnitude: "sint b < 0 \<Longrightarrow> uint (0 - b) = - sint b" for b :: "'a::len word"
proof -
  assume "sint b < 0"
  then have "uint (word_of_int (- sint b) :: 'a word) = - sint b"
    using sint_range [of b] exp_split [where ?'a = 'a] zero_less_power [of "2::int" "LENGTH('a) - 1"]
    by (intro uint_word_of_int_small) linarith+
  then show ?thesis by simp
qed

lemma uint_room: "uint (INT_MAX False - a) = 2 ^ LENGTH('a) - 1 - uint a" for a :: "'a::len word"
proof -
  have "uint (word_of_int (2 ^ LENGTH('a) - 1 - uint a) :: 'a word) = 2 ^ LENGTH('a) - 1 - uint a"
    using uint_lt2p [of a] uint_ge_0 [of a] by (intro uint_word_of_int_small) linarith+
  then show ?thesis by (simp add: INT_MAX_def mask_eq_exp_minus_1)
qed

lemma overflowing_add_signed_exact:
  "overflowing_add_signed a b = (word_of_int (uint a + sint b), \<not> fits False TYPE('a word) (uint a + sint b))"
  for a b :: "'a::len word"
proof (cases "sint b < 0")
  case True
  then have "\<not> fits False TYPE('a word) (uint a + sint b) \<longleftrightarrow> - sint b > uint a"
    
    by (intro iffI; use uint_lt2p [of a] uint_ge_0 [of a] in \<open>simp only: fits_iff if_False; linarith\<close>)
  then show ?thesis using True
    by (simp add: overflowing_add_signed_def val_def word_less_def uint_magnitude [simplified])
next
  case False
  then have "\<not> fits False TYPE('a word) (uint a + sint b) \<longleftrightarrow> sint b > 2 ^ LENGTH('a) - 1 - uint a"
    
    by (intro iffI; use uint_lt2p [of a] uint_ge_0 [of a] in \<open>simp only: fits_iff if_False; linarith\<close>)
  then show ?thesis using False
    by (simp add: overflowing_add_signed_def val_def word_less_def uint_room uint_of_sint [of b])
qed

lemma overflowing_sub_signed_exact:
  "overflowing_sub_signed a b = (word_of_int (uint a - sint b), \<not> fits False TYPE('a word) (uint a - sint b))"
  for a b :: "'a::len word"
proof (cases "sint b < 0")
  case True
  then have "\<not> fits False TYPE('a word) (uint a - sint b) \<longleftrightarrow> - sint b > 2 ^ LENGTH('a) - 1 - uint a"
    
    by (intro iffI; use uint_lt2p [of a] uint_ge_0 [of a] in \<open>simp only: fits_iff if_False; linarith\<close>)
  then show ?thesis using True
    by (simp add: overflowing_sub_signed_def val_def word_less_def uint_room uint_magnitude [simplified])
next
  case False
  then have "\<not> fits False TYPE('a word) (uint a - sint b) \<longleftrightarrow> sint b > uint a"
    
    by (intro iffI; use uint_lt2p [of a] uint_ge_0 [of a] in \<open>simp only: fits_iff if_False; linarith\<close>)
  then show ?thesis using False
    by (simp add: overflowing_sub_signed_def val_def word_less_def uint_of_sint [of b])
qed

section \<open>Properties\<close>

text \<open>The saturating operations return the exact mathematical result clamped to the range
  of the type, for signed and unsigned types of every width.\<close>

lemma saturating_ops_clamp:
  "val s (saturating_add s a b) = clamp s TYPE('a word) (val s a + val s b)
   \<and> val s (saturating_sub s a b) = clamp s TYPE('a word) (val s a - val s b)
   \<and> val s (saturating_mul s a b) = clamp s TYPE('a word) (val s a * val s b)
   \<and> val s (saturating_neg s a) = clamp s TYPE('a word) (- val s a)" for a b :: "'a::len word"
  by (simp only: saturating_add_val saturating_sub_val saturating_mul_val saturating_neg_val)

text \<open>C24. Square-and-multiply is exact: \<open>checked_pow\<close> is \<open>None\<close> exactly when the power does not fit
  the type (intermediate squares never raise a spurious overflow), \<open>wrapping_pow\<close> is the power
  modulo the width and \<open>saturating_pow\<close> the power clamped to the range.\<close>

theorem integer_pow_exact:
  fixes a :: "'a::len word"
  assumes l: "s \<longrightarrow> 1 < LENGTH('a)"
  shows "checked_pow s a n =
      (if fits s TYPE('a word) (val s a ^ unat n) then Some (word_of_int (val s a ^ unat n)) else None)
    \<and> wrapping_pow s a n = word_of_int (val s a ^ unat n)
    \<and> val s (saturating_pow s a n) = clamp s TYPE('a word) (val s a ^ unat n)"
  using saturating_pow_val [OF l]
  by (simp add: checked_pow_def wrapping_pow_def overflowing_pow_exact [OF l] del: of_int_power)

theorem integer_pow_exact_witness:
  "checked_pow True (0xFE :: 8 word) 7 = Some (word_of_int (- 128))
    \<and> wrapping_pow True (0xFE :: 8 word) 7 = word_of_int (- 128)
    \<and> val True (saturating_pow True (0xFE :: 8 word) 8) = 127"
  using integer_pow_exact [of True "0xFE :: 8 word" 7] integer_pow_exact [of True "0xFE :: 8 word" 8]
    val_INT_MIN [of True, where ?'a = 8] val_INT_MAX [of True, where ?'a = 8]
  by (simp add: val_def clamp_def fits_iff)

text \<open>The plain checked operations return the exact result when it fits the type and \<open>None\<close> otherwise;
  the remainder operator panics exactly on a zero divisor and on \<open>MIN % -1\<close>.\<close>

lemma checked_basic_exact:
  "checked_add s a b = exact s (val s a + val s b)
   \<and> checked_sub s a b = exact s (val s a - val s b)
   \<and> checked_mul s a b = exact s (val s a * val s b)
   \<and> checked_neg s a = exact s (- val s a)
   \<and> checked_div s a b = (if b = 0 then None else exact s (trunc_div (val s a) (val s b)))
   \<and> op_rem s a b =
      (if b = 0 then Err PanicDivideByZero
       else if fits s TYPE('a word) (trunc_div (val s a) (val s b))
         then Ok (word_of_int (trunc_rem (val s a) (val s b)))
       else Err PanicOverflow)" for a b :: "'a::len word"
  using fits_trunc_div [of b s a]
  by (cases "b = 0"; cases s) (simp_all add: exact_def checked_ops_val checked_neg_def overflowing_neg_def sub_with_overflow_def
      checked_div_def op_rem_def overflowing_rem_def)

text \<open>The mixed-signedness operations wrap the exact result and their overflow flag, computed
  from an unsigned capacity, is set exactly when that result does not fit.\<close>

lemma mixed_sign_overflow_exact:
  "overflowing_add_unsigned a b = (word_of_int (sint a + uint b), \<not> fits True TYPE('a word) (sint a + uint b))
   \<and> overflowing_sub_unsigned a b = (word_of_int (sint a - uint b), \<not> fits True TYPE('a word) (sint a - uint b))
   \<and> overflowing_add_signed a b = (word_of_int (uint a + sint b), \<not> fits False TYPE('a word) (uint a + sint b))
   \<and> overflowing_sub_signed a b = (word_of_int (uint a - sint b), \<not> fits False TYPE('a word) (uint a - sint b))"
  for a b :: "'a::len word"
  by (simp only: overflowing_add_unsigned_exact overflowing_sub_unsigned_exact
      overflowing_add_signed_exact overflowing_sub_signed_exact)

text \<open>C26. Reading back the little- or big-endian bytes of a value gives the value, the two byte
  orders are reverses of each other, and there is one byte per eight bits.\<close>

theorem bytes_roundtrip:
  fixes a :: "'a::len word"
  assumes "8 dvd LENGTH('a)"
  shows "from_le_bytes (to_le_bytes a) = a \<and> from_be_bytes (to_be_bytes a) = a
    \<and> to_be_bytes a = rev (to_le_bytes a) \<and> length (to_le_bytes a) = LENGTH('a) div 8"
  using assms from_le_loop [of "LENGTH('a) div 8" a]
  by (simp add: from_be_bytes_rev to_be_bytes_rev) (simp add: to_le_bytes_def from_le_bytes_def)

theorem bytes_roundtrip_witness:
  "from_le_bytes (to_le_bytes (0x12345678 :: 32 word)) = (0x12345678 :: 32 word)
    \<and> to_be_bytes (0x12345678 :: 32 word) = [0x12, 0x34, 0x56, 0x78]"
proof -
  have "to_le_bytes (0x12345678 :: 32 word) = [0x78, 0x56, 0x34, 0x12]" by code_simp
  then show ?thesis using bytes_roundtrip [of "0x12345678 :: 32 word"] by simp
qed

end
