(* ===== verification/Integer_Bits.thy ===== *)
theory Integer_Bits
  imports Integers
begin

unbundle bit_operations_syntax

text \<open>
  The operations on the bits of the integer wrappers: shifts, counting zeros and the next power of two
  (src/core/src/num/types.cppm and integer_methods.cppm), and what the checked operations return at the
  edges of a type.
\<close>

section \<open>Operations\<close>

definition wrapping_shl :: "'a::len word \<Rightarrow> u64 \<Rightarrow> 'a word" where
  "wrapping_shl a rhs = fst (overflowing_shl a rhs)"

definition wrapping_shr :: "bool \<Rightarrow> 'a::len word \<Rightarrow> u64 \<Rightarrow> 'a word" where
  "wrapping_shr s a rhs = fst (overflowing_shr s a rhs)"

definition checked_shl :: "'a::len word \<Rightarrow> u64 \<Rightarrow> 'a word option" where
  "checked_shl a rhs = (if unat rhs \<ge> LENGTH('a) then None else Some (wrapping_shl a rhs))"

definition checked_shr :: "bool \<Rightarrow> 'a::len word \<Rightarrow> u64 \<Rightarrow> 'a word option" where
  "checked_shr s a rhs = (if unat rhs \<ge> LENGTH('a) then None else Some (wrapping_shr s a rhs))"

text \<open>The loops that look for the first set bit: from the top, with \<open>bit\<close> bits left, and from below.\<close>

fun leading_loop :: "'a::len word \<Rightarrow> nat \<Rightarrow> nat \<Rightarrow> nat" where
  "leading_loop bits 0 count = count"
| "leading_loop bits (Suc i) count = (if bits AND push_bit i 1 \<noteq> 0 then count else leading_loop bits i (count + 1))"

definition leading_zeros :: "'a::len word \<Rightarrow> nat" where
  "leading_zeros a = leading_loop a LENGTH('a) 0"

definition leading_ones :: "'a::len word \<Rightarrow> nat" where
  "leading_ones a = leading_zeros (NOT a)"

function trailing_loop :: "'a::len word \<Rightarrow> nat \<Rightarrow> nat" where
  "trailing_loop bits count =
    (if count < LENGTH('a) then if bits AND push_bit count 1 \<noteq> 0 then count else trailing_loop bits (count + 1) else count)"
  by pat_completeness auto
termination by (relation "measure (\<lambda>(bits :: 'a word, count). LENGTH('a) - count)") auto

declare trailing_loop.simps [simp del]

definition trailing_zeros :: "'a::len word \<Rightarrow> nat" where
  "trailing_zeros a = trailing_loop a 0"

definition trailing_ones :: "'a::len word \<Rightarrow> nat" where
  "trailing_ones a = trailing_zeros (NOT a)"

text \<open>The loop that copies the highest set bit to all lower ones; \<open>shift\<close> is \<open>2 ^ k\<close>.\<close>

function smear_loop :: "nat \<Rightarrow> 'a::len word \<Rightarrow> 'a word" where
  "smear_loop k bits = (if 2 ^ k < LENGTH('a) then smear_loop (k + 1) (bits OR drop_bit (2 ^ k) bits) else bits)"
  by pat_completeness auto
termination
proof (relation "measure (\<lambda>(k, bits :: 'a word). LENGTH('a) - k)")
  fix k :: nat
  assume "2 ^ k < LENGTH('a)"
  then have "k < LENGTH('a)" using less_exp [of k] by linarith
  then show "((k + 1, bits OR drop_bit (2 ^ k) bits), k, bits) \<in> measure (\<lambda>(k, bits :: 'a word). LENGTH('a) - k)" for bits :: "'a word"
    by simp
qed simp

declare smear_loop.simps [simp del]

definition power_of_two_bits :: "bool \<Rightarrow> 'a::len word \<Rightarrow> 'a word \<times> bool" where
  "power_of_two_bits s a =
    (let bits = smear_loop 0 (a - 1);
         (result, overflow) = add_with_overflow False bits 1
     in (result, overflow \<or> s \<and> result > INT_MAX s))"

definition checked_next_power_of_two :: "bool \<Rightarrow> 'a::len word \<Rightarrow> 'a word option" where
  "checked_next_power_of_two s a =
    (if val s a \<le> 1 then Some 1
     else let (result, overflow) = power_of_two_bits s a in if overflow then None else Some result)"

definition next_power_of_two :: "bool \<Rightarrow> bool \<Rightarrow> 'a::len word \<Rightarrow> (panic, 'a word) result" where
  "next_power_of_two chk s a =
    (if val s a \<le> 1 then Ok 1
     else let (result, overflow) = power_of_two_bits s a in if overflow \<and> chk then Err PanicOverflow else Ok result)"

section \<open>Bits\<close>

lemma and_bit: "(a AND push_bit i 1 \<noteq> 0) \<longleftrightarrow> i < LENGTH('a) \<and> bit a i" for a :: "'a::len word"
proof -
  have "a AND push_bit i 1 = push_bit i (of_bool (bit a i))"
    by (rule bit_word_eqI) (auto simp: bit_simps)
  then show ?thesis by (auto simp: push_bit_eq_mult word_exp_length_eq_0 dest: bit_imp_le_length)
qed

lemma bit_unat: "bit a n \<longleftrightarrow> odd (unat a div 2 ^ n)" for a :: "'a::len word"
  by (simp add: bit_unsigned_iff flip: bit_iff_odd)

lemma leading_loop_eq:
  fixes a :: "'a::len word"
  assumes "\<And>j. i \<le> j \<Longrightarrow> j < LENGTH('a) \<Longrightarrow> \<not> bit a j" "i \<le> LENGTH('a)"
  shows "leading_loop a i (LENGTH('a) - i) \<le> LENGTH('a) \<and>
    (\<forall>j. LENGTH('a) - leading_loop a i (LENGTH('a) - i) \<le> j \<longrightarrow> j < LENGTH('a) \<longrightarrow> \<not> bit a j) \<and>
    (leading_loop a i (LENGTH('a) - i) < LENGTH('a) \<longrightarrow> bit a (LENGTH('a) - 1 - leading_loop a i (LENGTH('a) - i)))"
  using assms
proof (induction i)
  case (Suc i)
  show ?case
  proof (cases "bit a i")
    case True
    then have "leading_loop a (Suc i) (LENGTH('a) - Suc i) = LENGTH('a) - Suc i" using Suc.prems(2) and_bit [of a i] by simp
    then show ?thesis using Suc.prems True by simp
  next
    case False
    have "\<not> bit a j" if "i \<le> j" "j < LENGTH('a)" for j
      using that False Suc.prems(1) [of j] by (cases "j = i") auto
    moreover have "leading_loop a (Suc i) (LENGTH('a) - Suc i) = leading_loop a i (LENGTH('a) - i)"
      using Suc.prems(2) False and_bit [of a i] by (simp add: Suc_diff_Suc)
    ultimately show ?thesis using Suc.IH Suc.prems(2) by simp
  qed
qed simp

text \<open>The number of zeros above the highest set bit is the one that bounds the value by powers of two.\<close>

lemma leading_zeros_bound:
  "leading_zeros a \<le> LENGTH('a)" "unat a < 2 ^ (LENGTH('a) - leading_zeros a)"
  "leading_zeros a < LENGTH('a) \<Longrightarrow> 2 ^ (LENGTH('a) - 1 - leading_zeros a) \<le> unat a" for a :: "'a::len word"
proof -
  note e = leading_loop_eq [of "LENGTH('a)" a, folded leading_zeros_def]
  have z: "leading_zeros a = leading_loop a LENGTH('a) (LENGTH('a) - LENGTH('a))" by (simp add: leading_zeros_def)
  show "leading_zeros a \<le> LENGTH('a)" using e unfolding z by simp
  have "take_bit (LENGTH('a) - leading_zeros a) a = a"
    by (rule bit_word_eqI) (use e in \<open>auto simp: bit_take_bit_iff z intro: ccontr\<close>)
  then show "unat a < 2 ^ (LENGTH('a) - leading_zeros a)" by (metis take_bit_nat_less_exp unsigned_take_bit_eq)
  assume "leading_zeros a < LENGTH('a)"
  then have "bit a (LENGTH('a) - 1 - leading_zeros a)" using e unfolding z by simp
  then show "2 ^ (LENGTH('a) - 1 - leading_zeros a) \<le> unat a"
    by (metis bit_unat div_less even_zero not_less)
qed

text \<open>The trailing zeros are the clear bits below the lowest set one.\<close>

lemma trailing_loop_eq:
  fixes a :: "'a::len word"
  assumes "\<And>j. j < count \<Longrightarrow> \<not> bit a j" "count \<le> LENGTH('a)"
  shows "trailing_loop a count \<le> LENGTH('a) \<and> (\<forall>j < trailing_loop a count. \<not> bit a j) \<and>
    (trailing_loop a count < LENGTH('a) \<longrightarrow> bit a (trailing_loop a count))"
  using assms
proof (induction a count rule: trailing_loop.induct)
  case (1 a count)
  consider (stop) "count = LENGTH('a)" | (found) "count < LENGTH('a)" "bit a count" | (on) "count < LENGTH('a)" "\<not> bit a count"
    using "1.prems"(2) by (cases "count = LENGTH('a)") auto
  then show ?case
  proof cases
    case on
    then have "trailing_loop a count = trailing_loop a (count + 1)" using and_bit [of a count] by (subst trailing_loop.simps) simp
    moreover have "\<not> (a AND push_bit count 1 \<noteq> 0)" using on and_bit [of a count] by simp
    moreover have "\<not> bit a j" if "j < count + 1" for j using that on(2) "1.prems"(1) [of j] by (cases "j = count") auto
    ultimately show ?thesis using "1.IH" [OF on(1)] on(1) by simp
  qed (use "1.prems" and_bit [of a count] in \<open>subst (1 2 3 4) trailing_loop.simps, simp\<close>)+
qed

lemma trailing_zeros_bit:
  "trailing_zeros a \<le> LENGTH('a)" "j < trailing_zeros a \<Longrightarrow> \<not> bit a j"
  "trailing_zeros a < LENGTH('a) \<Longrightarrow> bit a (trailing_zeros a)" for a :: "'a::len word"
  using trailing_loop_eq [of 0 a] by (auto simp: trailing_zeros_def)

lemma smear_loop_bit:
  fixes a b :: "'a::len word"
  assumes "\<And>n. bit b n \<longleftrightarrow> (\<exists>j < 2 ^ k. bit a (n + j))"
  shows "bit (smear_loop k b) n \<longleftrightarrow> (\<exists>j. bit a (n + j))"
  using assms
proof (induction k b arbitrary: n rule: smear_loop.induct)
  case (1 k b)
  show ?case
  proof (cases "2 ^ k < LENGTH('a)")
    case True
    have "bit (b OR drop_bit (2 ^ k) b) m \<longleftrightarrow> (\<exists>j < 2 ^ (k + 1). bit a (m + j))" for m
    proof -
      have "(\<exists>j < 2 ^ (k + 1). bit a (m + j)) \<longleftrightarrow> (\<exists>j < 2 ^ k. bit a (m + j)) \<or> (\<exists>j < 2 ^ k. bit a (m + 2 ^ k + j))" (is "?l = ?r")
      proof
        assume ?l
        then obtain j where j: "j < 2 ^ k + 2 ^ k" "bit a (m + j)" by (auto simp: mult_2)
        show ?r
        proof (cases "j < 2 ^ k")
          case False
          then show ?thesis using j by (intro disjI2 exI [of _ "j - 2 ^ k"]) auto
        qed (use j in blast)
      next
        assume ?r
        then show ?l
        proof
          assume "\<exists>j < 2 ^ k. bit a (m + 2 ^ k + j)"
          then obtain j where "j < 2 ^ k" "bit a (m + (2 ^ k + j))" by (auto simp: add.assoc)
          then show ?l by (intro exI [of _ "2 ^ k + j"]) auto
        next
          assume "\<exists>j < 2 ^ k. bit a (m + j)"
          then obtain j where "j < 2 ^ k" "bit a (m + j)" by blast
          then show ?l by (intro exI [of _ j]) auto
        qed
      qed
      then show ?thesis using "1.prems" [of m] "1.prems" [of "m + 2 ^ k"] by (simp add: bit_simps add.commute)
    qed
    then show ?thesis using "1.IH" [OF True] True by (subst smear_loop.simps) simp
  next
    case False
    have "j < 2 ^ k" if "bit a (n + j)" for j using bit_imp_le_length [OF that] False by linarith
    then show ?thesis using "1.prems" [of n] False by (subst smear_loop.simps) auto
  qed
qed

lemma bit_top:
  fixes a :: "'a::len word"
  assumes "2 ^ m \<le> unat a" "unat a < 2 ^ (m + 1)"
  shows "(\<exists>j. bit a (n + j)) \<longleftrightarrow> n \<le> m"
proof -
  have "unat a div 2 ^ m = 1" using assms by (intro div_nat_eqI) auto
  then have t: "bit a m" by (simp add: bit_unat)
  have "j \<le> m" if "bit a j" for j
  proof (rule ccontr)
    assume "\<not> j \<le> m"
    then have "unat a div 2 ^ j = 0" using assms(2) power_increasing [of "m + 1" j "2 :: nat"] by simp
    then show False using that by (simp add: bit_unat)
  qed
  then show ?thesis using t by (metis le_add1 le_add_diff_inverse order_trans)
qed

lemma smear_mask:
  fixes a :: "'a::len word"
  assumes "2 ^ m \<le> unat a" "unat a < 2 ^ (m + 1)"
  shows "smear_loop 0 a = mask (m + 1)"
  by (rule bit_word_eqI) (simp add: smear_loop_bit [of a 0 a] bit_top [OF assms] bit_mask_iff less_Suc_eq_le)

section \<open>Powers of two\<close>

lemma power_bits:
  fixes a :: "'a::len word"
  assumes "1 < val s a"
  obtains k where "power_of_two_bits s a = (word_of_int (2 ^ k), \<not> fits s TYPE('a word) (2 ^ k))" "val s a \<le> 2 ^ k" "2 ^ (k - 1) < val s a" "0 < k"
proof -
  have v: "val s a = uint a" using assms uint_of_sint [of a] by (auto simp: val_def)
  then have n: "int (unat a) = val s a" by simp
  then have "1 < unat a" using assms by linarith
  then have u: "unat (a - 1) = unat a - 1" "1 \<le> unat (a - 1)" using unat_minus_one [of a] by fastforce+
  obtain m where m: "2 ^ m \<le> unat (a - 1)" "unat (a - 1) < 2 ^ (m + 1)" using ex_power_ivl1 [of 2 "unat (a - 1)"] u(2) by auto
  have mn: "2 ^ m < unat a" "unat a \<le> 2 ^ (m + 1)" using m u \<open>1 < unat a\<close> by auto
  have i: "(2 :: int) ^ m < val s a" "val s a \<le> 2 ^ (m + 1)" using mn unfolding n [symmetric] by (metis of_nat_less_iff of_nat_le_iff of_nat_numeral of_nat_power)+
  have l1: "m < LENGTH('a)"
    using order_less_trans [OF i(1) [unfolded v] uint_lt2p [of a]] by (simp add: power_strict_increasing_iff)
  have l2: "m < LENGTH('a) - 1" if s
  proof -
    have "(2 :: int) ^ m < 2 ^ (LENGTH('a) - 1)" using i(1) sint_range(2) [of a] unfolding val_def if_P [OF that] by (rule order_less_trans)
    then show ?thesis by (simp add: power_strict_increasing_iff)
  qed
  let ?k = "m + 1"
  have p: "uint (mask ?k :: 'a word) = 2 ^ ?k - 1" using l1 min.absorb2 [of ?k "LENGTH('a)"] unfolding uint_mask_eq by (simp add: mask_eq_exp_minus_1)
  have w: "(mask ?k :: 'a word) + 1 = word_of_int (2 ^ ?k)" by (simp add: mask_eq_exp_minus_1 word_of_int_2p)
  have f: "add_with_overflow False (mask ?k :: 'a word) 1 = (word_of_int (2 ^ ?k), \<not> fits False TYPE('a word) (2 ^ ?k))"
    unfolding add_with_overflow_def w val_def if_False p uint_1 by (simp only: diff_add_cancel)
  have g: "word_of_int (2 ^ ?k) > (INT_MAX True :: 'a word) \<longleftrightarrow> \<not> fits True TYPE('a word) (2 ^ ?k)" "fits False TYPE('a word) (2 ^ ?k)" if s
  proof -
    have k: "?k < LENGTH('a)" using l2 [OF that] by simp
    have b: "(2 :: int) ^ ?k < 2 ^ LENGTH('a)" by (rule power_strict_increasing [OF k]) simp
    have e: "uint (word_of_int (2 ^ ?k) :: 'a word) = 2 ^ ?k" by (rule uint_word_of_int_small [OF _ b]) simp
    have "uint (INT_MAX True :: 'a word) = 2 ^ (LENGTH('a) - 1) - 1" 
      unfolding INT_MAX_def if_True uint_mask_eq by (simp add: mask_eq_exp_minus_1)
    then show "word_of_int (2 ^ ?k) > (INT_MAX True :: 'a word) \<longleftrightarrow> \<not> fits True TYPE('a word) (2 ^ ?k)"
      using zero_less_power [of "2 :: int" ?k] zero_less_power [of "2 :: int" "LENGTH('a) - 1"]
      unfolding word_less_def e fits_iff if_True by linarith
    show "fits False TYPE('a word) (2 ^ ?k)" unfolding fits_iff if_False using b by (intro conjI) simp_all
  qed
  show thesis
  proof (rule that [of ?k])
    show "power_of_two_bits s a = (word_of_int (2 ^ ?k), \<not> fits s TYPE('a word) (2 ^ ?k))"
      unfolding power_of_two_bits_def smear_mask [OF m] f Let_def prod.case using g by (cases s) auto
    show "val s a \<le> 2 ^ ?k" "2 ^ (?k - 1) < val s a" using i by simp_all
  qed simp
qed

text \<open>The next power of two, when it fits; the operator panics or wraps around when it does not.\<close>

lemma next_power_exact:
  fixes a :: "'a::len word"
  assumes "1 < LENGTH('a)"
  shows "\<exists>k. checked_next_power_of_two s a = exact s (2 ^ k) \<and>
      next_power_of_two chk s a = (if chk \<and> \<not> fits s TYPE('a word) (2 ^ k) then Err PanicOverflow else Ok (word_of_int (2 ^ k))) \<and>
      val s a \<le> 2 ^ k \<and> (k = 0 \<or> 2 ^ (k - 1) < val s a)"
proof (cases "val s a \<le> 1")
  case True
  then show ?thesis using fits_1 [of s, where ?'a = 'a] assms
    by (intro exI [of _ 0]) (simp add: checked_next_power_of_two_def next_power_of_two_def exact_def)
next
  case False
  then obtain k where k: "power_of_two_bits s a = (word_of_int (2 ^ k), \<not> fits s TYPE('a word) (2 ^ k))" "val s a \<le> 2 ^ k" "2 ^ (k - 1) < val s a"
    by (meson not_le power_bits)
  then show ?thesis using False
    by (intro exI [of _ k]) (simp add: checked_next_power_of_two_def next_power_of_two_def exact_def)
qed

section \<open>Shifts\<close>

lemma shl_val: "push_bit n a = word_of_int (val s a * 2 ^ n)" for a :: "'a::len word"
proof -
  have "word_of_int (val s a * 2 ^ n) = (word_of_int (val s a) * word_of_int (2 ^ n) :: 'a word)" by simp
  then show ?thesis by (simp add: push_bit_eq_mult word_of_int_2p del: of_int_power)
qed

lemma shr_val: "(if s then signed_drop_bit n a else drop_bit n a) = word_of_int (val s a div 2 ^ n)" for a :: "'a::len word"
proof (cases s)
  case True
  have "signed_drop_bit n a = word_of_int (sint (signed_drop_bit n a))" by simp
  also have "sint (signed_drop_bit n a) = sint a div 2 ^ n" by (simp add: sint_signed_drop_bit_eq drop_bit_eq_div)
  finally show ?thesis using True by (simp add: val_def)
next
  case False
  have "drop_bit n a = word_of_int (uint (drop_bit n a))" by simp
  also have "uint (drop_bit n a) = uint a div 2 ^ n" by (simp only: unsigned_drop_bit_eq) (simp add: take_bit_int_eq_self drop_bit_eq_div)
  finally show ?thesis using False by (simp add: val_def)
qed

section \<open>Theorem\<close>

text \<open>C25. The checked operations at the edges of a type.  Division is \<open>None\<close> on a zero divisor and when the
  quotient does not fit, and so is the remainder, although \<open>MIN % -1\<close> would be 0; otherwise both truncate
  towards zero.  Shifts are \<open>None\<close> when the amount is not smaller than the width; a left shift drops the bits
  that leave the type, a right shift rounds down.  The operations with an operand of the other signedness and
  the next power of two, which is found by copying the highest bit downwards, are exact, and \<open>None\<close> when the
  result does not fit.\<close>

theorem checked_ops_exact:
  fixes a b :: "'a::len word"
  assumes "1 < LENGTH('a)"
  shows "checked_div s a b = (if b = 0 then None else exact s (trunc_div (val s a) (val s b)))
   \<and> checked_rem s a b =
      (if b = 0 then None
       else if fits s TYPE('a word) (trunc_div (val s a) (val s b)) then Some (word_of_int (trunc_rem (val s a) (val s b)))
       else None)
   \<and> checked_shl a n = (if unat n < LENGTH('a) then Some (word_of_int (val s a * 2 ^ unat n)) else None)
   \<and> checked_shr s a n = (if unat n < LENGTH('a) then Some (word_of_int (val s a div 2 ^ unat n)) else None)
   \<and> checked_add_unsigned a b = exact True (sint a + uint b)
   \<and> checked_sub_unsigned a b = exact True (sint a - uint b)
   \<and> checked_add_signed a b = exact False (uint a + sint b)
   \<and> checked_sub_signed a b = exact False (uint a - sint b)
   \<and> (\<exists>k. checked_next_power_of_two s a = exact s (2 ^ k) \<and> val s a \<le> 2 ^ k \<and> (k = 0 \<or> 2 ^ (k - 1) < val s a))"
proof (intro conjI)
  show "checked_div s a b = (if b = 0 then None else exact s (trunc_div (val s a) (val s b)))"
    using fits_trunc_div [of b s a] by (auto simp: checked_div_def exact_def)
  show "checked_rem s a b =
      (if b = 0 then None
       else if fits s TYPE('a word) (trunc_div (val s a) (val s b)) then Some (word_of_int (trunc_rem (val s a) (val s b)))
       else None)"
    using fits_trunc_div [of b s a] by (auto simp: checked_rem_def)
  show "checked_shl a n = (if unat n < LENGTH('a) then Some (word_of_int (val s a * 2 ^ unat n)) else None)"
    unfolding shl_val [symmetric] by (simp add: checked_shl_def wrapping_shl_def overflowing_shl_def Let_def)
  show "checked_shr s a n = (if unat n < LENGTH('a) then Some (word_of_int (val s a div 2 ^ unat n)) else None)"
    unfolding shr_val [symmetric] by (simp add: checked_shr_def wrapping_shr_def overflowing_shr_def Let_def)
  show "\<exists>k. checked_next_power_of_two s a = exact s (2 ^ k) \<and> val s a \<le> 2 ^ k \<and> (k = 0 \<or> 2 ^ (k - 1) < val s a)"
    using next_power_exact [OF assms, of s a] by blast
qed (simp_all add: checked_add_unsigned_def checked_sub_unsigned_def checked_add_signed_def checked_sub_signed_def exact_def
    overflowing_add_unsigned_exact overflowing_sub_unsigned_exact overflowing_add_signed_exact overflowing_sub_signed_exact)

theorem checked_ops_exact_witness:
  "checked_rem True (0x80 :: 8 word) 0xFF = None \<and> checked_shl (0x81 :: 8 word) 1 = Some 2 \<and>
   checked_shr True (0x80 :: 8 word) 3 = Some 0xF0 \<and>
   (\<exists>k. checked_next_power_of_two True (33 :: 8 word) = exact True (2 ^ k) \<and> 33 \<le> (2 :: int) ^ k \<and> (k = 0 \<or> 2 ^ (k - 1) < (33 :: int)))"
proof -
  have w: "1 < LENGTH(8)" by simp
  show ?thesis
    using checked_ops_exact [OF w, of True "0x80" "0xFF" 3] checked_ops_exact [OF w, of False "0x81" 0 1] checked_ops_exact [OF w, of True 33 0 0]
    by (simp add: val_def fits_iff trunc_div_def)
qed

end
