(* ===== verification/Duration.thy ===== *)
theory Duration
  imports Integers
begin

text \<open>
  The class \<open>Duration\<close> of src/core/src/time.cppm: a time span as whole seconds (\<open>u64\<close>) and
  nanoseconds (\<open>u32\<close>).  The operators on the integer wrappers are those of \<open>Integers\<close>, which panic
  on overflow when the build checks for it (\<open>chk\<close>); a method that uses them returns a result.
  The lemmas show that under the class invariant none of them overflows, and that every operation
  computes on the exact number of nanoseconds.  The conversions from and to floating point are not
  modelled.
\<close>

section \<open>The code\<close>

record duration =
  d_secs :: u64
  d_nanos :: u32

abbreviation Dur :: "u64 \<Rightarrow> u32 \<Rightarrow> duration" where
  "Dur s n \<equiv> \<lparr>d_secs = s, d_nanos = n\<rparr>"

definition NANOS_PER_SEC :: u32 where "NANOS_PER_SEC = 1000000000"
definition NANOS_PER_MILLI :: u32 where "NANOS_PER_MILLI = 1000000"
definition NANOS_PER_MICRO :: u32 where "NANOS_PER_MICRO = 1000"
definition MILLIS_PER_SEC :: u64 where "MILLIS_PER_SEC = 1000"
definition MICROS_PER_SEC :: u64 where "MICROS_PER_SEC = 1000000"

definition duration_new :: "bool \<Rightarrow> u64 \<Rightarrow> u32 \<Rightarrow> (panic, duration) result" where
  "duration_new chk secs nanos =
    and_then (op_div False nanos NANOS_PER_SEC) (\<lambda>q.
    and_then (op_add chk False secs (ucast q)) (\<lambda>secs'.
    and_then (op_rem False nanos NANOS_PER_SEC) (\<lambda>nanos'.
    Ok (Dur secs' nanos'))))"

definition from_secs :: "u64 \<Rightarrow> duration" where
  "from_secs secs = Dur secs 0"

definition from_millis :: "bool \<Rightarrow> u64 \<Rightarrow> (panic, duration) result" where
  "from_millis chk millis =
    and_then (op_rem False millis MILLIS_PER_SEC) (\<lambda>remainder.
    and_then (op_div False millis MILLIS_PER_SEC) (\<lambda>secs.
    and_then (op_mul chk False (ucast remainder) NANOS_PER_MILLI) (\<lambda>nanos.
    Ok (Dur secs nanos))))"

definition from_micros :: "bool \<Rightarrow> u64 \<Rightarrow> (panic, duration) result" where
  "from_micros chk micros =
    and_then (op_rem False micros MICROS_PER_SEC) (\<lambda>remainder.
    and_then (op_div False micros MICROS_PER_SEC) (\<lambda>secs.
    and_then (op_mul chk False (ucast remainder) NANOS_PER_MICRO) (\<lambda>nanos.
    Ok (Dur secs nanos))))"

definition from_nanos :: "u64 \<Rightarrow> (panic, duration) result" where
  "from_nanos nanos =
    (let per_second = ucast NANOS_PER_SEC in
     and_then (op_div False nanos per_second) (\<lambda>secs.
     and_then (op_rem False nanos per_second) (\<lambda>remainder.
     Ok (Dur secs (ucast remainder)))))"

definition is_zero :: "duration \<Rightarrow> bool" where
  "is_zero d \<longleftrightarrow> d_secs d = 0 \<and> d_nanos d = 0"

definition subsec_millis :: "duration \<Rightarrow> (panic, u32) result" where
  "subsec_millis d = op_div False (d_nanos d) NANOS_PER_MILLI"

definition subsec_micros :: "duration \<Rightarrow> (panic, u32) result" where
  "subsec_micros d = op_div False (d_nanos d) NANOS_PER_MICRO"

definition as_millis :: "bool \<Rightarrow> duration \<Rightarrow> (panic, u64) result" where
  "as_millis chk d =
    and_then (op_mul chk False (d_secs d) MILLIS_PER_SEC) (\<lambda>p.
    and_then (op_div False (d_nanos d) NANOS_PER_MILLI) (\<lambda>q.
    op_add chk False p (ucast q)))"

definition as_micros :: "bool \<Rightarrow> duration \<Rightarrow> (panic, u64) result" where
  "as_micros chk d =
    and_then (op_mul chk False (d_secs d) MICROS_PER_SEC) (\<lambda>p.
    and_then (op_div False (d_nanos d) NANOS_PER_MICRO) (\<lambda>q.
    op_add chk False p (ucast q)))"

definition as_nanos :: "bool \<Rightarrow> duration \<Rightarrow> (panic, u128) result" where
  "as_nanos chk d =
    and_then (op_mul chk False (ucast (d_secs d)) (ucast NANOS_PER_SEC)) (\<lambda>p.
    op_add chk False p (ucast (d_nanos d)))"

definition duration_less :: "duration \<Rightarrow> duration \<Rightarrow> bool" where
  "duration_less a b \<longleftrightarrow> (if d_secs a \<noteq> d_secs b then d_secs a < d_secs b else d_nanos a < d_nanos b)"

definition duration_checked_add :: "bool \<Rightarrow> duration \<Rightarrow> duration \<Rightarrow> (panic, duration option) result" where
  "duration_checked_add chk a rhs =
    and_then (op_add chk False (d_nanos a) (d_nanos rhs)) (\<lambda>nanos0.
    let carry = nanos0 \<ge> NANOS_PER_SEC in
    and_then (if carry then op_sub chk False nanos0 NANOS_PER_SEC else Ok nanos0) (\<lambda>nanos.
    case checked_add False (d_secs a) (d_secs rhs) of
      None \<Rightarrow> Ok None
    | Some v \<Rightarrow>
        (if carry then
           (case checked_add False v 1 of
              None \<Rightarrow> Ok None
            | Some with_carry \<Rightarrow> Ok (Some (Dur with_carry nanos)))
         else Ok (Some (Dur v nanos)))))"

definition duration_checked_sub :: "bool \<Rightarrow> duration \<Rightarrow> duration \<Rightarrow> (panic, duration option) result" where
  "duration_checked_sub chk a rhs =
    (if d_secs a < d_secs rhs \<or> (d_secs a = d_secs rhs \<and> d_nanos a < d_nanos rhs) then Ok None
     else
       and_then (op_sub chk False (d_secs a) (d_secs rhs)) (\<lambda>secs.
       if d_nanos a \<ge> d_nanos rhs then
         and_then (op_sub chk False (d_nanos a) (d_nanos rhs)) (\<lambda>nanos. Ok (Some (Dur secs nanos)))
       else
         and_then (op_add chk False (d_nanos a) NANOS_PER_SEC) (\<lambda>t.
         and_then (op_sub chk False t (d_nanos rhs)) (\<lambda>nanos.
         and_then (op_sub chk False secs 1) (\<lambda>secs'.
         Ok (Some (Dur secs' nanos)))))))"

definition duration_checked_mul :: "bool \<Rightarrow> duration \<Rightarrow> u32 \<Rightarrow> (panic, duration option) result" where
  "duration_checked_mul chk a rhs =
    (let factor = ucast rhs :: u128; per_second = ucast NANOS_PER_SEC :: u128 in
     and_then (op_mul chk False (ucast (d_secs a)) per_second) (\<lambda>p.
     and_then (op_add chk False p (ucast (d_nanos a))) (\<lambda>t.
     case checked_mul False t factor of
       None \<Rightarrow> Ok None
     | Some v \<Rightarrow>
         and_then (op_div False v per_second) (\<lambda>secs.
         if secs > ucast (INT_MAX False :: u64) then Ok None
         else and_then (op_rem False v per_second) (\<lambda>r. Ok (Some (Dur (ucast secs) (ucast r))))))))"

definition duration_checked_div :: "bool \<Rightarrow> duration \<Rightarrow> u32 \<Rightarrow> (panic, duration option) result" where
  "duration_checked_div chk a rhs =
    (if rhs = 0 then Ok None
     else
       let per_second = ucast NANOS_PER_SEC :: u128 in
       and_then (op_mul chk False (ucast (d_secs a)) per_second) (\<lambda>p.
       and_then (op_add chk False p (ucast (d_nanos a))) (\<lambda>t.
       and_then (op_div False t (ucast rhs)) (\<lambda>v.
       and_then (op_div False v per_second) (\<lambda>q.
       and_then (op_rem False v per_second) (\<lambda>r.
       Ok (Some (Dur (ucast q) (ucast r)))))))))"

definition Duration_MAX :: duration where
  "Duration_MAX = Dur (INT_MAX False) (NANOS_PER_SEC - 1)"

definition Duration_ZERO :: duration where
  "Duration_ZERO = Dur 0 0"

definition duration_saturating_add :: "bool \<Rightarrow> duration \<Rightarrow> duration \<Rightarrow> (panic, duration) result" where
  "duration_saturating_add chk a rhs =
    and_then (duration_checked_add chk a rhs) (\<lambda>r.
      Ok (case r of Some d \<Rightarrow> d | None \<Rightarrow> Dur (INT_MAX False) (NANOS_PER_SEC - 1)))"

definition duration_saturating_sub :: "bool \<Rightarrow> duration \<Rightarrow> duration \<Rightarrow> (panic, duration) result" where
  "duration_saturating_sub chk a rhs =
    and_then (duration_checked_sub chk a rhs) (\<lambda>r.
      Ok (case r of Some d \<Rightarrow> d | None \<Rightarrow> Dur 0 0))"

definition duration_saturating_mul :: "bool \<Rightarrow> duration \<Rightarrow> u32 \<Rightarrow> (panic, duration) result" where
  "duration_saturating_mul chk a rhs =
    and_then (duration_checked_mul chk a rhs) (\<lambda>r.
      Ok (case r of Some d \<Rightarrow> d | None \<Rightarrow> Dur (INT_MAX False) (NANOS_PER_SEC - 1)))"

section \<open>Specification\<close>

text \<open>The exact number of nanoseconds, the class invariant, and the duration of a number of
  nanoseconds below the limit.\<close>

definition total_nanos :: "duration \<Rightarrow> nat" where
  "total_nanos d = unat (d_secs d) * 1000000000 + unat (d_nanos d)"

definition valid_duration :: "duration \<Rightarrow> bool" where
  "valid_duration d \<longleftrightarrow> unat (d_nanos d) < 1000000000"

definition TOTAL_LIMIT :: nat where
  "TOTAL_LIMIT = 2 ^ 64 * 1000000000"

definition of_total :: "nat \<Rightarrow> duration" where
  "of_total n = Dur (of_nat (n div 1000000000)) (of_nat (n mod 1000000000))"

definition of_total_opt :: "nat \<Rightarrow> duration option" where
  "of_total_opt n = (if n < TOTAL_LIMIT then Some (of_total n) else None)"

section \<open>The operators on unsigned values\<close>

lemma uint_small_add: "uint a + uint b < 2 ^ LENGTH('a) \<longleftrightarrow> unat a + unat b < 2 ^ LENGTH('a)" for a b :: "'a::len word"
  by (simp only: uint_nat of_nat_add [symmetric] of_nat_less_numeral_power_cancel_iff)

lemma uint_small_mult: "uint a * uint b < 2 ^ LENGTH('a) \<longleftrightarrow> unat a * unat b < 2 ^ LENGTH('a)" for a b :: "'a::len word"
  by (simp only: uint_nat of_nat_mult [symmetric] of_nat_less_numeral_power_cancel_iff)

lemma op_add_fits:
  "unat a + unat b < 2 ^ LENGTH('a) \<Longrightarrow> op_add chk False a b = Ok (a + b)" for a b :: "'a::len word"
  by (simp add: op_add_def overflowing_add_def add_with_overflow_def fits_iff val_def uint_small_add)

lemma op_mul_fits:
  "unat a * unat b < 2 ^ LENGTH('a) \<Longrightarrow> op_mul chk False a b = Ok (a * b)" for a b :: "'a::len word"
  by (simp add: op_mul_def overflowing_mul_def mul_with_overflow_def fits_iff val_def uint_small_mult)

lemma op_sub_fits: "b \<le> a \<Longrightarrow> op_sub chk False a b = Ok (a - b)" for a b :: "'a::len word"
  using uint_lt2p [of a] uint_ge_0 [of b]
  by (simp add: op_sub_def overflowing_sub_def sub_with_overflow_def fits_iff val_def word_le_def
      del: uint_lt2p)

lemma trunc_rem_nonneg: "0 \<le> x \<Longrightarrow> 0 < y \<Longrightarrow> trunc_rem x y = x mod y"
  by (cases "x = 0") (simp_all add: trunc_rem_eq)

lemma op_div_rem_unsigned:
  "b \<noteq> 0 \<Longrightarrow> op_div False a b = Ok (a div b)"
  "b \<noteq> 0 \<Longrightarrow> op_rem False a b = Ok (a mod b)" for a b :: "'a::len word"
proof -
  assume "b \<noteq> 0"
  then have "0 < uint b" by (simp add: uint_0_iff order_less_le)
  then show "op_div False a b = Ok (a div b)" "op_rem False a b = Ok (a mod b)"
    using \<open>b \<noteq> 0\<close>
    by (simp_all add: op_div_def op_rem_def overflowing_div_def overflowing_rem_def val_def
        trunc_rem_nonneg trunc_div_nonneg word_div_def word_mod_def)
qed

lemma checked_unsigned:
  "checked_add False a b = (if unat a + unat b < 2 ^ LENGTH('a) then Some (a + b) else None)"
  "checked_mul False a b = (if unat a * unat b < 2 ^ LENGTH('a) then Some (a * b) else None)"
  for a b :: "'a::len word"
  by (simp_all add: checked_ops_val fits_iff val_def uint_small_add uint_small_mult)


section \<open>Durations as numbers of nanoseconds\<close>

lemma unat_NANOS_PER_SEC [simp]: "unat NANOS_PER_SEC = 1000000000"
  by (simp add: NANOS_PER_SEC_def)

lemma of_total_total: "valid_duration d \<Longrightarrow> of_total (total_nanos d) = d"
  by (cases d) (simp add: of_total_def total_nanos_def valid_duration_def)

lemma of_total_eqI: "valid_duration d \<Longrightarrow> total_nanos d = n \<Longrightarrow> d = of_total n"
  using of_total_total by auto

lemma valid_of_total: "valid_duration (of_total n)"
proof -
  have "n mod 1000000000 < 2 ^ 32" using mod_less_divisor [of 1000000000 n] by simp
  then show ?thesis by (simp add: valid_duration_def of_total_def unat_of_nat)
qed

lemma total_of_total: "n < TOTAL_LIMIT \<Longrightarrow> total_nanos (of_total n) = n"
proof -
  assume "n < TOTAL_LIMIT"
  then have "n div 1000000000 < 2 ^ 64" by (simp add: TOTAL_LIMIT_def less_mult_imp_div_less)
  moreover have "n mod 1000000000 < 2 ^ 32" using mod_less_divisor [of 1000000000 n] by simp
  ultimately show ?thesis by (simp add: total_nanos_def of_total_def unat_of_nat)
qed

lemma total_less: "valid_duration d \<Longrightarrow> total_nanos d < TOTAL_LIMIT"
  using unat_lt_64 [of "d_secs d"] by (simp add: total_nanos_def valid_duration_def TOTAL_LIMIT_def)

lemma checked_add_exact:
  assumes "valid_duration a" "valid_duration b"
  shows "duration_checked_add chk a b = Ok (of_total_opt (total_nanos a + total_nanos b))"
proof -
  let ?s = "unat (d_secs a) + unat (d_secs b)" and ?n = "unat (d_nanos a) + unat (d_nanos b)"
  have n: "?n < 2000000000" using assms by (simp add: valid_duration_def)
  then have un: "unat (d_nanos a + d_nanos b) = ?n" by (subst unat_add_lem [THEN iffD1]) simp_all
  have add: "op_add chk False (d_nanos a) (d_nanos b) = Ok (d_nanos a + d_nanos b)"
    using n by (intro op_add_fits) simp
  have carry: "d_nanos a + d_nanos b \<ge> NANOS_PER_SEC \<longleftrightarrow> ?n \<ge> 1000000000"
    by (simp add: word_le_nat_alt un)
  show ?thesis
  proof (cases "?n \<ge> 1000000000")
    case True
    then have le: "NANOS_PER_SEC \<le> d_nanos a + d_nanos b" by (simp add: carry)
    then have us: "unat (d_nanos a + d_nanos b - NANOS_PER_SEC) = ?n - 1000000000"
      by (simp add: unat_sub un)
    have "duration_checked_add chk a b =
      Ok (if ?s + 1 < 2 ^ 64 then Some (Dur (d_secs a + d_secs b + 1) (d_nanos a + d_nanos b - NANOS_PER_SEC)) else None)"
      using le by (auto simp: duration_checked_add_def add op_sub_fits checked_unsigned unat_word_ariths)
    moreover have "?s + 1 < 2 ^ 64 \<longleftrightarrow> total_nanos a + total_nanos b < TOTAL_LIMIT"
      using True n by (auto simp: total_nanos_def TOTAL_LIMIT_def)
    moreover have "Dur (d_secs a + d_secs b + 1) (d_nanos a + d_nanos b - NANOS_PER_SEC) = of_total (total_nanos a + total_nanos b)"
      if "?s + 1 < 2 ^ 64" using that True n us
      by (intro of_total_eqI) (auto simp: valid_duration_def total_nanos_def unat_word_ariths)
    ultimately show ?thesis by (auto simp: of_total_opt_def)
  next
    case False
    then have "duration_checked_add chk a b =
      Ok (if ?s < 2 ^ 64 then Some (Dur (d_secs a + d_secs b) (d_nanos a + d_nanos b)) else None)"
      by (simp add: duration_checked_add_def add carry checked_unsigned)
    moreover have "?s < 2 ^ 64 \<longleftrightarrow> total_nanos a + total_nanos b < TOTAL_LIMIT"
      using False n by (auto simp: total_nanos_def TOTAL_LIMIT_def)
    moreover have "Dur (d_secs a + d_secs b) (d_nanos a + d_nanos b) = of_total (total_nanos a + total_nanos b)"
      if "?s < 2 ^ 64" using that False n un
      by (intro of_total_eqI) (auto simp: valid_duration_def total_nanos_def unat_word_ariths)
    ultimately show ?thesis by (auto simp: of_total_opt_def)
  qed
qed

lemma less_iff_total:
  assumes "valid_duration a" "valid_duration b"
  shows "duration_less a b \<longleftrightarrow> total_nanos a < total_nanos b"
proof -
  have "d_secs a \<noteq> d_secs b \<longleftrightarrow> unat (d_secs a) \<noteq> unat (d_secs b)" by (simp add: word_eq_unat)
  then show ?thesis using assms
    by (auto simp: duration_less_def total_nanos_def valid_duration_def word_less_nat_alt)
qed

lemma checked_sub_exact:
  assumes "valid_duration a" "valid_duration b"
  shows "duration_checked_sub chk a b =
    Ok (if total_nanos b \<le> total_nanos a then Some (of_total (total_nanos a - total_nanos b)) else None)"
proof (cases "total_nanos b \<le> total_nanos a")
  case False
  then have "duration_less a b" using less_iff_total [OF assms] by simp
  then show ?thesis using False by (auto simp: duration_less_def duration_checked_sub_def split: if_splits)
next
  case True
  then have "\<not> duration_less a b" using less_iff_total [OF assms] by simp
  then have g: "\<not> (d_secs a < d_secs b \<or> (d_secs a = d_secs b \<and> d_nanos a < d_nanos b))"
    by (auto simp: duration_less_def split: if_splits)
  then have s: "d_secs b \<le> d_secs a" by (simp add: not_less)
  have v: "unat (d_nanos a) < 1000000000" "unat (d_nanos b) < 1000000000"
    using assms by (simp_all add: valid_duration_def)
  show ?thesis
  proof (cases "d_nanos b \<le> d_nanos a")
    case ge: True
    then have "duration_checked_sub chk a b = Ok (Some (Dur (d_secs a - d_secs b) (d_nanos a - d_nanos b)))"
      using g s by (simp add: duration_checked_sub_def op_sub_fits)
    moreover have "Dur (d_secs a - d_secs b) (d_nanos a - d_nanos b) = of_total (total_nanos a - total_nanos b)"
      using ge s v by (intro of_total_eqI)
        (simp_all add: valid_duration_def total_nanos_def unat_sub word_le_nat_alt)
    ultimately show ?thesis using True by simp
  next
    case lt: False
    have "d_secs a \<noteq> d_secs b" using g lt by auto
    then have s1: "unat (d_secs b) < unat (d_secs a)" using s by (simp add: word_le_nat_alt word_eq_unat)
    have t: "unat (d_nanos a + NANOS_PER_SEC) = unat (d_nanos a) + 1000000000"
      using v by (subst unat_add_lem [THEN iffD1]) simp_all
    have d: "unat (d_secs a - d_secs b) = unat (d_secs a) - unat (d_secs b)" using s by (rule unat_sub)
    have le1: "1 \<le> d_secs a - d_secs b" using s1 by (simp add: word_le_nat_alt d)
    have le2: "d_nanos b \<le> d_nanos a + NANOS_PER_SEC" using v by (simp add: word_le_nat_alt t)
    have "duration_checked_sub chk a b =
      Ok (Some (Dur (d_secs a - d_secs b - 1) (d_nanos a + NANOS_PER_SEC - d_nanos b)))"
      using g s lt v le1 le2 by (simp add: duration_checked_sub_def op_sub_fits op_add_fits)
    moreover have "Dur (d_secs a - d_secs b - 1) (d_nanos a + NANOS_PER_SEC - d_nanos b) = of_total (total_nanos a - total_nanos b)"
      using lt s1 v t d unat_sub [OF le1] unat_sub [OF le2] by (intro of_total_eqI)
        (simp_all add: valid_duration_def total_nanos_def word_le_nat_alt)
    ultimately show ?thesis using True by simp
  qed
qed


text \<open>The 128-bit product and sum of \<open>as_nanos\<close>, \<open>checked_mul\<close> and \<open>checked_div\<close> never overflow.\<close>

lemma total_word:
  defines "per \<equiv> ucast NANOS_PER_SEC :: u128"
  shows "op_mul chk False (ucast (d_secs d) :: u128) per = Ok (ucast (d_secs d) * per)"
    and "op_add chk False (ucast (d_secs d) * per) (ucast (d_nanos d)) = Ok (of_nat (total_nanos d))"
proof -
  have per: "unat per = 1000000000" by (simp add: per_def NANOS_PER_SEC_def)
  have s: "unat (ucast (d_secs d) :: u128) = unat (d_secs d)"
    and n: "unat (ucast (d_nanos d) :: u128) = unat (d_nanos d)"
    using unat_lt_64 [of "d_secs d"] unat_lt_32 [of "d_nanos d"] by (simp_all add: unat_ucast_mod)
  have b: "unat (d_secs d) * 1000000000 < 2 ^ 94" using unat_lt_64 [of "d_secs d"] by simp
  then show "op_mul chk False (ucast (d_secs d) :: u128) per = Ok (ucast (d_secs d) * per)"
    by (intro op_mul_fits) (simp add: s per)
  have p: "unat (ucast (d_secs d) * per) = unat (d_secs d) * 1000000000"
    using b by (simp add: unat_word_ariths s per)
  have "ucast (d_secs d) * per + ucast (d_nanos d) = of_nat (total_nanos d)"
    unfolding word_eq_unat using b unat_lt_32 [of "d_nanos d"]
    by (simp add: unat_word_ariths s per n total_nanos_def unat_of_nat)
  moreover have "op_add chk False (ucast (d_secs d) * per) (ucast (d_nanos d)) = Ok (ucast (d_secs d) * per + ucast (d_nanos d))"
    using b unat_lt_32 [of "d_nanos d"] by (intro op_add_fits) (simp add: p n)
  ultimately show "op_add chk False (ucast (d_secs d) * per) (ucast (d_nanos d)) = Ok (of_nat (total_nanos d))" by simp
qed

lemma split_total:
  assumes "n < 2 ^ 128"
  shows "op_div False (of_nat n :: u128) (ucast NANOS_PER_SEC) = Ok (of_nat (n div 1000000000))"
    and "op_rem False (of_nat n :: u128) (ucast NANOS_PER_SEC) = Ok (of_nat (n mod 1000000000))"
proof -
  have per: "(ucast NANOS_PER_SEC :: u128) = 1000000000" by (simp add: NANOS_PER_SEC_def)
  have "(of_nat n :: u128) div 1000000000 = of_nat (n div 1000000000)"
    and "(of_nat n :: u128) mod 1000000000 = of_nat (n mod 1000000000)"
    unfolding word_eq_unat using assms div_le_dividend [of n 1000000000] mod_less_divisor [of 1000000000 n]
    by (simp_all add: unat_div unat_mod unat_of_nat)
  then show "op_div False (of_nat n :: u128) (ucast NANOS_PER_SEC) = Ok (of_nat (n div 1000000000))"
    and "op_rem False (of_nat n :: u128) (ucast NANOS_PER_SEC) = Ok (of_nat (n mod 1000000000))"
    unfolding per by (simp_all add: op_div_rem_unsigned)
qed

lemma checked_div_exact:
  assumes "valid_duration a"
  shows "duration_checked_div chk a k =
    Ok (if k = 0 then None else Some (of_total (total_nanos a div unat k)))"
proof (cases "k = 0")
  case False
  let ?v = "total_nanos a div unat k"
  have ta: "total_nanos a < 2 ^ 94" using total_less [OF assms] by (simp add: TOTAL_LIMIT_def)
  then have v: "?v < 2 ^ 94" using div_le_dividend [of "total_nanos a" "unat k"] by linarith
  have uk: "unat (ucast k :: u128) = unat k" using unat_lt_32 [of k] by (simp add: unat_ucast_mod)
  then have "(ucast k :: u128) \<noteq> 0" using False by (metis unat_eq_zero unsigned_0 word_eq_unat)
  moreover have "(of_nat (total_nanos a) :: u128) div ucast k = of_nat ?v"
    unfolding word_eq_unat using ta v by (simp add: unat_div unat_of_nat uk)
  ultimately have "op_div False (of_nat (total_nanos a) :: u128) (ucast k) = Ok (of_nat ?v)"
    by (simp add: op_div_rem_unsigned)
  moreover have "(ucast (of_nat (?v div 1000000000) :: u128) :: u64) = of_nat (?v div 1000000000)"
    and "(ucast (of_nat (?v mod 1000000000) :: u128) :: u32) = of_nat (?v mod 1000000000)"
    by (simp_all add: ucast_of_nat_down)
  ultimately show ?thesis using v False
    by (simp add: duration_checked_div_def Let_def total_word split_total of_total_def)
qed (simp add: duration_checked_div_def)

lemma checked_mul_exact:
  assumes "valid_duration a"
  shows "duration_checked_mul chk a k = Ok (of_total_opt (total_nanos a * unat k))"
proof -
  define v where "v = total_nanos a * unat k"
  have ta: "total_nanos a < 2 ^ 94" using total_less [OF assms] by (simp add: TOTAL_LIMIT_def)
  have "v \<le> total_nanos a * 4294967296" unfolding v_def using unat_lt_32 [of k] by (intro mult_le_mono) auto
  moreover have "total_nanos a * 4294967296 < 2 ^ 128" using ta by simp
  ultimately have vb: "v < 2 ^ 128" by (rule order_le_less_trans)
  have uk: "unat (ucast k :: u128) = unat k" using unat_lt_32 [of k] by (simp add: unat_ucast_mod)
  have "checked_mul False (of_nat (total_nanos a) :: u128) (ucast k) = Some (of_nat (total_nanos a) * ucast k)"
    using ta vb by (simp add: checked_unsigned uk unat_of_nat v_def)
  moreover have "(of_nat (total_nanos a) * ucast k :: u128) = of_nat v"
    unfolding word_eq_unat using ta by (simp add: unat_word_ariths uk unat_of_nat v_def)
  ultimately have m: "checked_mul False (of_nat (total_nanos a) :: u128) (ucast k) = Some (of_nat v)" by (simp only:)
  have d: "v div 1000000000 < 2 ^ 128" using vb div_le_dividend [of v 1000000000] by linarith
  have "unat (ucast (INT_MAX False :: u64) :: u128) = 2 ^ 64 - 1"
    by (simp add: INT_MAX_def unat_ucast_mod mask_eq_exp_minus_1 unsigned_minus_1_eq_mask)
  then have "(of_nat (v div 1000000000) :: u128) > ucast (INT_MAX False :: u64) \<longleftrightarrow> \<not> v < TOTAL_LIMIT"
    using d by (simp add: word_less_nat_alt unat_of_nat TOTAL_LIMIT_def) linarith
  then show ?thesis using vb unfolding v_def [symmetric]
    by (simp add: duration_checked_mul_def Let_def total_word split_total m of_total_opt_def of_total_def
        ucast_of_nat_down)
qed

lemma as_nanos_exact: "as_nanos chk d = Ok (of_nat (total_nanos d))"
  by (simp add: as_nanos_def total_word)

lemma valid_new:
  assumes "duration_new chk s n = Ok d"
  shows "valid_duration d"
  using assms by (auto simp: duration_new_def and_then_eq_Ok op_div_rem_unsigned NANOS_PER_SEC_def
      valid_duration_def unat_mod)


lemma div_mod_scale: "n div k * (k * c) + n mod k * c = n * (c :: nat)"
  by (metis add_mult_distrib div_mult_mod_eq mult.assoc)

lemma from_units_exact:
  "from_millis chk m = Ok (of_total (unat m * 1000000))"
  "from_micros chk m = Ok (of_total (unat m * 1000))"
  "from_nanos m = Ok (of_total (unat m))"
proof -
  have r: "unat (ucast (m mod 1000) * 1000000 :: u32) = unat m mod 1000 * 1000000"
    "unat (ucast (m mod 1000000) * 1000 :: u32) = unat m mod 1000000 * 1000"
    "unat (ucast (m mod 1000000000) :: u32) = unat m mod 1000000000"
    using mod_less_divisor [of 1000 "unat m"] mod_less_divisor [of 1000000 "unat m"] mod_less_divisor [of 1000000000 "unat m"]
    by (simp_all add: unat_word_ariths unat_ucast_mod unat_mod)
  have f: "op_mul chk False (ucast (m mod 1000) :: u32) 1000000 = Ok (ucast (m mod 1000) * 1000000)"
    "op_mul chk False (ucast (m mod 1000000) :: u32) 1000 = Ok (ucast (m mod 1000000) * 1000)"
    using mod_less_divisor [of 1000 "unat m"] mod_less_divisor [of 1000000 "unat m"]
    by (intro op_mul_fits; simp add: unat_ucast_mod unat_mod)+
  have "Dur (m div 1000) (ucast (m mod 1000) * 1000000) = of_total (unat m * 1000000)"
    using mod_less_divisor [of 1000 "unat m"] div_mod_scale [of "unat m" 1000 1000000]
    by (intro of_total_eqI) (simp_all add: valid_duration_def total_nanos_def r unat_div)
  then show "from_millis chk m = Ok (of_total (unat m * 1000000))"
    by (simp add: from_millis_def MILLIS_PER_SEC_def NANOS_PER_MILLI_def op_div_rem_unsigned f)
  have "Dur (m div 1000000) (ucast (m mod 1000000) * 1000) = of_total (unat m * 1000)"
    using mod_less_divisor [of 1000000 "unat m"] div_mod_scale [of "unat m" 1000000 1000]
    by (intro of_total_eqI) (simp_all add: valid_duration_def total_nanos_def r unat_div)
  then show "from_micros chk m = Ok (of_total (unat m * 1000))"
    by (simp add: from_micros_def MICROS_PER_SEC_def NANOS_PER_MICRO_def op_div_rem_unsigned f)
  have "Dur (m div 1000000000) (ucast (m mod 1000000000)) = of_total (unat m)"
    by (intro of_total_eqI) (simp_all add: valid_duration_def total_nanos_def r unat_div)
  then show "from_nanos m = Ok (of_total (unat m))"
    by (simp add: from_nanos_def NANOS_PER_SEC_def op_div_rem_unsigned)
qed

section \<open>Properties\<close>

text \<open>C27. Addition and subtraction of valid durations never panic, with or without overflow checks:
  \<open>checked_add\<close> and \<open>checked_sub\<close> return the valid duration of the exact sum and difference of
  nanoseconds, and \<open>None\<close> exactly when that number is not representable; the comparison is that of the
  numbers of nanoseconds.\<close>

theorem duration_add_sub_exact:
  assumes "valid_duration a" "valid_duration b"
  shows "duration_checked_add chk a b = Ok (of_total_opt (total_nanos a + total_nanos b))
    \<and> duration_checked_sub chk a b =
        Ok (if total_nanos b \<le> total_nanos a then of_total_opt (total_nanos a - total_nanos b) else None)
    \<and> (duration_less a b \<longleftrightarrow> total_nanos a < total_nanos b)
    \<and> (\<forall>n d. of_total_opt n = Some d \<longrightarrow> valid_duration d \<and> total_nanos d = n)"
  using order_le_less_trans [OF diff_le_self total_less [OF assms(1)], of "total_nanos b"]
  by (simp add: checked_add_exact [OF assms] checked_sub_exact [OF assms] less_iff_total [OF assms])
     (auto simp: of_total_opt_def valid_of_total total_of_total split: if_splits)

theorem duration_add_sub_exact_witness:
  "duration_checked_sub True (Dur 5 100) (Dur 3 200) = Ok (Some (Dur 1 999999900))
    \<and> duration_checked_add True (Dur 1 999999900) (Dur 3 200) = Ok (Some (Dur 5 100))"
  using duration_add_sub_exact [of "Dur 5 100" "Dur 3 200" True]
    duration_add_sub_exact [of "Dur 1 999999900" "Dur 3 200" True]
  by (simp add: valid_duration_def total_nanos_def of_total_opt_def TOTAL_LIMIT_def of_total_def)

text \<open>C28. Multiplication and division by a \<open>u32\<close> of a valid duration never panic and are exact on
  nanoseconds: the product is \<open>None\<close> exactly when it is not representable, the quotient exactly for
  the divisor 0; \<open>as_nanos\<close> and the constructors from milli-, micro- and nanoseconds are exact.\<close>

theorem duration_mul_div_exact:
  assumes "valid_duration a"
  shows "duration_checked_mul chk a k = Ok (of_total_opt (total_nanos a * unat k))
    \<and> duration_checked_div chk a k =
        Ok (if k = 0 then None else of_total_opt (total_nanos a div unat k))
    \<and> as_nanos chk a = Ok (of_nat (total_nanos a))
    \<and> from_millis chk m = Ok (of_total (unat m * 1000000))
    \<and> from_micros chk m = Ok (of_total (unat m * 1000))
    \<and> from_nanos m = Ok (of_total (unat m))"
  using order_le_less_trans [OF div_le_dividend total_less [OF assms], of "unat k"]
  by (simp add: checked_mul_exact [OF assms] checked_div_exact [OF assms] as_nanos_exact from_units_exact
      of_total_opt_def)

theorem duration_mul_div_exact_witness:
  "duration_checked_mul True (Dur 1 500000000) 3 = Ok (Some (Dur 4 500000000))
    \<and> duration_checked_div True (Dur 1 500000000) 0 = Ok None
    \<and> from_millis True 1500 = Ok (Dur 1 500000000)"
  using duration_mul_div_exact [of "Dur 1 500000000" True 3 1500]
    duration_mul_div_exact [of "Dur 1 500000000" True 0 1500]
  by (simp add: valid_duration_def total_nanos_def of_total_opt_def TOTAL_LIMIT_def of_total_def)

end
