(* ===== verification/Calendar.thy ===== *)
theory Calendar
  imports Duration
begin

text \<open>
  The proleptic Gregorian calendar of src/std/src/time/calendar.cppm: the day-number arithmetic of
  \<open>calendar_detail\<close>, the classes \<open>Month\<close>, \<open>Date\<close>, \<open>Time\<close>, \<open>PlainDateTime\<close>, \<open>UtcOffset\<close> and
  \<open>OffsetDateTime\<close>.  The raw \<open>int64_t\<close> of the code are integers here; \<open>odt_unix_time_bounds\<close> and
  \<open>civil_from_days_bounds\<close> show that no intermediate value leaves the range of \<open>int64_t\<close>.  C++ division
  truncates: \<open>trunc_div\<close> and \<open>trunc_rem\<close> of \<open>Integers\<close>.  A month is its number.  The lookup of the
  system's time zone and clock is not modelled.
\<close>

section \<open>Day numbers\<close>

definition floor_div :: "int \<Rightarrow> int \<Rightarrow> int" where
  "floor_div v divisor =
    (let quotient = trunc_div v divisor; remainder = trunc_rem v divisor
     in if remainder < 0 then quotient - 1 else quotient)"

definition rem_euclid :: "int \<Rightarrow> int \<Rightarrow> int" where
  "rem_euclid v divisor =
    (let remainder = trunc_rem v divisor in if remainder < 0 then remainder + divisor else remainder)"

definition days_from_civil :: "int \<Rightarrow> int \<Rightarrow> int \<Rightarrow> int" where
  "days_from_civil year0 month day =
    (let year = year0 - (if month \<le> 2 then 1 else 0);
         era = floor_div year 400;
         year_of_era = year - era * 400;
         adjusted_month = month + (if month > 2 then -3 else 9);
         day_of_year = trunc_div (153 * adjusted_month + 2) 5 + day - 1;
         day_of_era = year_of_era * 365 + trunc_div year_of_era 4 - trunc_div year_of_era 100 + day_of_year
     in era * 146097 + day_of_era - 719468)"

text \<open>\<open>CivilDate\<close> is the triple of year, month and day; the casts to \<open>uint8_t\<close> are written out.\<close>

type_synonym civil_date = "int \<times> int \<times> int"

definition civil_from_days :: "int \<Rightarrow> civil_date" where
  "civil_from_days days =
    (let shifted = days + 719468;
         era = (if shifted \<ge> 0 then trunc_div shifted 146097 else trunc_div (shifted - 146096) 146097);
         day_of_era = shifted - era * 146097;
         year_of_era = trunc_div (day_of_era - trunc_div day_of_era 1460 + trunc_div day_of_era 36524
                                    - trunc_div day_of_era 146096) 365;
         year = year_of_era + era * 400;
         day_of_year = day_of_era - (365 * year_of_era + trunc_div year_of_era 4 - trunc_div year_of_era 100);
         month_prime = trunc_div (5 * day_of_year + 2) 153;
         day = day_of_year - trunc_div (153 * month_prime + 2) 5 + 1;
         month = month_prime + (if month_prime < 10 then 3 else -9)
     in (year + (if month \<le> 2 then 1 else 0), month mod 256, day mod 256))"

section \<open>Dates\<close>

datatype component_range = ComponentRange (cr_name: string) (cr_conditional: bool)

abbreviation unconditional :: "string \<Rightarrow> component_range" where
  "unconditional n \<equiv> ComponentRange n False"

abbreviation conditional :: "string \<Rightarrow> component_range" where
  "conditional n \<equiv> ComponentRange n True"

definition from_number :: "int \<Rightarrow> (component_range, int) result" where
  "from_number number =
    (if number < 1 \<or> number > 12 then Err (unconditional ''month'') else Ok number)"

record date =
  d_year :: int
  d_ordinal :: int

abbreviation mk_date :: "int \<Rightarrow> int \<Rightarrow> date" where
  "mk_date y n \<equiv> \<lparr>d_year = y, d_ordinal = n\<rparr>"

definition MIN_YEAR :: int where "MIN_YEAR = -9999"
definition MAX_YEAR :: int where "MAX_YEAR = 9999"

definition is_leap_year :: "int \<Rightarrow> bool" where
  "is_leap_year raw \<longleftrightarrow>
    trunc_rem raw 4 = 0 \<and> (trunc_rem raw 25 \<noteq> 0 \<or> trunc_rem raw 16 = 0)"

definition days_in_month :: "int \<Rightarrow> int \<Rightarrow> int" where
  "days_in_month year month =
    (if month = 2 then (if is_leap_year year then 29 else 28)
     else if month = 4 \<or> month = 6 \<or> month = 9 \<or> month = 11 then 30
     else 31)"

text \<open>\<open>None\<close> is the \<open>unreachable()\<close> after the loop.\<close>

function month_day_loop :: "int \<Rightarrow> int \<Rightarrow> int \<Rightarrow> (int \<times> int) option" where
  "month_day_loop year number remaining =
    (if number \<le> 12 then
       (let count = days_in_month year number in
        if remaining \<le> count then Some (number, remaining mod 256)
        else month_day_loop year (number + 1) (remaining - count))
     else None)"
  by pat_completeness auto
termination
  by (relation "measure (\<lambda>(y, number, r). nat (13 - number))") auto

declare month_day_loop.simps [simp del]

definition month_day :: "date \<Rightarrow> (int \<times> int) option" where
  "month_day d = month_day_loop (d_year d) 1 (d_ordinal d)"

definition days_since_unix_epoch :: "date \<Rightarrow> int option" where
  "days_since_unix_epoch d =
    (case month_day d of None \<Rightarrow> None | Some (m, dd) \<Rightarrow> Some (days_from_civil (d_year d) m dd))"

function ordinal_loop :: "int \<Rightarrow> int \<Rightarrow> int \<Rightarrow> int \<Rightarrow> int" where
  "ordinal_loop year month number ordinal =
    (if number < month then ordinal_loop year month (number + 1) (ordinal + days_in_month year number)
     else ordinal)"
  by pat_completeness auto
termination
  by (relation "measure (\<lambda>(y, month, number, r). nat (month - number))") auto

declare ordinal_loop.simps [simp del]

definition from_calendar_date :: "int \<Rightarrow> int \<Rightarrow> int \<Rightarrow> (component_range, date) result" where
  "from_calendar_date year month day =
    (if year < MIN_YEAR \<or> year > MAX_YEAR then Err (unconditional ''year'')
     else if month < 1 \<or> month > 12 then Err (unconditional ''month'')
     else
       let month_days = days_in_month year month in
       if day = 0 \<or> day > month_days then Err (conditional ''day'')
       else Ok (mk_date year (ordinal_loop year month 1 day)))"

definition from_ordinal_date :: "int \<Rightarrow> int \<Rightarrow> (component_range, date) result" where
  "from_ordinal_date year ordinal =
    (if year < MIN_YEAR \<or> year > MAX_YEAR then Err (unconditional ''year'')
     else
       let maximum = (if is_leap_year year then 366 else 365) in
       if ordinal = 0 \<or> ordinal > maximum then Err (conditional ''ordinal'')
       else Ok (mk_date year ordinal))"

definition from_days_since_unix_epoch :: "int \<Rightarrow> (component_range, date) result" where
  "from_days_since_unix_epoch days =
    (let (cy, cm, cd) = civil_from_days days in
     if cy < MIN_YEAR \<or> cy > MAX_YEAR then Err (unconditional ''timestamp'')
     else
       case from_number cm of
         Err e \<Rightarrow> Err (unconditional ''timestamp'')
       | Ok month \<Rightarrow> from_calendar_date cy month cd)"

section \<open>Times, offsets, instants\<close>

record time =
  t_hour :: int
  t_minute :: int
  t_second :: int
  t_nanosecond :: int

definition from_hms_nano :: "int \<Rightarrow> int \<Rightarrow> int \<Rightarrow> int \<Rightarrow> (component_range, time) result" where
  "from_hms_nano hour minute second nanosecond =
    (if hour \<ge> 24 then Err (unconditional ''hour'')
     else if minute \<ge> 60 then Err (unconditional ''minute'')
     else if second \<ge> 60 then Err (unconditional ''second'')
     else if nanosecond \<ge> 1000000000 then Err (unconditional ''nanosecond'')
     else Ok \<lparr>t_hour = hour, t_minute = minute, t_second = second, t_nanosecond = nanosecond\<rparr>)"

record plain_date_time =
  pdt_date :: date
  pdt_time :: time

definition from_whole_seconds :: "int \<Rightarrow> (component_range, int) result" where
  "from_whole_seconds seconds =
    (if seconds < -86399 \<or> seconds > 86399 then Err (unconditional ''offset'') else Ok seconds)"

record offset_date_time =
  odt_local :: plain_date_time
  odt_offset :: int

definition from_local_seconds :: "int \<Rightarrow> int \<Rightarrow> int \<Rightarrow> (component_range, offset_date_time) result" where
  "from_local_seconds seconds nanoseconds offset =
    (if nanoseconds \<ge> 1000000000 then Err (unconditional ''nanosecond'')
     else
       let days = floor_div seconds 86400; within_day = rem_euclid seconds 86400 in
       case from_days_since_unix_epoch days of
         Err e \<Rightarrow> Err (unconditional ''timestamp'')
       | Ok date \<Rightarrow>
           (let hour = trunc_div within_day 3600;
                minute = trunc_div (trunc_rem within_day 3600) 60;
                second = trunc_rem within_day 60
            in case from_hms_nano (hour mod 256) (minute mod 256) (second mod 256) nanoseconds of
                 Err e \<Rightarrow> Err (unconditional ''timestamp'')
               | Ok time \<Rightarrow> Ok \<lparr>odt_local = \<lparr>pdt_date = date, pdt_time = time\<rparr>, odt_offset = offset\<rparr>))"

definition from_unix_time :: "int \<Rightarrow> int \<Rightarrow> (component_range, offset_date_time) result" where
  "from_unix_time seconds nanoseconds = from_local_seconds seconds nanoseconds 0"

text \<open>\<open>UnixTime\<close> is the pair of seconds and nanoseconds.\<close>

definition unix_time :: "offset_date_time \<Rightarrow> (int \<times> int) option" where
  "unix_time odt =
    (case days_since_unix_epoch (pdt_date (odt_local odt)) of
       None \<Rightarrow> None
     | Some days \<Rightarrow>
         (let t = pdt_time (odt_local odt);
              date_seconds = days * 86400;
              time_seconds = t_hour t * 3600 + t_minute t * 60 + t_second t
          in Some (date_seconds + time_seconds - odt_offset odt, t_nanosecond t)))"

definition checked_to_offset :: "offset_date_time \<Rightarrow> int \<Rightarrow> offset_date_time option" where
  "checked_to_offset odt offset =
    (case unix_time odt of
       None \<Rightarrow> None
     | Some (secs, nanos) \<Rightarrow>
         if \<not> fits True TYPE(i64) (secs + offset) then None
         else
           case from_local_seconds (secs + offset) nanos offset of
             Err e \<Rightarrow> None
           | Ok converted \<Rightarrow> Some converted)"

section \<open>Specification\<close>

definition leap :: "int \<Rightarrow> bool" where
  "leap y \<longleftrightarrow> 4 dvd y \<and> (\<not> 100 dvd y \<or> 400 dvd y)"

definition valid_civil :: "int \<Rightarrow> int \<Rightarrow> int \<Rightarrow> bool" where
  "valid_civil y m d \<longleftrightarrow> 1 \<le> m \<and> m \<le> 12 \<and> 1 \<le> d \<and> d \<le> days_in_month y m"

definition valid_date :: "date \<Rightarrow> bool" where
  "valid_date d \<longleftrightarrow> MIN_YEAR \<le> d_year d \<and> d_year d \<le> MAX_YEAR \<and>
     1 \<le> d_ordinal d \<and> d_ordinal d \<le> (if leap (d_year d) then 366 else 365)"

definition valid_time :: "time \<Rightarrow> bool" where
  "valid_time t \<longleftrightarrow> 0 \<le> t_hour t \<and> t_hour t < 24 \<and> 0 \<le> t_minute t \<and> t_minute t < 60 \<and>
     0 \<le> t_second t \<and> t_second t < 60 \<and> 0 \<le> t_nanosecond t \<and> t_nanosecond t < 1000000000"

definition valid_odt :: "offset_date_time \<Rightarrow> bool" where
  "valid_odt odt \<longleftrightarrow> valid_date (pdt_date (odt_local odt)) \<and> valid_time (pdt_time (odt_local odt)) \<and>
     -86399 \<le> odt_offset odt \<and> odt_offset odt \<le> 86399"

definition era_day :: "int \<Rightarrow> int \<Rightarrow> int \<Rightarrow> int \<Rightarrow> bool" where
  "era_day c b a doy \<longleftrightarrow> 0 \<le> c \<and> c \<le> 3 \<and> 0 \<le> b \<and> b \<le> 24 \<and> 0 \<le> a \<and> a \<le> 3 \<and> 0 \<le> doy \<and> doy \<le> 365 \<and>
     (doy = 365 \<longrightarrow> a = 3 \<and> (b = 24 \<longrightarrow> c = 3))"

definition month_len :: "int \<Rightarrow> int" where
  "month_len mp = (if mp \<in> {1, 3, 6, 8} then 30 else if mp = 11 then 29 else 31)"

definition month_sum :: "int \<Rightarrow> int \<Rightarrow> int \<Rightarrow> int" where
  "month_sum y k m = sum (days_in_month y) {k..<m}"

definition year_start :: "int \<Rightarrow> int" where
  "year_start y = 365 * y + y div 4 - y div 100 + y div 400"

definition sample_odt :: offset_date_time where
  "sample_odt = \<lparr>odt_local = \<lparr>pdt_date = mk_date 2000 60,
     pdt_time = \<lparr>t_hour = 23, t_minute = 59, t_second = 59, t_nanosecond = 5\<rparr>\<rparr>, odt_offset = 0\<rparr>"

section \<open>Division\<close>

lemma floor_div_eq: "0 < k \<Longrightarrow> floor_div v k = v div k"
proof -
  assume k: "0 < k"
  show ?thesis
  proof (cases "0 \<le> v")
    case True
    then show ?thesis using k
      by (simp add: floor_div_def Let_def trunc_div_nonneg trunc_rem_nonneg not_less)
  next
    case False
    then have t: "trunc_div v k = - ((- v) div k)" "trunc_rem v k = - ((- v) mod k)"
      using k by (simp_all add: trunc_div_def trunc_rem_eq)
    have m: "0 \<le> (- v) mod k" using k by simp
    have "k \<noteq> v mod k" using pos_mod_bound [OF k, of v] by linarith
    then show ?thesis unfolding floor_div_def Let_def t using m k
      by (simp add: zdiv_zminus1_eq_if zmod_zminus1_eq_if split: if_splits)
  qed
qed

lemma rem_euclid_eq: "0 < k \<Longrightarrow> rem_euclid v k = v mod k"
proof -
  assume k: "0 < k"
  have "rem_euclid v k = v - floor_div v k * k"
    by (simp add: rem_euclid_def floor_div_def Let_def trunc_rem_def algebra_simps)
  then show ?thesis using k by (simp add: floor_div_eq minus_div_mult_eq_mod)
qed

lemma trunc_rem_0_iff: "k \<noteq> 0 \<Longrightarrow> trunc_rem v k = 0 \<longleftrightarrow> k dvd v"
  by (auto simp: trunc_rem_eq sgn_0_0 mod_eq_0_iff_dvd)

section \<open>Years within an era of 400 years\<close>

text \<open>A day of an era is written as centuries \<open>c\<close>, four-year cycles \<open>b\<close>, years \<open>a\<close> and day of year.\<close>

lemma div_eqI: "k * q \<le> n \<Longrightarrow> n < k * q + k \<Longrightarrow> 0 < k \<Longrightarrow> n div k = (q :: int)"
  by (rule int_div_pos_eq [of _ _ _ "n - k * q"]) simp_all

lemma era_day_bounds:
  "era_day c b a doy \<Longrightarrow> 0 \<le> 36524 * c + 1461 * b + 365 * a + doy"
  "era_day c b a doy \<Longrightarrow> 36524 * c + 1461 * b + 365 * a + doy \<le> 146096"
  unfolding era_day_def by (linarith, (cases "doy = 365"; cases "b = 24"; linarith))

lemma year_of_era_recover:
  assumes "era_day c b a doy"
  defines "doe \<equiv> 36524 * c + 1461 * b + 365 * a + doy"
  shows "(doe - doe div 1460 + doe div 36524 - doe div 146096) div 365 = 100 * c + 4 * b + a"
proof -
  note e = assms(1)[unfolded era_day_def]
  define \<delta> :: int where "\<delta> = (if 24 * c + b + 365 * a + doy \<ge> 1460 then 1 else 0)"
  have q: "doe div 1460 = 25 * c + b + \<delta>"
    by (rule div_eqI) (use e in \<open>auto simp: doe_def \<delta>_def\<close>)
  have r: "doe div 36524 - doe div 146096 = c"
  proof (cases "doe = 146096")
    case True
    then have "c = 3" using e era_day_bounds(2) [OF assms(1)] unfolding doe_def
      by (cases "doy = 365"; cases "b = 24") linarith+
    then show ?thesis by (simp add: True)
  next
    case False
    then have "doe < 146096" "0 \<le> doe" using era_day_bounds [OF assms(1)] by (auto simp: doe_def)
    moreover have "doe div 36524 = c"
      by (rule div_eqI) (use e False in \<open>auto simp: doe_def\<close>)
    ultimately show ?thesis by simp
  qed
  have "doy - \<delta> \<ge> 0" "doy - \<delta> \<le> 364" using e by (auto simp: \<delta>_def)
  then have "(365 * (100 * c + 4 * b + a) + (doy - \<delta>)) div 365 = 100 * c + 4 * b + a"
    by (intro div_eqI) auto
  moreover have "doe - doe div 1460 + doe div 36524 - doe div 146096 = 365 * (100 * c + 4 * b + a) + (doy - \<delta>)"
    using q r by (simp add: doe_def)
  ultimately show ?thesis by simp
qed

lemma era_day_exists:
  assumes "0 \<le> doe" "doe \<le> 146096"
  obtains c b a doy where "era_day c b a doy" "doe = 36524 * c + 1461 * b + 365 * a + doy"
proof -
  define c where "c = min 3 (doe div 36524)"
  define r where "r = doe - 36524 * c"
  have r: "0 \<le> c" "c \<le> 3" "0 \<le> r" "r \<le> 36524" "r = 36524 \<longrightarrow> c = 3"
    using assms unfolding r_def c_def by (auto simp: min_def)
  define b where "b = r div 1461"
  define r2 where "r2 = r mod 1461"
  have b: "r = 1461 * b + r2" "0 \<le> r2" "r2 \<le> 1460" by (simp_all add: b_def r2_def)
  then have b': "0 \<le> b" "b \<le> 24" using r by linarith+
  define a where "a = min 3 (r2 div 365)"
  define doy where "doy = r2 - 365 * a"
  have a: "0 \<le> a" "a \<le> 3" "0 \<le> doy" "doy \<le> 365" "doy = 365 \<longrightarrow> a = 3"
    using b unfolding doy_def a_def by (auto simp: min_def)
  have "doy = 365 \<and> b = 24 \<longrightarrow> c = 3" using a b r unfolding doy_def by auto
  then have "era_day c b a doy" using r b' a by (auto simp: era_day_def)
  moreover have "doe = 36524 * c + 1461 * b + 365 * a + doy" using b by (simp add: r_def doy_def)
  ultimately show thesis by (rule that)
qed

section \<open>Months within a year that starts in March\<close>

lemma month_cases: "0 \<le> mp \<Longrightarrow> mp \<le> 11 \<Longrightarrow> mp \<in> {0, 1, 2, 3, 4, 5, 6, 7, 8, 9, 10, 11}" for mp :: int
  unfolding insert_iff empty_iff by presburger

lemma month_recover:
  assumes "0 \<le> mp" "mp \<le> 11" "1 \<le> d" "d \<le> month_len mp"
  defines "doy \<equiv> (153 * mp + 2) div 5 + d - 1"
  shows "(5 * doy + 2) div 153 = mp" "0 \<le> doy" "doy \<le> 365"
proof -
  have "mp \<in> {0, 1, 2, 3, 4, 5, 6, 7, 8, 9, 10, 11}" using assms month_cases by blast
  then have "(5 * doy + 2) div 153 = mp \<and> 0 \<le> doy \<and> doy \<le> 365"
    using assms(3,4) by (auto simp: doy_def month_len_def intro!: div_eqI)
  then show "(5 * doy + 2) div 153 = mp" "0 \<le> doy" "doy \<le> 365" by auto
qed

lemma month_exists:
  assumes "0 \<le> doy" "doy \<le> 365"
  obtains mp d where "0 \<le> mp" "mp \<le> 11" "1 \<le> d" "d \<le> month_len mp" "doy = (153 * mp + 2) div 5 + d - 1"
proof -
  define mp where "mp = (5 * doy + 2) div 153"
  define d where "d = doy - (153 * mp + 2) div 5 + 1"
  define r where "r = (5 * doy + 2) mod 153"
  have r: "5 * doy + 2 = 153 * mp + r" "0 \<le> r" "r < 153"
    unfolding r_def mp_def by simp_all
  then have mp: "0 \<le> mp" "mp \<le> 11" "153 * mp \<le> 5 * doy + 2" "5 * doy + 2 < 153 * mp + 153"
    using assms by linarith+
  then have "mp \<in> {0, 1, 2, 3, 4, 5, 6, 7, 8, 9, 10, 11}" using month_cases by blast
  then have "1 \<le> d \<and> d \<le> month_len mp"
    using mp(3,4) assms by (auto simp: d_def month_len_def)
  moreover have "doy = (153 * mp + 2) div 5 + d - 1" by (simp add: d_def)
  ultimately show thesis using that [OF mp(1,2)] by blast
qed

section \<open>Civil dates and day numbers\<close>

lemma is_leap_year_eq: "is_leap_year y \<longleftrightarrow> leap y"
proof -
  have co: "coprime (4 :: int) 25" "coprime (16 :: int) 25" by (simp_all add: coprime_iff_gcd_eq_1 gcd_code_int)
  have m: "(100 :: int) = 4 * 25" "(400 :: int) = 16 * 25" by simp_all
  have c: "100 dvd y \<longleftrightarrow> 4 dvd y \<and> 25 dvd y" "400 dvd y \<longleftrightarrow> 16 dvd y \<and> 25 dvd y"
    unfolding m using divides_mult [OF _ _ co(1)] divides_mult [OF _ _ co(2)] dvd_mult_left dvd_mult_right
    by metis+
  have "16 dvd y \<Longrightarrow> 4 dvd y" by (rule dvd_trans [of 4 16]) simp_all
  then show ?thesis by (auto simp: is_leap_year_def leap_def trunc_rem_0_iff c)
qed

lemma civil_from_days_era:
  assumes e: "era_day c b a doy" and mp: "0 \<le> mp" "mp \<le> 11" "1 \<le> d" "d \<le> month_len mp"
    and doy: "doy = (153 * mp + 2) div 5 + d - 1"
  shows "civil_from_days (era * 146097 + (36524 * c + 1461 * b + 365 * a + doy) - 719468) =
    (100 * c + 4 * b + a + era * 400 + (if mp < 10 then 0 else 1), if mp < 10 then mp + 3 else mp - 9, d)"
proof -
  define doe where "doe = 36524 * c + 1461 * b + 365 * a + doy"
  define yoe where "yoe = 100 * c + 4 * b + a"
  have doe: "0 \<le> doe" "doe \<le> 146096" using era_day_bounds [OF e] by (simp_all add: doe_def)
  have y: "(doe - doe div 1460 + doe div 36524 - doe div 146096) div 365 = yoe"
    unfolding doe_def yoe_def by (rule year_of_era_recover [OF e])
  have yoe: "0 \<le> yoe" "yoe div 4 = 25 * c + b" "yoe div 100 = c"
    using e by (auto simp: era_day_def yoe_def intro!: div_eqI)
  have "doe div 1460 \<le> doe" "doe div 146096 \<le> doe div 36524"
    using zdiv_mono2 [of doe 1 1460] zdiv_mono2 [of doe 36524 146096] doe by simp_all
  then have pos: "0 \<le> doe - doe div 1460 + doe div 36524 - doe div 146096" by linarith
  have sh: "(era * 146097 + doe - 719468) + 719468 = era * 146097 + doe" by simp
  have era: "(if era * 146097 + doe \<ge> 0 then trunc_div (era * 146097 + doe) 146097
      else trunc_div (era * 146097 + doe - 146096) 146097) = era"
  proof (cases "era * 146097 + doe \<ge> 0")
    case True
    then show ?thesis using doe by (simp add: trunc_div_nonneg)
  next
    case False
    then have "trunc_div (era * 146097 + doe - 146096) 146097 = - ((- (era * 146097 + doe - 146096)) div 146097)"
      by (simp add: trunc_div_def)
    also have "(- (era * 146097 + doe - 146096)) div 146097 = - era"
      by (rule div_eqI) (use doe in simp_all)
    finally show ?thesis using False by simp
  qed
  have rest: "doe - (365 * yoe + yoe div 4 - yoe div 100) = doy"
    by (simp add: yoe) (simp add: yoe_def doe_def)
  have m: "(5 * doy + 2) div 153 = mp" "0 \<le> doy" using month_recover [OF mp] by (simp_all add: doy)
  have d: "doy - (153 * mp + 2) div 5 + 1 = d" by (simp add: doy)
  have b: "d mod 256 = d" "(if mp < 10 then mp + 3 else mp - 9) mod 256 = (if mp < 10 then mp + 3 else mp - 9)"
    using mp by (auto simp: month_len_def split: if_splits)
  show ?thesis unfolding doe_def [symmetric]
    unfolding civil_from_days_def Let_def sh era
    using doe yoe(1) pos m(2) mp(1,2)
    by (simp add: trunc_div_nonneg y rest m d b yoe_def [symmetric])
qed

lemma days_in_month_len:
  "1 \<le> m \<Longrightarrow> m \<le> 12 \<Longrightarrow> days_in_month y m =
     (if m = 2 \<and> \<not> leap y then 28 else month_len (if m > 2 then m - 3 else m + 9))"
  using month_cases [of "m - 1"] by (auto simp: days_in_month_def month_len_def is_leap_year_eq)

lemma days_from_civil_eq:
  assumes "1 \<le> m" "m \<le> 12"
    and "y' = y - (if m \<le> 2 then 1 else 0)"
  shows "days_from_civil y m d = y' div 400 * 146097
    + (y' mod 400 * 365 + y' mod 400 div 4 - y' mod 400 div 100
       + ((153 * (if m > 2 then m - 3 else m + 9) + 2) div 5 + d - 1)) - 719468"
proof -
  have m: "m + (if m > 2 then -3 else 9) = (if m > 2 then m - 3 else m + 9)" by simp
  have f: "floor_div y' 400 = y' div 400" by (rule floor_div_eq) simp
  show ?thesis
    unfolding days_from_civil_def Let_def assms(3) [symmetric] m f minus_div_mult_eq_mod
    using assms(1,2) by (simp add: trunc_div_nonneg)
qed

lemma leap_last_year:
  assumes "leap (400 * k + (100 * c + 4 * b + a) + 1)" "0 \<le> a" "a \<le> 3" "0 \<le> c" "c \<le> 3"
  shows "a = 3 \<and> (b = 24 \<longrightarrow> c = 3)"
proof -
  have "4 dvd 4 * (100 * k + 25 * c + b) + (a + 1)" using assms(1) by (simp add: leap_def algebra_simps)
  then have "4 dvd a + 1" by (simp only: dvd_add_right_iff dvd_triv_left)
  then have a: "a = 3" using assms(2,3) zdvd_imp_le [of 4 "a + 1"] by simp
  moreover have "c = 3" if "b = 24"
  proof -
    have eq: "400 * k + (100 * c + 4 * b + a) + 1 = 100 * (4 * k + (c + 1))" using a that by simp
    have "100 dvd 400 * k + (100 * c + 4 * b + a) + 1" unfolding eq by (rule dvd_triv_left)
    then have "400 dvd 400 * k + (100 * c + 4 * b + a) + 1" using assms(1) unfolding leap_def by blast
    then have "100 * 4 dvd 100 * (4 * k + (c + 1))" unfolding eq by simp
    then have "4 dvd 4 * k + (c + 1)" by (simp only: dvd_mult_cancel_left) simp
    then have "4 dvd c + 1" by (simp only: dvd_add_right_iff dvd_triv_left)
    then show ?thesis using assms(4,5) zdvd_imp_le [of 4 "c + 1"] by simp
  qed
  ultimately show ?thesis by simp
qed

lemma civil_decompose:
  assumes "valid_civil y m d"
  obtains era c b a doy mp where "era_day c b a doy" "0 \<le> mp" "mp \<le> 11" "1 \<le> d" "d \<le> month_len mp"
    "doy = (153 * mp + 2) div 5 + d - 1"
    "days_from_civil y m d = era * 146097 + (36524 * c + 1461 * b + 365 * a + doy) - 719468"
    "y = 100 * c + 4 * b + a + era * 400 + (if mp < 10 then 0 else 1)" "m = (if mp < 10 then mp + 3 else mp - 9)"
proof -
  define mp where "mp = (if m > 2 then m - 3 else m + 9)"
  define y' where "y' = y - (if m \<le> 2 then 1 else 0)"
  define c where "c = y' mod 400 div 100"
  define b where "b = y' mod 400 mod 100 div 4"
  define a where "a = y' mod 400 mod 100 mod 4"
  define doy where "doy = (153 * mp + 2) div 5 + d - 1"
  from assms have m: "1 \<le> m" "m \<le> 12" and d: "1 \<le> d" "d \<le> days_in_month y m"
    by (auto simp: valid_civil_def)
  have mp: "0 \<le> mp" "mp \<le> 11" "m = (if mp < 10 then mp + 3 else mp - 9)" using m by (auto simp: mp_def)
  have len: "d \<le> month_len mp"
    using d(2) days_in_month_len [OF m, of y] by (auto simp: mp_def month_len_def split: if_splits)
  have doy: "0 \<le> doy" "doy \<le> 365" using month_recover [OF mp(1,2) d(1) len] by (simp_all add: doy_def)
  have feb: "mp = 11 \<and> leap (y' + 1)" if "doy = 365"
  proof -
    have "mp = 11 \<and> d = 29" using that month_cases [OF mp(1,2)] len d(1)
      by (auto simp: doy_def month_len_def)
    then show ?thesis using d(2) m days_in_month_len [OF m, of y] by (auto simp: mp_def y'_def split: if_splits)
  qed
  have ym: "y' mod 400 = 100 * c + 4 * b + a" "y' = 400 * (y' div 400) + y' mod 400"
    unfolding c_def b_def a_def by (simp_all add: add.assoc)
  have r: "0 \<le> c" "c \<le> 3" "0 \<le> b" "b \<le> 24" "0 \<le> a" "a \<le> 3"
    using pos_mod_bound [of 400 y'] pos_mod_bound [of 100 "y' mod 400"] pos_mod_bound [of 4 "y' mod 400 mod 100"]
    unfolding c_def b_def a_def by (auto simp: div_int_pos_iff)
  have yy: "y' = 400 * (y' div 400) + (100 * c + 4 * b + a)" using ym by linarith
  have "a = 3 \<and> (b = 24 \<longrightarrow> c = 3)" if "doy = 365"
    using feb [OF that] r leap_last_year [of "y' div 400" c b a] unfolding yy [symmetric] by simp
  then have "era_day c b a doy" using r doy by (auto simp: era_day_def)
  moreover have "y' mod 400 div 4 = 25 * c + b" "y' mod 400 div 100 = c"
    unfolding ym(1) using r by (auto intro!: div_eqI)
  then have "days_from_civil y m d = (y' div 400) * 146097 + (36524 * c + 1461 * b + 365 * a + doy) - 719468"
    unfolding days_from_civil_eq [OF m y'_def] mp_def [symmetric] doy_def [symmetric] by (simp add: ym(1))
  moreover have "y = 100 * c + 4 * b + a + (y' div 400) * 400 + (if mp < 10 then 0 else 1)"
  proof -
    have "y = y' + (if mp < 10 then 0 else 1)" using m by (auto simp: y'_def mp_def)
    then show ?thesis using yy by linarith
  qed
  ultimately show thesis using that [of c b a doy mp "y' div 400"] mp d len by (simp add: doy_def)
qed

lemma civil_of_days: "valid_civil y m d \<Longrightarrow> civil_from_days (days_from_civil y m d) = (y, m, d)"
proof (elim civil_decompose)
  fix era c b a doy mp
  assume e: "era_day c b a doy" and mp: "0 \<le> mp" "mp \<le> 11" "1 \<le> d" "d \<le> month_len mp"
    and doy: "doy = (153 * mp + 2) div 5 + d - 1"
    and days: "days_from_civil y m d = era * 146097 + (36524 * c + 1461 * b + 365 * a + doy) - 719468"
    and y: "y = 100 * c + 4 * b + a + era * 400 + (if mp < 10 then 0 else 1)" "m = (if mp < 10 then mp + 3 else mp - 9)"
  show ?thesis unfolding days civil_from_days_era [OF e mp doy] by (simp add: y)
qed

lemma days_decompose:
  obtains era c b a doy mp d where "era_day c b a doy" "0 \<le> mp" "mp \<le> 11" "1 \<le> d" "d \<le> month_len mp"
    "doy = (153 * mp + 2) div 5 + d - 1"
    "days = era * 146097 + (36524 * c + 1461 * b + 365 * a + doy) - 719468"
proof -
  let ?z = "days + 719468"
  have "0 \<le> ?z mod 146097" "?z mod 146097 \<le> 146096" by simp_all
  then obtain c b a doy where e: "era_day c b a doy" "?z mod 146097 = 36524 * c + 1461 * b + 365 * a + doy"
    by (rule era_day_exists)
  then have "0 \<le> doy" "doy \<le> 365" by (auto simp: era_day_def)
  then obtain mp d where mp: "0 \<le> mp" "mp \<le> 11" "1 \<le> d" "d \<le> month_len mp" "doy = (153 * mp + 2) div 5 + d - 1"
    by (rule month_exists)
  have "days = (?z div 146097) * 146097 + (36524 * c + 1461 * b + 365 * a + doy) - 719468"
    using e(2) div_mult_mod_eq [of ?z 146097] by linarith
  then show thesis using that e(1) mp by blast
qed

lemma leap_last_year_conv:
  assumes "a = 3" "b = 24 \<longrightarrow> c = 3" "0 \<le> b" "b \<le> 24"
  shows "leap (400 * k + (100 * c + 4 * b + a) + 1)"
proof -
  have eq: "400 * k + (100 * c + 4 * b + a) + 1 = 4 * (100 * k + 25 * c + b + 1)" using assms by simp
  have "400 dvd 400 * k + (100 * c + 4 * b + a) + 1" if "100 dvd 400 * k + (100 * c + 4 * b + a) + 1"
  proof -
    have "400 * k + (100 * c + 4 * b + a) + 1 = 100 * (4 * k + c) + 4 * (b + 1)" using assms by simp
    then have "100 dvd 100 * (4 * k + c) + 4 * (b + 1)" using that by (simp only:)
    then have "100 dvd 4 * (b + 1)" by (simp only: dvd_add_right_iff dvd_triv_left)
    then have "b = 24" using assms zdvd_imp_le [of 100 "4 * (b + 1)"] by simp
    then have "400 * k + (100 * c + 4 * b + a) + 1 = 400 * (k + 1)" using assms by simp
    then show ?thesis by (simp only: dvd_triv_left)
  qed
  moreover have "4 dvd 400 * k + (100 * c + 4 * b + a) + 1" unfolding eq by (rule dvd_triv_left)
  ultimately show ?thesis unfolding leap_def by blast
qed

lemma days_of_civil:
  obtains y m d where "civil_from_days days = (y, m, d)" "valid_civil y m d" "days_from_civil y m d = days"
proof -
  obtain era c b a doy mp d where e: "era_day c b a doy" and mp: "0 \<le> mp" "mp \<le> 11" "1 \<le> d" "d \<le> month_len mp"
    and doy: "doy = (153 * mp + 2) div 5 + d - 1"
    and days: "days = era * 146097 + (36524 * c + 1461 * b + 365 * a + doy) - 719468"
    by (rule days_decompose)
  define y where "y = 100 * c + 4 * b + a + era * 400 + (if mp < 10 then 0 else 1 :: int)"
  define m where "m = (if mp < 10 then mp + 3 else mp - 9)"
  have m: "1 \<le> m" "m \<le> 12" "(if m > 2 then m - 3 else m + 9) = mp" using mp by (auto simp: m_def)
  have "d \<le> days_in_month y m"
  proof (cases "m = 2 \<and> \<not> leap y")
    case True
    then have "mp = 11" "y = 400 * era + (100 * c + 4 * b + a) + 1" using mp by (auto simp: m_def y_def split: if_splits)
    moreover from this have "d \<noteq> 29" using True e leap_last_year_conv [of a b c era]
      by (auto simp: era_day_def doy)
    ultimately show ?thesis using mp(4) True by (simp add: days_in_month_len month_len_def)
  next
    case False
    then show ?thesis using mp(4) unfolding days_in_month_len [OF m(1,2)] m(3) by auto
  qed
  then have v: "valid_civil y m d" using m mp by (simp add: valid_civil_def)
  have "days_from_civil y m d = days"
  proof -
    define y' where "y' = era * 400 + (100 * c + 4 * b + a)"
    have y': "y' = y - (if m \<le> 2 then 1 else 0)" using mp by (auto simp: y'_def y_def m_def)
    have r: "0 \<le> 100 * c + 4 * b + a" "100 * c + 4 * b + a < 400" using e by (auto simp: era_day_def)
    then have d4: "y' div 400 = era" "y' mod 400 = 100 * c + 4 * b + a" by (simp_all add: y'_def)
    have dd: "(100 * c + 4 * b + a) div 4 = 25 * c + b" "(100 * c + 4 * b + a) div 100 = c"
      using e by (auto simp: era_day_def intro!: div_eqI)
    show ?thesis unfolding days_from_civil_eq [OF m(1,2) y'] d4 m(3) doy [symmetric] dd
      by (simp add: days)
  qed
  moreover have "civil_from_days days = (y, m, d)"
    unfolding days civil_from_days_era [OF e mp doy] by (simp add: y_def m_def)
  ultimately show thesis using that v by blast
qed

section \<open>Ordinals\<close>

lemma month_sum_step: "k < m \<Longrightarrow> month_sum y k m = days_in_month y k + month_sum y (k + 1) m"
proof -
  assume "k < m"
  then have "{k..<m} = insert k {k + 1..<m}" by auto
  then show ?thesis by (simp add: month_sum_def)
qed

lemma month_sum_empty [simp]: "m \<le> k \<Longrightarrow> month_sum y k m = 0"
  by (simp add: month_sum_def)

lemma days_in_month_pos: "28 \<le> days_in_month y m" "days_in_month y m \<le> 31"
  by (simp_all add: days_in_month_def)

lemma month_sum_nonneg: "0 \<le> month_sum y k m"
  unfolding month_sum_def using order_trans [OF _ days_in_month_pos(1)] by (intro sum_nonneg) simp

lemma month_sum_year: "month_sum y 1 13 = (if leap y then 366 else 365)"
  by (simp add: month_sum_step days_in_month_def is_leap_year_eq)

lemma month_sum_mono: "m \<le> n \<Longrightarrow> month_sum y k m \<le> month_sum y k n"
  unfolding month_sum_def using order_trans [OF _ days_in_month_pos(1)] by (intro sum_mono2) auto

lemma ordinal_loop_eq: "ordinal_loop y m k n = n + month_sum y k m"
proof (induction "nat (m - k)" arbitrary: k n)
  case (Suc i)
  then have "k < m" by simp
  then show ?case using Suc by (subst ordinal_loop.simps) (simp add: month_sum_step)
qed (subst ordinal_loop.simps, simp)

lemma month_day_loop_eq:
  assumes "k \<le> m" "m \<le> 12" "1 \<le> d" "d \<le> days_in_month y m"
  shows "month_day_loop y k (month_sum y k m + d) = Some (m, d)"
  using assms(1)
proof (induction "nat (m - k)" arbitrary: k)
  case 0
  then have "k = m" by simp
  then show ?case using assms days_in_month_pos(2) [of y m] by (subst month_day_loop.simps) simp
next
  case (Suc i)
  then have "k < m" by simp
  then show ?case using Suc assms month_sum_nonneg [of y "k + 1" m]
    by (subst month_day_loop.simps) (simp add: month_sum_step)
qed

lemma ordinal_split:
  assumes "1 \<le> r" "r \<le> month_sum y k 13"
  shows "\<exists>m d. k \<le> m \<and> m \<le> 12 \<and> 1 \<le> d \<and> d \<le> days_in_month y m \<and> r = month_sum y k m + d"
  using assms
proof (induction "nat (13 - k)" arbitrary: k r)
  case (Suc i)
  then have k: "k < 13" by simp
  show ?case
  proof (cases "r \<le> days_in_month y k")
    case True
    then show ?thesis using Suc.prems(1) k by (intro exI [of _ k] exI [of _ r]) simp
  next
    case False
    then have "1 \<le> r - days_in_month y k" "r - days_in_month y k \<le> month_sum y (k + 1) 13"
      using Suc.prems k by (simp_all add: month_sum_step)
    moreover have "i = nat (13 - (k + 1))" using Suc.hyps(2) by simp
    ultimately obtain m d
      where "k + 1 \<le> m" "m \<le> 12" "1 \<le> d" "d \<le> days_in_month y m" "r - days_in_month y k = month_sum y (k + 1) m + d"
      using Suc.hyps(1) by blast
    then show ?thesis by (intro exI [of _ m] exI [of _ d]) (simp add: month_sum_step)
  qed
qed simp

lemma month_day_ordinal:
  assumes "valid_civil y m d"
  shows "month_day (mk_date y (d + month_sum y 1 m)) = Some (m, d)"
  using assms month_day_loop_eq [of 1 m d y] by (simp add: month_day_def valid_civil_def add.commute)

lemma from_calendar_date_eq:
  "0 \<le> d \<Longrightarrow> from_calendar_date y m d =
    (if y < MIN_YEAR \<or> y > MAX_YEAR then Err (unconditional ''year'')
     else if m < 1 \<or> m > 12 then Err (unconditional ''month'')
     else if \<not> valid_civil y m d then Err (conditional ''day'')
     else Ok (mk_date y (d + month_sum y 1 m)))"
  by (auto simp: from_calendar_date_def valid_civil_def ordinal_loop_eq Let_def)

lemma valid_date_civil:
  assumes "valid_date dt"
  obtains m d where "valid_civil (d_year dt) m d" "dt = mk_date (d_year dt) (d + month_sum (d_year dt) 1 m)"
    "month_day dt = Some (m, d)"
proof -
  have "1 \<le> d_ordinal dt" "d_ordinal dt \<le> month_sum (d_year dt) 1 13"
    using assms by (simp_all add: valid_date_def month_sum_year)
  then obtain m d where md: "1 \<le> m" "m \<le> 12" "1 \<le> d" "d \<le> days_in_month (d_year dt) m"
    "d_ordinal dt = month_sum (d_year dt) 1 m + d" using ordinal_split by blast
  then have v: "valid_civil (d_year dt) m d" by (simp add: valid_civil_def)
  moreover have eq: "dt = mk_date (d_year dt) (d + month_sum (d_year dt) 1 m)" using md by (simp add: add.commute)
  moreover have "month_day dt = Some (m, d)" using month_day_ordinal [OF v] eq by simp
  ultimately show thesis using that by blast
qed

lemma valid_date_mk:
  assumes "valid_civil y m d" "MIN_YEAR \<le> y" "y \<le> MAX_YEAR"
  shows "valid_date (mk_date y (d + month_sum y 1 m))"
proof -
  have "month_sum y 1 (m + 1) \<le> month_sum y 1 13" using assms by (intro month_sum_mono) (simp add: valid_civil_def)
  moreover have "month_sum y 1 (m + 1) = month_sum y 1 m + days_in_month y m"
  proof -
    have "{1..<m + 1} = insert m {1..<m}" using assms by (auto simp: valid_civil_def)
    then show ?thesis by (simp add: month_sum_def)
  qed
  ultimately show ?thesis using assms month_sum_nonneg [of y 1 m]
    by (simp add: valid_date_def valid_civil_def month_sum_year)
qed

lemma days_since_valid:
  assumes "valid_date dt"
  obtains days m d where "days_since_unix_epoch dt = Some days" "month_day dt = Some (m, d)"
    "valid_civil (d_year dt) m d" "days = days_from_civil (d_year dt) m d"
    "dt = mk_date (d_year dt) (d + month_sum (d_year dt) 1 m)"
  using assms by (elim valid_date_civil) (auto simp: days_since_unix_epoch_def)

lemma from_days_days_since:
  assumes "valid_date dt" "days_since_unix_epoch dt = Some days"
  shows "from_days_since_unix_epoch days = Ok dt"
proof -
  obtain m d where md: "valid_civil (d_year dt) m d" "days = days_from_civil (d_year dt) m d"
    "dt = mk_date (d_year dt) (d + month_sum (d_year dt) 1 m)"
    using days_since_valid [OF assms(1)] assms(2) by (metis option.inject)
  have "MIN_YEAR \<le> d_year dt" "d_year dt \<le> MAX_YEAR" using assms(1) by (simp_all add: valid_date_def)
  then have "from_days_since_unix_epoch days = Ok (mk_date (d_year dt) (d + month_sum (d_year dt) 1 m))"
    using md(1) civil_of_days [OF md(1)] from_calendar_date_eq [of d "d_year dt" m]
    by (auto simp: from_days_since_unix_epoch_def md(2) from_number_def valid_civil_def not_less)
  then show ?thesis using md(3) by simp
qed

lemma from_days_cases:
  obtains y m d where "civil_from_days days = (y, m, d)" "valid_civil y m d" "days_from_civil y m d = days"
    "from_days_since_unix_epoch days =
       (if MIN_YEAR \<le> y \<and> y \<le> MAX_YEAR then Ok (mk_date y (d + month_sum y 1 m)) else Err (unconditional ''timestamp''))"
proof -
  obtain y m d where c: "civil_from_days days = (y, m, d)" "valid_civil y m d" "days_from_civil y m d = days"
    by (rule days_of_civil)
  then have "from_days_since_unix_epoch days =
       (if MIN_YEAR \<le> y \<and> y \<le> MAX_YEAR then Ok (mk_date y (d + month_sum y 1 m)) else Err (unconditional ''timestamp''))"
    using from_calendar_date_eq [of d y m]
    by (auto simp: from_days_since_unix_epoch_def from_number_def valid_civil_def not_less)
  with c show thesis using that by blast
qed

lemma from_days_ok:
  assumes "from_days_since_unix_epoch days = Ok dt"
  shows "valid_date dt \<and> days_since_unix_epoch dt = Some days"
proof (rule from_days_cases [of days])
  fix y m d
  assume c: "valid_civil y m d" "days_from_civil y m d = days"
    "from_days_since_unix_epoch days =
       (if MIN_YEAR \<le> y \<and> y \<le> MAX_YEAR then Ok (mk_date y (d + month_sum y 1 m)) else Err (unconditional ''timestamp''))"
  then have y: "MIN_YEAR \<le> y" "y \<le> MAX_YEAR" and dt: "dt = mk_date y (d + month_sum y 1 m)"
    using assms by (auto split: if_splits)
  show ?thesis using valid_date_mk [OF c(1) y] month_day_ordinal [OF c(1)] c(2)
    by (simp add: dt days_since_unix_epoch_def)
qed

section \<open>The day count\<close>

lemma div_diff_dvd: "0 < n \<Longrightarrow> y div n - (y - 1) div n = (if n dvd y then 1 else 0)" for y n :: int
proof (cases "n dvd y")
  case True
  assume n: "0 < n"
  from True obtain q where q: "y = n * q" ..
  have "(y - 1) div n = q - 1" by (rule div_eqI) (use n in \<open>simp_all add: q algebra_simps\<close>)
  then show ?thesis using True n by (simp add: q)
next
  case False
  assume n: "0 < n"
  have "y mod n \<noteq> 0" using False by (simp add: dvd_eq_mod_eq_0)
  then have m: "1 \<le> y mod n" "y mod n < n" using pos_mod_sign [OF n, of y] pos_mod_bound [OF n, of y] by linarith+
  have "(y - 1) div n = y div n"
    by (rule div_eqI) (use n m mult_div_mod_eq [of n y] in linarith)+
  then show ?thesis using False by simp
qed

lemma year_start_eq:
  "y div 400 * 146097 + (y mod 400 * 365 + y mod 400 div 4 - y mod 400 div 100 + x) = year_start y + x"
proof -
  define k r where "k = y div 400" and "r = y mod 400"
  have y: "y = 400 * k + r" by (simp add: k_def r_def)
  have "(400 * k + r) div 4 = 100 * k + r div 4" "(400 * k + r) div 100 = 4 * k + r div 100"
    using div_mult_self2 [of 4 r "100 * k"] div_mult_self2 [of 100 r "4 * k"] by (simp_all add: add.commute)
  then have "year_start y = 365 * y + (100 * k + r div 4) - (4 * k + r div 100) + k"
    unfolding year_start_def k_def [symmetric] by (simp only: y [symmetric])
  then show ?thesis unfolding k_def [symmetric] r_def [symmetric] using y by linarith
qed

lemma year_start_step: "year_start y = year_start (y - 1) + (if leap y then 366 else 365)"
proof -
  have aux: "365 + (if p then 1 else 0) - (if q then 1 else 0) + (if r then 1 else 0) =
      (if p \<and> (\<not> q \<or> r) then 366 else 365 :: int)" if "r \<longrightarrow> q" "q \<longrightarrow> p" for p q r
    using that by (cases p; cases q; cases r) simp_all
  have i: "400 dvd y \<Longrightarrow> 100 dvd y" "100 dvd y \<Longrightarrow> 4 dvd y"
    by (rule dvd_trans [of 100 400 y], simp, assumption) (rule dvd_trans [of 4 100 y], simp, assumption)
  have "year_start y - year_start (y - 1) =
      365 + (y div 4 - (y - 1) div 4) - (y div 100 - (y - 1) div 100) + (y div 400 - (y - 1) div 400)"
    unfolding year_start_def by (simp only: algebra_simps)
  also have "\<dots> = 365 + (if 4 dvd y then 1 else 0) - (if 100 dvd y then 1 else 0) + (if 400 dvd y then 1 else 0)"
    by (simp only: div_diff_dvd zero_less_numeral)
  also have "\<dots> = (if leap y then 366 else 365)"
    unfolding leap_def by (rule aux) (use i in blast)+
  finally show ?thesis by linarith
qed

lemma days_from_civil_start:
  assumes "1 \<le> m" "m \<le> 12"
  shows "days_from_civil y m d = year_start (y - (if m \<le> 2 then 1 else 0))
    + ((153 * (if m > 2 then m - 3 else m + 9) + 2) div 5 + d - 1) - 719468"
  unfolding days_from_civil_eq [OF assms refl] year_start_eq ..

lemma days_from_civil_ordinal:
  assumes "1 \<le> m" "m \<le> 12"
  shows "days_from_civil y m d = days_from_civil y 1 1 + month_sum y 1 m + d - 1"
proof -
  have "m \<in> {1, 2, 3, 4, 5, 6, 7, 8, 9, 10, 11, 12}" using month_cases [of "m - 1"] assms by auto
  then show ?thesis using year_start_step [of y]
    by (auto simp: days_from_civil_start month_sum_step days_in_month_def is_leap_year_eq)
qed

lemma days_from_civil_next_year:
  "days_from_civil (y + 1) 1 1 = days_from_civil y 1 1 + (if leap y then 366 else 365)"
  using year_start_step [of y] by (simp add: days_from_civil_start)

lemma days_valid_date:
  assumes "valid_date dt"
  shows "days_since_unix_epoch dt = Some (days_from_civil (d_year dt) 1 1 + d_ordinal dt - 1)"
proof -
  obtain m d where "valid_civil (d_year dt) m d" "dt = mk_date (d_year dt) (d + month_sum (d_year dt) 1 m)"
    "month_day dt = Some (m, d)" using assms by (rule valid_date_civil)
  moreover from this have "d_ordinal dt = d + month_sum (d_year dt) 1 m" by (metis date.select_convs(2))
  ultimately show ?thesis using days_from_civil_ordinal [of m "d_year dt" d]
    by (simp add: days_since_unix_epoch_def valid_civil_def)
qed

section \<open>Instants\<close>

lemma from_local_seconds_eq:
  assumes "0 \<le> nanos"
  shows "from_local_seconds seconds nanos offset =
    (if nanos \<ge> 1000000000 then Err (unconditional ''nanosecond'')
     else case from_days_since_unix_epoch (seconds div 86400) of
       Err e \<Rightarrow> Err (unconditional ''timestamp'')
     | Ok date \<Rightarrow> Ok \<lparr>odt_local = \<lparr>pdt_date = date, pdt_time =
         \<lparr>t_hour = seconds mod 86400 div 3600, t_minute = seconds mod 86400 mod 3600 div 60,
          t_second = seconds mod 86400 mod 60, t_nanosecond = nanos\<rparr>\<rparr>, odt_offset = offset\<rparr>)"
proof -
  define w where "w = seconds mod 86400"
  have w: "0 \<le> w" "w < 86400" by (simp_all add: w_def)
  then have h: "0 \<le> w div 3600" "w div 3600 < 24" by (auto simp: div_int_pos_iff)
  have m: "0 \<le> w mod 3600 div 60" "w mod 3600 div 60 < 60"
    using pos_mod_bound [of 3600 w] by (auto simp: div_int_pos_iff)
  have small: "v mod 256 = v" if "0 \<le> v" "v < 60" for v :: int using that by simp
  have t: "trunc_div w 3600 = w div 3600" "trunc_rem w 3600 = w mod 3600" "trunc_rem w 60 = w mod 60"
    "trunc_div (w mod 3600) 60 = w mod 3600 div 60"
    using w by (simp_all add: trunc_div_nonneg trunc_rem_nonneg)
  show ?thesis
    unfolding from_local_seconds_def Let_def floor_div_eq [of 86400, simplified] rem_euclid_eq [of 86400, simplified] w_def [symmetric] t
    using h m by (auto simp: from_hms_nano_def small split: sum.split)
qed

lemma hms_seconds:
  "w div 3600 * 3600 + w mod 3600 div 60 * 60 + w mod 60 = w" for w :: int
proof -
  have "w mod 3600 mod 60 = w mod 60" by (simp add: mod_mod_cancel)
  then show ?thesis using div_mult_mod_eq [of w 3600] div_mult_mod_eq [of "w mod 3600" 60] by linarith
qed

lemma hms_recover:
  fixes h m s :: int
  assumes "0 \<le> h" "h < 24" "0 \<le> m" "m < 60" "0 \<le> s" "s < 60"
  defines "w \<equiv> h * 3600 + m * 60 + s"
  shows "0 \<le> w" "w < 86400" "w div 3600 = h" "w mod 3600 div 60 = m" "w mod 60 = s"
proof -
  show "0 \<le> w" "w < 86400" using assms by (auto simp: w_def)
  have h: "w div 3600 = h" by (rule div_eqI) (use assms in \<open>auto simp: w_def\<close>)
  then have r: "w mod 3600 = m * 60 + s" using div_mult_mod_eq [of w 3600] by (simp add: w_def)
  show "w div 3600 = h" by (rule h)
  show "w mod 3600 div 60 = m" unfolding r by (rule div_eqI) (use assms in auto)
  have "w = s + (h * 60 + m) * 60" by (simp add: w_def)
  then have "w mod 60 = s mod 60" by (simp only: mod_mult_self1)
  then show "w mod 60 = s" using assms by simp
qed

lemma from_local_seconds_ok:
  assumes "from_local_seconds seconds nanos offset = Ok odt" "0 \<le> nanos" "-86399 \<le> offset" "offset \<le> 86399"
  shows "valid_odt odt \<and> unix_time odt = Some (seconds - offset, nanos) \<and> odt_offset odt = offset"
proof -
  let ?w = "seconds mod 86400"
  from assms(1) obtain date where d: "from_days_since_unix_epoch (seconds div 86400) = Ok date" "nanos < 1000000000"
    and odt: "odt = \<lparr>odt_local = \<lparr>pdt_date = date, pdt_time =
         \<lparr>t_hour = ?w div 3600, t_minute = ?w mod 3600 div 60, t_second = ?w mod 60, t_nanosecond = nanos\<rparr>\<rparr>, odt_offset = offset\<rparr>"
    unfolding from_local_seconds_eq [OF assms(2)] by (auto split: if_splits sum.splits)
  from from_days_ok [OF d(1)] have v: "valid_date date" and u: "days_since_unix_epoch date = Some (seconds div 86400)"
    by simp_all
  have w: "0 \<le> ?w" "?w < 86400" by simp_all
  then have "0 \<le> ?w div 3600" "?w div 3600 < 24" "0 \<le> ?w mod 3600 div 60" "?w mod 3600 div 60 < 60"
    using pos_mod_bound [of 3600 ?w] by (auto simp: div_int_pos_iff)
  then have "valid_odt odt" using v assms(2-4) d(2) by (simp add: valid_odt_def valid_time_def odt)
  moreover have "unix_time odt = Some (seconds - offset, nanos)"
  proof -
    have "unix_time odt = Some (seconds div 86400 * 86400 +
        (?w div 3600 * 3600 + ?w mod 3600 div 60 * 60 + ?w mod 60) - offset, nanos)"
      unfolding unix_time_def odt by (simp add: u Let_def)
    then show ?thesis unfolding hms_seconds div_mult_mod_eq .
  qed
  ultimately show ?thesis by (simp add: odt)
qed

lemma from_local_seconds_unix_time:
  assumes "valid_odt odt" "unix_time odt = Some (seconds, nanos)"
  shows "from_local_seconds (seconds + odt_offset odt) nanos (odt_offset odt) = Ok odt"
proof -
  let ?t = "pdt_time (odt_local odt)" and ?d = "pdt_date (odt_local odt)"
  define w where "w = t_hour ?t * 3600 + t_minute ?t * 60 + t_second ?t"
  from assms(1) have v: "valid_date ?d" "valid_time ?t" by (simp_all add: valid_odt_def)
  obtain days where days: "days_since_unix_epoch ?d = Some days" using days_since_valid [OF v(1)] by metis
  have n: "nanos = t_nanosecond ?t" and s: "seconds + odt_offset odt = w + days * 86400"
    using assms(2) days by (auto simp: unix_time_def Let_def w_def)
  note hms = hms_recover [of "t_hour ?t" "t_minute ?t" "t_second ?t", folded w_def]
  have w: "0 \<le> w" "w < 86400" "w div 3600 = t_hour ?t" "w mod 3600 div 60 = t_minute ?t" "w mod 60 = t_second ?t"
    using hms v(2) by (simp_all add: valid_time_def)
  have dm: "(w + days * 86400) div 86400 = days" "(w + days * 86400) mod 86400 = w" using w by simp_all
  have "0 \<le> nanos" "nanos < 1000000000" using v(2) n by (simp_all add: valid_time_def)
  then show ?thesis using n
    by (simp add: from_local_seconds_eq s dm w from_days_days_since [OF v(1) days])
qed

lemma days_bound:
  assumes "valid_date dt" "days_since_unix_epoch dt = Some days"
  shows "\<bar>days\<bar> < 5000000"
proof -
  obtain m d where md: "valid_civil (d_year dt) m d" "days = days_from_civil (d_year dt) m d"
    using days_since_valid [OF assms(1)] assms(2) by (metis option.inject)
  define y where "y = d_year dt - (if m \<le> 2 then 1 else 0)"
  have y: "-10000 \<le> y" "y \<le> 9999" using assms(1) by (auto simp: y_def valid_date_def MIN_YEAR_def MAX_YEAR_def)
  have m: "0 \<le> (if m > 2 then m - 3 else m + 9)" "(if m > 2 then m - 3 else m + 9) \<le> 11"
    "0 \<le> d" "d \<le> 31" using md(1) days_in_month_pos(2) [of "d_year dt" m] by (auto simp: valid_civil_def)
  define mp where "mp = (if m > 2 then m - 3 else m + 9)"
  have "days = year_start y + ((153 * mp + 2) div 5 + d - 1) - 719468"
    using md by (simp add: days_from_civil_start valid_civil_def y_def mp_def)
  moreover have "0 \<le> (153 * mp + 2) div 5" "(153 * mp + 2) div 5 \<le> 337" using m by (auto simp: mp_def [symmetric])
  moreover have "\<bar>year_start y\<bar> \<le> 3700000" using y unfolding year_start_def by (auto simp: abs_le_iff)
  ultimately show ?thesis using m by linarith
qed

lemma odt_unix_time_bounds:
  assumes "valid_odt odt"
  obtains seconds nanos where "unix_time odt = Some (seconds, nanos)" "\<bar>seconds\<bar> < 2 ^ 39" "0 \<le> nanos" "nanos < 1000000000"
proof -
  let ?t = "pdt_time (odt_local odt)" and ?d = "pdt_date (odt_local odt)"
  from assms have v: "valid_date ?d" "valid_time ?t" and o: "-86399 \<le> odt_offset odt" "odt_offset odt \<le> 86399"
    by (simp_all add: valid_odt_def)
  obtain days where days: "days_since_unix_epoch ?d = Some days" using days_since_valid [OF v(1)] by metis
  show thesis
    by (rule that [of "days * 86400 + (t_hour ?t * 3600 + t_minute ?t * 60 + t_second ?t) - odt_offset odt" "t_nanosecond ?t"])
      (use v(2) o days_bound [OF v(1) days] in \<open>auto simp: unix_time_def days valid_time_def Let_def\<close>)
qed

lemma civil_from_days_bounds:
  assumes "fits True TYPE(i64) seconds"
  defines "z \<equiv> seconds div 86400 + 719468"
  shows "\<bar>z\<bar> < 2 ^ 48" "\<bar>z - 146096\<bar> < 2 ^ 48" "\<bar>z div 146097 * 146097\<bar> < 2 ^ 48"
proof -
  have "- (2 ^ 63) \<le> seconds" "seconds < 2 ^ 63" using assms by (simp_all add: fits_iff)
  then have d: "- (2 ^ 47) \<le> seconds div 86400" "seconds div 86400 \<le> 2 ^ 47" by auto
  then show z: "\<bar>z\<bar> < 2 ^ 48" "\<bar>z - 146096\<bar> < 2 ^ 48" by (auto simp: z_def)
  show "\<bar>z div 146097 * 146097\<bar> < 2 ^ 48"
  proof -
    have "- 140737488355328 + 719468 \<le> z" "z \<le> 140737488355328 + 719468" using d by (simp_all add: z_def)
    moreover have "z div 146097 * 146097 = z - z mod 146097" by (simp add: minus_mod_eq_div_mult)
    moreover have "0 \<le> z mod 146097" "z mod 146097 < 146097" by simp_all
    ultimately have "z div 146097 * 146097 < 281474976710656" "- 281474976710656 < z div 146097 * 146097" by linarith+
    then show ?thesis by (simp add: abs_less_iff)
  qed
qed

section \<open>Properties\<close>

text \<open>C29. The two day-number algorithms are inverse: a valid civil date of any year is recovered
  from its day number, and every day number is that of the valid civil date computed for it.\<close>

theorem civil_days_roundtrip:
  "(valid_civil y m d \<longrightarrow> civil_from_days (days_from_civil y m d) = (y, m, d))
   \<and> (case civil_from_days days of (y', m', d') \<Rightarrow> valid_civil y' m' d' \<and> days_from_civil y' m' d' = days)"
  using civil_of_days by (rule_tac days = days in days_of_civil) auto

theorem civil_days_roundtrip_witness:
  "valid_civil 2000 2 29 \<and> civil_from_days (days_from_civil 2000 2 29) = (2000, 2, 29)"
proof -
  have "valid_civil 2000 2 29" by code_simp
  then show ?thesis using civil_days_roundtrip [of 2000 2 29 0] by simp
qed

text \<open>C12. The closed day-number formula counts days: it is 0 on 1970-01-01, a date is as many days
  after January 1 of its year as the preceding months and the day say, and January 1 of the next year
  is 366 days later in the leap years of the Gregorian rule and 365 days otherwise.\<close>

theorem days_from_civil_counts:
  assumes "valid_civil y m d"
  shows "days_from_civil y m d = days_from_civil y 1 1 + month_sum y 1 m + d - 1
    \<and> days_from_civil (y + 1) 1 1 = days_from_civil y 1 1 + (if leap y then 366 else 365)
    \<and> days_from_civil 1970 1 1 = 0
    \<and> month_sum y 1 13 = (if leap y then 366 else 365)"
proof -
  have "days_from_civil 1970 1 1 = 0" by code_simp
  moreover have "1 \<le> m" "m \<le> 12" using assms by (simp_all add: valid_civil_def)
  ultimately show ?thesis
    using days_from_civil_ordinal [of m y d] days_from_civil_next_year [of y] month_sum_year [of y] by blast
qed

theorem days_from_civil_counts_witness:
  "days_from_civil 2000 3 1 = days_from_civil 2000 1 1 + 60"
proof -
  have v: "valid_civil 2000 3 1" and s: "month_sum 2000 1 3 = 60"
    by code_simp (simp add: month_sum_step days_in_month_def is_leap_year_eq leap_def)
  show ?thesis using days_from_civil_counts [OF v] s by simp
qed

text \<open>C30. A calendar date is accepted exactly when it exists and its year is in range; the stored
  ordinal gives back month and day, converting to a day number and back is the identity, and a day
  number is rejected exactly when its year is out of range.\<close>

theorem date_roundtrip:
  assumes "0 \<le> d"
  shows "(case from_calendar_date y m d of
            Ok dt \<Rightarrow> valid_civil y m d \<and> valid_date dt \<and> d_year dt = y \<and> month_day dt = Some (m, d)
              \<and> days_since_unix_epoch dt = Some (days_from_civil y m d)
              \<and> from_days_since_unix_epoch (days_from_civil y m d) = Ok dt
          | Err e \<Rightarrow> \<not> valid_civil y m d \<or> y < MIN_YEAR \<or> y > MAX_YEAR)
    \<and> (case from_days_since_unix_epoch days of
            Ok dt \<Rightarrow> valid_date dt \<and> days_since_unix_epoch dt = Some days
          | Err e \<Rightarrow> fst (civil_from_days days) < MIN_YEAR \<or> fst (civil_from_days days) > MAX_YEAR)"
proof (rule conjI, goal_cases)
  case 1
  show ?case
  proof (cases "from_calendar_date y m d")
    case (Inr dt)
    then have v: "valid_civil y m d" "MIN_YEAR \<le> y" "y \<le> MAX_YEAR" "dt = mk_date y (d + month_sum y 1 m)"
      using assms by (auto simp: from_calendar_date_eq split: if_splits)
    then have "valid_date dt" "month_day dt = Some (m, d)"
      using valid_date_mk month_day_ordinal by simp_all
    moreover from this v(4) have "days_since_unix_epoch dt = Some (days_from_civil y m d)"
      by (simp add: days_since_unix_epoch_def)
    ultimately show ?thesis using Inr v from_days_days_since by simp
  qed (use assms in \<open>auto simp: from_calendar_date_eq valid_civil_def split: if_splits\<close>)
next
  case 2
  show ?case
    by (rule from_days_cases [of days]) (auto dest: from_days_ok split: sum.split if_splits)
qed

theorem date_roundtrip_witness:
  "from_days_since_unix_epoch (days_from_civil 2024 2 29) = from_calendar_date 2024 2 29"
proof -
  have "from_calendar_date 2024 2 29 = Ok (mk_date 2024 60)" by code_simp
  then show ?thesis using date_roundtrip [of 29 2024 2 0] by simp
qed

text \<open>C31. A successful conversion from a Unix time gives a valid date-time with that Unix time, and
  fails only for a nanosecond or a year out of range; converting a valid date-time to another UTC offset
  keeps the instant, and converting it to its own offset gives it back.\<close>

theorem unix_time_roundtrip:
  assumes "0 \<le> nanos" "-86399 \<le> offset" "offset \<le> 86399" "valid_odt odt"
  shows "(case from_unix_time seconds nanos of
            Ok dt \<Rightarrow> valid_odt dt \<and> odt_offset dt = 0 \<and> unix_time dt = Some (seconds, nanos)
          | Err e \<Rightarrow> nanos \<ge> 1000000000 \<or> fst (civil_from_days (seconds div 86400)) \<notin> {MIN_YEAR..MAX_YEAR})
    \<and> (case checked_to_offset odt offset of
            Some dt \<Rightarrow> valid_odt dt \<and> odt_offset dt = offset \<and> unix_time dt = unix_time odt
          | None \<Rightarrow> \<exists>s n. unix_time odt = Some (s, n) \<and>
              fst (civil_from_days ((s + offset) div 86400)) \<notin> {MIN_YEAR..MAX_YEAR})
    \<and> checked_to_offset odt (odt_offset odt) = Some odt"
proof -
  obtain s n where u: "unix_time odt = Some (s, n)" "\<bar>s\<bar> < 2 ^ 39" "0 \<le> n" "n < 1000000000"
    using assms(4) by (rule odt_unix_time_bounds)
  have f: "fits True TYPE(i64) (s + offset')" if "-86399 \<le> offset'" "offset' \<le> 86399" for offset'
    using u(2) that by (auto simp: fits_iff)
  have err: "n' \<ge> 1000000000 \<or> fst (civil_from_days (z div 86400)) \<notin> {MIN_YEAR..MAX_YEAR}"
    if "from_local_seconds z n' off = Err e" "0 \<le> n'" for z n' off e
  proof (rule from_days_cases [of "z div 86400"])
  qed (use that in \<open>auto simp: from_local_seconds_eq split: if_splits sum.splits\<close>)
  have 1: "case from_unix_time seconds nanos of
            Ok dt \<Rightarrow> valid_odt dt \<and> odt_offset dt = 0 \<and> unix_time dt = Some (seconds, nanos)
          | Err e \<Rightarrow> nanos \<ge> 1000000000 \<or> fst (civil_from_days (seconds div 86400)) \<notin> {MIN_YEAR..MAX_YEAR}"
    using from_local_seconds_ok [of seconds nanos 0] err [of seconds nanos 0] assms(1)
    by (cases "from_local_seconds seconds nanos 0") (auto simp: from_unix_time_def)
  have 2: "case checked_to_offset odt offset of
            Some dt \<Rightarrow> valid_odt dt \<and> odt_offset dt = offset \<and> unix_time dt = unix_time odt
          | None \<Rightarrow> \<exists>s n. unix_time odt = Some (s, n) \<and>
              fst (civil_from_days ((s + offset) div 86400)) \<notin> {MIN_YEAR..MAX_YEAR}"
    using from_local_seconds_ok [of "s + offset" n offset] err [of "s + offset" n offset] assms(2,3) f u
    by (cases "from_local_seconds (s + offset) n offset") (auto simp: checked_to_offset_def)
  have 3: "checked_to_offset odt (odt_offset odt) = Some odt"
    using from_local_seconds_unix_time [OF assms(4) u(1)] f [of "odt_offset odt"] assms(4)
    by (simp add: checked_to_offset_def u valid_odt_def)
  show ?thesis using 1 2 3 by blast
qed

theorem unix_time_roundtrip_witness:
  "valid_odt sample_odt \<and> checked_to_offset sample_odt (odt_offset sample_odt) = Some sample_odt"
proof -
  have "valid_odt sample_odt"
    by (simp add: sample_odt_def valid_odt_def valid_date_def valid_time_def MIN_YEAR_def MAX_YEAR_def leap_def)
  then show ?thesis using unix_time_roundtrip [of 0 3600 sample_odt 0] by simp
qed

end
