(* ===== verification/Ordered_Map.thy ===== *)
theory Ordered_Map
  imports Rstd_Prelude "HOL-Library.Monad_Syntax"
begin

text \<open>
  The contract of an ordered map: its abstract state is a sorted association list.  The locale
  \<open>ordered_map\<close> states what insertion, lookup and removal promise about that list; its lemmas are what
  a client of the map may rely on.  \<open>insert_all\<close> is the loop of the \<open>Extend\<close> implementation of
  src/alloc/src/collections/btree_map.cppm, for any map.  The locale is interpreted on the B-tree in
  \<open>BTree\<close>.
\<close>

section \<open>Sorted association lists\<close>

definition sorted1 :: "('k::linorder \<times> 'v) list \<Rightarrow> bool" where
  "sorted1 xs \<longleftrightarrow> sorted_wrt (<) (map fst xs)"

text \<open>The sorted association list with an entry added or removed.\<close>

definition ins :: "'k::linorder \<Rightarrow> 'v \<Rightarrow> ('k \<times> 'v) list \<Rightarrow> ('k \<times> 'v) list" where
  "ins key v xs = filter (\<lambda>p. fst p < key) xs @ (key, v) # filter (\<lambda>p. key < fst p) xs"

definition del :: "'k::linorder \<Rightarrow> ('k \<times> 'v) list \<Rightarrow> ('k \<times> 'v) list" where
  "del key xs = filter (\<lambda>p. fst p \<noteq> key) xs"

fun insert_all :: "('k \<Rightarrow> 'v \<Rightarrow> 'm \<Rightarrow> ('v option \<times> 'm) option) \<Rightarrow> ('k \<times> 'v) list \<Rightarrow> 'm \<Rightarrow> 'm option" where
  "insert_all put [] m = Some m"
| "insert_all put (item # items) m = do {
     (old, m') \<leftarrow> put (fst item) (snd item) m;
     insert_all put items m'
   }"

lemma sorted1_append:
  "sorted1 (xs @ ys) \<longleftrightarrow> sorted1 xs \<and> sorted1 ys \<and> (\<forall>x \<in> set xs. \<forall>y \<in> set ys. fst x < fst y)"
  by (auto simp: sorted1_def sorted_wrt_append)

lemma sorted1_Cons: "sorted1 (x # xs) \<longleftrightarrow> (\<forall>y \<in> set xs. fst x < fst y) \<and> sorted1 xs"
  by (auto simp: sorted1_def)

lemma sorted1_Nil [simp]: "sorted1 []"
  by (simp add: sorted1_def)

lemmas sorted1_simps = sorted1_append sorted1_Cons

lemma filter_all: "(\<And>x. x \<in> set xs \<Longrightarrow> P x) \<Longrightarrow> filter P xs = xs"
  by (simp add: filter_id_conv)

lemma filter_none: "(\<And>x. x \<in> set xs \<Longrightarrow> \<not> P x) \<Longrightarrow> filter P xs = []"
  by (simp add: filter_empty_conv)

lemma ins_between:
  assumes "\<And>p. p \<in> set P \<Longrightarrow> fst p < key" "\<And>p. p \<in> set Q \<Longrightarrow> key < fst p"
  shows "ins key v (P @ M @ Q) = P @ ins key v M @ Q"
proof -
  have "filter (\<lambda>p. fst p < key) P = P" "filter (\<lambda>p. key < fst p) Q = Q" using assms by (auto intro: filter_all)
  moreover have "filter (\<lambda>p. key < fst p) P = []" "filter (\<lambda>p. fst p < key) Q = []"
    using assms by (force intro: filter_none)+
  ultimately show ?thesis by (simp add: ins_def)
qed

lemma ins_Nil [simp]: "ins key v [] = [(key, v)]" by (simp add: ins_def)

lemma del_between:
  assumes "\<And>p. p \<in> set P \<Longrightarrow> fst p < key" "\<And>p. p \<in> set Q \<Longrightarrow> key < fst p"
  shows "del key (P @ M @ Q) = P @ del key M @ Q"
proof -
  have "filter (\<lambda>p. fst p \<noteq> key) P = P" "filter (\<lambda>p. fst p \<noteq> key) Q = Q" using assms by (fastforce intro: filter_all)+
  then show ?thesis by (simp add: del_def)
qed

lemma map_of_between:
  fixes key :: "'k::linorder"
  assumes "\<And>p. p \<in> set P \<Longrightarrow> fst p < key" "\<And>p. p \<in> set Q \<Longrightarrow> key < fst p"
  shows "map_of (P @ M @ Q) key = map_of M key"
proof -
  have "fst p \<noteq> key" if "p \<in> set P \<or> p \<in> set Q" for p using that assms(1) [of p] assms(2) [of p] by auto
  then have "key \<notin> fst ` set P" "key \<notin> fst ` set Q" by auto
  then have "map_of P key = None" "map_of Q key = None" by (simp_all add: map_of_eq_None_iff)
  then show ?thesis by (simp add: map_add_def split: option.splits)
qed

lemma replace_at:
  assumes "sorted1 (P @ (key, w) # Q)"
  shows "ins key v (P @ (key, w) # Q) = P @ (key, v) # Q" "del key (P @ (key, w) # Q) = P @ Q"
    "map_of (P @ (key, w) # Q) key = Some w"
proof -
  have b: "\<And>p. p \<in> set P \<Longrightarrow> fst p < key" "\<And>p. p \<in> set Q \<Longrightarrow> key < fst p"
    using assms by (auto simp: sorted1_simps)
  show "ins key v (P @ (key, w) # Q) = P @ (key, v) # Q" using ins_between [OF b, where v = v and M = "[(key, w)]"] by (simp add: ins_def)
  show "del key (P @ (key, w) # Q) = P @ Q" using del_between [OF b, where M = "[(key, w)]"] by (simp add: del_def)
  show "map_of (P @ (key, w) # Q) key = Some w" using map_of_between [OF b, where M = "[(key, w)]"] by simp
qed

lemma sorted1_ins: "sorted1 xs \<Longrightarrow> sorted1 (ins key v xs)"
  by (auto simp: ins_def sorted1_def sorted_wrt_append sorted_wrt_map sorted_wrt_filter)

lemma sorted1_del: "sorted1 xs \<Longrightarrow> sorted1 (del key xs)"
  by (simp add: del_def sorted1_def sorted_wrt_map sorted_wrt_filter)

lemma map_of_filter_key: "map_of (filter (\<lambda>p. P (fst p)) xs) = (\<lambda>k. if P k then map_of xs k else None)"
  by (induction xs) auto

lemma map_of_ins: "map_of (ins key v xs) = (map_of xs)(key \<mapsto> v)"
  unfolding ins_def by (rule ext) (auto simp: map_add_def map_of_filter_key [of "\<lambda>k. k < key"] map_of_filter_key [of "\<lambda>k. key < k"] split: option.splits)

lemma map_of_del: "map_of (del key xs) = (map_of xs)(key := None)"
  unfolding del_def by (rule ext) (auto simp: map_of_filter_key [of "\<lambda>k. k \<noteq> key"])

lemma length_ins: "sorted1 xs \<Longrightarrow> length (ins key v xs) = length xs + (if map_of xs key = None then 1 else 0)"
proof (induction xs)
  case (Cons x xs)
  then have "\<forall>y \<in> set xs. fst x < fst y" by (simp add: sorted1_Cons)
  then have "fst x = key \<Longrightarrow> filter (\<lambda>p. fst p < key) xs = [] \<and> filter (\<lambda>p. key < fst p) xs = xs"
    by (fastforce simp: filter_empty_conv filter_id_conv)
  moreover have "fst x \<noteq> key \<Longrightarrow> length (ins key v (x # xs)) = Suc (length (ins key v xs))" by (auto simp: ins_def)
  ultimately show ?case using Cons by (cases "fst x = key") (auto simp: sorted1_Cons ins_def)
qed simp

lemma length_del: "sorted1 xs \<Longrightarrow> length (del key xs) = length xs - (if map_of xs key = None then 0 else 1)"
proof (induction xs)
  case (Cons x xs)
  then have lt: "\<forall>y \<in> set xs. fst x < fst y" by (simp add: sorted1_Cons)
  then have "fst x = key \<Longrightarrow> filter (\<lambda>p. fst p \<noteq> key) xs = xs" by (intro filter_all) auto
  moreover have "fst x \<noteq> key \<Longrightarrow> map_of xs key \<noteq> None \<Longrightarrow> xs \<noteq> []" by auto
  ultimately show ?case using Cons by (cases "fst x = key"; cases xs) (auto simp: sorted1_Cons del_def)
qed (simp add: del_def)

lemma ins_last: "(\<And>p. p \<in> set xs \<Longrightarrow> fst p < key) \<Longrightarrow> ins key v xs = xs @ [(key, v)]"
  using ins_between [of xs key "[]" v "[]"] by simp

text \<open>Inserting a sorted list, in order, behind smaller entries appends it.\<close>

lemma foldl_ins_sorted:
  "sorted1 (ys @ xs) \<Longrightarrow> foldl (\<lambda>l p. ins (fst p) (snd p) l) ys xs = ys @ xs"
proof (induction xs arbitrary: ys)
  case (Cons x xs)
  then have "ins (fst x) (snd x) ys = ys @ [x]" by (subst ins_last) (auto simp: sorted1_simps)
  then show ?case using Cons.IH [of "ys @ [x]"] Cons.prems by simp
qed simp

lemma map_of_foldl_ins:
  "map_of (foldl (\<lambda>l p. ins (fst p) (snd p) l) ys xs) = map_of ys ++ map_of (rev xs)"
  by (induction xs arbitrary: ys) (auto simp: map_of_ins map_add_upd split: prod.splits)

section \<open>The interface\<close>

locale ordered_map =
  fixes empty :: 'm
    and put :: "'k::linorder \<Rightarrow> 'v \<Rightarrow> 'm \<Rightarrow> ('v option \<times> 'm) option"
    and lookup :: "'k \<Rightarrow> 'm \<Rightarrow> 'v option option"
    and remove :: "'k \<Rightarrow> 'm \<Rightarrow> (('k \<times> 'v) option \<times> 'm) option"
    and inv :: "'m \<Rightarrow> bool"
    and entries :: "'m \<Rightarrow> ('k \<times> 'v) list"
  assumes inv_empty: "inv empty"
    and entries_empty: "entries empty = []"
    and sorted_entries: "inv m \<Longrightarrow> sorted1 (entries m)"
    and insert_law: "inv m \<Longrightarrow> \<exists>m'. put k v m = Some (map_of (entries m) k, m') \<and> inv m' \<and>
      entries m' = ins k v (entries m)"
    and lookup_law: "inv m \<Longrightarrow> lookup k m = Some (map_of (entries m) k)"
    and remove_law: "inv m \<Longrightarrow> \<exists>m'. remove k m = Some (map_option (Pair k) (map_of (entries m) k), m') \<and> inv m' \<and>
      entries m' = del k (entries m)"
begin

lemma lookup_insert:
  assumes "inv m" "put k v m = Some (old, m')"
  shows "inv m' \<and> lookup k' m = Some (map_of (entries m) k') \<and>
    lookup k' m' = Some (if k' = k then Some v else map_of (entries m) k')"
  using insert_law [OF assms(1), of k v] assms lookup_law by (auto simp: map_of_ins)

lemma lookup_remove:
  assumes "inv m" "remove k m = Some (r, m')"
  shows "inv m' \<and> lookup k' m' = Some (if k' = k then None else map_of (entries m) k')"
  using remove_law [OF assms(1), of k] assms lookup_law by (auto simp: map_of_del)

lemma insert_all_entries:
  "inv m \<Longrightarrow> \<exists>m'. insert_all put xs m = Some m' \<and> inv m' \<and>
    entries m' = foldl (\<lambda>l p. ins (fst p) (snd p) l) (entries m) xs"
proof (induction xs arbitrary: m)
  case (Cons x xs)
  obtain m1 where "put (fst x) (snd x) m = Some (map_of (entries m) (fst x), m1)" "inv m1"
    "entries m1 = ins (fst x) (snd x) (entries m)" using insert_law [OF Cons.prems] by blast
  then show ?case using Cons.IH [of m1] by auto
qed simp

text \<open>The last of several insertions with one key wins.\<close>

lemma insert_all_lookup:
  "inv m \<Longrightarrow> \<exists>m'. insert_all put xs m = Some m' \<and> inv m' \<and>
    (\<forall>k. lookup k m' = Some ((map_of (entries m) ++ map_of (rev xs)) k))"
  using insert_all_entries [of m xs] lookup_law by (metis map_of_foldl_ins)

text \<open>Copying the entries of a map into an empty one, in order, copies the map.\<close>

lemma insert_all_copy:
  assumes "inv m"
  shows "\<exists>m'. insert_all put (entries m) empty = Some m' \<and> inv m' \<and> entries m' = entries m"
  using insert_all_entries [OF inv_empty, of "entries m"] foldl_ins_sorted [of "[]" "entries m"] sorted_entries [OF assms]
  by (simp add: entries_empty)

end

end
