(* ===== verification/BTree.thy ===== *)
theory BTree
  imports Ordered_Map
begin

text \<open>
  \<open>BTreeMap\<close> of src/alloc/src/collections/btree_map.cppm on the nodes of btree_node.cppm.  A node is its
  \<open>leaf\<close> flag, the initialised part of its key and value arrays and the initialised part of its edge
  array; moving an entry or an edge between slots is an operation on these lists.  An operation on a
  node returns an option: \<open>None\<close> is a failed \<open>debug_assert\<close> or an access outside the initialised part
  of an array, which the lemmas show never happens on a well-formed tree.  The recursive operations
  take the number of levels they may descend; the operations of the map pass the height of the tree.
  Keys are linearly ordered by \<open><\<close>; lookups with a borrowed key type are those with the key type
  itself.  \<open>usize\<close> lengths are natural numbers.
\<close>

section \<open>Nodes\<close>

definition B :: nat where "B = 6"
definition CAPACITY :: nat where "CAPACITY = 2 * B - 1"
definition EDGE_COUNT :: nat where "EDGE_COUNT = 2 * B"

datatype ('k, 'v) node =
  Node (n_leaf: bool) (n_entries: "('k \<times> 'v) list") (n_edges: "('k, 'v) node list")

abbreviation n_len :: "('k, 'v) node \<Rightarrow> nat" where
  "n_len t \<equiv> length (n_entries t)"

definition require :: "bool \<Rightarrow> unit option" where
  "require b = (if b then Some () else None)"

fun node_key :: "nat \<Rightarrow> ('k, 'v) node \<Rightarrow> 'k option" where
  "node_key i (Node l es cs) = (if i < length es then Some (fst (es ! i)) else None)"

fun node_value :: "nat \<Rightarrow> ('k, 'v) node \<Rightarrow> 'v option" where
  "node_value i (Node l es cs) = (if i < length es then Some (snd (es ! i)) else None)"

fun node_entry :: "nat \<Rightarrow> ('k, 'v) node \<Rightarrow> ('k \<times> 'v) option" where
  "node_entry i (Node l es cs) = (if i < length es then Some (es ! i) else None)"

fun child :: "nat \<Rightarrow> ('k, 'v) node \<Rightarrow> ('k, 'v) node option" where
  "child i (Node l es cs) = (if \<not> l \<and> i < length cs then Some (cs ! i) else None)"

fun set_child :: "nat \<Rightarrow> ('k, 'v) node \<Rightarrow> ('k, 'v) node \<Rightarrow> ('k, 'v) node" where
  "set_child i c (Node l es cs) = Node l es (cs[i := c])"

text \<open>\<open>take_entry\<close> of a slot that is written again at once.\<close>

fun replace_entry :: "nat \<Rightarrow> 'k \<times> 'v \<Rightarrow> ('k, 'v) node \<Rightarrow> (('k \<times> 'v) \<times> ('k, 'v) node) option" where
  "replace_entry i e (Node l es cs) = (if i < length es then Some (es ! i, Node l (es[i := e]) cs) else None)"

fun insert_entry :: "nat \<Rightarrow> 'k \<times> 'v \<Rightarrow> ('k, 'v) node \<Rightarrow> ('k, 'v) node option" where
  "insert_entry i e (Node l es cs) =
    (if length es < CAPACITY \<and> i \<le> length es then Some (Node l (take i es @ e # drop i es) cs) else None)"

fun node_remove_entry :: "nat \<Rightarrow> ('k, 'v) node \<Rightarrow> (('k \<times> 'v) \<times> ('k, 'v) node) option" where
  "node_remove_entry i (Node l es cs) =
    (if i < length es then Some (es ! i, Node l (take i es @ drop (Suc i) es) cs) else None)"

text \<open>\<open>active\<close> is the number of initialised edges.\<close>

fun insert_edge :: "('k, 'v) node \<Rightarrow> nat \<Rightarrow> ('k, 'v) node \<Rightarrow> nat \<Rightarrow> ('k, 'v) node option" where
  "insert_edge (Node l es cs) i edge active =
    (if \<not> l \<and> active < EDGE_COUNT \<and> i \<le> active \<and> active = length cs
     then Some (Node l es (take i cs @ edge # drop i cs)) else None)"

fun remove_edge :: "('k, 'v) node \<Rightarrow> nat \<Rightarrow> nat \<Rightarrow> (('k, 'v) node \<times> ('k, 'v) node) option" where
  "remove_edge (Node l es cs) i active =
    (if \<not> l \<and> active \<le> EDGE_COUNT \<and> i < active \<and> active = length cs
     then Some (cs ! i, Node l es (take i cs @ drop (Suc i) cs)) else None)"

text \<open>\<open>take_edge\<close> of the last initialised edge.\<close>

fun take_last_edge :: "nat \<Rightarrow> ('k, 'v) node \<Rightarrow> (('k, 'v) node \<times> ('k, 'v) node) option" where
  "take_last_edge i (Node l es cs) =
    (if \<not> l \<and> length cs = Suc i then Some (cs ! i, Node l es (take i cs)) else None)"

section \<open>Search\<close>

definition equivalent :: "'k::linorder \<Rightarrow> 'k \<Rightarrow> bool" where
  "equivalent left right \<longleftrightarrow> \<not> left < right \<and> \<not> right < left"

fun lower_bound_list :: "('k::linorder \<times> 'v) list \<Rightarrow> 'k \<Rightarrow> nat" where
  "lower_bound_list [] key = 0"
| "lower_bound_list (e # es) key = (if fst e < key then Suc (lower_bound_list es key) else 0)"

definition lower_bound :: "('k::linorder, 'v) node \<Rightarrow> 'k \<Rightarrow> nat" where
  "lower_bound t key = lower_bound_list (n_entries t) key"

fun node_get :: "nat \<Rightarrow> ('k::linorder, 'v) node \<Rightarrow> 'k \<Rightarrow> ('k \<times> 'v) option option" where
  "node_get 0 t key = None"
| "node_get (Suc f) t key =
    (let index = lower_bound t key in
     if index < n_len t \<and> equivalent (fst (n_entries t ! index)) key then Some (Some (n_entries t ! index))
     else if n_leaf t then Some None
     else do { c \<leftarrow> child index t; node_get f c key })"

section \<open>Insertion\<close>

definition split_child :: "('k, 'v) node \<Rightarrow> nat \<Rightarrow> ('k, 'v) node option" where
  "split_child parent i = do {
     require (\<not> n_leaf parent \<and> n_len parent < CAPACITY \<and> i \<le> n_len parent);
     c \<leftarrow> child i parent;
     require (n_len c = CAPACITY);
     let sibling = Node (n_leaf c) (drop B (n_entries c)) (if n_leaf c then [] else drop B (n_edges c));
     let middle = n_entries c ! (B - 1);
     let c' = Node (n_leaf c) (take (B - 1) (n_entries c)) (if n_leaf c then n_edges c else take B (n_edges c));
     parent' \<leftarrow> insert_edge (set_child i c' parent) (i + 1) sibling (n_len parent + 1);
     insert_entry i middle parent'
   }"

text \<open>The result is the new node, the replaced value and whether the length of the map grew.\<close>

fun insert_non_full :: "nat \<Rightarrow> ('k::linorder, 'v) node \<Rightarrow> 'k \<Rightarrow> 'v
    \<Rightarrow> (('k, 'v) node \<times> 'v option \<times> bool) option" where
  "insert_non_full 0 t key v = None"
| "insert_non_full (Suc f) t key v =
    (let index = lower_bound t key in
     if index < n_len t \<and> equivalent (fst (n_entries t ! index)) key then do {
       (stored, t') \<leftarrow> replace_entry index (fst (n_entries t ! index), v) t;
       Some (t', Some (snd stored), False)
     }
     else if n_leaf t then do {
       t' \<leftarrow> insert_entry index (key, v) t;
       Some (t', None, True)
     }
     else do {
       c \<leftarrow> child index t;
       if n_len c = CAPACITY then do {
         t1 \<leftarrow> split_child t index;
         k \<leftarrow> node_key index t1;
         if equivalent k key then do {
           (stored, t') \<leftarrow> replace_entry index (k, v) t1;
           Some (t', Some (snd stored), False)
         }
         else do {
           let index' = (if k < key then index + 1 else index);
           c' \<leftarrow> child index' t1;
           (c'', old, grew) \<leftarrow> insert_non_full f c' key v;
           Some (set_child index' c'' t1, old, grew)
         }
       }
       else do {
         (c', old, grew) \<leftarrow> insert_non_full f c key v;
         Some (set_child index c' t, old, grew)
       }
     })"

section \<open>Rebalancing\<close>

definition borrow_from_previous :: "('k, 'v) node \<Rightarrow> nat \<Rightarrow> ('k, 'v) node option" where
  "borrow_from_previous parent i = do {
     require (\<not> n_leaf parent \<and> i \<noteq> 0 \<and> i \<le> n_len parent);
     c \<leftarrow> child i parent;
     s \<leftarrow> child (i - 1) parent;
     require (n_len c < CAPACITY \<and> n_len s \<ge> B);
     require (n_leaf c = n_leaf s);
     (sibling_entry, s1) \<leftarrow> node_remove_entry (n_len s - 1) s;
     (parent_entry, parent1) \<leftarrow> replace_entry (i - 1) sibling_entry parent;
     c1 \<leftarrow> insert_entry 0 parent_entry c;
     (c2, s2) \<leftarrow>
       (if \<not> n_leaf c then do {
          (edge, s2) \<leftarrow> take_last_edge (n_len s1 + 1) s1;
          c2 \<leftarrow> insert_edge c1 0 edge (n_len c1);
          Some (c2, s2)
        } else Some (c1, s1));
     Some (set_child (i - 1) s2 (set_child i c2 parent1))
   }"

definition borrow_from_next :: "('k, 'v) node \<Rightarrow> nat \<Rightarrow> ('k, 'v) node option" where
  "borrow_from_next parent i = do {
     require (\<not> n_leaf parent \<and> i < n_len parent);
     c \<leftarrow> child i parent;
     s \<leftarrow> child (i + 1) parent;
     require (n_len c < CAPACITY \<and> n_len s \<ge> B);
     require (n_leaf c = n_leaf s);
     (sibling_entry, s1) \<leftarrow> node_remove_entry 0 s;
     (parent_entry, parent1) \<leftarrow> replace_entry i sibling_entry parent;
     c1 \<leftarrow> insert_entry (n_len c) parent_entry c;
     (c2, s2) \<leftarrow>
       (if \<not> n_leaf c then do {
          (edge, s2) \<leftarrow> remove_edge s1 0 (n_len s1 + 2);
          c2 \<leftarrow> insert_edge c1 (n_len c1) edge (n_len c1);
          Some (c2, s2)
        } else Some (c1, s1));
     Some (set_child (i + 1) s2 (set_child i c2 parent1))
   }"

text \<open>The loop of \<open>merge_children\<close> that moves the entries of the right node.\<close>

fun append_entries :: "('k \<times> 'v) list \<Rightarrow> ('k, 'v) node \<Rightarrow> ('k, 'v) node option" where
  "append_entries [] left = Some left"
| "append_entries (e # es) left = do {
     left' \<leftarrow> insert_entry (n_len left) e left;
     append_entries es left'
   }"

definition merge_children :: "('k, 'v) node \<Rightarrow> nat \<Rightarrow> ('k, 'v) node option" where
  "merge_children parent i = do {
     require (\<not> n_leaf parent \<and> i < n_len parent);
     left0 \<leftarrow> child i parent;
     right0 \<leftarrow> child (i + 1) parent;
     require (n_leaf left0 = n_leaf right0);
     require (n_len left0 + n_len right0 + 1 \<le> CAPACITY);
     (right, parent1) \<leftarrow> remove_edge parent (i + 1) (n_len parent + 1);
     left \<leftarrow> child i parent1;
     (middle, parent2) \<leftarrow> node_remove_entry i parent1;
     left1 \<leftarrow> insert_entry (n_len left) middle left;
     left2 \<leftarrow> append_entries (n_entries right) left1;
     let left3 = (if \<not> n_leaf left
                  then Node (n_leaf left2) (n_entries left2) (n_edges left2 @ n_edges right)
                  else left2);
     Some (set_child i left3 parent2)
   }"

section \<open>Removal\<close>

fun remove_min :: "nat \<Rightarrow> ('k, 'v) node \<Rightarrow> (('k \<times> 'v) \<times> ('k, 'v) node) option" where
  "remove_min 0 t = None"
| "remove_min (Suc f) t =
    (if n_leaf t then node_remove_entry 0 t
     else do {
       c \<leftarrow> child 0 t;
       t1 \<leftarrow> (if n_len c = B - 1 then do {
                 s \<leftarrow> child 1 t;
                 if n_len s \<ge> B then borrow_from_next t 0 else merge_children t 0
               } else Some t);
       c1 \<leftarrow> child 0 t1;
       (e, c2) \<leftarrow> remove_min f c1;
       Some (e, set_child 0 c2 t1)
     })"

fun remove_max :: "nat \<Rightarrow> ('k, 'v) node \<Rightarrow> (('k \<times> 'v) \<times> ('k, 'v) node) option" where
  "remove_max 0 t = None"
| "remove_max (Suc f) t =
    (if n_leaf t then node_remove_entry (n_len t - 1) t
     else do {
       let i = n_len t;
       c \<leftarrow> child i t;
       (t1, j) \<leftarrow> (if n_len c = B - 1 then do {
                      require (i \<noteq> 0);
                      s \<leftarrow> child (i - 1) t;
                      if n_len s \<ge> B then do { t1 \<leftarrow> borrow_from_previous t i; Some (t1, i) }
                      else do { t1 \<leftarrow> merge_children t (i - 1); Some (t1, i - 1) }
                    } else Some (t, i));
       c1 \<leftarrow> child j t1;
       (e, c2) \<leftarrow> remove_max f c1;
       Some (e, set_child j c2 t1)
     })"

text \<open>The choice of \<open>remove_from_node\<close> before it descends into child \<open>i\<close>: the new node and the index of the
  child to descend into.\<close>

definition fix_child :: "('k, 'v) node \<Rightarrow> nat \<Rightarrow> (('k, 'v) node \<times> nat) option" where
  "fix_child t i = do {
     c \<leftarrow> child i t;
     if n_len c = B - 1 then
       (if i \<noteq> 0 \<and> (case child (i - 1) t of Some s \<Rightarrow> n_len s \<ge> B | None \<Rightarrow> False)
        then do { t1 \<leftarrow> borrow_from_previous t i; Some (t1, i) }
        else if i \<noteq> n_len t \<and> (case child (i + 1) t of Some s \<Rightarrow> n_len s \<ge> B | None \<Rightarrow> False)
        then do { t1 \<leftarrow> borrow_from_next t i; Some (t1, i) }
        else if i \<noteq> n_len t then do { t1 \<leftarrow> merge_children t i; Some (t1, i) }
        else do { require (i \<noteq> 0); t1 \<leftarrow> merge_children t (i - 1); Some (t1, i - 1) })
     else Some (t, i)
   }"

fun remove_from_node :: "nat \<Rightarrow> ('k::linorder, 'v) node \<Rightarrow> 'k
    \<Rightarrow> (('k \<times> 'v) option \<times> ('k, 'v) node) option"
and remove_from_internal :: "nat \<Rightarrow> ('k::linorder, 'v) node \<Rightarrow> nat \<Rightarrow> 'k
    \<Rightarrow> (('k \<times> 'v) option \<times> ('k, 'v) node) option" where
  "remove_from_node 0 t key = None"
| "remove_from_node (Suc f) t key =
    (let index = lower_bound t key in
     if index < n_len t \<and> equivalent (fst (n_entries t ! index)) key then
       (if n_leaf t then do { (e, t') \<leftarrow> node_remove_entry index t; Some (Some e, t') }
        else remove_from_internal f t index key)
     else if n_leaf t then Some (None, t)
     else do {
       (t1, j) \<leftarrow> fix_child t index;
       c \<leftarrow> child j t1;
       (removed, c') \<leftarrow> remove_from_node f c key;
       Some (removed, set_child j c' t1)
     })"
| "remove_from_internal f t index key = do {
     left \<leftarrow> child index t;
     right \<leftarrow> child (index + 1) t;
     if n_len left \<ge> B then do {
       (predecessor, left') \<leftarrow> remove_max f left;
       (removed, t') \<leftarrow> replace_entry index predecessor t;
       Some (Some removed, set_child index left' t')
     }
     else if n_len right \<ge> B then do {
       (successor, right') \<leftarrow> remove_min f right;
       (removed, t') \<leftarrow> replace_entry index successor t;
       Some (Some removed, set_child (index + 1) right' t')
     }
     else do {
       t1 \<leftarrow> merge_children t index;
       merged \<leftarrow> child index t1;
       (removed, merged') \<leftarrow> remove_from_node f merged key;
       Some (removed, set_child index merged' t1)
     }
   }"

section \<open>The map\<close>

record ('k, 'v) btree_map =
  bm_root :: "('k, 'v) node option"
  bm_length :: nat

text \<open>The number of levels of a tree, read off its leftmost path.\<close>

fun levels :: "('k, 'v) node \<Rightarrow> nat" where
  "levels (Node l es []) = 1"
| "levels (Node l es (c # cs)) = (if l then 1 else Suc (levels c))"

definition make_map :: "('k, 'v) btree_map" where
  "make_map = \<lparr>bm_root = None, bm_length = 0\<rparr>"

definition clear_map :: "('k, 'v) btree_map \<Rightarrow> ('k, 'v) btree_map" where
  "clear_map m = m\<lparr>bm_root := None, bm_length := 0\<rparr>"

definition normalize_root :: "('k, 'v) btree_map \<Rightarrow> ('k, 'v) btree_map option" where
  "normalize_root m =
    (case bm_root m of
       None \<Rightarrow> Some m
     | Some t \<Rightarrow>
         if n_len t \<noteq> 0 \<or> n_leaf t then Some m
         else do { c \<leftarrow> child 0 t; Some (m\<lparr>bm_root := Some c\<rparr>) })"

definition insert_key :: "'k::linorder \<Rightarrow> 'v \<Rightarrow> ('k, 'v) btree_map \<Rightarrow> ('v option \<times> ('k, 'v) btree_map) option" where
  "insert_key key v m = do {
     let t0 = (case bm_root m of None \<Rightarrow> Node True [] [] | Some t \<Rightarrow> t);
     t1 \<leftarrow> (if n_len t0 = CAPACITY then split_child (Node False [] [t0]) 0 else Some t0);
     (t2, old, grew) \<leftarrow> insert_non_full (levels t1) t1 key v;
     Some (old, m\<lparr>bm_root := Some t2, bm_length := bm_length m + (if grew then 1 else 0)\<rparr>)
   }"

definition get_key_value :: "'k::linorder \<Rightarrow> ('k, 'v) btree_map \<Rightarrow> ('k \<times> 'v) option option" where
  "get_key_value key m =
    (case bm_root m of None \<Rightarrow> Some None | Some t \<Rightarrow> node_get (levels t) t key)"

definition get :: "'k::linorder \<Rightarrow> ('k, 'v) btree_map \<Rightarrow> 'v option option" where
  "get key m = do { r \<leftarrow> get_key_value key m; Some (map_option snd r) }"

definition contains_key :: "'k::linorder \<Rightarrow> ('k, 'v) btree_map \<Rightarrow> bool option" where
  "contains_key key m = do { r \<leftarrow> get key m; Some (r \<noteq> None) }"

definition remove_entry :: "'k::linorder \<Rightarrow> ('k, 'v) btree_map \<Rightarrow> (('k \<times> 'v) option \<times> ('k, 'v) btree_map) option" where
  "remove_entry key m =
    (case bm_root m of
       None \<Rightarrow> Some (None, m)
     | Some t \<Rightarrow> do {
         (removed, t') \<leftarrow> remove_from_node (levels t) t key;
         m' \<leftarrow> normalize_root (m\<lparr>bm_root := Some t',
                 bm_length := (if removed \<noteq> None then bm_length m - 1 else bm_length m)\<rparr>);
         Some (removed, m')
       })"

definition pop_first :: "('k::linorder, 'v) btree_map \<Rightarrow> (('k \<times> 'v) option \<times> ('k, 'v) btree_map) option" where
  "pop_first m =
    (if bm_length m = 0 then Some (None, m)
     else do {
       t \<leftarrow> bm_root m;
       (e, t') \<leftarrow> remove_min (levels t) t;
       m' \<leftarrow> normalize_root (m\<lparr>bm_root := Some t', bm_length := bm_length m - 1\<rparr>);
       Some (Some e, m')
     })"

definition pop_last :: "('k::linorder, 'v) btree_map \<Rightarrow> (('k \<times> 'v) option \<times> ('k, 'v) btree_map) option" where
  "pop_last m =
    (if bm_length m = 0 then Some (None, m)
     else do {
       t \<leftarrow> bm_root m;
       (e, t') \<leftarrow> remove_max (levels t) t;
       m' \<leftarrow> normalize_root (m\<lparr>bm_root := Some t', bm_length := bm_length m - 1\<rparr>);
       Some (Some e, m')
     })"

text \<open>The loops of \<open>first_key_value\<close> and \<open>last_key_value\<close> down to a leaf.\<close>

fun descend_left :: "nat \<Rightarrow> ('k, 'v) node \<Rightarrow> ('k, 'v) node option" where
  "descend_left 0 t = None"
| "descend_left (Suc f) t = (if n_leaf t then Some t else do { c \<leftarrow> child 0 t; descend_left f c })"

fun descend_right :: "nat \<Rightarrow> ('k, 'v) node \<Rightarrow> ('k, 'v) node option" where
  "descend_right 0 t = None"
| "descend_right (Suc f) t = (if n_leaf t then Some t else do { c \<leftarrow> child (n_len t) t; descend_right f c })"

definition first_key_value :: "('k, 'v) btree_map \<Rightarrow> ('k \<times> 'v) option option" where
  "first_key_value m =
    (case bm_root m of
       None \<Rightarrow> Some None
     | Some t \<Rightarrow>
         if bm_length m = 0 then Some None
         else do { leaf \<leftarrow> descend_left (levels t) t; e \<leftarrow> node_entry 0 leaf; Some (Some e) })"

definition last_key_value :: "('k, 'v) btree_map \<Rightarrow> ('k \<times> 'v) option option" where
  "last_key_value m =
    (case bm_root m of
       None \<Rightarrow> Some None
     | Some t \<Rightarrow>
         if bm_length m = 0 then Some None
         else do { leaf \<leftarrow> descend_right (levels t) t; e \<leftarrow> node_entry (n_len leaf - 1) leaf; Some (Some e) })"

definition extend :: "('k::linorder \<times> 'v) list \<Rightarrow> ('k, 'v) btree_map \<Rightarrow> ('k, 'v) btree_map option" where
  "extend items m = insert_all insert_key items m"

definition from_iter :: "('k::linorder \<times> 'v) list \<Rightarrow> ('k, 'v) btree_map option" where
  "from_iter items = extend items make_map"

section \<open>Specification\<close>

text \<open>The entries of a tree in order.  \<open>pre\<close> and \<open>post\<close> are what surrounds a child in the order.\<close>

fun pre :: "'a list \<Rightarrow> 'a list list \<Rightarrow> 'a list" where
  "pre (e # es) (x # xs) = x @ e # pre es xs"
| "pre es xs = []"

fun post :: "'a list \<Rightarrow> 'a list list \<Rightarrow> 'a list" where
  "post (e # es) (x # xs) = e # x @ post es xs"
| "post es xs = []"

fun weave :: "'a list \<Rightarrow> 'a list list \<Rightarrow> 'a list" where
  "weave es [] = []"
| "weave es (x # xs) = x @ post es xs"

fun inorder :: "('k, 'v) node \<Rightarrow> ('k \<times> 'v) list" where
  "inorder (Node l es cs) = (if l then es else weave es (map inorder cs))"

text \<open>All leaves at depth \<open>h\<close>, nodes within the bounds of their arrays, and every node but the root at
  least half full.\<close>

fun bal :: "nat \<Rightarrow> ('k, 'v) node \<Rightarrow> bool" where
  "bal 0 (Node l es cs) \<longleftrightarrow> l \<and> cs = [] \<and> length es \<le> CAPACITY"
| "bal (Suc h) (Node l es cs) \<longleftrightarrow> \<not> l \<and> length es \<le> CAPACITY \<and> length cs = Suc (length es) \<and>
     (\<forall>c \<in> set cs. bal h c \<and> B - 1 \<le> n_len c)"

definition bm_entries :: "('k, 'v) btree_map \<Rightarrow> ('k \<times> 'v) list" where
  "bm_entries m = (case bm_root m of None \<Rightarrow> [] | Some t \<Rightarrow> inorder t)"

definition bm_inv :: "('k::linorder, 'v) btree_map \<Rightarrow> bool" where
  "bm_inv m \<longleftrightarrow> bm_length m = length (bm_entries m) \<and> sorted1 (bm_entries m) \<and>
     (case bm_root m of None \<Rightarrow> True | Some t \<Rightarrow> \<exists>h. bal h t \<and> (h = 0 \<or> 1 \<le> n_len t))"

definition ins_post :: "nat \<Rightarrow> ('k::linorder, 'v) node \<Rightarrow> 'k \<Rightarrow> 'v \<Rightarrow> ('k, 'v) node \<Rightarrow> 'v option \<Rightarrow> bool \<Rightarrow> bool" where
  "ins_post h t key v t' old grew \<longleftrightarrow> bal h t' \<and> n_len t \<le> n_len t' \<and> inorder t' = ins key v (inorder t) \<and>
     old = map_of (inorder t) key \<and> (grew \<longleftrightarrow> old = None)"

definition around :: "'k::linorder \<Rightarrow> ('k \<times> 'v) list \<Rightarrow> ('k \<times> 'v) list \<Rightarrow> bool" where
  "around key ea eb \<longleftrightarrow> (\<forall>p \<in> set ea. fst p < key) \<and> (eb = [] \<or> key < fst (hd eb))"

definition fixed :: "nat \<Rightarrow> ('k::linorder, 'v) node \<Rightarrow> ('k \<times> 'v) list \<Rightarrow> ('k \<times> 'v) list
    \<Rightarrow> ('k \<times> 'v) list \<Rightarrow> ('k \<times> 'v) list \<Rightarrow> ('k, 'v) node list \<Rightarrow> ('k, 'v) node \<Rightarrow> ('k, 'v) node list \<Rightarrow> bool" where
  "fixed h t ea eb ea' eb' ca' c' cb' \<longleftrightarrow> length ca' = length ea' \<and> bal (Suc h) (Node False (ea' @ eb') (ca' @ c' # cb')) \<and>
     bal h c' \<and> 6 \<le> n_len c' \<and> inorder (Node False (ea' @ eb') (ca' @ c' # cb')) = inorder t \<and>
     n_len t \<le> Suc (length (ea' @ eb')) \<and> (ea = [] \<longrightarrow> ea' = []) \<and> (eb = [] \<longrightarrow> eb' = []) \<and>
     (\<forall>key. sorted1 (inorder t) \<and> around key ea eb \<longrightarrow> around key ea' eb')"

definition rem_post :: "nat \<Rightarrow> ('k::linorder, 'v) node \<Rightarrow> 'k \<Rightarrow> ('k \<times> 'v) option \<Rightarrow> ('k, 'v) node \<Rightarrow> bool" where
  "rem_post h t key removed t' \<longleftrightarrow> bal h t' \<and> n_len t \<le> Suc (n_len t') \<and> inorder t' = del key (inorder t) \<and>
     removed = map_option (Pair key) (map_of (inorder t) key)"

definition sample_map :: "(nat, bool) btree_map" where
  "sample_map = \<lparr>bm_root = Some (Node True [(1, True), (2, False)] []), bm_length = 2\<rparr>"

definition sample_tree :: "(nat, bool) btree_map" where
  "sample_tree = \<lparr>bm_root = Some (Node False [(6, True)]
     [Node True [(1, True), (2, True), (3, False), (4, True), (5, True)] [],
      Node True [(7, True), (8, True), (9, True), (10, True), (11, True)] []]), bm_length = 11\<rparr>"

section \<open>Order of a tree\<close>

named_theorems bt_simps \<open>evaluation of the node operations\<close>

lemma require_simps [simp, bt_simps]: "require True = Some ()" "require False = None"
  by (simp_all add: require_def)

lemma sizes [simp]: "CAPACITY = 11" "EDGE_COUNT = 12" "B = 6"
  by (simp_all add: CAPACITY_def EDGE_COUNT_def B_def)

lemma weave_Cons: "ys \<noteq> [] \<Longrightarrow> weave (e # es) (y # ys) = y @ e # weave es ys"
  by (cases ys) simp_all

lemma weave_append:
  "length xs = Suc (length es) \<Longrightarrow> ys \<noteq> [] \<Longrightarrow> weave (es @ m # fs) (xs @ ys) = weave es xs @ m # weave fs ys"
proof (induction es arbitrary: xs)
  case Nil
  then obtain x where "xs = [x]" by (auto simp: length_Suc_conv)
  then show ?case using Nil.prems by (cases ys) simp_all
next
  case (Cons e es)
  then obtain x xs' where xs: "xs = x # xs'" "length xs' = Suc (length es)" by (auto simp: length_Suc_conv)
  then have "xs' \<noteq> []" by auto
  then show ?case using Cons xs by (simp add: weave_Cons del: weave.simps)
qed

lemma weave_split:
  "length ea = length xa \<Longrightarrow> weave (ea @ eb) (xa @ x # xb) = pre ea xa @ x @ post eb xb"
  by (induction ea xa rule: list_induct2) (simp_all add: weave_Cons del: weave.simps(2), simp)

lemma pre_snoc: "length ea = length xa \<Longrightarrow> pre (ea @ [e]) (xa @ [x]) = pre ea xa @ x @ [e]"
  by (induction ea xa rule: list_induct2) simp_all

lemma inorder_split:
  "length ea = length ca \<Longrightarrow> inorder (Node False (ea @ eb) (ca @ c # cb)) =
     pre ea (map inorder ca) @ inorder c @ post eb (map inorder cb)"
  by (simp add: weave_split)

lemma inorder_split2:
  "length ea = length ca \<Longrightarrow> inorder (Node False (ea @ p # eb) (ca @ l # r # cb)) =
     pre ea (map inorder ca) @ inorder l @ p # inorder r @ post eb (map inorder cb)"
  by (simp add: weave_split)

lemma pre_less:
  "sorted1 (pre ea xa @ R) \<Longrightarrow> (\<forall>p \<in> set ea. fst p < key) \<Longrightarrow> p \<in> set (pre ea xa) \<Longrightarrow> fst p < key"
  by (induction ea xa rule: pre.induct) (fastforce simp: sorted1_simps)+

lemma post_greater:
  "sorted1 (post eb xb) \<Longrightarrow> (eb = [] \<or> key < fst (hd eb)) \<Longrightarrow> p \<in> set (post eb xb) \<Longrightarrow> key < fst p"
  by (cases "(eb, xb)" rule: post.cases) (auto simp: sorted1_simps intro: less_trans)

declare node_get.simps(2) [simp del] insert_non_full.simps(2) [simp del] remove_from_node.simps(2) [simp del]
  remove_from_internal.simps [simp del] remove_min.simps(2) [simp del] remove_max.simps(2) [simp del]


section \<open>Search\<close>

lemma lower_bound_split:
  obtains ea eb where "es = ea @ eb" "length ea = lower_bound_list es key" "\<forall>p \<in> set ea. fst p < key"
    "eb = [] \<or> \<not> fst (hd eb) < key"
proof -
  have "\<exists>ea eb. es = ea @ eb \<and> length ea = lower_bound_list es key \<and> (\<forall>p \<in> set ea. fst p < key) \<and>
    (eb = [] \<or> \<not> fst (hd eb) < key)"
  proof (induction es)
    case (Cons e es)
    then obtain ea eb where "es = ea @ eb" "length ea = lower_bound_list es key" "\<forall>p \<in> set ea. fst p < key"
      "eb = [] \<or> \<not> fst (hd eb) < key" by blast
    then show ?case
      by (cases "fst e < key") (auto intro: exI [of _ "e # ea"] exI [of _ "[] :: ('a \<times> 'b) list"])
  qed simp
  then show thesis using that by blast
qed

lemma equivalent_iff: "equivalent a b \<longleftrightarrow> a = b"
  by (auto simp: equivalent_def)

lemma split_children:
  assumes "length cs = Suc (length (ea @ eb))"
  obtains ca c cb where "cs = ca @ c # cb" "length ca = length ea" "length cb = length eb"
proof -
  have "cs = take (length ea) cs @ cs ! length ea # drop (Suc (length ea)) cs"
    using assms by (simp add: id_take_nth_drop)
  then show thesis using that [of "take (length ea) cs" "cs ! length ea" "drop (Suc (length ea)) cs"] assms by simp
qed

lemma bal_Suc_split:
  assumes "bal (Suc h) t" "n_entries t = ea @ eb"
  obtains ca c cb where "t = Node False (ea @ eb) (ca @ c # cb)" "length ca = length ea" "length cb = length eb"
    "bal h c" "5 \<le> n_len c"
proof -
  obtain cs where t: "t = Node False (ea @ eb) cs" "length cs = Suc (length (ea @ eb))"
    using assms by (cases t) auto
  from t(2) obtain ca c cb where "cs = ca @ c # cb" "length ca = length ea" "length cb = length eb"
    by (rule split_children)
  then show thesis using that assms(1) t(1) by auto
qed

lemma bal_0_leaf: "bal 0 t \<Longrightarrow> t = Node True (n_entries t) []"
  by (cases t) auto

lemma bal_leaf: "bal h t \<Longrightarrow> n_leaf t \<longleftrightarrow> h = 0"
  by (cases t; cases h) auto

lemma bal_len: "bal h t \<Longrightarrow> n_len t \<le> 11"
  by (cases t; cases h) auto

text \<open>An entry of a node is an entry of its order; the rest does not depend on it.\<close>

lemma entry_in_order:
  assumes "bal h (Node l (ea @ e # eb) cs)"
  obtains P Q where "\<And>e'. inorder (Node l (ea @ e' # eb) cs) = P @ e' # Q"
proof (cases h)
  case 0
  then show thesis using that [of ea eb] assms by simp
next
  case (Suc h')
  then have "length cs = Suc (length (ea @ e # eb))" using assms by simp
  then obtain ca c cb where cs: "cs = ca @ c # cb" "length ca = length ea" "length cb = length (e # eb)"
    by (rule split_children)
  then obtain r cb' where r: "cb = r # cb'" by (cases cb) auto
  have "\<not> l" using assms Suc by simp
  then show thesis
    using that [of "pre ea (map inorder ca) @ inorder c" "inorder r @ post eb (map inorder cb')"] cs r
    by (simp add: weave_split)
qed

text \<open>What is left and right of the child reached by \<open>lower_bound\<close>.\<close>

lemma around_child:
  assumes "sorted1 (pre ea xa @ M @ post eb xb)" "\<forall>p \<in> set ea. fst p < key" "eb = [] \<or> key < fst (hd eb)"
  shows "p \<in> set (pre ea xa) \<Longrightarrow> fst p < key" "p \<in> set (post eb xb) \<Longrightarrow> key < fst p"
  using assms pre_less post_greater by (blast, auto simp: sorted1_append intro: post_greater)

lemma node_get_ok:
  "bal h t \<Longrightarrow> sorted1 (inorder t) \<Longrightarrow>
    node_get (Suc h) t key = Some (map_option (Pair key) (map_of (inorder t) key))"
proof (induction h arbitrary: t)
  case (0 t)
  obtain ea eb where es: "n_entries t = ea @ eb" "length ea = lower_bound t key" "\<forall>p \<in> set ea. fst p < key"
    "eb = [] \<or> \<not> fst (hd eb) < key" unfolding lower_bound_def by (rule lower_bound_split)
  have t: "t = Node True (ea @ eb) []" using bal_0_leaf [OF 0(1)] es(1) by simp
  show ?case
  proof (cases "eb \<noteq> [] \<and> fst (hd eb) = key")
    case True
    then obtain w eb' where eb: "eb = (key, w) # eb'" by (cases eb) auto
    then show ?thesis using 0(2) es(2) [symmetric] replace_at(3) [of ea key w eb']
      by (subst node_get.simps) (simp add: t equivalent_iff nth_append)
  next
    case False
    then have "eb = [] \<or> key < fst (hd eb)" using es(4) by auto
    then have "\<forall>p \<in> set eb. key < fst p" using 0(2) by (cases eb) (auto simp: t sorted1_simps intro: less_trans)
    then have "map_of (ea @ eb) key = None" using es(3) map_of_between [of ea key eb "[]"] by simp
    moreover have "\<not> (lower_bound t key < length (ea @ eb) \<and> equivalent (fst ((ea @ eb) ! lower_bound t key)) key)"
      using False es(2) [symmetric] by (cases eb) (auto simp: equivalent_iff nth_append)
    ultimately show ?thesis by (subst node_get.simps) (simp add: t Let_def map_add_def)
  qed
next
  case (Suc h t)
  obtain ea eb where es: "n_entries t = ea @ eb" "length ea = lower_bound t key" "\<forall>p \<in> set ea. fst p < key"
    "eb = [] \<or> \<not> fst (hd eb) < key" unfolding lower_bound_def by (rule lower_bound_split)
  obtain ca c cb where t: "t = Node False (ea @ eb) (ca @ c # cb)" "length ca = length ea" "bal h c"
    using bal_Suc_split [OF Suc.prems(1) es(1)] by metis
  have io: "inorder t = pre ea (map inorder ca) @ inorder c @ post eb (map inorder cb)"
    unfolding t(1) by (rule inorder_split) (simp add: t)
  show ?case
  proof (cases "eb \<noteq> [] \<and> fst (hd eb) = key")
    case True
    then obtain w eb' where eb: "eb = (key, w) # eb'" by (cases eb) auto
    obtain P Q where PQ: "\<And>e'. inorder (Node False (ea @ e' # eb') (ca @ c # cb)) = P @ e' # Q"
      using entry_in_order [of "Suc h" False ea "(key, w)" eb' "ca @ c # cb"] Suc.prems(1) t eb by metis
    then have "map_of (inorder t) key = Some w" using Suc.prems(2) replace_at(3) [of P key w Q] by (simp add: t(1) eb)
    moreover have "node_get (Suc (Suc h)) t key = Some (Some (key, w))"
      using es(2) [symmetric] by (subst node_get.simps) (simp add: t(1) eb equivalent_iff nth_append Let_def)
    ultimately show ?thesis by simp
  next
    case False
    then have eb: "eb = [] \<or> key < fst (hd eb)" using es(4) by auto
    have "\<not> (lower_bound t key < length (ea @ eb) \<and> equivalent (fst ((ea @ eb) ! lower_bound t key)) key)"
      using False es(2) [symmetric] by (cases eb) (auto simp: equivalent_iff nth_append)
    then have "node_get (Suc (Suc h)) t key = node_get (Suc h) c key"
      using es(2) [symmetric] t(2) by (subst node_get.simps) (auto simp: t(1) nth_append Let_def)
    moreover have "map_of (inorder t) key = map_of (inorder c) key"
      unfolding io using around_child [OF Suc.prems(2) [unfolded io] es(3) eb] by (rule map_of_between)
    moreover have "sorted1 (inorder c)" using Suc.prems(2) unfolding io by (simp add: sorted1_append)
    ultimately show ?thesis using Suc.IH [OF t(3)] by simp
  qed
qed

section \<open>Insertion\<close>

lemma split_list_at:
  assumes "length xs = 11"
  shows "xs = take 5 xs @ xs ! 5 # drop 6 xs"
  using id_take_nth_drop [of 5 xs] assms by simp

text \<open>A full node is cut into two nodes around its middle entry.\<close>

lemma split_full:
  assumes "bal h c" "n_len c = 11"
  defines "c1 \<equiv> Node (n_leaf c) (take 5 (n_entries c)) (if n_leaf c then n_edges c else take 6 (n_edges c))"
    and "c2 \<equiv> Node (n_leaf c) (drop 6 (n_entries c)) (if n_leaf c then [] else drop 6 (n_edges c))"
  shows "inorder c = inorder c1 @ n_entries c ! 5 # inorder c2" "bal h c1" "bal h c2" "n_len c1 = 5" "n_len c2 = 5"
proof -
  obtain l es cs where c: "c = Node l es cs" by (cases c)
  have es: "es = take 5 es @ es ! 5 # drop 6 es" "length es = 11" using assms(2) split_list_at [of es] by (simp_all add: c)
  show "n_len c1 = 5" "n_len c2 = 5" using es(2) by (simp_all add: c1_def c2_def c)
  show "bal h c1" "bal h c2" using assms(1) es(2)
    by (cases h; auto simp: c1_def c2_def c dest: in_set_takeD in_set_dropD)+
  show "inorder c = inorder c1 @ n_entries c ! 5 # inorder c2"
  proof (cases h)
    case 0
    then show ?thesis using assms(1) es(1) by (simp add: c c1_def c2_def)
  next
    case (Suc h')
    then have cs: "length cs = 12" "\<not> l" using assms(1) es(2) by (simp_all add: c)
    have "weave (take 5 es @ es ! 5 # drop 6 es) (map inorder (take 6 cs) @ map inorder (drop 6 cs)) =
      weave (take 5 es) (map inorder (take 6 cs)) @ es ! 5 # weave (drop 6 es) (map inorder (drop 6 cs))"
      by (rule weave_append) (use cs es(2) in auto)
    then show ?thesis using cs by (simp add: c c1_def c2_def es(1) [symmetric] flip: map_append)
  qed
qed

lemma split_child_ok:
  assumes "length ea = length ca" "length cb = length eb" "length (ea @ eb) < 11" "bal h c" "n_len c = 11"
  obtains c1 m c2 where "split_child (Node False (ea @ eb) (ca @ c # cb)) (length ea) =
      Some (Node False (ea @ m # eb) (ca @ c1 # c2 # cb))"
    "inorder c = inorder c1 @ m # inorder c2" "bal h c1" "bal h c2" "n_len c1 = 5" "n_len c2 = 5"
proof -
  define c1 where "c1 = Node (n_leaf c) (take 5 (n_entries c)) (if n_leaf c then n_edges c else take 6 (n_edges c))"
  define c2 where "c2 = Node (n_leaf c) (drop 6 (n_entries c)) (if n_leaf c then [] else drop 6 (n_edges c))"
  have "split_child (Node False (ea @ eb) (ca @ c # cb)) (length ea) =
      Some (Node False (ea @ n_entries c ! 5 # eb) (ca @ c1 # c2 # cb))"
    using assms by (simp add: split_child_def Let_def c1_def c2_def)
  then show thesis using that split_full [OF assms(4,5)] unfolding c1_def c2_def by blast
qed

lemma ins_post_replace:
  assumes "bal h t" "sorted1 (inorder t)" "t = Node l (ea @ (key, w) # eb) cs"
  shows "ins_post h t key v (Node l (ea @ (key, v) # eb) cs) (Some w) False"
proof -
  obtain P Q where PQ: "\<And>e'. inorder (Node l (ea @ e' # eb) cs) = P @ e' # Q"
    using entry_in_order assms(1,3) by metis
  have "bal h (Node l (ea @ (key, v) # eb) cs)" using assms(1,3) by (cases h) auto
  then show ?thesis using assms(2) replace_at(1) [of P key w Q v] replace_at(3) [of P key w Q] unfolding ins_post_def assms(3) PQ by simp
qed

lemma ins_post_descend:
  assumes t: "bal (Suc h) t" "t = Node False (ea @ eb) (ca @ c # cb)" "length ca = length ea"
    and s: "sorted1 (inorder t)" "\<forall>p \<in> set ea. fst p < key" "eb = [] \<or> key < fst (hd eb)"
    and c: "ins_post h c key v c' old grew"
  shows "ins_post (Suc h) t key v (Node False (ea @ eb) (ca @ c' # cb)) old grew"
proof -
  have io: "inorder (Node False (ea @ eb) (ca @ x # cb)) = pre ea (map inorder ca) @ inorder x @ post eb (map inorder cb)" for x
    by (rule inorder_split) (simp add: t)
  note ar = around_child [OF s(1) [unfolded t(2) io] s(2,3)]
  have "bal (Suc h) (Node False (ea @ eb) (ca @ c' # cb))" using t(1,2) c by (auto simp: ins_post_def)
  then show ?thesis using c ins_between [OF ar] map_of_between [OF ar]
    unfolding ins_post_def t(2) io by simp
qed

lemma ins_post_order: "ins_post h t1 key v t' old grew \<Longrightarrow> inorder t = inorder t1 \<Longrightarrow> n_len t \<le> n_len t1 \<Longrightarrow>
    ins_post h t key v t' old grew"
  by (simp add: ins_post_def)

lemma insert_non_full_ok:
  "bal h t \<Longrightarrow> n_len t < 11 \<Longrightarrow> sorted1 (inorder t) \<Longrightarrow>
    \<exists>t' old grew. insert_non_full (Suc h) t key v = Some (t', old, grew) \<and> ins_post h t key v t' old grew"
proof (induction h arbitrary: t)
  case (0 t)
  obtain ea eb where es: "n_entries t = ea @ eb" "length ea = lower_bound t key" "\<forall>p \<in> set ea. fst p < key"
    "eb = [] \<or> \<not> fst (hd eb) < key" unfolding lower_bound_def by (rule lower_bound_split)
  have t: "t = Node True (ea @ eb) []" using bal_0_leaf [OF 0(1)] es(1) by simp
  show ?case
  proof (cases "eb \<noteq> [] \<and> fst (hd eb) = key")
    case True
    then obtain w eb' where eb: "eb = (key, w) # eb'" by (cases eb) auto
    have "insert_non_full (Suc 0) t key v = Some (Node True (ea @ (key, v) # eb') [], Some w, False)"
      using es(2) [symmetric] by (subst insert_non_full.simps) (simp add: t eb equivalent_iff nth_append Let_def)
    then show ?thesis using ins_post_replace [OF 0(1,3) t [unfolded eb]] by blast
  next
    case False
    then have "eb = [] \<or> key < fst (hd eb)" using es(4) by auto
    then have "\<forall>p \<in> set eb. key < fst p" using 0(3) by (cases eb) (auto simp: t sorted1_simps intro: less_trans)
    then have b: "p \<in> set ea \<Longrightarrow> fst p < key" "p \<in> set eb \<Longrightarrow> key < fst p" for p using es(3) by auto
    have "\<not> (lower_bound t key < length (ea @ eb) \<and> equivalent (fst ((ea @ eb) ! lower_bound t key)) key)"
      using False es(2) [symmetric] by (cases eb) (auto simp: equivalent_iff nth_append)
    then have "insert_non_full (Suc 0) t key v = Some (Node True (ea @ (key, v) # eb) [], None, True)"
      using es(2) [symmetric] 0(2) by (subst insert_non_full.simps) (auto simp: t Let_def nth_append)
    moreover have "ins key v (ea @ [] @ eb) = ea @ ins key v [] @ eb" "map_of (ea @ [] @ eb) key = map_of [] key"
      by (rule ins_between [OF b], assumption+) (rule map_of_between [OF b], assumption+)
    then have "ins_post 0 t key v (Node True (ea @ (key, v) # eb) []) None True"
      using 0(2) by (simp add: ins_post_def t del: map_of_append)
    ultimately show ?thesis by blast
  qed
next
  case (Suc h t)
  obtain ea eb where es: "n_entries t = ea @ eb" "length ea = lower_bound t key" "\<forall>p \<in> set ea. fst p < key"
    "eb = [] \<or> \<not> fst (hd eb) < key" unfolding lower_bound_def by (rule lower_bound_split)
  obtain ca c cb where t: "t = Node False (ea @ eb) (ca @ c # cb)" "length ca = length ea" "length cb = length eb" "bal h c" "5 \<le> n_len c"
    using bal_Suc_split [OF Suc.prems(1) es(1)] by metis
  show ?case
  proof (cases "eb \<noteq> [] \<and> fst (hd eb) = key")
    case True
    then obtain w eb' where eb: "eb = (key, w) # eb'" by (cases eb) auto
    have "insert_non_full (Suc (Suc h)) t key v = Some (Node False (ea @ (key, v) # eb') (ca @ c # cb), Some w, False)"
      using es(2) [symmetric] by (subst insert_non_full.simps) (simp add: t(1) eb equivalent_iff nth_append Let_def)
    then show ?thesis using ins_post_replace [OF Suc.prems(1,3) t(1) [unfolded eb]] by blast
  next
    case False
    then have eb: "eb = [] \<or> key < fst (hd eb)" using es(4) by auto
    have miss: "\<not> (lower_bound t key < length (ea @ eb) \<and> equivalent (fst ((ea @ eb) ! lower_bound t key)) key)"
      using False es(2) [symmetric] by (cases eb) (auto simp: equivalent_iff nth_append)
    have io: "inorder t = pre ea (map inorder ca) @ inorder c @ post eb (map inorder cb)"
      unfolding t(1) by (rule inorder_split) (simp add: t)
    show ?thesis
    proof (cases "n_len c = 11")
      case False
      then have "n_len c < 11" "sorted1 (inorder c)" using bal_len [OF t(4)] Suc.prems(3) by (auto simp: io sorted1_append)
      then obtain c' old grew where c': "insert_non_full (Suc h) c key v = Some (c', old, grew)" "ins_post h c key v c' old grew"
        using Suc.IH [OF t(4)] by blast
      have "insert_non_full (Suc (Suc h)) t key v = Some (Node False (ea @ eb) (ca @ c' # cb), old, grew)"
        using miss es(2) [symmetric] t(2) c'(1) False
        by (subst insert_non_full.simps) (auto simp: t(1) nth_append Let_def list_update_append)
      then show ?thesis using ins_post_descend [OF Suc.prems(1) t(1,2) Suc.prems(3) es(3) eb c'(2)] by blast
    next
      case True
      have len: "length (ea @ eb) < 11" using Suc.prems(2) t(1) by simp
      obtain c1 m c2 where sp: "split_child t (length ea) = Some (Node False (ea @ m # eb) (ca @ c1 # c2 # cb))"
        "inorder c = inorder c1 @ m # inorder c2" "bal h c1" "bal h c2" "n_len c1 = 5" "n_len c2 = 5"
        using split_child_ok [OF t(2) [symmetric] t(3) len t(4) True] unfolding t(1) by metis
      define t1 where "t1 = Node False (ea @ m # eb) (ca @ c1 # c2 # cb)"
      have io1: "inorder t = inorder t1" unfolding t1_def io sp(2) by (simp add: weave_split t)
      have b1: "bal (Suc h) t1" using Suc.prems(1) sp len by (auto simp: t1_def t(1))
      have s1: "sorted1 (inorder t1)" "n_len t \<le> n_len t1" using Suc.prems(3) io1 by (simp_all add: t1_def t(1))
      have sc: "sorted1 (inorder c1)" "sorted1 (inorder c2)" using Suc.prems(3) unfolding io sp(2) by (simp_all add: sorted1_simps)
      note run = insert_non_full.simps(2) [of "Suc h" t key v]
      consider (eq) "fst m = key" | (right) "fst m < key" | (left) "key < fst m" by fastforce
      then show ?thesis
      proof cases
        case eq
        then have m: "m = (key, snd m)" by auto
        have "insert_non_full (Suc (Suc h)) t key v = Some (Node False (ea @ (key, v) # eb) (ca @ c1 # c2 # cb), Some (snd m), False)"
          using miss es(2) [symmetric] t(2) True sp(1) eq unfolding run
          by (auto simp: t(1) nth_append Let_def equivalent_iff)
        moreover have "ins_post (Suc h) t1 key v (Node False (ea @ (key, v) # eb) (ca @ c1 # c2 # cb)) (Some (snd m)) False"
          using ins_post_replace [OF b1 s1(1), of False ea key "snd m"] m by (simp add: t1_def)
        ultimately show ?thesis using ins_post_order [OF _ io1 s1(2)] by blast
      next
        case right
        obtain c' old grew where c': "insert_non_full (Suc h) c2 key v = Some (c', old, grew)" "ins_post h c2 key v c' old grew"
          using Suc.IH [OF sp(4) _ sc(2)] sp(6) by auto
        have "insert_non_full (Suc (Suc h)) t key v = Some (Node False ((ea @ [m]) @ eb) ((ca @ [c1]) @ c' # cb), old, grew)"
          using miss es(2) [symmetric] t(2) True sp(1) right c'(1) unfolding run
          by (auto simp: t(1) nth_append Let_def equivalent_iff list_update_append)
        moreover have "ins_post (Suc h) t1 key v (Node False ((ea @ [m]) @ eb) ((ca @ [c1]) @ c' # cb)) old grew"
          by (rule ins_post_descend [OF b1 _ _ s1(1) _ eb c'(2)]) (use t(2) es(3) right in \<open>auto simp: t1_def\<close>)
        ultimately show ?thesis using ins_post_order [OF _ io1 s1(2)] by blast
      next
        case left
        obtain c' old grew where c': "insert_non_full (Suc h) c1 key v = Some (c', old, grew)" "ins_post h c1 key v c' old grew"
          using Suc.IH [OF sp(3) _ sc(1)] sp(5) by auto
        have "insert_non_full (Suc (Suc h)) t key v = Some (Node False (ea @ (m # eb)) (ca @ c' # (c2 # cb)), old, grew)"
          using miss es(2) [symmetric] t(2) True sp(1) left c'(1) unfolding run
          by (auto simp: t(1) nth_append Let_def equivalent_iff list_update_append)
        moreover have "ins_post (Suc h) t1 key v (Node False (ea @ (m # eb)) (ca @ c' # (c2 # cb))) old grew"
          by (rule ins_post_descend [OF b1 _ _ s1(1) es(3) _ c'(2)]) (use t(2) left in \<open>auto simp: t1_def\<close>)
        ultimately show ?thesis using ins_post_order [OF _ io1 s1(2)] by blast
      qed
    qed
  qed
qed

section \<open>Rebalancing\<close>

lemma snoc_exists: "length xs = Suc n \<Longrightarrow> \<exists>ys y. xs = ys @ [y] \<and> length ys = n"
  by (cases xs rule: rev_cases) auto

text \<open>Around the separator \<open>p\<close> of two adjacent children the order is the left child, \<open>p\<close> and the right child.
  The three operations keep it.\<close>

lemma borrow_from_previous_ok:
  assumes l: "length ca = length ea" and b: "bal h s" "bal h c" and n: "6 \<le> n_len s" "n_len c < 11"
  obtains s' x c' where
    "borrow_from_previous (Node False (ea @ p # eb) (ca @ s # c # cb)) (Suc (length ea)) =
       Some (Node False (ea @ x # eb) (ca @ s' # c' # cb))"
    "inorder s @ p # inorder c = inorder s' @ x # inorder c'"
    "bal h s'" "bal h c'" "n_len s' = n_len s - 1" "n_len c' = Suc (n_len c)" "x \<in> set (inorder s)"
proof -
  obtain ls es ss where s: "s = Node ls es ss" by (cases s)
  obtain lc ec sc where c: "c = Node lc ec sc" by (cases c)
  have "length es = Suc (n_len s - 1)" using n(1) by (simp add: s)
  then obtain es' x where es: "es = es' @ [x]" using snoc_exists by blast
  show thesis
  proof (cases h)
    case 0
    then have s': "s = Node True (es' @ [x]) []" and c': "c = Node True ec []" using b es by (simp_all add: s c)
    have "borrow_from_previous (Node False (ea @ p # eb) (ca @ s # c # cb)) (Suc (length ea)) =
       Some (Node False (ea @ x # eb) (ca @ Node True es' [] # Node True (p # ec) [] # cb))"
      using l n unfolding s' c' by (simp add: borrow_from_previous_def nth_append list_update_append)
    then show thesis by (rule that) (use b n in \<open>simp_all add: s' c' 0\<close>)
  next
    case (Suc h')
    then have lf: "\<not> ls" "\<not> lc" and len: "length ss = Suc (length es)" "length sc = Suc (length ec)" using b by (simp_all add: s c)
    obtain ss' d where ss: "ss = ss' @ [d]" "length ss' = length es" using snoc_exists [OF len(1)] by blast
    have len': "length ss' = Suc (length es')" using ss es by simp
    have "sc \<noteq> []" using len(2) by auto
    have w: "weave (es' @ x # []) (map inorder ss' @ [inorder d]) = weave es' (map inorder ss') @ x # weave [] [inorder d]"
      by (rule weave_append) (use len' in auto)
    have w2: "weave (p # ec) (inorder d # map inorder sc) = inorder d @ p # weave ec (map inorder sc)"
      by (rule weave_Cons) (use \<open>sc \<noteq> []\<close> in simp)
    have s': "s = Node False (es' @ [x]) (ss' @ [d])" and c': "c = Node False ec sc" using lf ss es by (simp_all add: s c)
    have "borrow_from_previous (Node False (ea @ p # eb) (ca @ s # c # cb)) (Suc (length ea)) =
       Some (Node False (ea @ x # eb) (ca @ Node False es' ss' # Node False (p # ec) (d # sc) # cb))"
      using l n len' len(2) unfolding s' c' by (simp add: borrow_from_previous_def nth_append list_update_append)
    then show thesis by (rule that) (use b n len' len(2) w w2 in \<open>simp_all add: s' c' Suc\<close>)
  qed
qed

lemma borrow_from_next_ok:
  assumes l: "length ca = length ea" and b: "bal h c" "bal h s" and n: "6 \<le> n_len s" "n_len c < 11"
  obtains s' x c' where
    "borrow_from_next (Node False (ea @ p # eb) (ca @ c # s # cb)) (length ea) =
       Some (Node False (ea @ x # eb) (ca @ c' # s' # cb))"
    "inorder c @ p # inorder s = inorder c' @ x # inorder s'"
    "bal h s'" "bal h c'" "n_len s' = n_len s - 1" "n_len c' = Suc (n_len c)" "x \<in> set (inorder s)"
proof -
  obtain ls es ss where s: "s = Node ls es ss" by (cases s)
  obtain lc ec sc where c: "c = Node lc ec sc" by (cases c)
  obtain x es' where es: "es = x # es'" using n(1) by (cases es) (auto simp: s)
  show thesis
  proof (cases h)
    case 0
    then have s': "s = Node True (x # es') []" and c': "c = Node True ec []" using b es by (simp_all add: s c)
    have "borrow_from_next (Node False (ea @ p # eb) (ca @ c # s # cb)) (length ea) =
       Some (Node False (ea @ x # eb) (ca @ Node True (ec @ [p]) [] # Node True es' [] # cb))"
      using l n unfolding s' c' by (simp add: borrow_from_next_def nth_append list_update_append)
    then show thesis by (rule that) (use b n in \<open>simp_all add: s' c' 0\<close>)
  next
    case (Suc h')
    then have lf: "\<not> ls" "\<not> lc" and len: "length ss = Suc (length es)" "length sc = Suc (length ec)" using b by (simp_all add: s c)
    obtain d ss' where ss: "ss = d # ss'" "length ss' = length es" using len(1) by (cases ss) auto
    have "ss' \<noteq> []" using ss es by auto
    have w: "weave (ec @ p # []) (map inorder sc @ [inorder d]) = weave ec (map inorder sc) @ p # weave [] [inorder d]"
      by (rule weave_append) (use len in auto)
    have w2: "weave (x # es') (inorder d # map inorder ss') = inorder d @ x # weave es' (map inorder ss')"
      by (rule weave_Cons) (use \<open>ss' \<noteq> []\<close> in simp)
    have s': "s = Node False (x # es') (d # ss')" and c': "c = Node False ec sc" using lf ss es by (simp_all add: s c)
    have "length ss' = Suc (length es')" using ss es by simp
    then have "borrow_from_next (Node False (ea @ p # eb) (ca @ c # s # cb)) (length ea) =
       Some (Node False (ea @ x # eb) (ca @ Node False (ec @ [p]) (sc @ [d]) # Node False es' ss' # cb))"
      using l n len(2) b Suc unfolding s' c' by (simp add: borrow_from_next_def nth_append list_update_append)
    then show thesis by (rule that) (use b n len(2) w w2 in \<open>simp_all add: s' c' Suc\<close>)
  qed
qed

lemma append_entries_ok:
  "length es + length fs \<le> 11 \<Longrightarrow> append_entries fs (Node l es cs) = Some (Node l (es @ fs) cs)"
  by (induction fs arbitrary: es) auto

lemma merge_children_ok:
  assumes l: "length ca = length ea" "length cb = length eb" "length (ea @ p # eb) \<le> 11"
    and b: "bal h c" "bal h s" and n: "n_len s + n_len c + 1 \<le> 11"
  obtains m where
    "merge_children (Node False (ea @ p # eb) (ca @ c # s # cb)) (length ea) = Some (Node False (ea @ eb) (ca @ m # cb))"
    "inorder m = inorder c @ p # inorder s" "bal h m" "n_len m = n_len c + n_len s + 1"
proof -
  obtain ls es ss where s: "s = Node ls es ss" by (cases s)
  obtain lc ec sc where c: "c = Node lc ec sc" by (cases c)
  show thesis
  proof (cases h)
    case 0
    then have s': "s = Node True es []" and c': "c = Node True ec []" using b by (simp_all add: s c)
    have "merge_children (Node False (ea @ p # eb) (ca @ c # s # cb)) (length ea) =
       Some (Node False (ea @ eb) (ca @ Node True (ec @ p # es) [] # cb))"
      using l n unfolding s' c' by (simp add: merge_children_def nth_append list_update_append append_entries_ok Let_def)
    then show thesis by (rule that) (use b n in \<open>simp_all add: s' c' 0\<close>)
  next
    case (Suc h')
    then have lf: "\<not> ls" "\<not> lc" and len: "length ss = Suc (length es)" "length sc = Suc (length ec)" using b by (simp_all add: s c)
    have "ss \<noteq> []" using len by auto
    have w: "weave (ec @ p # es) (map inorder sc @ map inorder ss) = weave ec (map inorder sc) @ p # weave es (map inorder ss)"
      by (rule weave_append) (use len \<open>ss \<noteq> []\<close> in auto)
    have s': "s = Node False es ss" and c': "c = Node False ec sc" using lf by (simp_all add: s c)
    have "merge_children (Node False (ea @ p # eb) (ca @ c # s # cb)) (length ea) =
       Some (Node False (ea @ eb) (ca @ Node False (ec @ p # es) (sc @ ss) # cb))"
      using l n unfolding s' c' by (simp add: merge_children_def nth_append list_update_append append_entries_ok Let_def)
    then show thesis by (rule that) (use b n len w in \<open>auto simp: s' c' Suc\<close>)
  qed
qed

section \<open>Removal\<close>

text \<open>After \<open>fix_child\<close> the tree has the same order, the child to descend into has an entry to spare, and
  it is still the child where \<open>key\<close> belongs.\<close>

lemma fixed_borrow_previous:
  assumes t: "bal (Suc h) t" "t = Node False (ea @ p # eb) (ca @ s # c # cb)" "length ca = length ea"
    and c: "n_len c = 5" "6 \<le> n_len s"
  obtains x s' c' where "borrow_from_previous t (Suc (length ea)) = Some (Node False ((ea @ [x]) @ eb) ((ca @ [s']) @ c' # cb))"
    "fixed h t (ea @ [p]) eb (ea @ [x]) eb (ca @ [s']) c' cb"
proof -
  have bs: "bal h s" "bal h c" using t by auto
  have c11: "n_len c < 11" using c by simp
  obtain s' x c' where r: "borrow_from_previous t (Suc (length ea)) = Some (Node False (ea @ x # eb) (ca @ s' # c' # cb))"
    "inorder s @ p # inorder c = inorder s' @ x # inorder c'"
    "bal h s'" "bal h c'" "n_len s' = n_len s - 1" "n_len c' = Suc (n_len c)" "x \<in> set (inorder s)"
    using borrow_from_previous_ok [OF t(3) bs c(2) c11, of p eb cb] unfolding t(2) by metis
  have "around key (ea @ [x]) eb" if "sorted1 (inorder t)" "around key (ea @ [p]) eb" for key
  proof -
    have "fst x < fst p" using that(1) r(7) unfolding t(2) inorder_split2 [OF t(3) [symmetric]] by (simp add: sorted1_simps)
    then show ?thesis using that(2) by (auto simp: around_def)
  qed
  moreover have "inorder (Node False (ea @ x # eb) (ca @ s' # c' # cb)) = inorder t"
    unfolding t(2) inorder_split2 [OF t(3) [symmetric]] using r(2) by simp
  moreover have "bal (Suc h) (Node False (ea @ x # eb) (ca @ s' # c' # cb))" using t(1,2) r c by auto
  ultimately have "fixed h t (ea @ [p]) eb (ea @ [x]) eb (ca @ [s']) c' cb"
    using t(2,3) c r unfolding fixed_def by simp
  then show thesis using that r(1) by simp
qed

lemma fixed_borrow_next:
  assumes t: "bal (Suc h) t" "t = Node False (ea @ p # eb) (ca @ c # s # cb)" "length ca = length ea"
    and c: "n_len c = 5" "6 \<le> n_len s"
  obtains x s' c' where "borrow_from_next t (length ea) = Some (Node False (ea @ x # eb) (ca @ c' # s' # cb))"
    "fixed h t ea (p # eb) ea (x # eb) ca c' (s' # cb)"
proof -
  have bs: "bal h c" "bal h s" using t by auto
  have c11: "n_len c < 11" using c by simp
  obtain s' x c' where r: "borrow_from_next t (length ea) = Some (Node False (ea @ x # eb) (ca @ c' # s' # cb))"
    "inorder c @ p # inorder s = inorder c' @ x # inorder s'"
    "bal h s'" "bal h c'" "n_len s' = n_len s - 1" "n_len c' = Suc (n_len c)" "x \<in> set (inorder s)"
    using borrow_from_next_ok [OF t(3) bs c(2) c11, of p eb cb] unfolding t(2) by metis
  have "around key ea (x # eb)" if "sorted1 (inorder t)" "around key ea (p # eb)" for key
  proof -
    have "fst p < fst x" using that(1) r(7) unfolding t(2) inorder_split2 [OF t(3) [symmetric]] by (simp add: sorted1_simps)
    then show ?thesis using that(2) by (auto simp: around_def)
  qed
  moreover have "inorder (Node False (ea @ x # eb) (ca @ c' # s' # cb)) = inorder t"
    unfolding t(2) inorder_split2 [OF t(3) [symmetric]] using r(2) by simp
  moreover have "bal (Suc h) (Node False (ea @ x # eb) (ca @ c' # s' # cb))" using t(1,2) r c by auto
  ultimately have "fixed h t ea (p # eb) ea (x # eb) ca c' (s' # cb)"
    using t(2,3) c r unfolding fixed_def by simp
  then show thesis using that r(1) by simp
qed

lemma merge_order:
  assumes t: "bal (Suc h) t" "t = Node False (ea @ p # eb) (ca @ c # s # cb)" "length ca = length ea"
    and c: "n_len c = 5" "n_len s = 5"
  obtains m where "merge_children t (length ea) = Some (Node False (ea @ eb) (ca @ m # cb))"
    "inorder m = inorder c @ p # inorder s" "bal h m" "n_len m = 11"
    "inorder (Node False (ea @ eb) (ca @ m # cb)) = inorder t" "bal (Suc h) (Node False (ea @ eb) (ca @ m # cb))"
proof -
  have bs: "bal h c" "bal h s" and l: "length cb = length eb" "length (ea @ p # eb) \<le> 11" using t by auto
  obtain m where m: "merge_children t (length ea) = Some (Node False (ea @ eb) (ca @ m # cb))"
    "inorder m = inorder c @ p # inorder s" "bal h m" "n_len m = n_len c + n_len s + 1"
    using merge_children_ok [OF t(3) l bs] c unfolding t(2) by auto
  moreover have "inorder (Node False (ea @ eb) (ca @ m # cb)) = inorder t"
    unfolding t(2) inorder_split2 [OF t(3) [symmetric]] inorder_split [OF t(3) [symmetric]] m(2) by simp
  moreover have "bal (Suc h) (Node False (ea @ eb) (ca @ m # cb))" using t m c by auto
  ultimately show thesis using that c by simp
qed

lemma fix_child_ok:
  assumes t: "bal (Suc h) t" "t = Node False (ea @ eb) (ca @ c # cb)" "length ca = length ea" and n: "1 \<le> n_len t"
  obtains ea' eb' ca' c' cb' where
    "fix_child t (length ea) = Some (Node False (ea' @ eb') (ca' @ c' # cb'), length ea')" "fixed h t ea eb ea' eb' ca' c' cb'"
proof (cases "n_len c = 5")
  case False
  then have "6 \<le> n_len c" using t by auto
  then have "fixed h t ea eb ea eb ca c cb" using t by (auto simp: fixed_def)
  moreover have "fix_child t (length ea) = Some (Node False (ea @ eb) (ca @ c # cb), length ea)"
    using False t by (simp add: fix_child_def nth_append)
  ultimately show thesis by (rule that [rotated])
next
  case True
  have l: "length cb = length eb" using t by simp
  have ch: "child (length ea) t = Some c" using t by (simp add: nth_append)
  have five: "\<forall>x \<in> set ca \<union> set cb. 5 \<le> n_len x" using t by auto
  have left: "\<exists>ea0 p ca0 s. ea = ea0 @ [p] \<and> ca = ca0 @ [s] \<and> child (length ea - 1) t = Some s" if "ea \<noteq> []"
  proof -
    from that obtain ea0 p where ea: "ea = ea0 @ [p]" by (cases ea rule: rev_cases) auto
    moreover from this t(3) obtain ca0 s where ca: "ca = ca0 @ [s]" by (cases ca rule: rev_cases) auto
    ultimately show ?thesis using t by (auto simp: nth_append)
  qed
  have right: "\<exists>p eb0 s cb0. eb = p # eb0 \<and> cb = s # cb0 \<and> child (length ea + 1) t = Some s" if "eb \<noteq> []"
    using that l t by (cases eb; cases cb) (auto simp: nth_append)
  show thesis
  proof (cases "ea \<noteq> [] \<and> (case child (length ea - 1) t of Some s \<Rightarrow> n_len s \<ge> B | None \<Rightarrow> False)")
    case prev: True
    then obtain ea0 p ca0 s where z: "ea = ea0 @ [p]" "ca = ca0 @ [s]" "child (length ea - 1) t = Some s" using left by blast
    obtain x s' c' where b: "borrow_from_previous t (Suc (length ea0)) = Some (Node False ((ea0 @ [x]) @ eb) ((ca0 @ [s']) @ c' # cb))"
      "fixed h t (ea0 @ [p]) eb (ea0 @ [x]) eb (ca0 @ [s']) c' cb"
    proof (rule fixed_borrow_previous [OF t(1), of ea0 p eb ca0 s c cb])
    qed (use t(2,3) z prev True in simp_all)
    have "fix_child t (length ea) = Some (Node False ((ea0 @ [x]) @ eb) ((ca0 @ [s']) @ c' # cb), length (ea0 @ [x]))"
      using prev True ch b(1) z by (simp add: fix_child_def)
    then show thesis by (rule that) (use b(2) z in simp)
  next
    case nprev: False
    show thesis
    proof (cases "eb = []")
      case True': True
      then have "ea \<noteq> []" using n t(2) by auto
      then obtain ea0 p ca0 s where z: "ea = ea0 @ [p]" "ca = ca0 @ [s]" "child (length ea - 1) t = Some s" using left by blast
      then have s5: "n_len s = 5" using five nprev by auto
      obtain m where m: "merge_children t (length ea0) = Some (Node False (ea0 @ eb) (ca0 @ m # cb))"
        "bal h m" "n_len m = 11" "inorder (Node False (ea0 @ eb) (ca0 @ m # cb)) = inorder t"
        "bal (Suc h) (Node False (ea0 @ eb) (ca0 @ m # cb))"
      proof (rule merge_order [OF t(1), of ea0 p eb ca0 s c cb])
      qed (use t(2,3) z True s5 in simp_all)
      have "fix_child t (length ea) = Some (Node False (ea0 @ eb) (ca0 @ m # cb), length ea0)"
        using nprev True True' ch m(1) z t(2) by (simp add: fix_child_def)
      then show thesis by (rule that)
        (use m t(2,3) z True' in \<open>auto simp: fixed_def around_def\<close>)
    next
      case False
      then obtain p eb0 s cb0 where z: "eb = p # eb0" "cb = s # cb0" "child (length ea + 1) t = Some s" using right by blast
      have ne: "length ea \<noteq> n_len t" using z t(2) by simp
      show thesis
      proof (cases "6 \<le> n_len s")
        case ge: True
        obtain x s' c' where b: "borrow_from_next t (length ea) = Some (Node False (ea @ x # eb0) (ca @ c' # s' # cb0))"
          "fixed h t ea (p # eb0) ea (x # eb0) ca c' (s' # cb0)"
        proof (rule fixed_borrow_next [OF t(1), of ea p eb0 ca c s cb0])
        qed (use t(2,3) z ge True in simp_all)
        have "fix_child t (length ea) = Some (Node False (ea @ x # eb0) (ca @ c' # s' # cb0), length ea)"
          using nprev True ch b(1) z ge ne by (auto simp: fix_child_def)
        then show thesis by (rule that) (use b(2) z in simp)
      next
        case lt: False
        then have s5: "n_len s = 5" using five z by auto
        obtain m where m: "merge_children t (length ea) = Some (Node False (ea @ eb0) (ca @ m # cb0))"
          "inorder m = inorder c @ p # inorder s" "bal h m" "n_len m = 11"
          "inorder (Node False (ea @ eb0) (ca @ m # cb0)) = inorder t" "bal (Suc h) (Node False (ea @ eb0) (ca @ m # cb0))"
        proof (rule merge_order [OF t(1), of ea p eb0 ca c s cb0])
        qed (use t(2,3) z True s5 in simp_all)
        have "fix_child t (length ea) = Some (Node False (ea @ eb0) (ca @ m # cb0), length ea)"
          using nprev True ch m(1) z lt ne by (auto simp: fix_child_def)
        moreover have "around key ea eb0" if "sorted1 (inorder t)" "around key ea eb" for key
        proof -
          have "eb0 = [] \<or> hd eb0 \<in> set (post eb0 (map inorder cb0))" using z l by (cases eb0; cases cb0) auto
          then have "eb0 = [] \<or> fst p < fst (hd eb0)"
            using that(1) inorder_split2 [OF t(3) [symmetric], of p eb0 c s cb0] unfolding t(2) z by (auto simp: sorted1_simps)
          then show ?thesis using that(2) z by (auto simp: around_def)
        qed
        ultimately show thesis by (intro that [of ea eb0 ca m cb0]) (use m t(2,3) z in \<open>auto simp: fixed_def\<close>)
      qed
    qed
  qed
qed

lemma remove_min_step:
  assumes "bal (Suc h) t" "1 \<le> n_len t"
  shows "remove_min (Suc f) t = do {
    (t1, j) \<leftarrow> fix_child t 0; c \<leftarrow> child j t1; (e, c') \<leftarrow> remove_min f c; Some (e, set_child j c' t1) }"
proof -
  obtain es cs where t: "t = Node False es cs" "length cs = Suc (length es)" "1 \<le> length es" using assms by (cases t) auto
  then obtain c s cs' where "cs = c # s # cs'" by (cases cs; cases "tl cs") auto
  then show ?thesis using t by (subst remove_min.simps) (auto simp: fix_child_def split: Option.bind_split)
qed

lemma remove_max_step:
  assumes "bal (Suc h) t" "1 \<le> n_len t"
  shows "remove_max (Suc f) t = do {
    (t1, j) \<leftarrow> fix_child t (n_len t); c \<leftarrow> child j t1; (e, c') \<leftarrow> remove_max f c; Some (e, set_child j c' t1) }"
proof -
  obtain es cs where t: "t = Node False es cs" "length cs = Suc (length es)" "1 \<le> length es" using assms by (cases t) auto
  then show ?thesis by (subst remove_max.simps) (auto simp: fix_child_def Let_def split: Option.bind_split)
qed

lemma fixed_child_len:
  assumes "fixed h t ea eb ea' eb' ca' c' cb'" "bal h c2" "n_len c' \<le> Suc (n_len c2)"
  shows "bal (Suc h) (Node False (ea' @ eb') (ca' @ c2 # cb'))"
  using assms by (auto simp: fixed_def)

lemma remove_min_ok:
  fixes t :: "('k::linorder, 'v) node"
  shows "bal h t \<Longrightarrow> 1 \<le> n_len t \<Longrightarrow>
    \<exists>e t'. remove_min (Suc h) t = Some (e, t') \<and> inorder t = e # inorder t' \<and> bal h t' \<and> n_len t \<le> Suc (n_len t')"
proof (induction h arbitrary: t)
  case (0 t)
  then obtain e es where "t = Node True (e # es) []" using bal_0_leaf [of t] by (cases "n_entries t") auto
  then show ?case using 0 by (subst remove_min.simps) auto
next
  case (Suc h t)
  obtain ca c cb where t: "t = Node False ([] @ n_entries t) (ca @ c # cb)" "length ca = length ([] :: ('k \<times> 'v) list)"
    by (rule bal_Suc_split [OF Suc.prems(1), of "[]" "n_entries t"]) simp_all
  obtain ea' eb' ca' c' cb' where f: "fix_child t (length ([] :: ('k \<times> 'v) list)) = Some (Node False (ea' @ eb') (ca' @ c' # cb'), length ea')"
    "fixed h t [] (n_entries t) ea' eb' ca' c' cb'"
    using fix_child_ok [OF Suc.prems(1) t Suc.prems(2)] by blast
  have e: "ea' = []" "ca' = []" and c': "bal h c'" "1 \<le> n_len c'" using f(2) by (auto simp: fixed_def)
  obtain e c2 where r: "remove_min (Suc h) c' = Some (e, c2)" "inorder c' = e # inorder c2" "bal h c2" "n_len c' \<le> Suc (n_len c2)"
    using Suc.IH [OF c'] by blast
  have "remove_min (Suc (Suc h)) t = Some (e, Node False eb' (c2 # cb'))"
    using f(1) r(1) e unfolding remove_min_step [OF Suc.prems] by simp
  moreover have "bal (Suc h) (Node False eb' (c2 # cb'))" using fixed_child_len [OF f(2) r(3,4)] e by simp
  moreover have "inorder t = e # inorder (Node False eb' (c2 # cb'))" using f(2) e r(2) by (simp add: fixed_def)
  moreover have "n_len t \<le> Suc (length eb')" using f(2) e by (simp add: fixed_def)
  ultimately show ?case by simp
qed

lemma remove_max_ok:
  fixes t :: "('k::linorder, 'v) node"
  shows "bal h t \<Longrightarrow> 1 \<le> n_len t \<Longrightarrow>
    \<exists>e t'. remove_max (Suc h) t = Some (e, t') \<and> inorder t = inorder t' @ [e] \<and> bal h t' \<and> n_len t \<le> Suc (n_len t')"
proof (induction h arbitrary: t)
  case (0 t)
  then obtain e es where "t = Node True (es @ [e]) []" using bal_0_leaf [of t] by (cases "n_entries t" rule: rev_cases) auto
  then show ?case using 0 by (subst remove_max.simps) auto
next
  case (Suc h t)
  obtain ca c cb where t: "t = Node False (n_entries t @ []) (ca @ c # cb)" "length ca = length (n_entries t)"
    by (rule bal_Suc_split [OF Suc.prems(1), of "n_entries t" "[]"]) simp_all
  obtain ea' eb' ca' c' cb' where f: "fix_child t (n_len t) = Some (Node False (ea' @ eb') (ca' @ c' # cb'), length ea')"
    "fixed h t (n_entries t) [] ea' eb' ca' c' cb'"
    using fix_child_ok [OF Suc.prems(1) t Suc.prems(2)] by blast
  have e: "eb' = []" "cb' = []" and c': "bal h c'" "1 \<le> n_len c'" and l: "length ca' = length ea'"
    using f(2) by (auto simp: fixed_def)
  obtain e c2 where r: "remove_max (Suc h) c' = Some (e, c2)" "inorder c' = inorder c2 @ [e]" "bal h c2" "n_len c' \<le> Suc (n_len c2)"
    using Suc.IH [OF c'] by blast
  have "remove_max (Suc (Suc h)) t = Some (e, Node False ea' (ca' @ [c2]))"
    using f(1) r(1) e l unfolding remove_max_step [OF Suc.prems] by (simp add: nth_append list_update_append)
  moreover have "bal (Suc h) (Node False ea' (ca' @ [c2]))" using fixed_child_len [OF f(2) r(3,4)] e by simp
  moreover have "inorder (Node False (ea' @ []) (ca' @ c' # [])) = inorder (Node False (ea' @ []) (ca' @ c2 # [])) @ [e]"
    unfolding inorder_split [OF l [symmetric]] r(2) by simp
  then have "inorder t = inorder (Node False ea' (ca' @ [c2])) @ [e]" using f(2) e by (simp add: fixed_def)
  moreover have "n_len t \<le> Suc (length ea')" using f(2) e by (simp add: fixed_def)
  ultimately show ?case by simp
qed

lemma rem_post_descend:
  assumes t: "length ca = length ea" "bal (Suc h) (Node False (ea @ eb) (ca @ c # cb))"
    and s: "sorted1 (inorder t)" "inorder (Node False (ea @ eb) (ca @ c # cb)) = inorder t" "around key ea eb"
    and c: "rem_post h c key removed c'" "6 \<le> n_len c" and n: "n_len t \<le> Suc (length (ea @ eb))"
  shows "rem_post (Suc h) t key removed (Node False (ea @ eb) (ca @ c' # cb))"
proof -
  note io = inorder_split [OF t(1) [symmetric]]
  have so: "sorted1 (pre ea (map inorder ca) @ inorder c @ post eb (map inorder cb))" using s(1) unfolding s(2) [symmetric] io .
  have a: "\<forall>p \<in> set ea. fst p < key" "eb = [] \<or> key < fst (hd eb)" using s(3) by (auto simp: around_def)
  note ar = around_child [OF so a]
  have "bal (Suc h) (Node False (ea @ eb) (ca @ c' # cb))" using t c by (auto simp: rem_post_def)
  then show ?thesis using c n del_between [OF ar] map_of_between [OF ar]
    unfolding rem_post_def s(2) [symmetric] io by simp
qed

lemma rem_post_order: "rem_post h t1 key r t' \<Longrightarrow> inorder t = inorder t1 \<Longrightarrow> n_len t \<le> Suc (n_len t') \<Longrightarrow> rem_post h t key r t'"
  by (simp add: rem_post_def)

lemma set_pre: "length ea = length xa \<Longrightarrow> set ea \<subseteq> set (pre ea xa)"
  by (induction ea xa rule: list_induct2) auto

lemma remove_from_internal_ok:
  fixes t :: "('k::linorder, 'v) node"
  assumes IH: "\<And>t :: ('k, 'v) node. bal h t \<Longrightarrow> 1 \<le> n_len t \<Longrightarrow> sorted1 (inorder t) \<Longrightarrow>
      \<exists>r t'. remove_from_node (Suc h) t key = Some (r, t') \<and> rem_post h t key r t'"
    and t: "bal (Suc h) t" "t = Node False (ea @ (key, w) # eb) (ca @ l # r # cb)" "length ca = length ea"
    and s: "sorted1 (inorder t)"
  shows "\<exists>r t'. remove_from_internal (Suc h) t (length ea) key = Some (r, t') \<and> rem_post (Suc h) t key r t'"
proof -
  note io = inorder_split2 [OF t(3) [symmetric]]
  have b: "bal h l" "bal h r" "5 \<le> n_len l" "5 \<le> n_len r" using t by auto
  define P Q where "P = pre ea (map inorder ca)" and "Q = post eb (map inorder cb)"
  have iot: "inorder t = (P @ inorder l) @ (key, w) # (inorder r @ Q)" unfolding t(2) io P_def Q_def by simp
  have found: "map_of (inorder t) key = Some w" and gone: "del key (inorder t) = (P @ inorder l) @ (inorder r @ Q)"
    using s replace_at [of "P @ inorder l" key w "inorder r @ Q"] unfolding iot by (simp_all del: append_assoc)
  have ch: "child (length ea) t = Some l" "child (length ea + 1) t = Some r" using t by (simp_all add: nth_append)
  show ?thesis
  proof (cases "6 \<le> n_len l")
    case True
    obtain e l' where e: "remove_max (Suc h) l = Some (e, l')" "inorder l = inorder l' @ [e]" "bal h l'" "n_len l \<le> Suc (n_len l')"
      using remove_max_ok [OF b(1)] True by auto
    have "remove_from_internal (Suc h) t (length ea) key = Some (Some (key, w), Node False (ea @ e # eb) (ca @ l' # r # cb))"
      using ch True e(1) t(2,3) by (simp add: remove_from_internal.simps nth_append list_update_append)
    moreover have "rem_post (Suc h) t key (Some (key, w)) (Node False (ea @ e # eb) (ca @ l' # r # cb))"
      unfolding rem_post_def found gone io using t True e by (auto simp: P_def Q_def)
    ultimately show ?thesis by blast
  next
    case False
    show ?thesis
    proof (cases "6 \<le> n_len r")
      case True
      obtain e r' where e: "remove_min (Suc h) r = Some (e, r')" "inorder r = e # inorder r'" "bal h r'" "n_len r \<le> Suc (n_len r')"
        using remove_min_ok [OF b(2)] True by auto
      have "remove_from_internal (Suc h) t (length ea) key = Some (Some (key, w), Node False (ea @ e # eb) (ca @ l # r' # cb))"
        using ch True False e(1) t(2,3) by (simp add: remove_from_internal.simps nth_append list_update_append)
      moreover have "rem_post (Suc h) t key (Some (key, w)) (Node False (ea @ e # eb) (ca @ l # r' # cb))"
        unfolding rem_post_def found gone io using t True e by (auto simp: P_def Q_def)
      ultimately show ?thesis by blast
    next
      case False': False
      have n5: "n_len l = 5" "n_len r = 5" using False False' b by auto
      obtain m where m: "merge_children t (length ea) = Some (Node False (ea @ eb) (ca @ m # cb))"
        "inorder m = inorder l @ (key, w) # inorder r" "bal h m" "n_len m = 11"
        "inorder (Node False (ea @ eb) (ca @ m # cb)) = inorder t" "bal (Suc h) (Node False (ea @ eb) (ca @ m # cb))"
        using merge_order [OF t n5] by metis
      have "sorted1 (inorder m)" using s unfolding iot m(2) by (simp add: sorted1_simps)
      then obtain x m' where x: "remove_from_node (Suc h) m key = Some (x, m')" "rem_post h m key x m'"
        using IH [OF m(3)] m(4) by auto
      have "remove_from_internal (Suc h) t (length ea) key = Some (x, Node False (ea @ eb) (ca @ m' # cb))"
        using ch False False' m(1) x(1) t(3) by (simp add: remove_from_internal.simps nth_append list_update_append)
      moreover have "rem_post (Suc h) t key x (Node False (ea @ eb) (ca @ m' # cb))"
      proof (rule rem_post_descend [OF t(3) m(6) s m(5) _ x(2)])
        have "eb = [] \<or> hd eb \<in> set Q" using t by (cases eb; cases cb) (auto simp: Q_def)
        moreover have "set ea \<subseteq> set P" unfolding P_def by (rule set_pre) (simp add: t)
        ultimately show "around key ea eb" using s unfolding iot around_def by (auto simp: sorted1_simps)
      qed (use m t in simp_all)
      ultimately show ?thesis by blast
    qed
  qed
qed

lemma remove_from_node_ok:
  fixes t :: "('k::linorder, 'v) node"
  shows "bal h t \<Longrightarrow> h = 0 \<or> 1 \<le> n_len t \<Longrightarrow> sorted1 (inorder t) \<Longrightarrow>
    \<exists>r t'. remove_from_node (Suc h) t key = Some (r, t') \<and> rem_post h t key r t'"
proof (induction h arbitrary: t)
  case (0 t)
  obtain ea eb where es: "n_entries t = ea @ eb" "length ea = lower_bound t key" "\<forall>p \<in> set ea. fst p < key"
    "eb = [] \<or> \<not> fst (hd eb) < key" unfolding lower_bound_def by (rule lower_bound_split)
  have t: "t = Node True (ea @ eb) []" using bal_0_leaf [OF 0(1)] es(1) by simp
  show ?case
  proof (cases "eb \<noteq> [] \<and> fst (hd eb) = key")
    case True
    then obtain w eb' where eb: "eb = (key, w) # eb'" by (cases eb) auto
    have "remove_from_node (Suc 0) t key = Some (Some (key, w), Node True (ea @ eb') [])"
      using es(2) [symmetric] by (subst remove_from_node.simps) (simp add: t eb equivalent_iff nth_append Let_def)
    moreover have "rem_post 0 t key (Some (key, w)) (Node True (ea @ eb') [])"
      using 0(1,3) replace_at(2,3) [of ea key w eb'] by (simp add: rem_post_def t eb)
    ultimately show ?thesis by blast
  next
    case False
    then have "eb = [] \<or> key < fst (hd eb)" using es(4) by auto
    then have "\<forall>p \<in> set eb. key < fst p" using 0(3) by (cases eb) (auto simp: t sorted1_simps intro: less_trans)
    then have b: "p \<in> set ea \<Longrightarrow> fst p < key" "p \<in> set eb \<Longrightarrow> key < fst p" for p using es(3) by auto
    have "\<not> (lower_bound t key < length (ea @ eb) \<and> equivalent (fst ((ea @ eb) ! lower_bound t key)) key)"
      using False es(2) [symmetric] by (cases eb) (auto simp: equivalent_iff nth_append)
    then have "remove_from_node (Suc 0) t key = Some (None, t)"
      using es(2) [symmetric] by (subst remove_from_node.simps) (auto simp: t Let_def nth_append)
    moreover have "del key (ea @ [] @ eb) = ea @ del key [] @ eb" "map_of (ea @ [] @ eb) key = map_of [] key"
      by (rule del_between [OF b], assumption+) (rule map_of_between [OF b], assumption+)
    then have "rem_post 0 t key None t" using 0(1) by (simp add: rem_post_def t del_def del: map_of_append)
    ultimately show ?thesis by blast
  qed
next
  case (Suc h t)
  obtain ea eb where es: "n_entries t = ea @ eb" "length ea = lower_bound t key" "\<forall>p \<in> set ea. fst p < key"
    "eb = [] \<or> \<not> fst (hd eb) < key" unfolding lower_bound_def by (rule lower_bound_split)
  obtain ca c cb where t: "t = Node False (ea @ eb) (ca @ c # cb)" "length ca = length ea" "length cb = length eb" "bal h c" "5 \<le> n_len c"
    using bal_Suc_split [OF Suc.prems(1) es(1)] by metis
  have n: "1 \<le> n_len t" using Suc.prems(2) by simp
  have IH: "\<exists>r t'. remove_from_node (Suc h) t key = Some (r, t') \<and> rem_post h t key r t'"
    if "bal h t" "1 \<le> n_len t" "sorted1 (inorder t)" for t :: "('k, 'v) node" using Suc.IH that by blast
  show ?case
  proof (cases "eb \<noteq> [] \<and> fst (hd eb) = key")
    case True
    then obtain w eb' where eb: "eb = (key, w) # eb'" by (cases eb) auto
    then obtain r cb' where cb: "cb = r # cb'" using t(3) by (cases cb) auto
    have "remove_from_node (Suc (Suc h)) t key = remove_from_internal (Suc h) t (length ea) key"
      using es(2) [symmetric] by (subst remove_from_node.simps) (simp add: t(1) eb equivalent_iff nth_append Let_def)
    then show ?thesis
      using remove_from_internal_ok [OF IH Suc.prems(1) t(1) [unfolded eb cb] t(2) Suc.prems(3)] by simp
  next
    case False
    then have ar: "around key ea eb" using es(3,4) by (auto simp: around_def)
    have miss: "\<not> (lower_bound t key < length (ea @ eb) \<and> equivalent (fst ((ea @ eb) ! lower_bound t key)) key)"
      using False es(2) [symmetric] by (cases eb) (auto simp: equivalent_iff nth_append)
    obtain ea' eb' ca' c' cb' where f: "fix_child t (length ea) = Some (Node False (ea' @ eb') (ca' @ c' # cb'), length ea')"
      "fixed h t ea eb ea' eb' ca' c' cb'"
      using fix_child_ok [OF Suc.prems(1) t(1,2) n] by blast
    have l: "length ca' = length ea'" and io: "inorder (Node False (ea' @ eb') (ca' @ c' # cb')) = inorder t" "bal h c'" "6 \<le> n_len c'"
      using f(2) by (auto simp: fixed_def)
    have "sorted1 (inorder c')"
      using Suc.prems(3) unfolding io(1) [symmetric] inorder_split [OF l [symmetric]] by (simp add: sorted1_append)
    then obtain r c2 where r: "remove_from_node (Suc h) c' key = Some (r, c2)" "rem_post h c' key r c2"
      using IH [OF io(2)] io(3) by auto
    have "remove_from_node (Suc (Suc h)) t key = Some (r, Node False (ea' @ eb') (ca' @ c2 # cb'))"
      using miss es(2) [symmetric] f(1) r(1) l t(1)
      by (subst remove_from_node.simps) (auto simp: nth_append Let_def list_update_append)
    moreover have "rem_post (Suc h) t key r (Node False (ea' @ eb') (ca' @ c2 # cb'))"
      by (rule rem_post_descend [OF l _ Suc.prems(3) io(1) _ r(2) io(3)])
        (use f(2) ar Suc.prems(3) in \<open>auto simp: fixed_def\<close>)
    ultimately show ?thesis by blast
  qed
qed

section \<open>The map\<close>

lemma levels_bal: "bal h t \<Longrightarrow> levels t = Suc h"
proof (induction h arbitrary: t)
  case 0
  then show ?case by (cases t) auto
next
  case (Suc h)
  then obtain es c cs where "t = Node False es (c # cs)" "bal h c" by (cases t; cases "n_edges t") auto
  then show ?case using Suc.IH by simp
qed

lemma bm_invE:
  assumes "bm_inv m" "bm_root m = Some t"
  obtains h where "bal h t" "h = 0 \<or> 1 \<le> n_len t" "sorted1 (inorder t)" "bm_length m = length (inorder t)" "levels t = Suc h"
  using assms levels_bal by (auto simp: bm_inv_def bm_entries_def)

lemma bm_invI:
  "bal h t \<Longrightarrow> h = 0 \<or> 1 \<le> n_len t \<Longrightarrow> sorted1 (inorder t) \<Longrightarrow> n = length (inorder t) \<Longrightarrow>
    bm_inv (m\<lparr>bm_root := Some t, bm_length := n\<rparr>)"
  by (auto simp: bm_inv_def bm_entries_def)

lemma insert_key_ok:
  assumes "bm_inv m"
  shows "\<exists>m'. insert_key key v m = Some (map_of (bm_entries m) key, m') \<and> bm_inv m' \<and> bm_entries m' = ins key v (bm_entries m)"
proof -
  define t0 where "t0 = (case bm_root m of None \<Rightarrow> Node True [] [] | Some t \<Rightarrow> t)"
  obtain h0 where t0: "bal h0 t0" "h0 = 0 \<or> 1 \<le> n_len t0" "inorder t0 = bm_entries m" "sorted1 (inorder t0)"
    "bm_length m = length (inorder t0)"
    using assms by (cases "bm_root m") (auto simp: bm_inv_def bm_entries_def t0_def intro: that [of 0])
  obtain h1 t1 where t1: "(if n_len t0 = CAPACITY then split_child (Node False [] [t0]) 0 else Some t0) = Some t1"
    "bal h1 t1" "h1 = 0 \<or> 1 \<le> n_len t1" "n_len t1 < 11" "inorder t1 = inorder t0"
  proof (cases "n_len t0 = CAPACITY")
    case False
    then show thesis using that [of t0 h0] t0 bal_len [OF t0(1)] by simp
  next
    case True
    obtain c1 p c2 where "split_child (Node False ([] @ []) ([] @ t0 # [])) (length []) = Some (Node False ([] @ p # []) ([] @ c1 # c2 # []))"
      "inorder t0 = inorder c1 @ p # inorder c2" "bal h0 c1" "bal h0 c2" "n_len c1 = 5" "n_len c2 = 5"
      by (rule split_child_ok [of "[]" "[]" "[]" "[]" h0 t0]) (use t0(1) True in auto)
    then show thesis using that [of "Node False [p] [c1, c2]" "Suc h0"] True by simp
  qed
  obtain t2 old grew where t2: "insert_non_full (Suc h1) t1 key v = Some (t2, old, grew)" "ins_post h1 t1 key v t2 old grew"
    using insert_non_full_ok [OF t1(2,4)] t0(4) t1(5) by metis
  define m' where "m' = m\<lparr>bm_root := Some t2, bm_length := bm_length m + (if grew then 1 else 0)\<rparr>"
  have "insert_key key v m = Some (old, m')"
    using t1(1) t2(1) levels_bal [OF t1(2)] by (simp add: insert_key_def t0_def [symmetric] m'_def)
  moreover have "bm_inv m'" unfolding m'_def
    by (rule bm_invI [of h1]) (use t2(2) t1 t0 length_ins [of "inorder t0" key v] sorted1_ins [of "inorder t0" key v]
      in \<open>auto simp: ins_post_def\<close>)
  moreover have "bm_entries m' = ins key v (bm_entries m)" "old = map_of (bm_entries m) key"
    using t2(2) t1(5) t0(3) by (simp_all add: m'_def bm_entries_def ins_post_def)
  ultimately show ?thesis by auto
qed

lemma get_ok: "bm_inv m \<Longrightarrow> get key m = Some (map_of (bm_entries m) key)"
  by (cases "bm_root m")
    (auto simp: get_def get_key_value_def bm_entries_def node_get_ok option.map_comp o_def option.map_ident elim: bm_invE)

lemma get_key_value_ok: "bm_inv m \<Longrightarrow> get_key_value key m = Some (map_option (Pair key) (map_of (bm_entries m) key))"
  by (cases "bm_root m") (auto simp: get_key_value_def bm_entries_def node_get_ok elim: bm_invE)

lemma normalize_root_ok:
  assumes "bal h t" "sorted1 (inorder t)" "n = length (inorder t)"
  shows "\<exists>m'. normalize_root (m\<lparr>bm_root := Some t, bm_length := n\<rparr>) = Some m' \<and> bm_inv m' \<and> bm_entries m' = inorder t"
proof (cases "n_len t \<noteq> 0 \<or> n_leaf t")
  case True
  then have "h = 0 \<or> 1 \<le> n_len t" using bal_leaf [OF assms(1)] by (auto simp: Suc_le_eq)
  then show ?thesis using assms True bm_invI [OF assms(1)] by (auto simp: normalize_root_def bm_entries_def)
next
  case False
  then obtain h' where h: "h = Suc h'" using bal_leaf [OF assms(1)] by (cases h) auto
  then obtain c where t: "t = Node False [] [c]" "bal h' c" "5 \<le> n_len c" using assms(1) False
    by (cases t) (auto simp: length_Suc_conv)
  then have "normalize_root (m\<lparr>bm_root := Some t, bm_length := n\<rparr>) = Some (m\<lparr>bm_root := Some c, bm_length := n\<rparr>)"
    by (simp add: normalize_root_def)
  moreover have "inorder c = inorder t" using t by simp
  ultimately show ?thesis using bm_invI [OF t(2)] t(3) assms by (auto simp: bm_entries_def)
qed

lemma remove_entry_ok:
  assumes "bm_inv m"
  shows "\<exists>m'. remove_entry key m = Some (map_option (Pair key) (map_of (bm_entries m) key), m') \<and> bm_inv m' \<and>
    bm_entries m' = del key (bm_entries m)"
proof (cases "bm_root m")
  case None
  then show ?thesis using assms by (simp add: remove_entry_def bm_entries_def del_def)
next
  case (Some t)
  obtain h where t: "bal h t" "h = 0 \<or> 1 \<le> n_len t" "sorted1 (inorder t)" "bm_length m = length (inorder t)" "levels t = Suc h"
    using assms Some by (rule bm_invE)
  obtain r t' where r: "remove_from_node (Suc h) t key = Some (r, t')" "rem_post h t key r t'"
    using remove_from_node_ok [OF t(1-3)] by metis
  let ?n = "if r \<noteq> None then bm_length m - 1 else bm_length m"
  have "?n = length (inorder t')" using r(2) t(3,4) length_del [OF t(3), of key] by (auto simp: rem_post_def)
  moreover have "sorted1 (inorder t')" "bal h t'" using r(2) t(3) sorted1_del by (auto simp: rem_post_def)
  ultimately obtain m' where "normalize_root (m\<lparr>bm_root := Some t', bm_length := ?n\<rparr>) = Some m'" "bm_inv m'" "bm_entries m' = inorder t'"
    using normalize_root_ok [of h t' ?n m] by blast
  then show ?thesis using r Some t(5) by (auto simp: remove_entry_def bm_entries_def rem_post_def)
qed

lemma pop_first_ok:
  assumes "bm_inv m"
  shows "\<exists>r m'. pop_first m = Some (r, m') \<and> bm_inv m' \<and>
    (case r of None \<Rightarrow> bm_entries m = [] \<and> m' = m | Some e \<Rightarrow> bm_entries m = e # bm_entries m')"
proof (cases "bm_entries m")
  case Nil
  then show ?thesis using assms by (simp add: pop_first_def bm_inv_def)
next
  case (Cons e es)
  then obtain t where root: "bm_root m = Some t" by (auto simp: bm_entries_def split: option.splits)
  obtain h where t: "bal h t" "h = 0 \<or> 1 \<le> n_len t" "sorted1 (inorder t)" "bm_length m = length (inorder t)" "levels t = Suc h"
    using assms root by (rule bm_invE)
  have io: "inorder t = e # es" using Cons root by (simp add: bm_entries_def)
  then have "1 \<le> n_len t" using t(1,2) bal_0_leaf [of t] by (cases h; cases t) auto
  then obtain e' t' where r: "remove_min (Suc h) t = Some (e', t')" "inorder t = e' # inorder t'" "bal h t'"
    using remove_min_ok [OF t(1)] by blast
  have "sorted1 (inorder t')" "bm_length m - 1 = length (inorder t')" using t r(2) by (simp_all add: sorted1_Cons)
  then obtain m' where "normalize_root (m\<lparr>bm_root := Some t', bm_length := bm_length m - 1\<rparr>) = Some m'" "bm_inv m'" "bm_entries m' = inorder t'"
    using normalize_root_ok [OF r(3), of "bm_length m - 1" m] by blast
  then show ?thesis using r t(4,5) root io Cons by (simp add: pop_first_def)
qed

lemma pop_last_ok:
  assumes "bm_inv m"
  shows "\<exists>r m'. pop_last m = Some (r, m') \<and> bm_inv m' \<and>
    (case r of None \<Rightarrow> bm_entries m = [] \<and> m' = m | Some e \<Rightarrow> bm_entries m = bm_entries m' @ [e])"
proof (cases "bm_entries m" rule: rev_cases)
  case Nil
  then show ?thesis using assms by (simp add: pop_last_def bm_inv_def)
next
  case (snoc es e)
  then obtain t where root: "bm_root m = Some t" by (auto simp: bm_entries_def split: option.splits)
  obtain h where t: "bal h t" "h = 0 \<or> 1 \<le> n_len t" "sorted1 (inorder t)" "bm_length m = length (inorder t)" "levels t = Suc h"
    using assms root by (rule bm_invE)
  have io: "inorder t = es @ [e]" using snoc root by (simp add: bm_entries_def)
  then have "1 \<le> n_len t" using t(1,2) bal_0_leaf [of t] by (cases h; cases t) auto
  then obtain e' t' where r: "remove_max (Suc h) t = Some (e', t')" "inorder t = inorder t' @ [e']" "bal h t'"
    using remove_max_ok [OF t(1)] by blast
  have "sorted1 (inorder t')" "bm_length m - 1 = length (inorder t')" using t r(2) by (simp_all add: sorted1_append)
  then obtain m' where "normalize_root (m\<lparr>bm_root := Some t', bm_length := bm_length m - 1\<rparr>) = Some m'" "bm_inv m'" "bm_entries m' = inorder t'"
    using normalize_root_ok [OF r(3), of "bm_length m - 1" m] by blast
  then show ?thesis using r t(4,5) root io snoc by (simp add: pop_last_def)
qed

lemma nonempty_order: "bal h t \<Longrightarrow> 1 \<le> n_len t \<Longrightarrow> inorder t \<noteq> []"
proof (cases h)
  case (Suc h')
  assume "bal h t" "1 \<le> n_len t"
  then obtain e es c d cs where "t = Node False (e # es) (c # d # cs)"
    using Suc by (cases t; cases "n_entries t"; cases "n_edges t"; cases "tl (n_edges t)") auto
  then show ?thesis by simp
qed (cases t, auto)

lemma descend_left_ok:
  "bal h t \<Longrightarrow> inorder t \<noteq> [] \<Longrightarrow> \<exists>leaf. descend_left (Suc h) t = Some leaf \<and> node_entry 0 leaf = Some (hd (inorder t))"
proof (induction h arbitrary: t)
  case (0 t)
  then show ?case using bal_0_leaf [of t] by (cases t) (auto simp: hd_conv_nth)
next
  case (Suc h t)
  then obtain es c cs where t: "t = Node False es (c # cs)" "bal h c" "5 \<le> n_len c" by (cases t; cases "n_edges t") auto
  have ne: "inorder c \<noteq> []" using nonempty_order [OF t(2)] t(3) by auto
  then show ?case using Suc.IH [OF t(2) ne] t by (auto simp: hd_append)
qed

lemma descend_right_ok:
  "bal h t \<Longrightarrow> inorder t \<noteq> [] \<Longrightarrow>
    \<exists>leaf. descend_right (Suc h) t = Some leaf \<and> node_entry (n_len leaf - 1) leaf = Some (last (inorder t))"
proof (induction h arbitrary: t)
  case (0 t)
  then show ?case using bal_0_leaf [of t] by (cases t) (auto simp: last_conv_nth)
next
  case (Suc h t)
  obtain ca c cb where t: "t = Node False (n_entries t @ []) (ca @ c # cb)" "length ca = length (n_entries t)" "length cb = length ([] :: ('a \<times> 'b) list)"
    "bal h c" "5 \<le> n_len c"
    by (rule bal_Suc_split [OF Suc.prems(1), of "n_entries t" "[]"]) simp_all
  have ne: "inorder c \<noteq> []" using nonempty_order [OF t(4)] t(5) by auto
  have "inorder t = pre (n_entries t) (map inorder ca) @ inorder c"
    using inorder_split [OF t(2) [symmetric], of "[]" c cb] t(3) unfolding t(1) [symmetric] by simp
  moreover have "descend_right (Suc (Suc h)) t = descend_right (Suc h) c"
  proof -
    obtain es where "t = Node False es (ca @ c # cb)" "length ca = length es" using t(1,2) by (metis append_Nil2)
    then show ?thesis by (simp add: nth_append)
  qed
  ultimately show ?case using Suc.IH [OF t(4) ne] ne by simp
qed

lemma first_key_value_ok:
  assumes "bm_inv m"
  shows "first_key_value m = Some (if bm_entries m = [] then None else Some (hd (bm_entries m)))"
    and "last_key_value m = Some (if bm_entries m = [] then None else Some (last (bm_entries m)))"
proof -
  have "first_key_value m = Some (if bm_entries m = [] then None else Some (hd (bm_entries m))) \<and>
    last_key_value m = Some (if bm_entries m = [] then None else Some (last (bm_entries m)))"
  proof (cases "bm_root m")
    case None
    then show ?thesis by (simp add: first_key_value_def last_key_value_def bm_entries_def)
  next
    case (Some t)
    obtain h where t: "bal h t" "bm_length m = length (inorder t)" "levels t = Suc h" using assms Some by (rule bm_invE)
    show ?thesis
      using descend_left_ok [OF t(1)] descend_right_ok [OF t(1)] t(2,3) Some
      by (cases "inorder t = []") (auto simp: first_key_value_def last_key_value_def bm_entries_def simp del: descend_left.simps descend_right.simps)
  qed
  then show "first_key_value m = Some (if bm_entries m = [] then None else Some (hd (bm_entries m)))"
    and "last_key_value m = Some (if bm_entries m = [] then None else Some (last (bm_entries m)))" by simp_all
qed

section \<open>The B-tree is an ordered map\<close>

interpretation btm: ordered_map make_map insert_key get remove_entry bm_inv bm_entries
proof unfold_locales
  show "bm_inv make_map" "bm_entries make_map = []" by (simp_all add: make_map_def bm_inv_def bm_entries_def)
  show "sorted1 (bm_entries m)" if "bm_inv m" for m :: "('a, 'b) btree_map" using that by (simp add: bm_inv_def)
qed (rule insert_key_ok get_ok remove_entry_ok; assumption)+

section \<open>Properties\<close>

text \<open>C1. Insertion into a well-formed B-tree never fails an assertion or leaves the arrays of a node; it
  returns the value stored before, keeps balance, fill and order of the tree, and its entries in order are the
  old ones with the key added or its value replaced; lookups see exactly that.\<close>

theorem btree_insert_refines:
  assumes "bm_inv m"
  shows "\<exists>old m'. insert_key key v m = Some (old, m') \<and> bm_inv m' \<and> get key m = Some old
    \<and> bm_entries m' = ins key v (bm_entries m)
    \<and> (\<forall>k. get k m' = Some (if k = key then Some v else map_of (bm_entries m) k))
    \<and> bm_length m' = bm_length m + (if old = None then 1 else 0)"
proof -
  obtain m' where m': "insert_key key v m = Some (map_of (bm_entries m) key, m')" "bm_inv m'"
    "bm_entries m' = ins key v (bm_entries m)" using btm.insert_law [OF assms] by blast
  have "bm_length m' = bm_length m + (if map_of (bm_entries m) key = None then 1 else 0)"
    using m'(2,3) assms length_ins [OF btm.sorted_entries [OF assms], of key v] by (simp add: bm_inv_def)
  then show ?thesis using m' btm.lookup_insert [OF assms m'(1)] by auto
qed

theorem btree_insert_refines_witness:
  "\<exists>m'. insert_key (3::nat) True make_map = Some (None, m') \<and> get 3 m' = Some (Some True)"
  using btree_insert_refines [OF btm.inv_empty, of "3::nat" True]
  by (auto simp: btm.entries_empty btm.lookup_law [OF btm.inv_empty])

text \<open>C2. Removal from a well-formed B-tree never fails an assertion or leaves the arrays of a node, even
  while it borrows from siblings and merges nodes; it returns the removed entry, keeps the invariant, and only
  the entry of the key is gone.\<close>

theorem btree_remove_refines:
  assumes "bm_inv m"
  shows "\<exists>m'. remove_entry key m = Some (map_option (Pair key) (map_of (bm_entries m) key), m') \<and> bm_inv m'
    \<and> bm_entries m' = del key (bm_entries m)
    \<and> (\<forall>k. get k m' = Some (if k = key then None else map_of (bm_entries m) k))"
  using btm.remove_law [OF assms, of key] btm.lookup_remove [OF assms, of key] by metis

theorem btree_remove_refines_witness:
  "bm_inv sample_tree \<and> (\<exists>m'. remove_entry 3 sample_tree = Some (Some (3, False), m') \<and> bm_inv m' \<and>
     get 3 m' = Some None \<and> get 11 m' = Some (Some True) \<and> map fst (bm_entries m') = [1, 2, 4, 5, 6, 7, 8, 9, 10, 11])"
proof -
  have e: "bm_entries sample_tree = [(1, True), (2, True), (3, False), (4, True), (5, True), (6, True), (7, True), (8, True), (9, True),
    (10, True), (11, True)]" by code_simp
  have "bm_length sample_tree = 11" "bm_root sample_tree = Some (Node False [(6, True)]
     [Node True [(1, True), (2, True), (3, False), (4, True), (5, True)] [],
      Node True [(7, True), (8, True), (9, True), (10, True), (11, True)] []])" by (simp_all add: sample_tree_def)
  then have i: "bm_inv sample_tree" unfolding bm_inv_def e by (auto simp: sorted1_def CAPACITY_def B_def intro!: exI [of _ 1])
  then show ?thesis using btree_remove_refines [OF i, of 3] unfolding e by (auto simp: del_def)
qed

text \<open>C32. \<open>pop_first\<close> and \<open>pop_last\<close> take the smallest and the largest entry of a well-formed map and keep
  the invariant, and \<open>first_key_value\<close> and \<open>last_key_value\<close> show these entries.\<close>

theorem btree_pop_refines:
  assumes "bm_inv m"
  shows "(\<exists>r m'. pop_first m = Some (r, m') \<and> bm_inv m' \<and> first_key_value m = Some r \<and>
      bm_entries m = (case r of None \<Rightarrow> [] | Some e \<Rightarrow> e # bm_entries m'))
    \<and> (\<exists>r m'. pop_last m = Some (r, m') \<and> bm_inv m' \<and> last_key_value m = Some r \<and>
      bm_entries m = (case r of None \<Rightarrow> [] | Some e \<Rightarrow> bm_entries m' @ [e]))"
proof
  obtain r m' where "pop_first m = Some (r, m')" "bm_inv m'"
    "case r of None \<Rightarrow> bm_entries m = [] \<and> m' = m | Some e \<Rightarrow> bm_entries m = e # bm_entries m'"
    using pop_first_ok [OF assms] by blast
  then show "\<exists>r m'. pop_first m = Some (r, m') \<and> bm_inv m' \<and> first_key_value m = Some r \<and>
      bm_entries m = (case r of None \<Rightarrow> [] | Some e \<Rightarrow> e # bm_entries m')"
    using first_key_value_ok(1) [OF assms] by (cases r) auto
  obtain r m' where "pop_last m = Some (r, m')" "bm_inv m'"
    "case r of None \<Rightarrow> bm_entries m = [] \<and> m' = m | Some e \<Rightarrow> bm_entries m = bm_entries m' @ [e]"
    using pop_last_ok [OF assms] by blast
  then show "\<exists>r m'. pop_last m = Some (r, m') \<and> bm_inv m' \<and> last_key_value m = Some r \<and>
      bm_entries m = (case r of None \<Rightarrow> [] | Some e \<Rightarrow> bm_entries m' @ [e])"
    using first_key_value_ok(2) [OF assms] by (cases r) auto
qed

theorem btree_pop_refines_witness:
  "bm_inv sample_map \<and> (\<exists>m'. pop_first sample_map = Some (Some (1, True), m') \<and> bm_entries m' = [(2, False)])"
proof -
  have i: "bm_inv sample_map" by (auto simp: bm_inv_def sample_map_def bm_entries_def sorted1_def intro: exI [of _ 0])
  moreover have "first_key_value sample_map = Some (Some (1, True))" by code_simp
  ultimately show ?thesis using btree_pop_refines [OF i] by (auto simp: bm_entries_def sample_map_def)
qed

text \<open>Building a map from a sequence of entries keeps the last value given for each key.\<close>

lemma btree_extend_last_wins:
  assumes "bm_inv m"
  shows "\<exists>m'. extend items m = Some m' \<and> bm_inv m' \<and>
    (\<forall>k. get k m' = Some ((map_of (bm_entries m) ++ map_of (rev items)) k))"
  unfolding extend_def using assms by (rule btm.insert_all_lookup)

end
