(* ===== verification/BTree_Iter.thy ===== *)
theory BTree_Iter
  imports BTree
begin

text \<open>
  Iteration over a \<open>BTreeMap\<close>: \<open>BTreeMapIter\<close> (and \<open>BTreeMapIterMut\<close>, the same code on mutable
  nodes), the draining \<open>into_iter\<close>, and the operations written with them, \<open>clone\<close> and \<open>==\<close>, of
  src/alloc/src/collections/btree_map.cppm.  The stacks of frames are lists with the top first.  The
  locale \<open>double_ended\<close> is the contract of a double-ended iterator over a list of items; it is
  interpreted on the B-tree iterator.
\<close>

section \<open>The code\<close>

type_synonym ('k, 'v) frame = "('k, 'v) node \<times> nat"

record ('k, 'v) btree_iter =
  it_front :: "('k, 'v) frame list"
  it_back :: "('k, 'v) frame list"
  it_remaining :: nat

text \<open>\<open>None\<close> is an access to an edge that does not exist, or \<open>unwrap\<close> of an empty stack.\<close>

fun push_left :: "('k, 'v) node \<Rightarrow> ('k, 'v) frame list \<Rightarrow> ('k, 'v) frame list option" where
  "push_left (Node l es []) st = (if l then Some ((Node l es [], 0) # st) else None)"
| "push_left (Node l es (c # cs)) st =
    (if l then Some ((Node l es (c # cs), 0) # st) else push_left c ((Node l es (c # cs), 0) # st))"

function push_right :: "('k, 'v) node \<Rightarrow> ('k, 'v) frame list \<Rightarrow> ('k, 'v) frame list option" where
  "push_right (Node l es cs) st =
    (let st' = (Node l es cs, length es) # st in
     if l then Some st'
     else if length es < length cs then push_right (cs ! length es) st'
     else None)"
  by pat_completeness auto
termination
proof (relation "measure (\<lambda>(t, st). size t)", simp)
  fix l and es :: "('k \<times> 'v) list" and cs :: "('k, 'v) node list"
  assume "length es < length cs"
  then have "size (cs ! length es) \<le> size_list size cs" by (intro size_list_estimation' [of "cs ! length es"]) simp_all
  then show "((cs ! length es, x), (Node l es cs, st)) \<in> measure (\<lambda>(t, st). size t)" for x st by simp
qed

fun next_loop :: "('k, 'v) frame list \<Rightarrow> (('k \<times> 'v) \<times> ('k, 'v) frame list) option" where
  "next_loop [] = None"
| "next_loop ((t, i) # fs) =
    (if n_leaf t then
       (if i = n_len t then next_loop fs
        else do { e \<leftarrow> node_entry i t; Some (e, (t, Suc i) # fs) })
     else if i = n_len t then next_loop fs
     else do {
       c \<leftarrow> child (i + 1) t;
       fs' \<leftarrow> push_left c ((t, Suc i) # fs);
       e \<leftarrow> node_entry i t;
       Some (e, fs')
     })"

fun next_back_loop :: "('k, 'v) frame list \<Rightarrow> (('k \<times> 'v) \<times> ('k, 'v) frame list) option" where
  "next_back_loop [] = None"
| "next_back_loop ((t, i) # fs) =
    (if n_leaf t then
       (if i = 0 then next_back_loop fs
        else do { e \<leftarrow> node_entry (i - 1) t; Some (e, (t, i - 1) # fs) })
     else if i = 0 then next_back_loop fs
     else do {
       c \<leftarrow> child (i - 1) t;
       fs' \<leftarrow> push_right c ((t, i - 1) # fs);
       e \<leftarrow> node_entry (i - 1) t;
       Some (e, fs')
     })"

definition iter_next :: "('k, 'v) btree_iter \<Rightarrow> (('k \<times> 'v) option \<times> ('k, 'v) btree_iter) option" where
  "iter_next it =
    (if it_remaining it = 0 then Some (None, it)
     else do {
       (e, fs) \<leftarrow> next_loop (it_front it);
       Some (Some e, it\<lparr>it_front := fs, it_remaining := it_remaining it - 1\<rparr>)
     })"

definition iter_next_back :: "('k, 'v) btree_iter \<Rightarrow> (('k \<times> 'v) option \<times> ('k, 'v) btree_iter) option" where
  "iter_next_back it =
    (if it_remaining it = 0 then Some (None, it)
     else do {
       (e, fs) \<leftarrow> next_back_loop (it_back it);
       Some (Some e, it\<lparr>it_back := fs, it_remaining := it_remaining it - 1\<rparr>)
     })"

definition make_iter :: "('k, 'v) btree_map \<Rightarrow> ('k, 'v) btree_iter option" where
  "make_iter m =
    (case bm_root m of
       None \<Rightarrow> Some \<lparr>it_front = [], it_back = [], it_remaining = bm_length m\<rparr>
     | Some t \<Rightarrow> do {
         front \<leftarrow> push_left t [];
         back \<leftarrow> push_right t [];
         Some \<lparr>it_front = front, it_back = back, it_remaining = bm_length m\<rparr>
       })"

text \<open>The loop \<open>for (item = next(); item.is_some(); item = next())\<close>, for at most \<open>n\<close> items.\<close>

fun collect :: "('i \<Rightarrow> ('a option \<times> 'i) option) \<Rightarrow> nat \<Rightarrow> 'i \<Rightarrow> 'a list option" where
  "collect step 0 it = None"
| "collect step (Suc n) it = do {
     (item, it') \<leftarrow> step it;
     (case item of None \<Rightarrow> Some [] | Some x \<Rightarrow> do { xs \<leftarrow> collect step n it'; Some (x # xs) })
   }"

definition clone :: "('k::linorder, 'v) btree_map \<Rightarrow> ('k, 'v) btree_map option" where
  "clone m = do {
     source \<leftarrow> make_iter m;
     items \<leftarrow> collect iter_next (Suc (bm_length m)) source;
     insert_all insert_key items make_map
   }"

fun eq_loop :: "nat \<Rightarrow> ('k, 'v) btree_iter \<Rightarrow> ('k, 'v) btree_iter \<Rightarrow> bool option" where
  "eq_loop 0 left right = None"
| "eq_loop (Suc n) left right = do {
     (lhs, left') \<leftarrow> iter_next left;
     (rhs, right') \<leftarrow> iter_next right;
     (case lhs of
        None \<Rightarrow> Some True
      | Some l \<Rightarrow> do {
          r \<leftarrow> rhs;
          if fst l \<noteq> fst r \<or> snd l \<noteq> snd r then Some False else eq_loop n left' right'
        })
   }"

definition map_eq :: "('k, 'v) btree_map \<Rightarrow> ('k, 'v) btree_map \<Rightarrow> bool option" where
  "map_eq m other =
    (if bm_length m \<noteq> bm_length other then Some False
     else do {
       left \<leftarrow> make_iter m;
       right \<leftarrow> make_iter other;
       eq_loop (Suc (bm_length m)) left right
     })"

text \<open>\<open>drain_node\<close> appends the entries of the node it consumes to \<open>output\<close>.\<close>

fun drain_node :: "('k, 'v) node \<Rightarrow> ('k \<times> 'v) list \<Rightarrow> ('k \<times> 'v) list option"
and drain_edges :: "('k \<times> 'v) list \<Rightarrow> ('k, 'v) node list \<Rightarrow> ('k \<times> 'v) list \<Rightarrow> ('k \<times> 'v) list option" where
  "drain_node (Node l es cs) output = (if l then Some (output @ es) else drain_edges es cs output)"
| "drain_edges (e # es) (c # cs) output = do {
     output' \<leftarrow> drain_node c output;
     drain_edges es cs (output' @ [e])
   }"
| "drain_edges [] (c # cs) output = drain_node c output"
| "drain_edges es [] output = None"

definition into_iter :: "('k, 'v) btree_map \<Rightarrow> (('k \<times> 'v) list \<times> ('k, 'v) btree_map) option" where
  "into_iter m = do {
     entries \<leftarrow> (case bm_root m of None \<Rightarrow> Some [] | Some t \<Rightarrow> drain_node t []);
     Some (entries, m\<lparr>bm_root := None, bm_length := 0\<rparr>)
   }"

section \<open>What the stacks stand for\<close>

text \<open>The entries that a frame of the front stack has still to give, and those of the back stack.\<close>

definition frame_rest :: "('k, 'v) frame \<Rightarrow> ('k \<times> 'v) list" where
  "frame_rest f = (case f of (Node l es cs, i) \<Rightarrow>
     if l then drop i es else post (drop i es) (map inorder (drop (Suc i) cs)))"

definition frame_before :: "('k, 'v) frame \<Rightarrow> ('k \<times> 'v) list" where
  "frame_before f = (case f of (Node l es cs, i) \<Rightarrow>
     if l then take i es else pre (take i es) (map inorder (take i cs)))"

definition valid_frame :: "('k, 'v) frame \<Rightarrow> bool" where
  "valid_frame f \<longleftrightarrow> (\<exists>h. bal h (fst f)) \<and> snd f \<le> n_len (fst f)"

definition front_rest :: "('k, 'v) frame list \<Rightarrow> ('k \<times> 'v) list" where
  "front_rest fs = concat (map frame_rest fs)"

definition back_rest :: "('k, 'v) frame list \<Rightarrow> ('k \<times> 'v) list" where
  "back_rest fs = concat (rev (map frame_before fs))"

definition iter_yields :: "('k, 'v) btree_iter \<Rightarrow> ('k \<times> 'v) list \<Rightarrow> bool" where
  "iter_yields it xs \<longleftrightarrow> it_remaining it = length xs \<and>
     (\<forall>f \<in> set (it_front it) \<union> set (it_back it). valid_frame f) \<and>
     (\<exists>zs. front_rest (it_front it) = xs @ zs) \<and> (\<exists>ys. back_rest (it_back it) = ys @ xs)"

section \<open>The interface of double-ended iterators\<close>

text \<open>Any sequence of calls to \<open>next\<close> (\<open>True\<close>) and \<open>next_back\<close> (\<open>False\<close>), on an iterator and on the list of items
  it has still to give.\<close>

fun run_ends :: "('i \<Rightarrow> ('a option \<times> 'i) option) \<Rightarrow> ('i \<Rightarrow> ('a option \<times> 'i) option) \<Rightarrow> bool list \<Rightarrow> 'i
    \<Rightarrow> 'a option list option" where
  "run_ends step step_back [] it = Some []"
| "run_ends step step_back (d # ds) it = do {
     (item, it') \<leftarrow> (if d then step it else step_back it);
     items \<leftarrow> run_ends step step_back ds it';
     Some (item # items)
   }"

fun serve_ends :: "bool list \<Rightarrow> 'a list \<Rightarrow> 'a option list" where
  "serve_ends [] xs = []"
| "serve_ends (d # ds) [] = None # serve_ends ds []"
| "serve_ends (d # ds) (x # xs) =
    (if d then Some x # serve_ends ds xs else Some (last (x # xs)) # serve_ends ds (butlast (x # xs)))"

locale double_ended =
  fixes step :: "'i \<Rightarrow> ('a option \<times> 'i) option"
    and step_back :: "'i \<Rightarrow> ('a option \<times> 'i) option"
    and yields :: "'i \<Rightarrow> 'a list \<Rightarrow> bool"
  assumes step_Nil: "yields it [] \<Longrightarrow> step it = Some (None, it)"
    and step_Cons: "yields it (x # xs) \<Longrightarrow> \<exists>it'. step it = Some (Some x, it') \<and> yields it' xs"
    and step_back_Nil: "yields it [] \<Longrightarrow> step_back it = Some (None, it)"
    and step_back_snoc: "yields it (xs @ [x]) \<Longrightarrow> \<exists>it'. step_back it = Some (Some x, it') \<and> yields it' xs"
begin

lemma collect_all: "yields it xs \<Longrightarrow> length xs < n \<Longrightarrow> collect step n it = Some xs"
proof (induction xs arbitrary: it n)
  case Nil
  then show ?case using step_Nil by (cases n) auto
next
  case (Cons x xs)
  from step_Cons [OF Cons.prems(1)] obtain it' where "step it = Some (Some x, it')" "yields it' xs" by blast
  then show ?case using Cons by (cases n) auto
qed

lemma collect_back: "yields it xs \<Longrightarrow> length xs < n \<Longrightarrow> collect step_back n it = Some (rev xs)"
proof (induction xs arbitrary: it n rule: rev_induct)
  case Nil
  then show ?case using step_back_Nil by (cases n) auto
next
  case (snoc x xs)
  from step_back_snoc [OF snoc.prems(1)] obtain it' where "step_back it = Some (Some x, it')" "yields it' xs" by blast
  then show ?case using snoc by (cases n) auto
qed

lemma step_any:
  assumes "yields it (x # xs)"
  obtains it' where "step_back it = Some (Some (last (x # xs)), it')" "yields it' (butlast (x # xs))"
  using step_back_snoc [of it "butlast (x # xs)" "last (x # xs)"] assms by (metis append_butlast_last_id list.distinct(1))

lemma run_ends_serve: "yields it xs \<Longrightarrow> run_ends step step_back ds it = Some (serve_ends ds xs)"
proof (induction ds xs arbitrary: it rule: serve_ends.induct)
  case (3 d ds x xs)
  show ?case
  proof (cases d)
    case True
    from step_Cons [OF 3(3)] obtain it' where "step it = Some (Some x, it')" "yields it' xs" by blast
    then show ?thesis using 3(1) True by simp
  next
    case False
    from 3(3) obtain it' where "step_back it = Some (Some (last (x # xs)), it')" "yields it' (butlast (x # xs))" by (rule step_any)
    then show ?thesis using 3(2) False by simp
  qed
qed (auto simp: step_Nil step_back_Nil)

end


section \<open>The stacks of an iterator\<close>

lemma rest_simps [simp]: "front_rest [] = []" "front_rest (f # fs) = frame_rest f @ front_rest fs"
  "back_rest [] = []" "back_rest (f # fs) = back_rest fs @ frame_before f"
  by (simp_all add: front_rest_def back_rest_def)

lemma push_left_ok:
  "bal h t \<Longrightarrow> \<exists>fs. push_left t st = Some (fs @ st) \<and> front_rest fs = inorder t \<and> (\<forall>f \<in> set fs. valid_frame f)"
proof (induction h arbitrary: t st)
  case (0 t)
  then show ?case using bal_0_leaf [of t] by (cases t) (auto simp: frame_rest_def valid_frame_def intro!: exI [of _ "0::nat"])
next
  case (Suc h t)
  then obtain es c cs where t: "t = Node False es (c # cs)" "bal h c" by (cases t; cases "n_edges t") auto
  from Suc.IH [OF t(2)] obtain fs where "push_left c ((t, 0) # st) = Some (fs @ (t, 0) # st)" "front_rest fs = inorder c"
    "\<forall>f \<in> set fs. valid_frame f" by blast
  moreover have "valid_frame (t, 0)" using Suc.prems by (auto simp: valid_frame_def)
  ultimately show ?case
    by (intro exI [of _ "fs @ [(t, 0)]"]) (auto simp: t(1) frame_rest_def front_rest_def)
qed

lemma push_right_ok:
  "bal h t \<Longrightarrow> \<exists>fs. push_right t st = Some (fs @ st) \<and> back_rest fs = inorder t \<and> (\<forall>f \<in> set fs. valid_frame f)"
proof (induction h arbitrary: t st)
  case (0 t)
  then show ?case using bal_0_leaf [of t]
    by (cases t) (auto simp: frame_before_def valid_frame_def Let_def simp del: push_right.simps
      simp: push_right.simps [of True _ "[]"] intro!: exI [of _ "0::nat"])
next
  case (Suc h t)
  then obtain es cs where e: "t = Node False es cs" "length cs = Suc (length es)" by (cases t) auto
  obtain ca c where t: "t = Node False es (ca @ [c])" "length ca = length es" "bal h c"
    using snoc_exists [OF e(2)] Suc.prems e(1) by auto
  from Suc.IH [OF t(3)] obtain fs where fs: "push_right c ((t, length es) # st) = Some (fs @ (t, length es) # st)" "back_rest fs = inorder c"
    "\<forall>f \<in> set fs. valid_frame f" by blast
  have "push_right t st = push_right c ((t, length es) # st)" using t(1,2) by (simp add: Let_def nth_append)
  moreover have "valid_frame (t, length es)" using Suc.prems
    by (auto simp: valid_frame_def t(1) intro!: exI [of _ "Suc h"])
  moreover have "inorder t = pre es (map inorder ca) @ inorder c"
    using inorder_split [OF t(2) [symmetric], of "[]" c "[]"] by (simp add: t(1))
  ultimately show ?case using fs t(2)
    by (intro exI [of _ "fs @ [(t, length es)]"]) (auto simp: frame_before_def back_rest_def t(1))
qed


lemma next_loop_ok:
  "\<forall>f \<in> set fs. valid_frame f \<Longrightarrow> front_rest fs = e # rest \<Longrightarrow>
    \<exists>fs'. next_loop fs = Some (e, fs') \<and> front_rest fs' = rest \<and> (\<forall>f \<in> set fs'. valid_frame f)"
proof (induction fs)
  case (Cons f fs)
  obtain l es cs i where f: "f = (Node l es cs, i)" by (cases f; cases "fst f") auto
  from Cons.prems obtain h where b: "bal h (Node l es cs)" "i \<le> length es" by (auto simp: f valid_frame_def)
  show ?case
  proof (cases "i = length es")
    case True
    then have "frame_rest f = []" by (simp add: f frame_rest_def)
    moreover have "next_loop (f # fs) = next_loop fs" by (simp add: f True)
    ultimately show ?thesis using Cons by simp
  next
    case False
    then have i: "i < length es" "drop i es = es ! i # drop (Suc i) es" using b(2) by (auto simp: Cons_nth_drop_Suc)
    have v: "valid_frame (Node l es cs, Suc i)" using b i by (auto simp: valid_frame_def)
    show ?thesis
    proof (cases h)
      case 0
      then have l using b(1) by simp
      then show ?thesis using Cons.prems i v by (auto simp: f frame_rest_def)
    next
      case (Suc h')
      then have l: "\<not> l" "length cs = Suc (length es)" "bal h' (cs ! Suc i)" using b(1) i by auto
      have d: "drop (Suc i) cs = cs ! Suc i # drop (Suc (Suc i)) cs" using i l by (simp add: Cons_nth_drop_Suc)
      obtain fs1 where p: "push_left (cs ! Suc i) ((Node l es cs, Suc i) # fs) = Some (fs1 @ (Node l es cs, Suc i) # fs)"
        "front_rest fs1 = inorder (cs ! Suc i)" "\<forall>f \<in> set fs1. valid_frame f" using push_left_ok [OF l(3)] by blast
      then have "next_loop (f # fs) = Some (es ! i, fs1 @ (Node l es cs, Suc i) # fs)" using l i by (simp add: f)
      moreover have "e = es ! i" "rest = inorder (cs ! Suc i) @ frame_rest (Node l es cs, Suc i) @ front_rest fs"
        using Cons.prems(2) l by (simp_all add: f frame_rest_def i d)
      ultimately show ?thesis using p v Cons.prems(1) by (auto simp: front_rest_def)
    qed
  qed
qed simp

lemma next_back_loop_ok:
  "\<forall>f \<in> set fs. valid_frame f \<Longrightarrow> back_rest fs = rest @ [e] \<Longrightarrow>
    \<exists>fs'. next_back_loop fs = Some (e, fs') \<and> back_rest fs' = rest \<and> (\<forall>f \<in> set fs'. valid_frame f)"
proof (induction fs)
  case (Cons f fs)
  obtain l es cs i where f: "f = (Node l es cs, i)" by (cases f; cases "fst f") auto
  from Cons.prems obtain h where b: "bal h (Node l es cs)" "i \<le> length es" by (auto simp: f valid_frame_def)
  show ?case
  proof (cases i)
    case 0
    then have "frame_before f = []" by (simp add: f frame_before_def)
    moreover have "next_back_loop (f # fs) = next_back_loop fs" by (simp add: f 0)
    ultimately show ?thesis using Cons by simp
  next
    case (Suc j)
    then have i: "j < length es" "take i es = take j es @ [es ! j]" using b(2) by (auto simp: take_Suc_conv_app_nth)
    have v: "valid_frame (Node l es cs, j)" using b i by (auto simp: valid_frame_def)
    show ?thesis
    proof (cases h)
      case 0
      then have l using b(1) by simp
      then show ?thesis using Cons.prems i v Suc by (auto simp: f frame_before_def)
    next
      case (Suc h')
      then have l: "\<not> l" "length cs = Suc (length es)" "bal h' (cs ! j)" using b(1) i by auto
      have d: "take i cs = take j cs @ [cs ! j]" using i(1) l(2) \<open>i = Suc j\<close> by (simp add: take_Suc_conv_app_nth)
      obtain fs1 where p: "push_right (cs ! j) ((Node l es cs, j) # fs) = Some (fs1 @ (Node l es cs, j) # fs)"
        "back_rest fs1 = inorder (cs ! j)" "\<forall>f \<in> set fs1. valid_frame f" using push_right_ok [OF l(3)] by blast
      then have "next_back_loop (f # fs) = Some (es ! j, fs1 @ (Node l es cs, j) # fs)" using l i \<open>i = Suc j\<close> by (simp add: f)
      moreover have "frame_before f = frame_before (Node l es cs, j) @ inorder (cs ! j) @ [es ! j]"
        using l i d by (simp add: f frame_before_def pre_snoc)
      then have "e = es ! j" "rest = back_rest fs @ frame_before (Node l es cs, j) @ inorder (cs ! j)"
        using Cons.prems(2) by (simp_all flip: append_assoc)
      ultimately show ?thesis using p v Cons.prems(1) by (auto simp: back_rest_def)
    qed
  qed
qed simp

interpretation bti: double_ended iter_next iter_next_back iter_yields
proof unfold_locales
  fix it :: "('k, 'v) btree_iter" and x xs
  show "iter_yields it [] \<Longrightarrow> iter_next it = Some (None, it)" "iter_yields it [] \<Longrightarrow> iter_next_back it = Some (None, it)"
    by (simp_all add: iter_yields_def iter_next_def iter_next_back_def)
  assume y: "iter_yields it (x # xs)"
  then obtain zs ys where z: "front_rest (it_front it) = x # (xs @ zs)" "back_rest (it_back it) = ys @ x # xs"
    by (auto simp: iter_yields_def)
  obtain fs where "next_loop (it_front it) = Some (x, fs)" "front_rest fs = xs @ zs" "\<forall>f \<in> set fs. valid_frame f"
    using next_loop_ok [OF _ z(1)] y by (auto simp: iter_yields_def)
  then show "\<exists>it'. iter_next it = Some (Some x, it') \<and> iter_yields it' xs"
    using y z by (auto simp: iter_next_def iter_yields_def intro: exI [of _ "ys @ [x]"])
next
  fix it :: "('k, 'v) btree_iter" and x xs
  assume y: "iter_yields it (xs @ [x])"
  then obtain zs ys where z: "front_rest (it_front it) = xs @ x # zs" "back_rest (it_back it) = (ys @ xs) @ [x]"
    by (auto simp: iter_yields_def)
  obtain fs where "next_back_loop (it_back it) = Some (x, fs)" "back_rest fs = ys @ xs" "\<forall>f \<in> set fs. valid_frame f"
    using next_back_loop_ok [OF _ z(2)] y by (auto simp: iter_yields_def)
  then show "\<exists>it'. iter_next_back it = Some (Some x, it') \<and> iter_yields it' xs"
    using y z by (auto simp: iter_next_back_def iter_yields_def intro: exI [of _ "x # zs"])
qed


section \<open>Iterators of a map\<close>

lemma make_iter_ok:
  assumes "bm_inv m"
  obtains it where "make_iter m = Some it" "iter_yields it (bm_entries m)"
proof (cases "bm_root m")
  case None
  then show thesis using that assms by (simp add: make_iter_def bm_inv_def bm_entries_def iter_yields_def)
next
  case (Some t)
  obtain h where t: "bal h t" "bm_length m = length (inorder t)" using assms Some by (rule bm_invE)
  obtain front where f: "push_left t [] = Some front" "front_rest front = inorder t" "\<forall>f \<in> set front. valid_frame f"
    using push_left_ok [OF t(1), of "[]"] by auto
  obtain bk where b: "push_right t [] = Some bk" "back_rest bk = inorder t" "\<forall>f \<in> set bk. valid_frame f"
    using push_right_ok [OF t(1), of "[]"] by auto
  show thesis using that f b Some t by (auto simp: make_iter_def iter_yields_def bm_entries_def)
qed

lemma drain_ok:
  "bal h t \<Longrightarrow> drain_node t acc = Some (acc @ inorder t)"
  "length cs = Suc (length es) \<Longrightarrow> \<forall>c \<in> set cs. bal h c \<Longrightarrow> drain_edges es cs acc = Some (acc @ weave es (map inorder cs))"
proof (induction t acc and es cs acc arbitrary: h and h rule: drain_node_drain_edges.induct)
  case (1 l es cs acc)
  show ?case
  proof (cases h)
    case 0
    then show ?thesis using 1(2) by simp
  next
    case (Suc h')
    then show ?thesis using 1(1) [of h'] 1(2) by simp
  qed
next
  case (2 e es c cs acc)
  have "cs \<noteq> []" using 2(3) by auto
  then have w: "weave (e # es) (map inorder (c # cs)) = inorder c @ e # weave es (map inorder cs)" by (simp add: weave_Cons del: weave.simps)
  have "drain_node c acc = Some (acc @ inorder c)" using 2(1) [of h] 2(4) by simp
  moreover from this have "drain_edges es cs ((acc @ inorder c) @ [e]) = Some (((acc @ inorder c) @ [e]) @ weave es (map inorder cs))"
    using 2(2) [of "acc @ inorder c" h] 2(3,4) by simp
  ultimately show ?case unfolding w by simp
qed auto

lemma eq_loop_ok:
  "iter_yields l xs \<Longrightarrow> iter_yields r ys \<Longrightarrow> length xs = length ys \<Longrightarrow> length xs < n \<Longrightarrow> eq_loop n l r = Some (xs = ys)"
proof (induction xs arbitrary: l r ys n)
  case Nil
  then show ?case using bti.step_Nil [of l] bti.step_Nil [of r] by (cases n) auto
next
  case (Cons x xs)
  then obtain y ys' n' where y: "ys = y # ys'" "n = Suc n'" by (cases ys; cases n) auto
  obtain l' where l: "iter_next l = Some (Some x, l')" "iter_yields l' xs" using bti.step_Cons [OF Cons.prems(1)] by blast
  obtain r' where r: "iter_next r = Some (Some y, r')" "iter_yields r' ys'" using bti.step_Cons [of r y ys'] Cons.prems(2) y by blast
  have "eq_loop n' l' r' = Some (xs = ys')" by (rule Cons.IH [OF l(2) r(2)]) (use Cons.prems y in auto)
  then show ?case using l(1) r(1) by (cases x; cases y) (auto simp: y)
qed

section \<open>Properties\<close>

text \<open>C16. An iterator over a well-formed map serves any interleaving of \<open>next\<close> and \<open>next_back\<close> exactly from the
  two ends of the sequence of entries in key order, without a failed access to its stacks.\<close>

theorem btree_iter_double_ended:
  assumes "bm_inv m"
  shows "\<exists>it. make_iter m = Some it \<and>
    (\<forall>ds. run_ends iter_next iter_next_back ds it = Some (serve_ends ds (bm_entries m)))"
  using make_iter_ok [OF assms] bti.run_ends_serve by metis

theorem btree_iter_double_ended_witness:
  "\<exists>it. make_iter sample_map = Some it \<and>
    run_ends iter_next iter_next_back [False, True, True] it = Some [Some (2, False), Some (1, True), None]"
proof -
  have i: "bm_inv sample_map" by (auto simp: bm_inv_def sample_map_def bm_entries_def sorted1_def intro: exI [of _ 0])
  moreover have "serve_ends [False, True, True] (bm_entries sample_map) = [Some (2, False), Some (1, True), None]" by code_simp
  ultimately show ?thesis using btree_iter_double_ended [OF i] by (metis (no_types))
qed

text \<open>C33. Cloning a map gives a well-formed map with the same entries, comparison of maps decides equality of
  their entries, and draining a map gives its entries in order and leaves the empty map.\<close>

theorem btree_clone_eq_drain:
  assumes "bm_inv m" "bm_inv other"
  shows "(\<exists>m'. clone m = Some m' \<and> bm_inv m' \<and> bm_entries m' = bm_entries m)
    \<and> map_eq m other = Some (bm_entries m = bm_entries other)
    \<and> into_iter m = Some (bm_entries m, m\<lparr>bm_root := None, bm_length := 0\<rparr>)"
proof -
  obtain it where it: "make_iter m = Some it" "iter_yields it (bm_entries m)" using assms(1) by (rule make_iter_ok)
  obtain ot where ot: "make_iter other = Some ot" "iter_yields ot (bm_entries other)" using assms(2) by (rule make_iter_ok)
  have len: "bm_length m = length (bm_entries m)" "bm_length other = length (bm_entries other)" using assms by (simp_all add: bm_inv_def)
  have "clone m = insert_all insert_key (bm_entries m) make_map"
    using it bti.collect_all [OF it(2), of "Suc (bm_length m)"] len by (simp add: clone_def del: collect.simps)
  moreover have "map_eq m other = Some (bm_entries m = bm_entries other)"
    using it ot len eq_loop_ok [OF it(2) ot(2), of "Suc (bm_length m)"] by (auto simp: map_eq_def simp del: eq_loop.simps)
  moreover have "into_iter m = Some (bm_entries m, m\<lparr>bm_root := None, bm_length := 0\<rparr>)"
  proof (cases "bm_root m")
    case (Some t)
    obtain h where "bal h t" using assms(1) Some by (rule bm_invE)
    then show ?thesis using Some drain_ok(1) [of h t "[]"] by (simp add: into_iter_def bm_entries_def)
  qed (simp add: into_iter_def bm_entries_def)
  ultimately show ?thesis using btm.insert_all_copy [OF assms(1)] by auto
qed

theorem btree_clone_eq_drain_witness:
  "map_eq (make_map :: (nat, bool) btree_map) sample_map = Some False \<and> (\<exists>m'. clone sample_map = Some m' \<and> bm_entries m' = [(1, True), (2, False)])"
proof -
  have i: "bm_inv sample_map" by (auto simp: bm_inv_def sample_map_def bm_entries_def sorted1_def intro: exI [of _ 0])
  show ?thesis using btree_clone_eq_drain [OF btm.inv_empty i] btree_clone_eq_drain [OF i i]
    by (auto simp: sample_map_def bm_entries_def make_map_def)
qed

end
