(* ===== verification/Text_Cursor.thy ===== *)
theory Text_Cursor
  imports Utf8
begin

text \<open>
  The cursors the text parsers read through, src/parse/src/core/source.cppm, the ASCII tables of
  src/core/src/ascii.cppm and the string validator \<open>validate_utf8\<close> of src/core/src/str/traits.cppm.
  A cursor is its input with the position of the next element; the only writer of the position is
  \<open>advance\<close>, which never moves it past the end, so that the test \<open>position_ == len\<close> of \<open>is_eof\<close> is
  written here with \<open>\<le>\<close>.  A parser either succeeds, reports an error of its own, panics, or (a model
  of a recursion with a step bound) runs out of the bound: the last two are the constructors
  \<open>Panics\<close> and \<open>Fuel_out\<close> of \<open>failure\<close>, and the parsers' theorems show that neither is reached.
\<close>

section \<open>Failures\<close>

datatype 'e failure = Fails 'e | Panics | Fuel_out

text \<open>Character literals of the sources, at the width of the input.\<close>

abbreviation (input) HT :: "'a::len word" where "HT \<equiv> 0x09"
abbreviation (input) LF :: "'a::len word" where "LF \<equiv> 0x0A"
abbreviation (input) CR :: "'a::len word" where "CR \<equiv> 0x0D"
abbreviation (input) SP :: "'a::len word" where "SP \<equiv> 0x20"
abbreviation (input) DQUOTE :: "'a::len word" where "DQUOTE \<equiv> 0x22"
abbreviation (input) HASH :: "'a::len word" where "HASH \<equiv> 0x23"
abbreviation (input) SQUOTE :: "'a::len word" where "SQUOTE \<equiv> 0x27"
abbreviation (input) STAR :: "'a::len word" where "STAR \<equiv> 0x2A"
abbreviation (input) PLUS :: "'a::len word" where "PLUS \<equiv> 0x2B"
abbreviation (input) COMMA :: "'a::len word" where "COMMA \<equiv> 0x2C"
abbreviation (input) MINUS :: "'a::len word" where "MINUS \<equiv> 0x2D"
abbreviation (input) DOT :: "'a::len word" where "DOT \<equiv> 0x2E"
abbreviation (input) SLASH :: "'a::len word" where "SLASH \<equiv> 0x2F"
abbreviation (input) D0 :: "'a::len word" where "D0 \<equiv> 0x30"
abbreviation (input) D9 :: "'a::len word" where "D9 \<equiv> 0x39"
abbreviation (input) COLON :: "'a::len word" where "COLON \<equiv> 0x3A"
abbreviation (input) EQUALS :: "'a::len word" where "EQUALS \<equiv> 0x3D"
abbreviation (input) LBRACK :: "'a::len word" where "LBRACK \<equiv> 0x5B"
abbreviation (input) BSLASH :: "'a::len word" where "BSLASH \<equiv> 0x5C"
abbreviation (input) RBRACK :: "'a::len word" where "RBRACK \<equiv> 0x5D"
abbreviation (input) UNDERSCORE :: "'a::len word" where "UNDERSCORE \<equiv> 0x5F"
abbreviation (input) LBRACE :: "'a::len word" where "LBRACE \<equiv> 0x7B"
abbreviation (input) RBRACE :: "'a::len word" where "RBRACE \<equiv> 0x7D"

text \<open>The bytes of an ASCII literal such as \<open>"null"_str\<close>.\<close>

definition lit :: "string \<Rightarrow> 'a::len word list" where
  "lit s = map of_char s"

section \<open>ASCII tables\<close>

definition is_digit :: "u8 \<Rightarrow> bool" where
  "is_digit b \<longleftrightarrow> D0 \<le> b \<and> b \<le> D9"

definition is_alpha :: "u8 \<Rightarrow> bool" where
  "is_alpha b \<longleftrightarrow> (0x61 \<le> b \<and> b \<le> 0x7A) \<or> (0x41 \<le> b \<and> b \<le> 0x5A)"

definition is_alnum :: "u8 \<Rightarrow> bool" where
  "is_alnum b \<longleftrightarrow> is_alpha b \<or> is_digit b"

definition digit_value :: "u8 \<Rightarrow> u8 \<Rightarrow> u8 option" where
  "digit_value b radix =
    (if radix < 2 \<or> radix > 36 then None
     else
       let res = (if is_digit b then Some (b - D0)
                  else if 0x61 \<le> b \<and> b \<le> 0x7A then Some (b - 0x61 + 10)
                  else if 0x41 \<le> b \<and> b \<le> 0x5A then Some (b - 0x41 + 10)
                  else None)
       in case res of None \<Rightarrow> None | Some d \<Rightarrow> if d \<ge> radix then None else Some d)"

section \<open>Cursors\<close>

record 't cursor =
  c_input :: "'t list"
  c_position :: nat

definition make_cursor :: "'t list \<Rightarrow> 't cursor" where
  "make_cursor inp = \<lparr>c_input = inp, c_position = 0\<rparr>"

definition c_remaining :: "'t cursor \<Rightarrow> nat" where
  "c_remaining c = length (c_input c) - c_position c"

definition c_is_eof :: "'t cursor \<Rightarrow> bool" where
  "c_is_eof c \<longleftrightarrow> length (c_input c) \<le> c_position c"

definition c_peek :: "'t cursor \<Rightarrow> nat \<Rightarrow> 't option" where
  "c_peek c ahead = (if ahead \<ge> c_remaining c then None else Some (c_input c ! (c_position c + ahead)))"

definition c_advance :: "'t cursor \<Rightarrow> nat \<Rightarrow> bool \<times> 't cursor" where
  "c_advance c count =
    (if count > c_remaining c then (False, c) else (True, c\<lparr>c_position := c_position c + count\<rparr>))"

definition c_take :: "'t cursor \<Rightarrow> 't option \<times> 't cursor" where
  "c_take c = (case c_peek c 0 of None \<Rightarrow> (None, c) | Some v \<Rightarrow> (Some v, snd (c_advance c 1)))"

text \<open>\<open>view(Span)\<close>: \<open>None\<close> is the panic on an invalid span.\<close>

definition c_view :: "'t cursor \<Rightarrow> nat \<Rightarrow> nat \<Rightarrow> 't list option" where
  "c_view c b e = (if b > e \<or> e > length (c_input c) then None else Some (take (e - b) (drop b (c_input c))))"

text \<open>Line and column of an offset, counted from 1; \<open>None\<close> is the panic on an offset past the end.\<close>

fun position_loop :: "'a::len word list \<Rightarrow> nat \<times> nat \<Rightarrow> nat \<times> nat" where
  "position_loop [] res = res"
| "position_loop (v # vs) (line, column) =
     position_loop vs (if v = LF then (line + 1, 1) else (line, column + 1))"

definition source_position_at :: "'a::len word cursor \<Rightarrow> nat \<Rightarrow> (nat \<times> nat) option" where
  "source_position_at c offset =
    (if offset > length (c_input c) then None else Some (position_loop (take offset (c_input c)) (1, 1)))"

definition source_position :: "'a::len word cursor \<Rightarrow> (nat \<times> nat) option" where
  "source_position c = source_position_at c (c_position c)"

section \<open>Validation of strings\<close>

record utf8_error =
  valid_up_to :: nat
  error_len :: "nat option"

definition utf8_invalid :: "nat \<Rightarrow> nat \<Rightarrow> utf8_error + unit" where
  "utf8_invalid offset n = Err \<lparr>valid_up_to = offset, error_len = Some n\<rparr>"

definition utf8_incomplete :: "nat \<Rightarrow> utf8_error + unit" where
  "utf8_incomplete offset = Err \<lparr>valid_up_to = offset, error_len = None\<rparr>"

text \<open>
  The loop of \<open>validate_utf8\<close>, on the bytes from \<open>offset\<close> on: \<open>offset + k >= length\<close> is the test that
  fewer than \<open>k + 1\<close> bytes remain.
\<close>

function validate_loop :: "nat \<Rightarrow> u8 list \<Rightarrow> utf8_error + unit" where
  "validate_loop offset bs =
    (case bs of
       [] \<Rightarrow> Ok ()
     | b0 # rest \<Rightarrow>
        if b0 \<le> 0x7F then validate_loop (offset + 1) rest
        else if 0xC2 \<le> b0 \<and> b0 \<le> 0xDF then
          if length bs \<le> 1 then utf8_incomplete offset
          else if \<not> is_continuation (bs ! 1) then utf8_invalid offset 1
          else validate_loop (offset + 2) (drop 2 bs)
        else if 0xE0 \<le> b0 \<and> b0 \<le> 0xEF then
          if length bs \<le> 1 then utf8_incomplete offset
          else if \<not> (if b0 = 0xE0 then 0xA0 \<le> bs ! 1 \<and> bs ! 1 \<le> 0xBF
                     else if b0 = 0xED then 0x80 \<le> bs ! 1 \<and> bs ! 1 \<le> 0x9F
                     else is_continuation (bs ! 1)) then utf8_invalid offset 1
          else if length bs \<le> 2 then utf8_incomplete offset
          else if \<not> is_continuation (bs ! 2) then utf8_invalid offset 2
          else validate_loop (offset + 3) (drop 3 bs)
        else if 0xF0 \<le> b0 \<and> b0 \<le> 0xF4 then
          if length bs \<le> 1 then utf8_incomplete offset
          else if \<not> (if b0 = 0xF0 then 0x90 \<le> bs ! 1 \<and> bs ! 1 \<le> 0xBF
                     else if b0 = 0xF4 then 0x80 \<le> bs ! 1 \<and> bs ! 1 \<le> 0x8F
                     else is_continuation (bs ! 1)) then utf8_invalid offset 1
          else if length bs \<le> 2 then utf8_incomplete offset
          else if \<not> is_continuation (bs ! 2) then utf8_invalid offset 2
          else if length bs \<le> 3 then utf8_incomplete offset
          else if \<not> is_continuation (bs ! 3) then utf8_invalid offset 3
          else validate_loop (offset + 4) (drop 4 bs)
        else utf8_invalid offset 1)"
  by pat_completeness auto
termination by (relation "measure (\<lambda>(offset, bs). length bs)") auto

declare validate_loop.simps [simp del]

definition validate_utf8 :: "u8 list \<Rightarrow> utf8_error + unit" where
  "validate_utf8 bs = validate_loop 0 bs"

definition from_utf8 :: "u8 list \<Rightarrow> utf8_error + u8 list" where
  "from_utf8 bs = and_then (validate_utf8 bs) (\<lambda>_. Ok bs)"

text \<open>
  \<open>Input::text\<close> of an input that was made from a \<open>str\<close> (\<open>validated\<close>): a range between character
  boundaries is returned as it is, another one is validated.  \<open>Err None\<close> is the panic on an invalid
  span.
\<close>

definition c_text :: "u8 cursor \<Rightarrow> nat \<Rightarrow> nat \<Rightarrow> (utf8_error option, u8 list) result" where
  "c_text c b e =
    (case c_view c b e of
       None \<Rightarrow> Err None
     | Some bytes \<Rightarrow>
        if is_char_boundary (c_input c) b \<and> is_char_boundary (c_input c) e then Ok bytes
        else if b = e then Err (Some \<lparr>valid_up_to = 0, error_len = None\<rparr>)
        else case from_utf8 bytes of Err er \<Rightarrow> Err (Some er) | Ok t \<Rightarrow> Ok t)"

section \<open>The validator agrees with the decoder\<close>

text \<open>
  One round of the validator: it consumes exactly the bytes the decoder of \<open>Utf8\<close> accepts, and fails
  where the decoder finds no character.
\<close>

definition rejected :: "u8 list \<Rightarrow> bool" where
  "rejected bs \<longleftrightarrow> fst (decode_utf8 bs) = REPLACEMENT \<and> snd (decode_utf8 bs) \<le> 1"

definition fails_at :: "nat \<Rightarrow> (utf8_error + unit) \<Rightarrow> bool" where
  "fails_at offset res \<longleftrightarrow> (\<exists>er. res = Err er \<and> valid_up_to er = offset)"

definition agrees :: "nat \<Rightarrow> u8 list \<Rightarrow> bool" where
  "agrees offset bs \<longleftrightarrow>
    (if rejected bs then fails_at offset (validate_loop offset bs)
     else validate_loop offset bs = validate_loop (offset + snd (decode_utf8 bs)) (drop (snd (decode_utf8 bs)) bs))"

lemma fails_at_simps [simp]: "fails_at k (utf8_invalid k n)" "fails_at k (utf8_incomplete k)"
  by (simp_all add: fails_at_def utf8_invalid_def utf8_incomplete_def)

lemma rejected_lead: "unat b0 \<ge> 128 \<Longrightarrow> sequence_of_lead b0 = None \<Longrightarrow> rejected (b0 # bs)"
  by (simp add: rejected_def decode_utf8_def word_le_nat_alt)

lemma rejected_short:
  "unat b0 \<ge> 128 \<Longrightarrow> sequence_of_lead b0 = Some (k, cp) \<Longrightarrow> Suc (length bs) < k \<Longrightarrow> rejected (b0 # bs)"
  by (simp add: rejected_def decode_utf8_def word_le_nat_alt)

lemma div_mod_in: "k * m \<le> x \<Longrightarrow> x < Suc k * m \<Longrightarrow> x div m = k \<and> x mod m = x - k * m" for x :: nat
proof -
  assume "k * m \<le> x" "x < Suc k * m"
  then have "x div m = k" by (intro div_nat_eqI) (simp_all add: mult.commute)
  then show ?thesis by (simp add: modulo_nat_def mult.commute)
qed

lemma cont_range: "unat b div 64 = 2 \<longleftrightarrow> 128 \<le> unat b \<and> unat b < 192" for b :: u8
  by (auto simp: div_nat_eqI)

lemma not_replaced [simp]: "(word_of_nat v :: u32, Suc (Suc n)) \<noteq> (REPLACEMENT, 1)" by simp

lemma agrees_ascii: "unat b0 < 128 \<Longrightarrow> agrees offset (b0 # bs)"
proof -
  assume a: "unat b0 < 128"
  then have d: "decode_utf8 (b0 # bs) = (ucast b0, 1)" by (rule decode_ascii)
  have "unat (ucast b0 :: u32) \<noteq> unat REPLACEMENT" using a by (simp add: unat_ucast_u32 REPLACEMENT_def)
  then have "\<not> rejected (b0 # bs)" by (auto simp: rejected_def d)
  then show ?thesis using a by (simp add: agrees_def d validate_loop.simps [of offset "b0 # bs"] word_le_nat_alt)
qed

lemma agrees_two:
  assumes "192 \<le> unat b0" "unat b0 < 224"
  shows "agrees offset (b0 # bs)"
proof -
  have l: "unat b0 div 32 = 6 \<and> unat b0 mod 32 = unat b0 - 192" using div_mod_in [of 6 32 "unat b0"] assms by simp
  show ?thesis
  proof (cases bs)
    case Nil
    have "rejected [b0]" using assms l rejected_short [of b0 2 _ "[]"] by (simp add: sequence_of_lead_eq)
    then show ?thesis using assms Nil by (simp add: agrees_def validate_loop.simps [of offset "[b0]"] word_le_nat_alt)
  next
    case (Cons b1 rs)
    let ?v = "unat b0 mod 32 * 64 + unat b1 mod 64"
    have "rejected (b0 # bs) \<longleftrightarrow> \<not> (unat b1 div 64 = 2 \<and> 0x80 \<le> ?v)"
      using decode_lead2 [OF conjunct1 [OF l] refl, of b1 rs] Cons by (auto simp: rejected_def)
    moreover have "0x80 \<le> ?v \<longleftrightarrow> 194 \<le> unat b0" using l assms mod_less_divisor [of 64 "unat b1"] by linarith
    moreover have "snd (decode_utf8 (b0 # bs)) = 2" if "unat b1 div 64 = 2 \<and> 0x80 \<le> ?v"
      using decode_lead2 [OF conjunct1 [OF l] refl, of b1 rs] Cons that by simp
    ultimately show ?thesis using assms Cons
      by (auto simp: agrees_def validate_loop.simps [of offset "b0 # b1 # rs"] word_le_nat_alt is_continuation_unat)
  qed
qed

lemma arith_three:
  assumes "(y :: nat) < 64" "z < 64"
  shows "0x800 \<le> (a * 64 + y) * 64 + z \<longleftrightarrow> a \<noteq> 0 \<or> 32 \<le> y"
    "(a * 64 + y) * 64 + z < 0xD800 \<longleftrightarrow> a < 13 \<or> a = 13 \<and> y < 32"
    "0xDFFF < (a * 64 + y) * 64 + z \<longleftrightarrow> 13 < a"
proof -
  have z: "b * 64 \<le> (a * 64 + y) * 64 + z \<longleftrightarrow> b \<le> a * 64 + y" for b using assms by auto
  have y: "32 \<le> a * 64 + y \<longleftrightarrow> a \<noteq> 0 \<or> 32 \<le> y" "864 \<le> a * 64 + y \<longleftrightarrow> 13 < a \<or> a = 13 \<and> 32 \<le> y" "896 \<le> a * 64 + y \<longleftrightarrow> 13 < a"
    using assms(1) by linarith+
  show "0x800 \<le> (a * 64 + y) * 64 + z \<longleftrightarrow> a \<noteq> 0 \<or> 32 \<le> y" using z [of 32] y by simp
  show "(a * 64 + y) * 64 + z < 0xD800 \<longleftrightarrow> a < 13 \<or> a = 13 \<and> y < 32" using z [of 864] y by linarith
  show "0xDFFF < (a * 64 + y) * 64 + z \<longleftrightarrow> 13 < a" using z [of 896] y by linarith
qed

lemma arith_four:
  assumes "(y :: nat) < 64" "z < 64" "w < 64"
  shows "0x10000 \<le> ((a * 64 + y) * 64 + z) * 64 + w \<longleftrightarrow> a \<noteq> 0 \<or> 16 \<le> y"
    "((a * 64 + y) * 64 + z) * 64 + w \<le> 0x10FFFF \<longleftrightarrow> a < 4 \<or> a = 4 \<and> y < 16"
proof -
  have z: "b * 4096 \<le> ((a * 64 + y) * 64 + z) * 64 + w \<longleftrightarrow> b \<le> a * 64 + y" for b using assms by auto
  have y: "16 \<le> a * 64 + y \<longleftrightarrow> a \<noteq> 0 \<or> 16 \<le> y" "272 \<le> a * 64 + y \<longleftrightarrow> 4 < a \<or> a = 4 \<and> 16 \<le> y" using assms(1) by linarith+
  show "0x10000 \<le> ((a * 64 + y) * 64 + z) * 64 + w \<longleftrightarrow> a \<noteq> 0 \<or> 16 \<le> y" using z [of 16] y by simp
  show "((a * 64 + y) * 64 + z) * 64 + w \<le> 0x10FFFF \<longleftrightarrow> a < 4 \<or> a = 4 \<and> y < 16" using z [of 272] y by linarith
qed

lemma agrees_three:
  assumes "224 \<le> unat b0" "unat b0 < 240"
  shows "agrees offset (b0 # bs)"
proof -
  have l: "unat b0 div 16 = 14 \<and> unat b0 mod 16 = unat b0 - 224" using div_mod_in [of 14 16 "unat b0"] assms by simp
  have sl: "\<exists>cp. sequence_of_lead b0 = Some (3, cp)" using l lead_class(1) [of b0] by (simp add: sequence_of_lead_eq)
  show ?thesis
  proof (cases "\<exists>b1 b2 rs. bs = b1 # b2 # rs")
    case False
    then have len: "Suc (length bs) < 3" by (cases bs; cases "tl bs") auto
    then have "rejected (b0 # bs)" using sl assms rejected_short by fastforce
    then show ?thesis using assms len
      by (auto simp: agrees_def validate_loop.simps [of offset "b0 # bs"] word_le_nat_alt)
  next
    case True
    then obtain b1 b2 rs where bs: "bs = b1 # b2 # rs" by blast
    define v where "v = (unat b0 mod 16 * 64 + unat b1 mod 64) * 64 + unat b2 mod 64"
    note d = decode_lead3 [OF conjunct1 [OF l] v_def, of rs]
    have c1: "unat b1 div 64 = 2 \<and> 0x800 \<le> v \<and> (v < 0xD800 \<or> 0xDFFF < v) \<longleftrightarrow>
      (if unat b0 = 224 then 160 \<le> unat b1 \<and> unat b1 \<le> 191 else if unat b0 = 237 then 128 \<le> unat b1 \<and> unat b1 \<le> 159
       else unat b1 div 64 = 2)"
    proof (cases "128 \<le> unat b1 \<and> unat b1 < 192")
      case True
      then have "unat b1 div 64 = 2" "unat b1 mod 64 = unat b1 - 128" using div_mod_in [of 2 64 "unat b1"] by auto
      then show ?thesis using l assms True unfolding v_def arith_three [OF mod_less_divisor mod_less_divisor, OF zero_less_numeral zero_less_numeral] by auto
    qed (auto simp: cont_range)
    have acc: "\<not> rejected (b0 # bs) \<longleftrightarrow> (unat b1 div 64 = 2 \<and> 0x800 \<le> v \<and> (v < 0xD800 \<or> 0xDFFF < v)) \<and> unat b2 div 64 = 2"
      using d bs by (auto simp: rejected_def split: if_splits)
    have n: "snd (decode_utf8 (b0 # bs)) = 3" if "\<not> rejected (b0 # bs)" using d bs that by (auto simp: rejected_def split: if_splits)
    show ?thesis unfolding agrees_def
      using assms bs acc n unfolding c1
      by (auto simp: validate_loop.simps [of offset "b0 # b1 # b2 # rs"] word_le_nat_alt is_continuation_unat word_eq_unat)
  qed
qed

lemma agrees_four:
  assumes "240 \<le> unat b0" "unat b0 < 248"
  shows "agrees offset (b0 # bs)"
proof -
  have l: "unat b0 div 8 = 30 \<and> unat b0 mod 8 = unat b0 - 240" using div_mod_in [of 30 8 "unat b0"] assms by simp
  have sl: "\<exists>cp. sequence_of_lead b0 = Some (4, cp)" using l lead_class [of b0] by (simp add: sequence_of_lead_eq)
  show ?thesis
  proof (cases "\<exists>b1 b2 b3 rs. bs = b1 # b2 # b3 # rs")
    case False
    then have len: "Suc (length bs) < 4" by (cases bs; cases "tl bs"; cases "tl (tl bs)") auto
    then have "rejected (b0 # bs)" using sl assms rejected_short by fastforce
    then show ?thesis using assms len
      by (auto simp: agrees_def validate_loop.simps [of offset "b0 # bs"] word_le_nat_alt)
  next
    case True
    then obtain b1 b2 b3 rs where bs: "bs = b1 # b2 # b3 # rs" by blast
    define v where "v = ((unat b0 mod 8 * 64 + unat b1 mod 64) * 64 + unat b2 mod 64) * 64 + unat b3 mod 64"
    note d = decode_lead4 [OF conjunct1 [OF l] v_def, of rs]
    have c1: "unat b1 div 64 = 2 \<and> 0x10000 \<le> v \<and> v \<le> 0x10FFFF \<longleftrightarrow> unat b0 \<le> 244 \<and>
      (if unat b0 = 240 then 144 \<le> unat b1 \<and> unat b1 \<le> 191 else if unat b0 = 244 then 128 \<le> unat b1 \<and> unat b1 \<le> 143
       else unat b1 div 64 = 2)"
    proof (cases "128 \<le> unat b1 \<and> unat b1 < 192")
      case True
      then have "unat b1 div 64 = 2" "unat b1 mod 64 = unat b1 - 128" using div_mod_in [of 2 64 "unat b1"] by auto
      then show ?thesis using l assms True
        unfolding v_def arith_four [OF mod_less_divisor mod_less_divisor mod_less_divisor, OF zero_less_numeral zero_less_numeral zero_less_numeral] by auto
    qed (auto simp: cont_range)
    have acc: "\<not> rejected (b0 # bs) \<longleftrightarrow>
      (unat b1 div 64 = 2 \<and> 0x10000 \<le> v \<and> v \<le> 0x10FFFF) \<and> unat b2 div 64 = 2 \<and> unat b3 div 64 = 2"
      using d bs by (auto simp: rejected_def split: if_splits)
    have n: "snd (decode_utf8 (b0 # bs)) = 4" if "\<not> rejected (b0 # bs)" using d bs that by (auto simp: rejected_def split: if_splits)
    show ?thesis unfolding agrees_def
      using assms bs acc n unfolding c1
      by (auto simp: validate_loop.simps [of offset "b0 # b1 # b2 # b3 # rs"] word_le_nat_alt is_continuation_unat word_eq_unat)
  qed
qed

lemma agrees_all: "bs \<noteq> [] \<Longrightarrow> agrees offset bs"
proof (cases bs)
  case (Cons b0 rs)
  have "sequence_of_lead b0 = None" if "128 \<le> unat b0" "unat b0 < 192 \<or> 248 \<le> unat b0"
  proof -
    have "unat b0 < 256" using unat_lt_8 [of b0] by simp
    then have "unat b0 div 32 \<noteq> 6" "unat b0 div 16 \<noteq> 14" "unat b0 div 8 \<noteq> 30"
      using that div_mod_decomp [of "unat b0" 32] div_mod_decomp [of "unat b0" 16] div_mod_decomp [of "unat b0" 8]
        mod_less_divisor [of 32 "unat b0"] mod_less_divisor [of 16 "unat b0"] mod_less_divisor [of 8 "unat b0"] by auto
    then show ?thesis by (simp add: sequence_of_lead_eq)
  qed
  then have "agrees offset (b0 # rs)" if "128 \<le> unat b0" "unat b0 < 192 \<or> 248 \<le> unat b0"
    using that rejected_lead [OF that(1)] by (auto simp: agrees_def validate_loop.simps [of offset "b0 # rs"] word_le_nat_alt)
  then show ?thesis
    unfolding Cons using agrees_ascii agrees_two agrees_three agrees_four by (meson not_less)
qed simp

lemma valid_step:
  assumes "bs \<noteq> []" "\<not> rejected bs"
  obtains c where "is_scalar c" "snd (decode_utf8 bs) = length (enc c)" "bs = enc c @ drop (snd (decode_utf8 bs)) bs"
  using decode_utf8_sound [of bs "fst (decode_utf8 bs)" "snd (decode_utf8 bs)"] assms length_encode_utf8_scalar
  unfolding rejected_def by (metis prod.collapse)

lemma validate_loop_ok:
  "(validate_loop offset bs = Ok () \<longrightarrow> is_valid_utf8 bs) \<and>
   (\<forall>er. validate_loop offset bs = Err er \<longrightarrow> (\<exists>k < length bs. valid_up_to er = offset + k \<and>
     is_valid_utf8 (take k bs) \<and> rejected (drop k bs)))"
proof (induction "length bs" arbitrary: offset bs rule: less_induct)
  case less
  show ?case
  proof (cases "bs = [] \<or> rejected bs")
    case True
    then show ?thesis using agrees_all [of bs offset]
      by (cases "bs = []") (auto simp: agrees_def fails_at_def validate_loop.simps [of offset "[]"] is_valid_utf8.simps [of "[]"])
  next
    case False
    then obtain c where c: "is_scalar c" "snd (decode_utf8 bs) = length (enc c)" "bs = enc c @ drop (snd (decode_utf8 bs)) bs"
      using valid_step by metis
    define n rs where "n = length (enc c)" and "rs = drop n bs"
    have bs: "bs = enc c @ rs" using c by (simp add: n_def rs_def)
    have v: "validate_loop offset bs = validate_loop (offset + n) rs"
      using agrees_all [of bs offset] False c(2) by (simp add: agrees_def n_def rs_def)
    have "length rs < length bs" using bs enc_not_Nil [of c] by simp
    note IH = less.hyps [OF this, of "offset + n"]
    show ?thesis unfolding v
    proof (intro conjI impI allI)
      assume "validate_loop (offset + n) rs = Ok ()"
      then show "is_valid_utf8 bs" using IH bs is_valid_utf8_encode_step [OF c(1)] by simp
    next
      fix er assume "validate_loop (offset + n) rs = Err er"
      then obtain k where k: "k < length rs" "valid_up_to er = offset + n + k" "is_valid_utf8 (take k rs)" "rejected (drop k rs)"
        using IH by auto
      have "is_valid_utf8 (take (n + k) bs)" using k(3) bs is_valid_utf8_encode_step [OF c(1)] by (simp add: n_def)
      moreover have "rejected (drop (n + k) bs)" "n + k < length bs" using k bs by (simp_all add: n_def)
      ultimately show "\<exists>k < length bs. valid_up_to er = offset + k \<and> is_valid_utf8 (take k bs) \<and> rejected (drop k bs)"
        using k(2) by (intro exI [of _ "n + k"]) simp
    qed
  qed
qed

lemma rejected_no_scalar: "rejected bs \<Longrightarrow> is_scalar c \<Longrightarrow> bs \<noteq> enc c @ rs"
  using decode_encode_scalar [of c rs] replacement_len by (auto simp: rejected_def)

lemma validate_utf8_Err:
  assumes "validate_utf8 bs = Err er"
  shows "valid_up_to er < length bs" "is_valid_utf8 (take (valid_up_to er) bs)" "rejected (drop (valid_up_to er) bs)"
  using validate_loop_ok [of 0 bs] assms by (auto simp: validate_utf8_def)

lemma valid_rest:
  assumes "is_valid_utf8 bs" "is_valid_utf8 (take k bs)"
  shows "is_valid_utf8 (drop k bs)"
proof -
  obtain cs where cs: "list_all is_scalar cs" "take k bs = encode_all cs" using assms(2) is_valid_utf8_iff by auto
  have "is_valid_utf8 (encode_all cs @ xs) = is_valid_utf8 xs" for xs
    using cs(1) by (induction cs) (simp_all add: is_valid_utf8_encode_step)
  then show ?thesis using assms(1) cs(2) by (metis append_take_drop_id)
qed

lemma valid_not_rejected: "is_valid_utf8 bs \<Longrightarrow> bs \<noteq> [] \<Longrightarrow> \<not> rejected bs"
proof -
  assume "is_valid_utf8 bs" "bs \<noteq> []"
  then obtain cs where cs: "list_all is_scalar cs" "bs = encode_all cs" using is_valid_utf8_iff by auto
  then obtain c ds where "cs = c # ds" using \<open>bs \<noteq> []\<close> by (cases cs) auto
  then show ?thesis using cs rejected_no_scalar [of bs c "encode_all ds"] by auto
qed

lemma validate_utf8_iff: "validate_utf8 bs = Ok () \<longleftrightarrow> is_valid_utf8 bs"
proof (cases "validate_utf8 bs")
  case (Inl er)
  note e = validate_utf8_Err [OF Inl]
  have "\<not> is_valid_utf8 bs"
    using valid_rest [of bs "valid_up_to er"] valid_not_rejected [of "drop (valid_up_to er) bs"] e by auto
  then show ?thesis using Inl by simp
next
  case (Inr u)
  then show ?thesis using validate_loop_ok [of 0 bs] by (simp add: validate_utf8_def)
qed

section \<open>Theorems\<close>

section \<open>Forward movement of a cursor\<close>

definition c_rest :: "'t cursor \<Rightarrow> 't list" where
  "c_rest c = drop (c_position c) (c_input c)"

definition c_wf :: "'t cursor \<Rightarrow> bool" where
  "c_wf c \<longleftrightarrow> c_position c \<le> length (c_input c)"

definition c_moved :: "'t cursor \<Rightarrow> 't cursor \<Rightarrow> bool" where
  "c_moved c c' \<longleftrightarrow> c_input c' = c_input c \<and> c_position c \<le> c_position c' \<and>
     c_position c' \<le> max (c_position c) (length (c_input c))"

definition c_advanced :: "'t cursor \<Rightarrow> 't cursor \<Rightarrow> bool" where
  "c_advanced c c' \<longleftrightarrow> c_moved c c' \<and> c_position c < c_position c'"

named_theorems cursor_moves \<open>operations that move a cursor forward\<close>

lemma c_moved_refl [simp, intro]: "c_moved c c"
  by (simp add: c_moved_def)

lemma c_moved_trans: "c_moved c d \<Longrightarrow> c_moved d e \<Longrightarrow> c_moved c e"
  by (auto simp: c_moved_def)

lemma c_advanced_moved: "c_advanced c d \<Longrightarrow> c_moved c d"
  by (simp add: c_advanced_def)

lemma c_advanced_trans1: "c_advanced c d \<Longrightarrow> c_moved d e \<Longrightarrow> c_advanced c e"
  by (auto simp: c_moved_def c_advanced_def)

lemma c_advanced_trans2: "c_moved c d \<Longrightarrow> c_advanced d e \<Longrightarrow> c_advanced c e"
  by (auto simp: c_moved_def c_advanced_def)

lemma c_moved_props:
  "c_moved c d \<Longrightarrow> c_wf c \<Longrightarrow> c_wf d" "c_moved c d \<Longrightarrow> c_input d = c_input c"
  "c_moved c d \<Longrightarrow> c_remaining d \<le> c_remaining c" "c_moved c d \<Longrightarrow> length (c_rest d) \<le> length (c_rest c)"
  by (auto simp: c_moved_def c_wf_def c_remaining_def c_rest_def)

lemma c_advanced_less:
  "c_advanced c d \<Longrightarrow> c_remaining d < c_remaining c" "c_advanced c d \<Longrightarrow> length (c_rest d) < length (c_rest c)"
  by (auto simp: c_moved_def c_advanced_def c_remaining_def c_rest_def)

lemma c_remaining_rest: "c_remaining c = length (c_rest c)"
  by (simp add: c_remaining_def c_rest_def)

lemma c_moved_rest:
  assumes "c_moved c d"
  shows "c_rest c = take (c_position d - c_position c) (c_rest c) @ c_rest d"
proof -
  let ?n = "c_position d - c_position c"
  have "c_rest d = drop ?n (c_rest c)" using assms by (simp add: c_moved_def c_rest_def)
  then show ?thesis by simp
qed

section \<open>Pieces of well-formed text\<close>

lemma valid_append: "is_valid_utf8 xs \<Longrightarrow> is_valid_utf8 ys \<Longrightarrow> is_valid_utf8 (xs @ ys)"
  unfolding is_valid_utf8_iff by (metis encode_all_append list_all_append)

lemma valid_Nil [simp]: "is_valid_utf8 []"
  by (simp add: is_valid_utf8.simps)

lemma valid_enc: "is_scalar c \<Longrightarrow> is_valid_utf8 (fst (encode_utf8 c))"
  using is_valid_utf8_encode_step [of c "[]"] by (simp add: encode_utf8_def)

lemma valid_slice:
  assumes "is_valid_utf8 bs" "is_char_boundary bs b" "is_char_boundary bs e" "b \<le> e" "e \<le> length bs"
  shows "is_valid_utf8 (take (e - b) (drop b bs))"
proof -
  obtain cs where cs: "list_all is_scalar cs" "bs = encode_all cs" using assms(1) is_valid_utf8_iff by auto
  obtain i j where ij: "b = length (encode_all (take i cs))" "e = length (encode_all (take j cs))"
    using assms(2,3) is_char_boundary_iff [OF cs(1)] cs(2) by metis
  have split: "bs = encode_all (take n cs) @ encode_all (drop n cs)" for n
    using cs(2) by (metis append_take_drop_id encode_all_append)
  have t: "take e bs = encode_all (take j cs)" "take b bs = encode_all (take i cs)"
    using ij split by (metis append_eq_conv_conj)+
  have "drop b (take e bs) = encode_all (drop i (take j cs))"
  proof (cases "i \<le> j")
    case True
    then have "encode_all (take j cs) = encode_all (take i cs) @ encode_all (drop i (take j cs))"
      by (metis append_take_drop_id encode_all_append min.absorb1 take_take)
    then show ?thesis using t ij by simp
  next
    case False
    then have "take i cs = take j cs @ drop j (take i cs)" by (metis append_take_drop_id min.absorb1 nat_le_linear take_take)
    then have "length (encode_all (drop j (take i cs))) = 0" using ij assms(4) by (metis add_le_same_cancel1 encode_all_append le_zero_eq length_append)
    then have "e = b" using ij \<open>take i cs = take j cs @ drop j (take i cs)\<close> by (metis encode_all_append length_0_conv self_append_conv)
    then show ?thesis using False by simp
  qed
  then have "take (e - b) (drop b bs) = encode_all (drop i (take j cs))" by (simp add: take_drop assms(4))
  moreover have "list_all is_scalar (drop i (take j cs))"
    using cs(1) by (auto simp: list_all_iff dest: in_set_dropD in_set_takeD)
  ultimately show ?thesis by (simp add: is_valid_utf8_encode_all)
qed

lemma ascii_unit: "unat b < 128 \<Longrightarrow> \<not> is_continuation b"
  by (simp add: is_continuation_unat)

lemma enc_ascii: "is_scalar c \<Longrightarrow> unat (hd (enc c)) < 128 \<Longrightarrow> length (enc c) = 1"
  using encode_utf8_scalar_unat [of c] length_encode_utf8_scalar [of c]
  by (cases "enc c") (auto simp: is_scalar_iff split: if_splits)

lemma ascii_boundaries:
  assumes v: "is_valid_utf8 bs" and i: "i < length bs" "unat (bs ! i) < 128"
  shows "is_char_boundary bs i" "is_char_boundary bs (Suc i)"
proof -
  obtain cs where cs: "list_all is_scalar cs" "bs = encode_all cs" using v is_valid_utf8_iff by auto
  show 1: "is_char_boundary bs i" using i ascii_unit by (simp add: is_char_boundary_def)
  then obtain k where k: "k \<le> length cs" "i = length (encode_all (take k cs))"
    using is_char_boundary_iff [OF cs(1)] cs(2) by auto
  have "k < length cs" using i k cs(2) by (metis le_neq_implies_less less_irrefl take_all_iff order_refl)
  then have d: "encode_all cs = encode_all (take k cs) @ enc (cs ! k) @ encode_all (drop (Suc k) cs)"
    by (metis encode_all_append encode_all_Cons id_take_nth_drop)
  have s: "is_scalar (cs ! k)" using cs(1) \<open>k < length cs\<close> by (simp add: list_all_length)
  have "bs ! i = hd (enc (cs ! k))" using d k(2) cs(2) by (simp add: nth_append hd_append hd_conv_nth)
  then have "length (enc (cs ! k)) = 1" using i enc_ascii [OF s] by simp
  then have "Suc i = length (encode_all (take (Suc k) cs))"
    using k(2) \<open>k < length cs\<close> by (simp add: take_Suc_conv_app_nth encode_all_append)
  then show "is_char_boundary bs (Suc i)" using is_char_boundary_iff [OF cs(1), of "Suc i"] cs(2) \<open>k < length cs\<close> Suc_leI by blast
qed

lemma valid_split_ascii:
  assumes "is_valid_utf8 (xs @ b # ys)" "unat b < 128"
  shows "is_valid_utf8 xs" "is_valid_utf8 ys"
proof -
  let ?bs = "xs @ b # ys"
  have n: "(xs @ b # ys) ! length xs = b" by (simp add: nth_append)
  note a = ascii_boundaries [OF assms(1), of "length xs", unfolded n]
  have e: "is_char_boundary ?bs 0" "is_char_boundary ?bs (length ?bs)"
    using assms(1) is_char_boundary_iff is_valid_utf8_iff [of ?bs] by (auto simp: is_char_boundary_def)
  show "is_valid_utf8 xs" using valid_slice [OF assms(1) e(1) a(1)] assms(2) by simp
  show "is_valid_utf8 ys" using valid_slice [OF assms(1) a(2) e(2)] assms(2) by simp
qed

lemma valid_ascii: "b < 0x80 \<Longrightarrow> is_valid_utf8 [b]"
  by (subst is_valid_utf8.simps) (simp add: decode_ascii word_less_nat_alt Let_def)

lemma valid_replicate: "b < 0x80 \<Longrightarrow> is_valid_utf8 (replicate n b)"
proof (induction n)
  case (Suc n)
  then have "is_valid_utf8 ([b] @ replicate n b)" by (intro valid_append valid_ascii) auto
  then show ?case by simp
qed simp

lemma valid_ascii_list: "list_all (\<lambda>b. b < 0x80) bs \<Longrightarrow> is_valid_utf8 bs"
proof (induction bs)
  case (Cons b bs)
  then have "is_valid_utf8 ([b] @ bs)" by (intro valid_append valid_ascii) auto
  then show ?case by simp
qed simp

section \<open>Results that are neither a panic nor a lack of fuel\<close>

definition good :: "('e failure, 'a) result \<Rightarrow> bool" where
  "good res \<longleftrightarrow> res \<noteq> Err Panics \<and> res \<noteq> Err Fuel_out"

lemma good_Ok [simp]: "good (Ok x)"
  by (simp add: good_def)

lemma good_and_then: "good res \<Longrightarrow> (\<And>x. res = Ok x \<Longrightarrow> good (f x)) \<Longrightarrow> good (and_then res f)"
  by (cases res) (auto simp: good_def)

section \<open>Exactness\<close>

text \<open>C34. \<open>validate_utf8\<close> accepts exactly the well-formed texts, the ones the boolean validator of the
  character library accepts; when it fails, \<open>valid_up_to\<close> is inside the input, the bytes before it are
  well-formed text and no scalar value is encoded at it.\<close>

theorem validate_utf8_exact:
  "(validate_utf8 bs = Ok () \<longleftrightarrow> is_valid_utf8 bs) \<and>
   (\<forall>er. validate_utf8 bs = Err er \<longrightarrow> valid_up_to er < length bs \<and> is_valid_utf8 (take (valid_up_to er) bs) \<and>
     (\<forall>c rs. is_scalar c \<longrightarrow> drop (valid_up_to er) bs \<noteq> fst (encode_utf8 c) @ rs))"
  using validate_utf8_Err [of bs] rejected_no_scalar by (auto simp: validate_utf8_iff encode_utf8_def)

theorem validate_utf8_exact_witness:
  "validate_utf8 [0x61, 0xE2, 0x82] = Err \<lparr>valid_up_to = 1, error_len = None\<rparr> \<and> is_valid_utf8 [0x61] \<and>
   [0xE2, 0x82] \<noteq> fst (encode_utf8 0x20AC) @ []"
proof -
  have e: "validate_utf8 [0x61, 0xE2, 0x82] = Err \<lparr>valid_up_to = 1, error_len = None\<rparr>" by code_simp
  have c: "is_scalar 0x20AC" by code_simp
  show ?thesis
    using validate_utf8_exact [of "[0x61, 0xE2, 0x82]", THEN conjunct2, rule_format, OF e] e c by auto
qed

end
