(* ===== verification/Dec2flt.thy ===== *)
theory Dec2flt
  imports Rstd_Prelude
begin

unbundle bit_operations_syntax

text \<open>
  The interface of the conversion of decimal literals to doubles, src/core/src/num/dec2flt.cppm: a
  double is its bit pattern, a literal its digits, decimal exponent and sign.
\<close>

type_synonym f64 = "64 word"

definition is_finite :: "f64 \<Rightarrow> bool" where
  "is_finite v \<longleftrightarrow> v AND 0x7FF0000000000000 \<noteq> 0x7FF0000000000000"

definition INFINITY_F64 :: f64 where "INFINITY_F64 = 0x7FF0000000000000"
definition NEG_INFINITY_F64 :: f64 where "NEG_INFINITY_F64 = 0xFFF0000000000000"
definition NAN_F64 :: f64 where "NAN_F64 = 0x7FF8000000000000"
definition NEG_NAN_F64 :: f64 where "NEG_NAN_F64 = 0xFFF8000000000000"

datatype dec2flt_error = DecInvalid | DecOverflow

record decimal =
  dec_integer :: "u8 list"
  dec_fraction :: "u8 list"
  dec_exponent :: int
  dec_negative :: bool

type_synonym dec2flt = "decimal \<Rightarrow> (dec2flt_error, f64) result"

text \<open>What the parsers rely on: a conversion that succeeds gives a finite double.  The source returns
  \<open>Error::Overflow\<close> whenever the exponent of the result passes 1023 or the decimal order passes 308.\<close>

definition finite_results :: "dec2flt \<Rightarrow> bool" where
  "finite_results to_f64 \<longleftrightarrow> (\<forall>d v. to_f64 d = Ok v \<longrightarrow> is_finite v)"

end
