(* ===== verification/Json_Reader.thy ===== *)
theory Json_Reader
  imports Text_Cursor Dec2flt
begin

text \<open>
  The pull reader of JSON text, src/json/src/reader.cpp, with the types of src/json/src/reader.cppm,
  number.cppm and error.cppm.  The reader reads UTF-8 bytes or UTF-16 code units; its operations
  return the changed reader beside their result, and an error drops it.  The conversion of a decimal
  number to a double, \<open>rstd::num::dec2flt::to_f64\<close>, is the argument \<open>to_f64\<close> of the operations that
  call it; a double is its 64 bits.  Positions and depths (\<open>usize\<close>) are natural numbers: a position is
  at most the length of the input, and every decrement of the depth is guarded.
\<close>

unbundle bit_operations_syntax

section \<open>Types\<close>

datatype error_code =
    EofWhileParsingList | EofWhileParsingObject | EofWhileParsingComment | EofWhileParsingString
  | EofWhileParsingValue | ExpectedColon | ExpectedListCommaOrEnd | ExpectedObjectCommaOrEnd
  | ExpectedSomeIdent | ExpectedSomeValue | InvalidEscape | InvalidNumber | NumberOutOfRange
  | InvalidUnicodeCodePoint | ControlCharacterWhileParsingString | DuplicateObjectKey
  | KeyMustBeAString | LoneLeadingSurrogateInHexEscape | TrailingComma | TrailingCharacters
  | UnexpectedEndOfHexEscape | RecursionLimitExceeded

record json_error =
  e_code :: error_code
  e_line :: nat
  e_column :: nat
  e_offset :: nat

type_synonym 'a json_result = "(json_error failure, 'a) result"

record parse_options =
  allow_comments :: bool
  reject_duplicate_keys :: bool
  reject_integer_overflow :: bool
  max_depth :: nat

definition default_options :: parse_options where
  "default_options =
    \<lparr>allow_comments = False, reject_duplicate_keys = False, reject_integer_overflow = False, max_depth = 128\<rparr>"

datatype value_kind = KNull | KBoolean | KNumber | KString | KArray | KObject

datatype float_overflow = Reject | Infinity

datatype number = Unsigned u64 | Signed i64 | Float f64

definition number_from_i64 :: "i64 \<Rightarrow> number" where
  "number_from_i64 v = (if v <s 0 then Signed v else Unsigned v)"

definition number_from_f64 :: "f64 \<Rightarrow> number option" where
  "number_from_f64 v = (if \<not> is_finite v then None else Some (Float v))"

record span =
  s_begin :: nat
  s_end :: nat

record number_token =
  t_integer :: span
  t_fraction :: span
  t_exponent :: int
  t_negative :: bool
  t_floating :: bool

text \<open>The two instances of the template parameter \<open>Output\<close>: a \<open>String\<close> and a \<open>Vec<u16>\<close>.\<close>

datatype out_buf = OString "u8 list" | OUnits "u16 list"

record reader =
  r_cursor :: "u8 cursor"
  r_units :: "u16 cursor"
  r_utf16 :: bool
  r_depth :: nat
  r_options :: parse_options

section \<open>The reader's view of its input\<close>

definition reader_of_str :: "u8 list \<Rightarrow> parse_options \<Rightarrow> reader" where
  "reader_of_str inp opts =
    \<lparr>r_cursor = make_cursor inp, r_units = make_cursor [], r_utf16 = False,
     r_depth = max_depth opts, r_options = opts\<rparr>"

definition reader_of_units :: "u16 list \<Rightarrow> parse_options \<Rightarrow> reader" where
  "reader_of_units inp opts =
    \<lparr>r_cursor = make_cursor [], r_units = make_cursor inp, r_utf16 = True,
     r_depth = max_depth opts, r_options = opts\<rparr>"

definition position :: "reader \<Rightarrow> nat" where
  "position r = (if r_utf16 r then c_position (r_units r) else c_position (r_cursor r))"

definition eof :: "reader \<Rightarrow> bool" where
  "eof r = (if r_utf16 r then c_is_eof (r_units r) else c_is_eof (r_cursor r))"

definition peek_ahead :: "reader \<Rightarrow> nat \<Rightarrow> u16" where
  "peek_ahead r ahead =
    (if r_utf16 r then case c_peek (r_units r) ahead of None \<Rightarrow> 0 | Some v \<Rightarrow> v
     else case c_peek (r_cursor r) ahead of None \<Rightarrow> 0 | Some v \<Rightarrow> ucast v)"

abbreviation peek :: "reader \<Rightarrow> u16" where
  "peek r \<equiv> peek_ahead r 0"

text \<open>
  \<open>take()\<close> moves the cursor by one unit; at the end of the input it would dereference an empty option.
  \<open>bump\<close> is its effect where the calling code has just seen a unit; \<open>take_unit\<close> is the whole call.
\<close>

definition bump :: "reader \<Rightarrow> reader" where
  "bump r = (if r_utf16 r then r\<lparr>r_units := snd (c_take (r_units r))\<rparr>
             else r\<lparr>r_cursor := snd (c_take (r_cursor r))\<rparr>)"

definition take_unit :: "reader \<Rightarrow> (u16 \<times> reader) json_result" where
  "take_unit r = (if eof r then Err Panics else Ok (peek r, bump r))"

text \<open>Indexing outside the input aborts: \<open>None\<close>.\<close>

definition unit_at :: "reader \<Rightarrow> nat \<Rightarrow> u16 option" where
  "unit_at r offset =
    (if r_utf16 r then if offset < length (c_input (r_units r)) then Some (c_input (r_units r) ! offset) else None
     else if offset < length (c_input (r_cursor r)) then Some (ucast (c_input (r_cursor r) ! offset)) else None)"

definition location :: "reader \<Rightarrow> (nat \<times> nat) option" where
  "location r = (if r_utf16 r then source_position (r_units r) else source_position (r_cursor r))"

definition error :: "reader \<Rightarrow> error_code \<Rightarrow> json_error failure" where
  "error r code =
    (case location r of
       None \<Rightarrow> Panics
     | Some (line, column) \<Rightarrow>
         Fails \<lparr>e_code = code, e_line = line, e_column = (if eof r then column - 1 else column), e_offset = position r\<rparr>)"

definition error_after_consumed :: "reader \<Rightarrow> error_code \<Rightarrow> json_error failure" where
  "error_after_consumed r code =
    (case location r of
       None \<Rightarrow> Panics
     | Some (line, column) \<Rightarrow>
         Fails \<lparr>e_code = code, e_line = line, e_column = column - 1, e_offset = position r - 1\<rparr>)"

text \<open>Units that remain: the measure of the reading loops.\<close>

definition left :: "reader \<Rightarrow> nat" where
  "left r = (if r_utf16 r then c_remaining (r_units r) else c_remaining (r_cursor r))"

lemma left_bump: "\<not> eof r \<Longrightarrow> left (bump r) < left r"
  by (cases "r_utf16 r") (auto simp: eof_def left_def bump_def c_is_eof_def c_remaining_def c_take_def c_peek_def c_advance_def)

lemma left_bump_le: "left (bump r) \<le> left r"
  by (auto simp: left_def bump_def c_remaining_def c_take_def c_peek_def c_advance_def split: option.splits)

lemma peek_not_eof: "peek_ahead r k \<noteq> 0 \<Longrightarrow> \<not> eof r"
  by (auto simp: peek_ahead_def eof_def c_peek_def c_is_eof_def c_remaining_def)

section \<open>White space and comments\<close>

function skip_line_comment :: "reader \<Rightarrow> reader" where
  "skip_line_comment r = (if eof r \<or> peek r = LF then r else skip_line_comment (bump r))"
  by pat_completeness auto
termination by (relation "measure left") (auto simp: left_bump)

function skip_block_comment :: "reader \<Rightarrow> bool \<times> reader" where
  "skip_block_comment r =
    (if eof r then (False, r)
     else if peek r = STAR \<and> peek_ahead r 1 = SLASH then (True, bump (bump r))
     else skip_block_comment (bump r))"
  by pat_completeness auto
termination by (relation "measure left") (auto simp: left_bump)

declare skip_line_comment.simps [simp del] skip_block_comment.simps [simp del]

lemma left_skip_line: "left (skip_line_comment r) \<le> left r"
proof (induction r rule: skip_line_comment.induct)
  case (1 r)
  then show ?case using left_bump_le [of r] by (subst skip_line_comment.simps) force
qed

lemma left_skip_block: "left (snd (skip_block_comment r)) \<le> left r"
proof (induction r rule: skip_block_comment.induct)
  case (1 r)
  then show ?case using left_bump_le [of r] left_bump_le [of "bump r"]
    by (subst skip_block_comment.simps) (auto intro: order_trans)
qed

lemma left_comments:
  assumes "\<not> eof r"
  shows "left (skip_line_comment (bump (bump r))) < left r"
    and "skip_block_comment (bump (bump r)) = (closed, r') \<Longrightarrow> left r' < left r"
  using left_bump [OF assms] left_bump_le [of "bump r"] left_skip_line [of "bump (bump r)"]
    left_skip_block [of "bump (bump r)"] by auto

function consume_whitespace :: "reader \<Rightarrow> reader json_result" where
  "consume_whitespace r =
    (if eof r then Ok r
     else if peek r = SP \<or> peek r = LF \<or> peek r = CR \<or> peek r = HT then consume_whitespace (bump r)
     else if \<not> allow_comments (r_options r) \<or> peek r \<noteq> SLASH then Ok r
     else if peek_ahead r 1 = SLASH then consume_whitespace (skip_line_comment (bump (bump r)))
     else if peek_ahead r 1 = STAR then
       (case skip_block_comment (bump (bump r)) of
          (closed, r') \<Rightarrow>
            if \<not> closed then Err (error r' EofWhileParsingComment) else consume_whitespace r')
     else Ok r)"
  by pat_completeness auto
termination by (relation "measure left") (auto simp: left_bump left_comments dest: sym intro: left_comments(2))

declare consume_whitespace.simps [simp del]

section \<open>Literals\<close>

fun consume_ident :: "u8 list \<Rightarrow> reader \<Rightarrow> reader json_result" where
  "consume_ident [] r = Ok r"
| "consume_ident (v # vs) r =
     (if eof r then Err (error r EofWhileParsingValue)
      else if peek r \<noteq> ucast v then Err (error r ExpectedSomeIdent)
      else consume_ident vs (bump r))"

definition read_kind :: "reader \<Rightarrow> (value_kind \<times> reader) json_result" where
  "read_kind r0 = and_then (consume_whitespace r0) (\<lambda>r.
     if eof r then Err (error r EofWhileParsingValue)
     else if peek r = 0x6E then Ok (KNull, r)
     else if peek r = 0x74 \<or> peek r = 0x66 then Ok (KBoolean, r)
     else if peek r = DQUOTE then Ok (KString, r)
     else if peek r = LBRACK then Ok (KArray, r)
     else if peek r = LBRACE then Ok (KObject, r)
     else if peek r = MINUS then Ok (KNumber, r)
     else if D0 \<le> peek r \<and> peek r \<le> D9 then Ok (KNumber, r)
     else Err (error r ExpectedSomeValue))"

definition parse_null :: "reader \<Rightarrow> reader json_result" where
  "parse_null r0 = and_then (read_kind r0) (\<lambda>(kind, r).
     if kind \<noteq> KNull then Err (error r ExpectedSomeValue) else consume_ident (lit ''null'') r)"

definition parse_bool :: "reader \<Rightarrow> (bool \<times> reader) json_result" where
  "parse_bool r0 = and_then (read_kind r0) (\<lambda>(kind, r).
     if kind \<noteq> KBoolean then Err (error r ExpectedSomeValue)
     else
       let res = (peek r = 0x74) in
       and_then (consume_ident (if res then lit ''true'' else lit ''false'') r) (\<lambda>r'. Ok (res, r')))"

section \<open>Strings\<close>

fun hex_loop :: "nat \<Rightarrow> u16 \<Rightarrow> reader \<Rightarrow> (u16 \<times> reader) json_result" where
  "hex_loop 0 v r = Ok (v, r)"
| "hex_loop (Suc n) v r =
     (if eof r then Err (error r EofWhileParsingString)
      else case (if peek r > 0xFF then None else digit_value (ucast (peek r)) 16) of
        None \<Rightarrow> Err (error r InvalidEscape)
      | Some digit \<Rightarrow> hex_loop n (push_bit 4 v OR ucast digit) (bump r))"

definition parse_hex_escape :: "reader \<Rightarrow> (u16 \<times> reader) json_result" where
  "parse_hex_escape r = hex_loop 4 0 r"

text \<open>\<open>String::push(char32_t)\<close> asserts a scalar value; \<open>Vec::push\<close> takes the unit.\<close>

definition push_char :: "u8 list \<Rightarrow> u32 \<Rightarrow> (u8 list) json_result" where
  "push_char out c = (if is_scalar c then Ok (out @ fst (encode_utf8 c)) else Err Panics)"

definition parse_unicode_escape :: "out_buf \<Rightarrow> reader \<Rightarrow> (out_buf \<times> reader) json_result" where
  "parse_unicode_escape out r0 = and_then (parse_hex_escape r0) (\<lambda>(first, r1).
     case out of
       OUnits us \<Rightarrow> Ok (OUnits (us @ [first]), r1)
     | OString bs \<Rightarrow>
        if 0xDC00 \<le> first \<and> first \<le> 0xDFFF then
          Err (error_after_consumed r1 LoneLeadingSurrogateInHexEscape)
        else if first < 0xD800 \<or> first > 0xDBFF then
          and_then (push_char bs (ucast first)) (\<lambda>bs'. Ok (OString bs', r1))
        else if eof r1 then Err (error r1 EofWhileParsingString)
        else if peek r1 \<noteq> BSLASH then Err (error r1 UnexpectedEndOfHexEscape)
        else and_then (take_unit r1) (\<lambda>(_, r2).
          if eof r2 then Err (error r2 EofWhileParsingString)
          else if peek r2 \<noteq> 0x75 then Err (error r2 UnexpectedEndOfHexEscape)
          else and_then (take_unit r2) (\<lambda>(_, r3).
            and_then (parse_hex_escape r3) (\<lambda>(second, r4).
              if second < 0xDC00 \<or> second > 0xDFFF then
                Err (error_after_consumed r4 LoneLeadingSurrogateInHexEscape)
              else
                let scalar = (push_bit 10 (ucast first - 0xD800) OR (ucast second - 0xDC00)) + 0x10000
                in and_then (push_char bs scalar) (\<lambda>bs'. Ok (OString bs', r4))))))"

fun append_utf16 :: "reader \<Rightarrow> u8 list \<Rightarrow> u16 list \<Rightarrow> (u8 list) json_result" where
  "append_utf16 r out [] = Ok out"
| "append_utf16 r out (v # vs) =
     (if 0xD800 \<le> v \<and> v \<le> 0xDBFF then
        (case vs of
           [] \<Rightarrow> Err (error r InvalidUnicodeCodePoint)
         | w # ws \<Rightarrow>
            if w < 0xDC00 \<or> w > 0xDFFF then Err (error r InvalidUnicodeCodePoint)
            else
              let scalar = 0x10000 + push_bit 10 (ucast v - 0xD800) + ucast (w - 0xDC00)
              in and_then (push_char out scalar) (\<lambda>out'. append_utf16 r out' ws))
      else if 0xDC00 \<le> v \<and> v \<le> 0xDFFF then Err (error r InvalidUnicodeCodePoint)
      else and_then (push_char out (ucast v)) (\<lambda>out'. append_utf16 r out' vs))"

text \<open>The code points of a text (\<open>str::chars\<close>) and their UTF-16 units.\<close>

definition units_of_char :: "u32 \<Rightarrow> u16 list" where
  "units_of_char c =
    (if c \<le> 0xFFFF then [ucast c]
     else [ucast (0xD800 + drop_bit 10 (c - 0x10000)), ucast (0xDC00 + ((c - 0x10000) AND 0x3FF))])"

lemma decode_utf8_drop:
  "bs \<noteq> [] \<Longrightarrow> (c, n) = decode_utf8 bs \<Longrightarrow> 0 < n"
  "bs \<noteq> [] \<Longrightarrow> decode_utf8 bs = (c, n) \<Longrightarrow> 0 < n"
  using decode_utf8_consumes [of bs] by (metis snd_conv)+

function chars :: "u8 list \<Rightarrow> u32 list" where
  "chars bs = (if bs = [] then [] else case decode_utf8 bs of (c, n) \<Rightarrow> c # chars (drop n bs))"
  by pat_completeness auto
termination by (relation "measure length") (auto simp: decode_utf8_drop)

declare chars.simps [simp del]

definition append_raw :: "reader \<Rightarrow> out_buf \<Rightarrow> nat \<Rightarrow> nat \<Rightarrow> out_buf json_result" where
  "append_raw r out b e =
    (if \<not> r_utf16 r then
       (case c_text (r_cursor r) b e of
          Err _ \<Rightarrow> Err Panics
        | Ok txt \<Rightarrow>
            (case out of
               OString bs \<Rightarrow> Ok (OString (bs @ txt))
             | OUnits us \<Rightarrow> Ok (OUnits (us @ concat (map units_of_char (chars txt))))))
     else
       (case c_view (r_units r) b e of
          None \<Rightarrow> Err Panics
        | Some units \<Rightarrow>
            (case out of
               OString bs \<Rightarrow> and_then (append_utf16 r bs units) (\<lambda>bs'. Ok (OString bs'))
             | OUnits us \<Rightarrow> Ok (OUnits (us @ units)))))"

function skip_chunk :: "reader \<Rightarrow> reader" where
  "skip_chunk r =
    (if \<not> eof r \<and> peek r \<noteq> DQUOTE \<and> peek r \<noteq> BSLASH \<and> peek r \<ge> 0x20 then skip_chunk (bump r) else r)"
  by pat_completeness auto
termination by (relation "measure left") (auto simp: left_bump)

declare skip_chunk.simps [simp del]

definition simple_escape :: "u16 \<Rightarrow> u32 option" where
  "simple_escape c =
    (if c = DQUOTE then Some DQUOTE else if c = BSLASH then Some BSLASH else if c = SLASH then Some SLASH
     else if c = 0x62 then Some 0x08 else if c = 0x66 then Some 0x0C else if c = 0x6E then Some LF
     else if c = 0x72 then Some CR else if c = 0x74 then Some HT else None)"

definition append_char :: "out_buf \<Rightarrow> u32 \<Rightarrow> out_buf json_result" where
  "append_char out c =
    (case out of
       OString bs \<Rightarrow> and_then (push_char bs c) (\<lambda>bs'. Ok (OString bs'))
     | OUnits us \<Rightarrow> Ok (OUnits (us @ [ucast c])))"

lemma left_skip_chunk: "left (skip_chunk r) \<le> left r"
proof (induction r rule: skip_chunk.induct)
  case (1 r)
  then show ?case using left_bump_le [of r] by (subst skip_chunk.simps) force
qed

lemma left_hex: "hex_loop n v r = Ok (w, r') \<Longrightarrow> left r' \<le> left r"
proof (induction n arbitrary: v r)
  case (Suc n)
  then show ?case using left_bump_le [of r]
    by (auto split: if_splits option.splits dest!: Suc.IH intro: order_trans)
qed simp

lemma take_unit_Ok: "take_unit r = Ok (c, r') \<longleftrightarrow> \<not> eof r \<and> c = peek r \<and> r' = bump r"
  by (auto simp: take_unit_def)

lemma left_unicode:
  assumes "parse_unicode_escape out r = Ok (out', r')"
  shows "left r' \<le> left r"
proof -
  obtain first r1 where h: "hex_loop 4 0 r = Ok (first, r1)"
    using assms by (auto simp: parse_unicode_escape_def parse_hex_escape_def and_then_eq_Ok)
  have "left r' \<le> left r1"
    using assms h left_bump_le [of r1] left_bump_le [of "bump r1"] left_hex [of 4 0 "bump (bump r1)" _ r']
    by (cases out) (auto simp: parse_unicode_escape_def parse_hex_escape_def and_then_eq_Ok take_unit_Ok Let_def
        split: if_splits)
  then show ?thesis using left_hex [OF h] by simp
qed

lemma left_escape: "\<not> eof (bump (skip_chunk r)) \<Longrightarrow> left (bump (bump (skip_chunk r))) < left r"
  using left_bump [of "bump (skip_chunk r)"] left_bump_le [of "skip_chunk r"] left_skip_chunk [of r] by simp

function read_string_loop :: "out_buf \<Rightarrow> reader \<Rightarrow> (out_buf \<times> reader) json_result" where
  "read_string_loop out r =
    (if eof r then Err (error r EofWhileParsingString)
     else
       let r1 = skip_chunk r in
       and_then (append_raw r1 out (position r) (position r1)) (\<lambda>out1.
         if eof r1 then Err (error r1 EofWhileParsingString)
         else if peek r1 = DQUOTE then Ok (out1, bump r1)
         else if peek r1 < 0x20 then Err (error_after_consumed (bump r1) ControlCharacterWhileParsingString)
         else
           let r2 = bump r1 in
           if eof r2 then Err (error r2 EofWhileParsingString)
           else
             let r3 = bump r2 in
             (case simple_escape (peek r2) of
                Some c \<Rightarrow> and_then (append_char out1 c) (\<lambda>out2. read_string_loop out2 r3)
              | None \<Rightarrow>
                  if peek r2 = 0x75 then
                    and_then (parse_unicode_escape out1 r3) (\<lambda>(out2, r4). read_string_loop out2 r4)
                  else Err (error_after_consumed r3 InvalidEscape))))"
  by pat_completeness auto
termination by (relation "measure (\<lambda>(out, r). left r)") (auto simp: left_escape dest!: left_unicode intro: le_less_trans left_escape)

declare read_string_loop.simps [simp del]

definition read_string :: "out_buf \<Rightarrow> reader \<Rightarrow> (out_buf \<times> reader) json_result" where
  "read_string out r0 = and_then (read_kind r0) (\<lambda>(kind, r).
     if kind \<noteq> KString then Err (error r ExpectedSomeValue)
     else and_then (take_unit r) (\<lambda>(_, r1). read_string_loop out r1))"

definition parse_string_units :: "reader \<Rightarrow> (u16 list \<times> reader) json_result" where
  "parse_string_units r = and_then (read_string (OUnits []) r) (\<lambda>(out, r').
     case out of OUnits us \<Rightarrow> Ok (us, r') | OString _ \<Rightarrow> Err Panics)"

definition parse_string :: "reader \<Rightarrow> (u8 list \<times> reader) json_result" where
  "parse_string r =
    (if \<not> r_utf16 r then
       and_then (read_string (OString []) r) (\<lambda>(out, r').
         case out of OString bs \<Rightarrow> Ok (bs, r') | OUnits _ \<Rightarrow> Err Panics)
     else and_then (parse_string_units r) (\<lambda>(units, r').
       and_then (append_utf16 r' [] units) (\<lambda>bs. Ok (bs, r'))))"

section \<open>Numbers\<close>

definition digit_next :: "reader \<Rightarrow> bool" where
  "digit_next r \<longleftrightarrow> \<not> eof r \<and> D0 \<le> peek r \<and> peek r \<le> D9"

function skip_digits :: "reader \<Rightarrow> reader" where
  "skip_digits r = (if digit_next r then skip_digits (bump r) else r)"
  by pat_completeness auto
termination by (relation "measure left") (auto simp: left_bump digit_next_def)

definition i32_max :: int where "i32_max = 2147483647"

function exponent_loop :: "int \<Rightarrow> reader \<Rightarrow> int \<times> reader" where
  "exponent_loop ex r =
    (if digit_next r then
       let exponent_digit = int (unat (peek r - D0)) in
       exponent_loop (if ex > (i32_max - exponent_digit) div 10 then i32_max else ex * 10 + exponent_digit) (bump r)
     else (ex, r))"
  by pat_completeness auto
termination by (relation "measure (\<lambda>(ex, r). left r)") (auto simp: left_bump digit_next_def)

declare skip_digits.simps [simp del] exponent_loop.simps [simp del]

text \<open>The four stages of \<open>scan_number\<close>: sign, integer digits, fraction, exponent.\<close>

definition scan_sign :: "reader \<Rightarrow> (bool \<times> reader) json_result" where
  "scan_sign r =
    (if peek r = MINUS then
       and_then (take_unit r) (\<lambda>(_, r1). if eof r1 then Err (error r1 EofWhileParsingValue) else Ok (True, r1))
     else Ok (False, r))"

definition scan_integer :: "reader \<Rightarrow> reader json_result" where
  "scan_integer r =
    (if peek r = D0 then
       and_then (take_unit r) (\<lambda>(_, r1). if digit_next r1 then Err (error r1 InvalidNumber) else Ok r1)
     else if 0x31 \<le> peek r \<and> peek r \<le> D9 then Ok (skip_digits r)
     else Err (error r InvalidNumber))"

definition scan_fraction :: "reader \<Rightarrow> (span \<times> bool \<times> reader) json_result" where
  "scan_fraction r =
    (if \<not> eof r \<and> peek r = DOT then
       and_then (take_unit r) (\<lambda>(_, r1).
         if eof r1 then Err (error r1 EofWhileParsingValue)
         else
           let r2 = skip_digits r1 in
           if position r1 = position r2 then Err (error r2 InvalidNumber)
           else Ok (\<lparr>s_begin = position r1, s_end = position r2\<rparr>, True, r2))
     else Ok (\<lparr>s_begin = position r, s_end = position r\<rparr>, False, r))"

definition scan_exponent :: "reader \<Rightarrow> (int \<times> bool \<times> reader) json_result" where
  "scan_exponent r =
    (if \<not> eof r \<and> (peek r = 0x65 \<or> peek r = 0x45) then
       and_then (take_unit r) (\<lambda>(_, r1).
         let signed = (\<not> eof r1 \<and> (peek r1 = PLUS \<or> peek r1 = MINUS));
             negative = (signed \<and> peek r1 = MINUS);
             r2 = (if signed then bump r1 else r1)
         in if eof r2 then Err (error r2 EofWhileParsingValue)
            else if \<not> digit_next r2 then Err (error r2 InvalidNumber)
            else (case exponent_loop 0 r2 of (ex, r3) \<Rightarrow> Ok (if negative then - ex else ex, True, r3)))
     else Ok (0, False, r))"

definition scan_number :: "reader \<Rightarrow> (number_token \<times> reader) json_result" where
  "scan_number r0 = and_then (read_kind r0) (\<lambda>(kind, r).
     if kind \<noteq> KNumber then Err (error r InvalidNumber)
     else and_then (scan_sign r) (\<lambda>(negative, r1).
       and_then (scan_integer r1) (\<lambda>r2.
         and_then (scan_fraction r2) (\<lambda>(fraction, fractional, r3).
           and_then (scan_exponent r3) (\<lambda>(ex, exponential, r4).
             Ok (\<lparr>t_integer = \<lparr>s_begin = position r1, s_end = position r2\<rparr>, t_fraction = fraction,
                  t_exponent = ex, t_negative = negative, t_floating = (fractional \<or> exponential)\<rparr>, r4))))))"

text \<open>The digits of a span as bytes; \<open>None\<close> is the abort of an index or a span outside the input.\<close>

fun units_at :: "reader \<Rightarrow> nat list \<Rightarrow> u16 list option" where
  "units_at r [] = Some []"
| "units_at r (i # is) =
     (case unit_at r i of None \<Rightarrow> None | Some u \<Rightarrow> (case units_at r is of None \<Rightarrow> None | Some us \<Rightarrow> Some (u # us)))"

definition span_bytes :: "reader \<Rightarrow> span \<Rightarrow> u8 list option" where
  "span_bytes r sp =
    (if \<not> r_utf16 r then c_view (r_cursor r) (s_begin sp) (s_end sp)
     else case units_at r [s_begin sp..<s_end sp] of None \<Rightarrow> None | Some us \<Rightarrow> Some (map ucast us))"

definition parse_float :: "dec2flt \<Rightarrow> number_token \<Rightarrow> float_overflow \<Rightarrow> reader \<Rightarrow> f64 json_result" where
  "parse_float to_f64 token overflow r =
    (case (span_bytes r (t_integer token), span_bytes r (t_fraction token)) of
       (Some integer, Some fraction) \<Rightarrow>
         (case to_f64 \<lparr>dec_integer = integer, dec_fraction = fraction, dec_exponent = t_exponent token,
                       dec_negative = t_negative token\<rparr> of
            Ok v \<Rightarrow> Ok v
          | Err DecOverflow \<Rightarrow>
              if overflow = Infinity then Ok (if t_negative token then NEG_INFINITY_F64 else INFINITY_F64)
              else Err (error r NumberOutOfRange)
          | Err DecInvalid \<Rightarrow> Err (error r InvalidNumber))
     | _ \<Rightarrow> Err Panics)"

definition parse_f64 :: "dec2flt \<Rightarrow> float_overflow \<Rightarrow> reader \<Rightarrow> (f64 \<times> reader) json_result" where
  "parse_f64 to_f64 overflow r0 = and_then (scan_number r0) (\<lambda>(token, r).
     and_then (parse_float to_f64 token overflow r) (\<lambda>v. Ok (v, r)))"

text \<open>The magnitude of the integer digits; \<open>None\<close> is the overflow flag.\<close>

fun magnitude_loop :: "u16 list \<Rightarrow> u64 \<Rightarrow> u64 option" where
  "magnitude_loop [] magnitude = Some magnitude"
| "magnitude_loop (u # us) magnitude =
     (let digit = ucast (u - D0) in
      if magnitude > (- 1 - digit) div 10 then None
      else magnitude_loop us (magnitude * 10 + digit))"

definition floating :: "dec2flt \<Rightarrow> number_token \<Rightarrow> reader \<Rightarrow> number json_result" where
  "floating to_f64 token r = and_then (parse_float to_f64 token Reject r) (\<lambda>v.
     case number_from_f64 v of None \<Rightarrow> Err Panics | Some n \<Rightarrow> Ok n)"

definition number_of_token :: "dec2flt \<Rightarrow> number_token \<Rightarrow> reader \<Rightarrow> number json_result" where
  "number_of_token to_f64 token r =
    (if t_floating token then floating to_f64 token r
     else case units_at r [s_begin (t_integer token)..<s_end (t_integer token)] of
       None \<Rightarrow> Err Panics
     | Some us \<Rightarrow>
        (case magnitude_loop us 0 of
           None \<Rightarrow>
             if reject_integer_overflow (r_options r) then Err (error r NumberOutOfRange)
             else floating to_f64 token r
         | Some magnitude \<Rightarrow>
             if \<not> t_negative token then Ok (Unsigned magnitude)
             else if magnitude = 0 then floating to_f64 token r
             else
               let min_magnitude = 0x7FFFFFFFFFFFFFFF + 1 in
               if magnitude > min_magnitude then
                 if reject_integer_overflow (r_options r) then Err (error r NumberOutOfRange)
                 else floating to_f64 token r
               else Ok (number_from_i64 (if magnitude = min_magnitude then 0x8000000000000000 else - magnitude))))"

definition parse_number :: "dec2flt \<Rightarrow> reader \<Rightarrow> (number \<times> reader) json_result" where
  "parse_number to_f64 r0 = and_then (scan_number r0) (\<lambda>(token, r).
     and_then (number_of_token to_f64 token r) (\<lambda>n. Ok (n, r)))"

section \<open>Arrays and objects\<close>

definition begin_array :: "reader \<Rightarrow> reader json_result" where
  "begin_array r0 = and_then (read_kind r0) (\<lambda>(kind, r).
     if kind \<noteq> KArray then Err (error r ExpectedSomeValue)
     else if r_depth r \<le> 1 then Err (error r RecursionLimitExceeded)
     else and_then (take_unit (r\<lparr>r_depth := r_depth r - 1\<rparr>)) (\<lambda>(_, r1). consume_whitespace r1))"

definition leave_container :: "reader \<Rightarrow> reader json_result" where
  "leave_container r = and_then (take_unit r) (\<lambda>(_, r1). Ok (r1\<lparr>r_depth := r_depth r1 + 1\<rparr>))"

text \<open>The comma before a further element or key, the same statements in both readers.\<close>

definition skip_comma :: "u16 \<Rightarrow> reader \<Rightarrow> reader json_result" where
  "skip_comma closing r = and_then (take_unit r) (\<lambda>(_, r1). and_then (consume_whitespace r1) (\<lambda>r2.
     if eof r2 then Err (error r2 EofWhileParsingValue)
     else if peek r2 = closing then Err (error r2 TrailingComma)
     else Ok r2))"

text \<open>The reference parameter \<open>first\<close> is an argument and a component of the result.\<close>

definition next_array :: "bool \<Rightarrow> reader \<Rightarrow> (bool \<times> bool \<times> reader) json_result" where
  "next_array first r0 = and_then (consume_whitespace r0) (\<lambda>r.
     if eof r then Err (error r EofWhileParsingList)
     else if peek r = RBRACK then and_then (leave_container r) (\<lambda>r1. Ok (False, first, r1))
     else if \<not> first then
       if peek r \<noteq> COMMA then Err (error r ExpectedListCommaOrEnd)
       else and_then (skip_comma RBRACK r) (\<lambda>r2. Ok (True, False, r2))
     else Ok (True, False, r))"

definition begin_object :: "reader \<Rightarrow> reader json_result" where
  "begin_object r0 = and_then (read_kind r0) (\<lambda>(kind, r).
     if kind \<noteq> KObject then Err (error r ExpectedSomeValue)
     else if r_depth r \<le> 1 then Err (error r RecursionLimitExceeded)
     else and_then (take_unit (r\<lparr>r_depth := r_depth r - 1\<rparr>)) (\<lambda>(_, r1). consume_whitespace r1))"

text \<open>The part of \<open>read_object_key\<close> before the key: the end of the object, the comma.\<close>

definition object_separator :: "bool \<Rightarrow> reader \<Rightarrow> reader json_result" where
  "object_separator first r =
    (if \<not> first then
       if peek r \<noteq> COMMA then Err (error r ExpectedObjectCommaOrEnd)
       else skip_comma RBRACE r
     else Ok r)"

text \<open>The part after the key: the colon and the white space around it.\<close>

definition key_colon :: "reader \<Rightarrow> reader json_result" where
  "key_colon r2 = and_then (consume_whitespace r2) (\<lambda>r3.
     if eof r3 then Err (error r3 EofWhileParsingObject)
     else if peek r3 \<noteq> COLON then Err (error r3 ExpectedColon)
     else and_then (take_unit r3) (\<lambda>(_, r4). consume_whitespace r4))"

definition read_object_key ::
    "(reader \<Rightarrow> ('k \<times> reader) json_result) \<Rightarrow> bool \<Rightarrow> reader \<Rightarrow> ('k option \<times> bool \<times> reader) json_result" where
  "read_object_key parse_key first r0 = and_then (consume_whitespace r0) (\<lambda>r.
     if eof r then Err (error r EofWhileParsingObject)
     else if peek r = RBRACE then and_then (leave_container r) (\<lambda>r1. Ok (None, first, r1))
     else and_then (object_separator first r) (\<lambda>r1.
       if peek r1 \<noteq> DQUOTE then Err (error r1 KeyMustBeAString)
       else and_then (parse_key r1) (\<lambda>(key, r2).
         and_then (key_colon r2) (\<lambda>r5. Ok (Some key, False, r5)))))"

definition next_object_key :: "bool \<Rightarrow> reader \<Rightarrow> (u8 list option \<times> bool \<times> reader) json_result" where
  "next_object_key first r = read_object_key parse_string first r"

definition next_object_key_units :: "bool \<Rightarrow> reader \<Rightarrow> (u16 list option \<times> bool \<times> reader) json_result" where
  "next_object_key_units first r = read_object_key parse_string_units first r"

text \<open>\<open>skip_value\<close> and its two loops, with a bound on the depth of the recursion and the loops.\<close>

fun skip_value :: "dec2flt \<Rightarrow> nat \<Rightarrow> reader \<Rightarrow> reader json_result"
  and skip_array_loop :: "dec2flt \<Rightarrow> nat \<Rightarrow> bool \<Rightarrow> reader \<Rightarrow> reader json_result"
  and skip_object_loop :: "dec2flt \<Rightarrow> nat \<Rightarrow> bool \<Rightarrow> reader \<Rightarrow> reader json_result" where
  "skip_value to_f64 0 r0 = Err Fuel_out"
| "skip_value to_f64 (Suc fuel) r0 = and_then (read_kind r0) (\<lambda>(kind, r).
     case kind of
       KNull \<Rightarrow> parse_null r
     | KBoolean \<Rightarrow> and_then (parse_bool r) (\<lambda>(_, r1). Ok r1)
     | KNumber \<Rightarrow> and_then (parse_number to_f64 r) (\<lambda>(_, r1). Ok r1)
     | KString \<Rightarrow> and_then (parse_string r) (\<lambda>(_, r1). Ok r1)
     | KArray \<Rightarrow> and_then (begin_array r) (skip_array_loop to_f64 fuel True)
     | KObject \<Rightarrow> and_then (begin_object r) (skip_object_loop to_f64 fuel True))"
| "skip_array_loop to_f64 0 first r = Err Fuel_out"
| "skip_array_loop to_f64 (Suc fuel) first r = and_then (next_array first r) (\<lambda>(more, first', r1).
     if \<not> more then Ok r1
     else and_then (skip_value to_f64 fuel r1) (skip_array_loop to_f64 fuel first'))"
| "skip_object_loop to_f64 0 first r = Err Fuel_out"
| "skip_object_loop to_f64 (Suc fuel) first r = and_then (next_object_key first r) (\<lambda>(key, first', r1).
     if key = None then Ok r1
     else and_then (skip_value to_f64 fuel r1) (skip_object_loop to_f64 fuel first'))"

definition finish :: "reader \<Rightarrow> reader json_result" where
  "finish r0 = and_then (consume_whitespace r0) (\<lambda>r.
     if \<not> eof r then Err (error r TrailingCharacters) else Ok r)"

definition duplicate_key_error :: "reader \<Rightarrow> json_error failure" where
  "duplicate_key_error r = error r DuplicateObjectKey"

end
