(* ===== verification/Json_Progress.thy ===== *)
theory Json_Progress
  imports Json_Reader
begin

text \<open>
  What the reader's operations do to the reader: a successful one moves it forward over its input and
  touches nothing else, and none panics on a well-formed reader.  \<open>rest r\<close> is the list of the units the
  reader has not consumed, \<open>adv n r\<close> the reader moved by \<open>n\<close> units.  The facts are collected in
  \<open>reader_simps\<close>, so that the operations compute on \<open>rest\<close>.
\<close>

section \<open>The reader as the list of its remaining units\<close>

named_theorems reader_simps \<open>the reader's primitives on the list of remaining units\<close>

definition rest :: "reader \<Rightarrow> u16 list" where
  "rest r = (if r_utf16 r then drop (c_position (r_units r)) (c_input (r_units r))
             else map ucast (drop (c_position (r_cursor r)) (c_input (r_cursor r))))"

definition wf_reader :: "reader \<Rightarrow> bool" where
  "wf_reader r \<longleftrightarrow> (if r_utf16 r then c_position (r_units r) \<le> length (c_input (r_units r))
             else c_position (r_cursor r) \<le> length (c_input (r_cursor r)))"

definition adv :: "nat \<Rightarrow> reader \<Rightarrow> reader" where
  "adv n r = (if r_utf16 r then r\<lparr>r_units := (r_units r)\<lparr>c_position := c_position (r_units r) + n\<rparr>\<rparr>
              else r\<lparr>r_cursor := (r_cursor r)\<lparr>c_position := c_position (r_cursor r) + n\<rparr>\<rparr>)"

lemma eof_rest [reader_simps]: "eof r \<longleftrightarrow> rest r = []"
  by (simp add: eof_def rest_def c_is_eof_def)

lemma left_rest [reader_simps]: "left r = length (rest r)"
  by (simp add: left_def rest_def c_remaining_def)

lemma peek_rest [reader_simps]: "peek_ahead r k = (if k < length (rest r) then rest r ! k else 0)"
  by (auto simp: peek_ahead_def rest_def c_peek_def c_remaining_def)

lemma bump_rest [reader_simps]: "bump r = (if rest r = [] then r else adv 1 r)"
  by (cases "r_utf16 r") (auto simp: bump_def rest_def adv_def c_take_def c_peek_def c_remaining_def c_advance_def)

lemma rest_adv [reader_simps]: "rest (adv n r) = drop n (rest r)"
  by (simp add: rest_def adv_def drop_map add.commute)

lemma adv_adv [reader_simps]: "adv m (adv n r) = adv (n + m) r"
  by (simp add: adv_def add.assoc)

lemma adv_0 [simp]: "adv 0 r = r"
  by (simp add: adv_def)

lemma wf_adv: "wf_reader r \<Longrightarrow> n \<le> length (rest r) \<Longrightarrow> wf_reader (adv n r)"
  by (auto simp: wf_reader_def adv_def rest_def)

lemma adv_fields [simp]:
  "r_utf16 (adv n r) = r_utf16 r" "r_depth (adv n r) = r_depth r" "r_options (adv n r) = r_options r"
  "c_input (r_cursor (adv n r)) = c_input (r_cursor r)" "c_input (r_units (adv n r)) = c_input (r_units r)"
  by (simp_all add: adv_def)

lemma position_adv [simp]: "position (adv n r) = position r + n"
  by (simp add: adv_def position_def)

lemma depth_fields [simp]:
  "rest (r\<lparr>r_depth := d\<rparr>) = rest r" "wf_reader (r\<lparr>r_depth := d\<rparr>) = wf_reader r" "position (r\<lparr>r_depth := d\<rparr>) = position r"
  "adv n (r\<lparr>r_depth := d\<rparr>) = (adv n r)\<lparr>r_depth := d\<rparr>"
  by (simp_all add: rest_def wf_reader_def position_def adv_def)

lemma depth_same: "r_depth r = d \<Longrightarrow> r\<lparr>r_depth := d\<rparr> = r"
  by simp

section \<open>Forward movement\<close>

definition moved :: "reader \<Rightarrow> reader \<Rightarrow> bool" where
  "moved r r' \<longleftrightarrow> (\<exists>n \<le> length (rest r). r' = adv n r)"

definition advanced :: "reader \<Rightarrow> reader \<Rightarrow> bool" where
  "advanced r r' \<longleftrightarrow> (\<exists>n \<le> length (rest r). 0 < n \<and> r' = adv n r)"

lemma moved_refl [simp, intro]: "moved r r"
  by (auto simp: moved_def intro: exI [of _ 0])

lemma adv_compose:
  assumes "n \<le> length (rest r)" "s = adv n r" "m \<le> length (rest s)" "t = adv m s"
  shows "n + m \<le> length (rest r)" "t = adv (n + m) r"
  using assms by (auto simp: reader_simps)

lemma moved_trans: "moved r s \<Longrightarrow> moved s t \<Longrightarrow> moved r t"
  unfolding moved_def using adv_compose by metis

lemma advanced_moved: "advanced r s \<Longrightarrow> moved r s"
  by (auto simp: moved_def advanced_def)

lemma advanced_trans1: "advanced r s \<Longrightarrow> moved s t \<Longrightarrow> advanced r t"
  unfolding moved_def advanced_def using adv_compose add_pos_nonneg by (metis le0)

lemma advanced_trans2: "moved r s \<Longrightarrow> advanced s t \<Longrightarrow> advanced r t"
  unfolding moved_def advanced_def using adv_compose add_nonneg_pos by (metis le0)

lemma advanced_trans: "advanced r s \<Longrightarrow> advanced s t \<Longrightarrow> advanced r t"
  by (blast intro: advanced_trans1 advanced_moved)

lemma advanced_bump: "rest r \<noteq> [] \<Longrightarrow> advanced r (bump r)"
  by (auto simp: advanced_def reader_simps Suc_le_eq intro!: exI [of _ 1])

lemma moved_bump: "moved r (bump r)"
  using advanced_bump [of r] by (cases "rest r = []") (auto simp: bump_rest advanced_moved)

lemma moved_props:
  assumes "moved r r'"
  shows "wf_reader r \<Longrightarrow> wf_reader r'" "r_options r' = r_options r" "r_depth r' = r_depth r" "r_utf16 r' = r_utf16 r"
    "length (rest r') \<le> length (rest r)" "c_input (r_cursor r') = c_input (r_cursor r)"
  using assms by (auto simp: moved_def reader_simps wf_adv)

lemma advanced_less: "advanced r r' \<Longrightarrow> length (rest r') < length (rest r)"
  by (auto simp: advanced_def reader_simps)

lemmas moves = moved_trans advanced_moved advanced_trans1 advanced_trans2 advanced_trans advanced_bump moved_bump

section \<open>Results that are neither a panic nor a lack of fuel\<close>

lemma error_Fails: "wf_reader r \<Longrightarrow> \<exists>e. error r code = Fails e \<and> e_code e = code \<and> e_offset e = position r"
  by (cases "r_utf16 r") (auto simp: wf_reader_def error_def location_def source_position_def source_position_at_def split: prod.splits)

lemma error_after_Fails:
  "wf_reader r \<Longrightarrow> \<exists>e. error_after_consumed r code = Fails e \<and> e_code e = code \<and> e_offset e = position r - 1"
  by (cases "r_utf16 r") (auto simp: wf_reader_def error_after_consumed_def location_def source_position_def source_position_at_def split: prod.splits)

lemma error_not_panic [simp]:
  "wf_reader r \<Longrightarrow> error r code \<noteq> Panics" "wf_reader r \<Longrightarrow> error r code \<noteq> Fuel_out"
  "wf_reader r \<Longrightarrow> error_after_consumed r code \<noteq> Panics" "wf_reader r \<Longrightarrow> error_after_consumed r code \<noteq> Fuel_out"
  using error_Fails [of r code] error_after_Fails [of r code] by auto

lemma good_error [simp, intro]: "wf_reader r \<Longrightarrow> good (Err (error r code))"
  using error_Fails [of r code] by (auto simp: good_def)

lemma good_error_after [simp, intro]: "wf_reader r \<Longrightarrow> good (Err (error_after_consumed r code))"
  using error_after_Fails [of r code] by (auto simp: good_def)

lemma good_take_unit: "rest r \<noteq> [] \<Longrightarrow> good (take_unit r)"
  by (simp add: take_unit_def eof_rest)

lemma take_unit_advanced: "take_unit r = Ok (c, r') \<Longrightarrow> advanced r r'"
  by (auto simp: take_unit_Ok eof_rest advanced_bump)

section \<open>White space, literals\<close>

lemma moved_skip_line: "moved r (skip_line_comment r)"
proof (induction r rule: skip_line_comment.induct)
  case (1 r)
  then show ?case using moved_bump [of r] moved_trans by (subst skip_line_comment.simps) auto
qed

lemma moved_skip_block: "moved r (snd (skip_block_comment r))"
proof (induction r rule: skip_block_comment.induct)
  case (1 r)
  then show ?case using moved_bump [of r] moved_bump [of "bump r"]
    by (subst skip_block_comment.simps) (auto intro: moved_trans)
qed

lemma moved_whitespace: "consume_whitespace r = Ok r' \<Longrightarrow> moved r r'"
proof (induction r rule: consume_whitespace.induct)
  case (1 r)
  have m: "moved r (bump r)" "moved r (bump (bump r))" by (blast intro: moves)+
  show ?case using 1 m moved_skip_line [of "bump (bump r)"] moved_skip_block [of "bump (bump r)"]
    by (subst (asm) consume_whitespace.simps) (auto split: if_splits prod.splits intro: moved_trans)
qed

lemma good_whitespace: "wf_reader r \<Longrightarrow> good (consume_whitespace r)"
proof (induction r rule: consume_whitespace.induct)
  case (1 r)
  have m: "wf_reader (bump r)" "wf_reader (skip_line_comment (bump (bump r)))" "wf_reader (snd (skip_block_comment (bump (bump r))))"
    using 1(4) moved_bump [of r] moved_bump [of "bump r"] moved_skip_line [of "bump (bump r)"]
      moved_skip_block [of "bump (bump r)"] by (blast intro: moved_props moved_trans)+
  show ?case using 1 m by (subst consume_whitespace.simps) (auto split: prod.splits)
qed

lemma moved_ident: "consume_ident vs r = Ok r' \<Longrightarrow> moved r r'"
proof (induction vs arbitrary: r)
  case (Cons v vs)
  then show ?case using moved_bump [of r] by (auto split: if_splits intro: moved_trans)
qed simp

lemma good_ident: "wf_reader r \<Longrightarrow> good (consume_ident vs r)"
proof (induction vs arbitrary: r)
  case (Cons v vs)
  then show ?case using moved_bump [of r] by (auto intro: moved_props)
qed simp

lemma read_kind_cases:
  assumes "read_kind r = Ok (kind, r')"
  shows "moved r r'" "rest r' \<noteq> []" "consume_whitespace r = Ok r'"
    "kind = KString \<longleftrightarrow> peek r' = DQUOTE" "kind = KArray \<longleftrightarrow> peek r' = LBRACK"
    "kind = KObject \<longleftrightarrow> peek r' = LBRACE" "kind = KNull \<longleftrightarrow> peek r' = 0x6E"
    "kind = KBoolean \<longleftrightarrow> peek r' = 0x74 \<or> peek r' = 0x66"
  using assms by (auto simp: read_kind_def and_then_eq_Ok eof_rest moved_whitespace split: if_splits)

lemma good_kind: "wf_reader r \<Longrightarrow> good (read_kind r)"
  unfolding read_kind_def
  by (rule good_and_then) (auto simp: good_whitespace dest!: moved_whitespace intro: moved_props)

text \<open>Every operation reads the kind first; a second look at the same place gives the same kind.\<close>

definition stops :: "reader \<Rightarrow> bool" where
  "stops r \<longleftrightarrow> eof r \<or> (peek r \<notin> {SP, LF, CR, HT} \<and>
     (allow_comments (r_options r) \<longrightarrow> peek r = SLASH \<longrightarrow> peek_ahead r 1 \<noteq> SLASH \<and> peek_ahead r 1 \<noteq> STAR))"

lemma whitespace_stops: "consume_whitespace r = Ok r' \<Longrightarrow> stops r'"
proof (induction r rule: consume_whitespace.induct)
  case (1 r)
  show ?case using 1
    by (subst (asm) consume_whitespace.simps) (auto split: if_splits prod.splits simp: stops_def)
qed

lemma stops_whitespace: "stops r \<Longrightarrow> consume_whitespace r = Ok r"
  by (subst consume_whitespace.simps) (auto simp: stops_def)

lemma read_kind_again: "read_kind r = Ok (kind, r') \<Longrightarrow> read_kind r' = Ok (kind, r')"
  using read_kind_cases(3) [of r kind r'] by (simp add: read_kind_def whitespace_stops stops_whitespace)

section \<open>Strings\<close>

definition valid_in :: "reader \<Rightarrow> bool" where
  "valid_in r \<longleftrightarrow> (\<not> r_utf16 r \<longrightarrow> is_valid_utf8 (c_input (r_cursor r)))"

definition at_boundary :: "reader \<Rightarrow> bool" where
  "at_boundary r \<longleftrightarrow> (\<not> r_utf16 r \<longrightarrow> is_char_boundary (c_input (r_cursor r)) (c_position (r_cursor r)))"

lemma boundary_here:
  assumes "valid_in r" "wf_reader r" "rest r = [] \<or> peek r < 0x80"
  shows "at_boundary r" "rest r \<noteq> [] \<Longrightarrow> at_boundary (adv 1 r)"
proof -
  let ?c = "r_cursor r"
  have p: "c_position ?c < length (c_input ?c) \<and> unat (c_input ?c ! c_position ?c) < 128"
    if "rest r \<noteq> []" "\<not> r_utf16 r"
    using that assms unat_lt_8 [of "c_input ?c ! c_position ?c"]
    by (auto simp: reader_simps rest_def word_less_nat_alt unat_ucast_mod)
  show "at_boundary r"
    using p assms ascii_boundaries(1) [of "c_input ?c" "c_position ?c"]
    by (cases "r_utf16 r"; cases "rest r = []") (auto simp: at_boundary_def valid_in_def wf_reader_def rest_def is_char_boundary_def)
  show "at_boundary (adv 1 r)" if "rest r \<noteq> []"
    using that p assms ascii_boundaries(2) [of "c_input ?c" "c_position ?c"]
    by (auto simp: at_boundary_def valid_in_def adv_def)
qed

lemma valid_in_moved: "moved r r' \<Longrightarrow> valid_in r' = valid_in r"
  by (auto simp: moved_def valid_in_def)

lemma skip_chunk_moved: "moved r (skip_chunk r)"
proof (induction r rule: skip_chunk.induct)
  case (1 r)
  then show ?case using moved_bump [of r] by (subst skip_chunk.simps) (auto intro: moved_trans)
qed

lemma skip_chunk_stop:
  "rest (skip_chunk r) = [] \<or> peek (skip_chunk r) = DQUOTE \<or> peek (skip_chunk r) = BSLASH \<or> peek (skip_chunk r) < 0x20"
proof (induction r rule: skip_chunk.induct)
  case (1 r)
  then show ?case by (subst (1 2 3 4) skip_chunk.simps) (auto simp: eof_rest not_le)
qed

lemma unat_u16: "unat (ucast (v :: u16) :: u32) = unat v"
  using unat_lt_16 [of v] by (simp add: unat_ucast_mod)

lemma surrogate_pair:
  fixes v w :: u16
  assumes "0xD800 \<le> v" "v \<le> 0xDBFF" "0xDC00 \<le> w" "w \<le> 0xDFFF"
  defines "a \<equiv> unat v - 0xD800" and "b \<equiv> unat w - 0xDC00"
  shows "unat (ucast v - 0xD800 :: u32) = a" "unat (ucast w - 0xDC00 :: u32) = b" "unat (w - 0xDC00) = b"
    "a < 1024" "b < 1024"
  using assms unat_u16 [of v] unat_u16 [of w]
  by (auto simp: word_le_nat_alt unat_sub)

lemma unat_push10: "unat (x :: u32) < 1024 \<Longrightarrow> unat (push_bit 10 x) = unat x * 1024"
  by (simp add: push_bit_eq_mult unat_word_ariths)

lemma surrogate_or:
  fixes v w :: u16
  assumes "0xD800 \<le> v" "v \<le> 0xDBFF" "0xDC00 \<le> w" "w \<le> 0xDFFF"
  shows "unat ((push_bit 10 (ucast v - 0xD800) OR (ucast w - 0xDC00)) + 0x10000 :: u32) =
    0x10000 + (unat v - 0xD800) * 1024 + (unat w - 0xDC00)"
proof -
  note p = surrogate_pair [OF assms]
  let ?x = "push_bit 10 (ucast v - 0xD800) :: u32" and ?y = "ucast w - 0xDC00 :: u32"
  have "unat (?x OR ?y) = unat ?x + unat ?y"
    by (rule unat_or_disjoint [where k = 10]) (use p in \<open>simp_all add: unat_push10\<close>)
  then show ?thesis using p by (simp add: unat_word_ariths unat_push10)
qed

lemma surrogate_add:
  fixes v w :: u16
  assumes "0xD800 \<le> v" "v \<le> 0xDBFF" "0xDC00 \<le> w" "w \<le> 0xDFFF"
  shows "unat (0x10000 + push_bit 10 (ucast v - 0xD800) + ucast (w - 0xDC00) :: u32) =
    0x10000 + (unat v - 0xD800) * 1024 + (unat w - 0xDC00)"
  using surrogate_pair [OF assms] by (simp add: unat_word_ariths unat_push10 unat_u16)

lemma surrogate_scalar:
  fixes v w :: u16
  assumes "0xD800 \<le> v" "v \<le> 0xDBFF" "0xDC00 \<le> w" "w \<le> 0xDFFF"
  shows "is_scalar ((push_bit 10 (ucast v - 0xD800) OR (ucast w - 0xDC00)) + 0x10000)"
    "is_scalar (0x10000 + push_bit 10 (ucast v - 0xD800) + ucast (w - 0xDC00))"
  unfolding is_scalar_iff surrogate_or [OF assms] surrogate_add [OF assms]
  using surrogate_pair(4,5) [OF assms] by auto

lemma bmp_scalar: "v < 0xD800 \<or> 0xDBFF < v \<Longrightarrow> \<not> (0xDC00 \<le> v \<and> v \<le> 0xDFFF) \<Longrightarrow> is_scalar (ucast (v :: u16))"
  using unat_lt_16 [of v] by (auto simp: is_scalar_iff unat_u16 word_less_nat_alt word_le_nat_alt)

definition is_string :: "out_buf \<Rightarrow> bool" where
  "is_string out = (case out of OString _ \<Rightarrow> True | OUnits _ \<Rightarrow> False)"

definition valid_out :: "out_buf \<Rightarrow> bool" where
  "valid_out out = (case out of OString bs \<Rightarrow> is_valid_utf8 bs | OUnits _ \<Rightarrow> True)"

definition kept :: "out_buf \<Rightarrow> out_buf \<Rightarrow> bool" where
  "kept out out' \<longleftrightarrow> is_string out' = is_string out \<and> (valid_out out \<longrightarrow> valid_out out')"

lemma kept_trans: "kept a b \<Longrightarrow> kept b c \<Longrightarrow> kept a c"
  by (auto simp: kept_def)

lemmas kept_defs = kept_def is_string_def valid_out_def

lemma push_char_Ok: "is_scalar c \<Longrightarrow> push_char out c = Ok (out @ fst (encode_utf8 c))"
  by (simp add: push_char_def)

lemma append_utf16_ok:
  "wf_reader r \<Longrightarrow> good (append_utf16 r out us) \<and>
    (\<forall>out'. append_utf16 r out us = Ok out' \<longrightarrow> is_valid_utf8 out \<longrightarrow> is_valid_utf8 out')"
proof (induction r out us rule: append_utf16.induct)
  case (2 r out v vs)
  show ?case
  proof (cases "0xD800 \<le> v \<and> v \<le> 0xDBFF")
    case hi: True
    show ?thesis
    proof (cases "\<exists>w ws. vs = w # ws \<and> 0xDC00 \<le> w \<and> w \<le> 0xDFFF")
      case True
      then obtain w ws where w: "vs = w # ws" "0xDC00 \<le> w" "w \<le> 0xDFFF" by auto
      let ?c = "0x10000 + push_bit 10 (ucast v - 0xD800) + ucast (w - 0xDC00) :: u32"
      have c: "is_scalar ?c" using surrogate_scalar(2) [of v w] hi w by simp
      show ?thesis using 2(1) [OF hi w(1) _ refl push_char_Ok [OF c] 2(3)] hi w c valid_append [of out] valid_enc [OF c]
        by (auto simp: push_char_Ok [OF c] Let_def not_less)
    next
      case False
      then show ?thesis using hi 2(3) by (auto simp: not_le split: list.splits)
    qed
  next
    case False
    then show ?thesis using 2(2) 2(3) bmp_scalar [of v] valid_append [of out] valid_enc [of "ucast v"]
      by (auto simp: push_char_Ok not_le)
  qed
qed simp

lemma append_raw_ok:
  assumes "wf_reader r" "valid_in r" "at_boundary r" "moved r r1" "at_boundary r1"
  shows "good (append_raw r1 out (position r) (position r1))"
    "append_raw r1 out (position r) (position r1) = Ok out' \<Longrightarrow> kept out out'"
proof -
  obtain n where n: "n \<le> length (rest r)" "r1 = adv n r" using assms(4) by (auto simp: moved_def)
  have w1: "wf_reader r1" using assms(1,4) by (blast intro: moved_props)
  have ok: "good (append_raw r1 out (position r) (position r1)) \<and>
    (\<forall>out'. append_raw r1 out (position r) (position r1) = Ok out' \<longrightarrow> kept out out')"
  proof (cases "r_utf16 r")
    case True
    have "c_view (r_units r1) (position r) (position r1) \<noteq> None"
      using n True assms(1) by (auto simp: c_view_def adv_def position_def wf_reader_def rest_def)
    then obtain us where us: "c_view (r_units r1) (position r) (position r1) = Some us" by blast
    show ?thesis
    proof (cases out)
      case (OString bs)
      then show ?thesis using True us n append_utf16_ok [OF w1, of bs us]
        by (auto simp: append_raw_def kept_defs and_then_eq_Ok intro!: good_and_then)
    next
      case (OUnits vs)
      then show ?thesis using True us n by (auto simp: append_raw_def kept_defs)
    qed
  next
    case False
    let ?in = "c_input (r_cursor r)" and ?b = "position r" and ?e = "position r1"
    have v: "is_valid_utf8 ?in" "is_char_boundary ?in ?b" "is_char_boundary ?in ?e" "?b \<le> ?e" "?e \<le> length ?in"
      using False assms n by (auto simp: valid_in_def at_boundary_def adv_def position_def wf_reader_def rest_def)
    then have "c_text (r_cursor r1) ?b ?e = Ok (take (?e - ?b) (drop ?b ?in))"
      using n by (simp add: c_text_def c_view_def)
    then show ?thesis using False n valid_slice [OF v] valid_append
      by (cases out) (auto simp: append_raw_def kept_defs)
  qed
  then show "good (append_raw r1 out (position r) (position r1))"
    "append_raw r1 out (position r) (position r1) = Ok out' \<Longrightarrow> kept out out'" by auto
qed

lemma hex_ascii: "p \<le> 0xFF \<Longrightarrow> digit_value (ucast (p :: u16)) 16 = Some d \<Longrightarrow> p < 0x80"
  by (auto simp: digit_value_def Let_def is_digit_def word_le_nat_alt word_less_nat_alt unat_ucast_mod split: if_splits)

lemma hex_loop_ok:
  "wf_reader r \<Longrightarrow> valid_in r \<Longrightarrow> at_boundary r \<Longrightarrow>
    good (hex_loop n v r) \<and> (\<forall>w r'. hex_loop n v r = Ok (w, r') \<longrightarrow> moved r r' \<and> at_boundary r')"
proof (induction n arbitrary: v r)
  case (Suc n)
  show ?case
  proof (cases "rest r \<noteq> [] \<and> \<not> peek r > 0xFF \<and> digit_value (ucast (peek r)) 16 \<noteq> None")
    case True
    then obtain d where d: "digit_value (ucast (peek r)) 16 = Some d" by blast
    have m: "moved r (bump r)" by (rule moved_bump)
    have "at_boundary (bump r)" using boundary_here(2) [OF Suc.prems(2,1)] hex_ascii [OF _ d] True by (simp add: bump_rest not_less)
    then show ?thesis using Suc.IH [of "bump r" "push_bit 4 v OR ucast d"] Suc.prems m True d moved_trans [OF m]
      by (auto simp: eof_rest valid_in_moved [OF m] dest: moved_props(1))
  next
    case False
    then show ?thesis using Suc.prems by (auto simp: eof_rest)
  qed
qed auto

lemma kept_simps [simp]:
  "kept (OUnits us) (OString bs) = False" "kept (OString bs) (OUnits us) = False" "kept (OUnits us) (OUnits vs)"
  "kept (OString bs) (OString cs) = (is_valid_utf8 bs \<longrightarrow> is_valid_utf8 cs)"
  by (simp_all add: kept_defs)

lemma unicode_ok:
  assumes r: "wf_reader r" "valid_in r" "at_boundary r"
  shows "good (parse_unicode_escape out r) \<and>
    (\<forall>out' r'. parse_unicode_escape out r = Ok (out', r') \<longrightarrow> moved r r' \<and> at_boundary r' \<and> kept out out')"
proof (cases "parse_hex_escape r")
  case (Inl e)
  then show ?thesis using hex_loop_ok [OF r, of 4 0] by (auto simp: parse_unicode_escape_def parse_hex_escape_def good_def)
next
  case (Inr p)
  obtain first r1 where h: "parse_hex_escape r = Ok (first, r1)" using Inr by (cases p) auto
  then have m1: "moved r r1" "at_boundary r1" using hex_loop_ok [OF r, of 4 0] by (auto simp: parse_hex_escape_def)
  have w1: "wf_reader r1" "valid_in r1" using r m1 by (auto simp: valid_in_moved dest: moved_props)
  show ?thesis
  proof (cases out)
    case (OUnits us)
    then show ?thesis using h m1 by (simp add: parse_unicode_escape_def kept_defs)
  next
    case (OString bs)
    show ?thesis
    proof (cases "0xD800 \<le> first \<and> first \<le> 0xDBFF \<and> rest r1 \<noteq> [] \<and> peek r1 = BSLASH \<and> rest (bump r1) \<noteq> [] \<and> peek (bump r1) = 0x75")
      case stop: False
      have w2: "wf_reader (bump r1)" using w1(1) moved_bump moved_props(1) by blast
      show ?thesis
      proof (cases "0xD800 \<le> first \<and> first \<le> 0xDBFF")
        case False
        then show ?thesis
          using h OString m1 w1 bmp_scalar [of first] valid_append [of bs] valid_enc [of "ucast first"]
          by (simp add: parse_unicode_escape_def push_char_Ok not_le)
      next
        case True
        then have "\<not> first < 0xD800" "\<not> 0xDBFF < first" "\<not> 0xDC00 \<le> first" by (auto simp: word_le_nat_alt word_less_nat_alt)
        then show ?thesis using stop True h OString w1 w2
          by (simp add: parse_unicode_escape_def take_unit_def eof_rest) blast
      qed
    next
      case True
      let ?r3 = "bump (bump r1)"
      have lo: "\<not> 0xDC00 \<le> first" "\<not> first < 0xD800" "\<not> 0xDBFF < first"
        using True by (auto simp: word_le_nat_alt word_less_nat_alt)
      have m3: "moved r1 ?r3" using moved_bump moved_trans by blast
      have w3: "wf_reader ?r3" "valid_in ?r3" using w1 m3 by (auto simp: valid_in_moved dest: moved_props)
      have "at_boundary ?r3" using True w1 boundary_here(2) [of "bump r1"] moved_bump [of r1]
        by (simp add: bump_rest [of "bump r1"] valid_in_moved moved_props(1))
      note h3 = hex_loop_ok [OF w3 this, of 4 0, folded parse_hex_escape_def]
      show ?thesis
      proof (cases "parse_hex_escape ?r3")
        case (Inl e)
        then show ?thesis using h OString True lo h3 by (auto simp: parse_unicode_escape_def take_unit_def eof_rest good_def)
      next
        case (Inr q)
        obtain second r4 where q: "q = (second, r4)" by (cases q)
        have m4: "moved ?r3 r4" "at_boundary r4" "wf_reader r4" using h3 Inr q w3 by (auto dest: moved_props)
        have "moved r r4" using m1 m3 m4 moved_trans by blast
        have e: "parse_unicode_escape out r =
            (if second < 0xDC00 \<or> second > 0xDFFF then Err (error_after_consumed r4 LoneLeadingSurrogateInHexEscape)
             else and_then (push_char bs ((push_bit 10 (ucast first - 0xD800) OR (ucast second - 0xDC00)) + 0x10000))
               (\<lambda>bs'. Ok (OString bs', r4)))"
          using h OString True lo Inr q by (simp add: parse_unicode_escape_def take_unit_def eof_rest Let_def)
        show ?thesis unfolding e using OString True m4 \<open>moved r r4\<close> surrogate_scalar(1) [of first second] valid_append [of bs] valid_enc
          by (simp add: push_char_Ok not_less)
      qed
    qed
  qed
qed

lemma simple_escape_scalar: "simple_escape p = Some c \<Longrightarrow> is_scalar c \<and> p < 0x80"
  by (auto simp: simple_escape_def is_scalar_def split: if_splits)

lemma append_char_ok: "is_scalar c \<Longrightarrow> \<exists>out'. append_char out c = Ok out' \<and> kept out out'"
  by (cases out) (auto simp: append_char_def push_char_Ok kept_defs valid_append valid_enc)

text \<open>One round of the string loop: it returns, or goes on further right with a well-formed state.\<close>

definition text_state :: "reader \<Rightarrow> bool" where
  "text_state r \<longleftrightarrow> wf_reader r \<and> valid_in r \<and> at_boundary r"

lemma text_state_moved: "text_state r \<Longrightarrow> moved r r' \<Longrightarrow> wf_reader r' \<and> valid_in r'"
  by (auto simp: text_state_def valid_in_moved dest: moved_props)

definition string_done :: "out_buf \<Rightarrow> reader \<Rightarrow> (out_buf \<times> reader) json_result \<Rightarrow> bool" where
  "string_done out r res \<longleftrightarrow> good res \<and> (\<forall>out' r'. res = Ok (out', r') \<longrightarrow> advanced r r' \<and> kept out out')"

definition string_again :: "out_buf \<Rightarrow> reader \<Rightarrow> (out_buf \<times> reader) json_result \<Rightarrow> bool" where
  "string_again out r res \<longleftrightarrow>
    (\<exists>out2 r4. res = read_string_loop out2 r4 \<and> advanced r r4 \<and> text_state r4 \<and> kept out out2)"

lemma string_escape:
  assumes "text_state r" "moved r r2" "rest r2 \<noteq> []" "kept out out1"
  defines "r3 \<equiv> bump r2"
  defines "res \<equiv> (case simple_escape (peek r2) of
            Some c \<Rightarrow> and_then (append_char out1 c) (\<lambda>out2. read_string_loop out2 r3)
          | None \<Rightarrow> if peek r2 = 0x75 then and_then (parse_unicode_escape out1 r3) (\<lambda>(out2, r4). read_string_loop out2 r4)
                    else Err (error_after_consumed r3 InvalidEscape))"
  shows "string_done out r res \<or> string_again out r res"
proof -
  have a3: "advanced r r3" using assms(2,3) advanced_bump [of r2] unfolding r3_def by (blast intro: moves)
  have w2: "wf_reader r2" "valid_in r2" and w3: "wf_reader r3" "valid_in r3"
    using text_state_moved [OF assms(1)] assms(2) advanced_moved [OF a3] by blast+
  have b3: "peek r2 < 0x80 \<Longrightarrow> at_boundary r3"
    using boundary_here(2) [OF w2(2,1)] assms(3) by (simp add: r3_def bump_rest [of r2])
  show ?thesis
  proof (cases "simple_escape (peek r2)")
    case (Some c)
    obtain out2 where o2: "append_char out1 c = Ok out2" "kept out1 out2"
      using append_char_ok simple_escape_scalar [OF Some] by blast
    have "text_state r3" using w3 b3 simple_escape_scalar [OF Some] by (simp add: text_state_def)
    moreover have "res = read_string_loop out2 r3" using Some o2 by (simp add: res_def)
    ultimately show ?thesis using a3 kept_trans [OF assms(4) o2(2)] unfolding string_again_def by blast
  next
    case None
    show ?thesis
    proof (cases "peek r2 = 0x75")
      case True
      note u = unicode_ok [OF w3 b3, of out1, simplified True, simplified]
      show ?thesis
      proof (cases "parse_unicode_escape out1 r3")
        case (Inl e)
        then show ?thesis using None True u by (auto simp: good_def res_def string_done_def)
      next
        case (Inr p)
        obtain out2 r4 where p: "p = (out2, r4)" by (cases p)
        have m4: "moved r3 r4" "at_boundary r4" "kept out1 out2" using u Inr p by auto
        have "text_state r4" using w3 m4 by (auto simp: text_state_def valid_in_moved dest: moved_props)
        moreover have "res = read_string_loop out2 r4" using None True Inr p by (simp add: res_def)
        ultimately show ?thesis
          using advanced_trans1 [OF a3 m4(1)] kept_trans [OF assms(4) m4(3)] unfolding string_again_def by blast
      qed
    next
      case False
      then show ?thesis using None w3 by (simp add: res_def string_done_def)
    qed
  qed
qed

lemma string_round:
  assumes "text_state r"
  shows "string_done out r (read_string_loop out r) \<or> string_again out r (read_string_loop out r)"
proof -
  let ?r1 = "skip_chunk r"
  have m1: "moved r ?r1" by (rule skip_chunk_moved)
  have w1: "wf_reader ?r1" "valid_in ?r1" using text_state_moved [OF assms m1] by auto
  have "peek ?r1 < 0x20 \<Longrightarrow> peek ?r1 < 0x80" by (erule order_less_trans) simp
  then have b1: "at_boundary ?r1" using boundary_here(1) [OF w1(2,1)] skip_chunk_stop [of r] by auto
  note raw = append_raw_ok [OF _ _ _ m1 b1, of out]
  show ?thesis
  proof (cases "eof r \<or> (\<exists>e. append_raw ?r1 out (position r) (position ?r1) = Err e)")
    case True
    then show ?thesis using raw(1) assms error_Fails [of r EofWhileParsingString] unfolding text_state_def
      by (subst (1 2) read_string_loop.simps) (auto simp: Let_def good_def string_done_def)
  next
    case False
    then obtain out1 where o1: "\<not> eof r" "append_raw ?r1 out (position r) (position ?r1) = Ok out1"
      by (cases "append_raw ?r1 out (position r) (position ?r1)") auto
    let ?r2 = "bump ?r1"
    have m2: "moved r ?r2" using m1 moved_bump moved_trans by blast
    have w2: "wf_reader ?r2" using text_state_moved [OF assms m2] by simp
    have k1: "kept out out1" using raw(2) o1 assms by (simp add: text_state_def)
    show ?thesis
    proof (cases "eof ?r1 \<or> peek ?r1 = DQUOTE \<or> peek ?r1 < 0x20 \<or> eof ?r2")
      case True
      then have "string_done out r (read_string_loop out r)" using o1 w1 w2 k1 advanced_bump [of ?r1] advanced_trans2 [OF m1]
        unfolding string_done_def by (subst (1 2) read_string_loop.simps) (auto simp: Let_def eof_rest)
      then show ?thesis by blast
    next
      case False
      then show ?thesis using string_escape [OF assms m2 _ k1] o1
        by (subst (1 2) read_string_loop.simps) (simp add: Let_def eof_rest)
    qed
  qed
qed

lemma read_string_loop_ok: "text_state r \<Longrightarrow> string_done out r (read_string_loop out r)"
proof (induction "length (rest r)" arbitrary: out r rule: less_induct)
  case less
  show ?case using string_round [OF less.prems, of out]
  proof
    assume "string_again out r (read_string_loop out r)"
    then obtain out2 r4 where a: "read_string_loop out r = read_string_loop out2 r4" "advanced r r4" "text_state r4" "kept out out2"
      unfolding string_again_def by blast
    then have "string_done out2 r4 (read_string_loop out2 r4)" using less.hyps advanced_less by blast
    then show ?thesis using a advanced_trans kept_trans unfolding string_done_def by metis
  qed
qed

lemma read_string_ok:
  assumes "wf_reader r" "valid_in r"
  shows "string_done out r (read_string out r)"
proof (cases "\<exists>r1. read_kind r = Ok (KString, r1)")
  case True
  then obtain r1 where k: "read_kind r = Ok (KString, r1)" by blast
  note c = read_kind_cases(1,2,4) [OF k]
  have w1: "wf_reader r1" "valid_in r1" using assms c(1) by (auto simp: valid_in_moved dest: moved_props)
  have a: "advanced r (bump r1)" using c advanced_bump [of r1] by (blast intro: moves)
  have "at_boundary (bump r1)" using boundary_here(2) [OF w1(2,1)] c by (simp add: bump_rest)
  then have "text_state (bump r1)" using assms advanced_moved [OF a] by (auto simp: text_state_def valid_in_moved dest: moved_props)
  from read_string_loop_ok [OF this, of out] show ?thesis
    using k c(2) a advanced_trans by (auto simp: string_done_def read_string_def take_unit_def eof_rest)
next
  case False
  then show ?thesis
    using good_kind [OF assms(1)] assms(1) unfolding string_done_def read_string_def
    by (cases "read_kind r") (auto simp: good_def and_then_eq_Ok dest!: read_kind_cases(1) moved_props(1) )
qed

section \<open>Parsers of single tokens\<close>

text \<open>The contract of an operation that consumes something: it never panics, and moves forward.\<close>

definition consumes :: "reader \<Rightarrow> ('a \<times> reader) json_result \<Rightarrow> bool" where
  "consumes r res \<longleftrightarrow> good res \<and> (\<forall>x r'. res = Ok (x, r') \<longrightarrow> advanced r r')"

definition passes :: "reader \<Rightarrow> reader json_result \<Rightarrow> bool" where
  "passes r res \<longleftrightarrow> good res \<and> (\<forall>r'. res = Ok r' \<longrightarrow> moved r r')"

lemma read_kind_wf: "wf_reader r \<Longrightarrow> read_kind r = Ok (k, b) \<Longrightarrow> wf_reader b"
  using moved_props(1) read_kind_cases(1) by blast

lemma string_units_ok:
  assumes "wf_reader r" "valid_in r"
  shows "consumes r (parse_string_units r)"
proof -
  note o = read_string_ok [OF assms, of "OUnits []", unfolded string_done_def]
  have "\<exists>us. out = OUnits us" if "read_string (OUnits []) r = Ok (out, r')" for out r'
    using o that by (cases out) auto
  then show ?thesis using o unfolding parse_string_units_def consumes_def
    by (cases "read_string (OUnits []) r") (fastforce simp: good_def)+
qed

lemma parse_string_ok:
  assumes "wf_reader r" "valid_in r"
  shows "consumes r (parse_string r)" "parse_string r = Ok (s, r') \<Longrightarrow> is_valid_utf8 s"
proof -
  have "consumes r (parse_string r) \<and> (\<forall>s r'. parse_string r = Ok (s, r') \<longrightarrow> is_valid_utf8 s)"
  proof (cases "r_utf16 r")
    case False
    note o = read_string_ok [OF assms, of "OString []", unfolded string_done_def]
    have "\<exists>bs. out = OString bs \<and> is_valid_utf8 bs" if "read_string (OString []) r = Ok (out, r')" for out r'
      using o that by (cases out) auto
    then show ?thesis using o False unfolding parse_string_def consumes_def
      by (cases "read_string (OString []) r") (fastforce simp: good_def)+
  next
    case True
    have "wf_reader r1 \<and> advanced r r1" if "parse_string_units r = Ok (us, r1)" for us r1
      using string_units_ok [OF assms] that assms advanced_moved by (auto simp: consumes_def dest: moved_props)
    then show ?thesis using True string_units_ok [OF assms] append_utf16_ok unfolding parse_string_def consumes_def
      by (auto simp: and_then_eq_Ok intro!: good_and_then)
  qed
  then show "consumes r (parse_string r)" "parse_string r = Ok (s, r') \<Longrightarrow> is_valid_utf8 s" by auto
qed

lemma ident_Cons_advanced: "consume_ident (v # vs) r = Ok r' \<Longrightarrow> advanced r r'"
  by (auto simp: eof_rest split: if_splits dest!: moved_ident intro: advanced_trans1 advanced_bump)

lemma lit_Cons: "lit (c # cs) = of_char c # lit cs"
  by (simp add: lit_def)

lemma good_after_kind:
  "wf_reader r \<Longrightarrow> (\<And>kind r1. read_kind r = Ok (kind, r1) \<Longrightarrow> wf_reader r1 \<Longrightarrow> good (f kind r1)) \<Longrightarrow>
    good (and_then (read_kind r) (\<lambda>(kind, r1). f kind r1))"
  by (auto intro!: good_and_then good_kind simp: read_kind_wf)

lemma parse_null_ok: "wf_reader r \<Longrightarrow> good (parse_null r) \<and> (\<forall>r'. parse_null r = Ok r' \<longrightarrow> advanced r r')"
  unfolding parse_null_def lit_Cons
  by (auto simp: and_then_eq_Ok good_ident simp del: consume_ident.simps split: if_splits intro!: good_after_kind
      dest!: ident_Cons_advanced intro: advanced_trans2 read_kind_cases(1))

lemma parse_bool_ok: "wf_reader r \<Longrightarrow> consumes r (parse_bool r)"
  unfolding parse_bool_def lit_Cons consumes_def
  by (auto simp: and_then_eq_Ok good_ident Let_def simp del: consume_ident.simps split: if_splits
      intro!: good_and_then good_kind good_ident good_error dest!: ident_Cons_advanced
      intro: advanced_trans2 read_kind_cases(1) read_kind_wf)

section \<open>Numbers\<close>

lemma skip_digits_moved: "moved r (skip_digits r)"
proof (induction r rule: skip_digits.induct)
  case (1 r)
  then show ?case using moved_bump [of r] by (subst skip_digits.simps) (auto intro: moved_trans)
qed

lemma skip_digits_advanced: "digit_next r \<Longrightarrow> advanced r (skip_digits r)"
  by (subst skip_digits.simps) (auto simp: digit_next_def eof_rest intro: advanced_trans1 advanced_bump skip_digits_moved)

lemma exponent_loop_moved: "moved r (snd (exponent_loop ex r))"
proof (induction ex r rule: exponent_loop.induct)
  case (1 ex r)
  then show ?case using moved_bump [of r] by (subst exponent_loop.simps) (auto simp: Let_def intro: moved_trans)
qed

lemma scan_sign_ok:
  "wf_reader r \<Longrightarrow> good (scan_sign r) \<and> (\<forall>neg r'. scan_sign r = Ok (neg, r') \<longrightarrow> moved r r')"
  using moved_bump [of r] peek_not_eof [of r 0]
  by (auto simp: scan_sign_def take_unit_def and_then_eq_Ok dest: moved_props(1))

lemma digit_there: "0x31 \<le> peek r \<Longrightarrow> peek r \<le> D9 \<Longrightarrow> digit_next r" "0x30 = peek r \<Longrightarrow> rest r \<noteq> []"
  by (cases "rest r = []"; simp add: digit_next_def reader_simps word_le_nat_alt)+

lemma scan_integer_ok:
  "wf_reader r \<Longrightarrow> good (scan_integer r) \<and> (\<forall>r'. scan_integer r = Ok r' \<longrightarrow> advanced r r')"
  using moved_bump [of r] advanced_bump [of r] digit_there [of r] skip_digits_advanced [of r]
  by (auto simp: scan_integer_def take_unit_def and_then_eq_Ok eof_rest dest: moved_props(1))

lemma scan_fraction_ok:
  assumes "wf_reader r"
  shows "good (scan_fraction r) \<and> (\<forall>sp fl r'. scan_fraction r = Ok (sp, fl, r') \<longrightarrow>
    moved r r' \<and> s_begin sp \<le> s_end sp \<and> s_end sp \<le> position r')"
proof (cases "\<not> eof r \<and> peek r = DOT")
  case True
  let ?r1 = "bump r" and ?r2 = "skip_digits (bump r)"
  have m: "moved r ?r1" "moved ?r1 ?r2" by (auto intro: moved_bump skip_digits_moved)
  then have "position ?r1 \<le> position ?r2" "moved r ?r2" by (auto simp: moved_def intro: moved_trans [unfolded moved_def])
  moreover have "wf_reader ?r1" "wf_reader ?r2" using assms m \<open>moved r ?r2\<close> by (blast intro: moved_props)+
  ultimately show ?thesis using True by (auto simp: scan_fraction_def take_unit_def Let_def)
qed (auto simp: scan_fraction_def)

lemma scan_exponent_ok:
  assumes "wf_reader r"
  shows "good (scan_exponent r) \<and> (\<forall>ex fl r'. scan_exponent r = Ok (ex, fl, r') \<longrightarrow> moved r r')"
proof (cases "\<not> eof r \<and> (peek r = 0x65 \<or> peek r = 0x45)")
  case True
  define r2 where "r2 = (if \<not> eof (bump r) \<and> (peek (bump r) = PLUS \<or> peek (bump r) = MINUS) then bump (bump r) else bump r)"
  have "moved r r2" unfolding r2_def using moved_bump [of r] moved_bump [of "bump r"] by (auto intro: moved_trans)
  moreover have "wf_reader r2" using assms \<open>moved r r2\<close> by (blast intro: moved_props)
  ultimately show ?thesis using True exponent_loop_moved [of r2 0] moved_trans [of r r2]
    by (auto simp: scan_exponent_def take_unit_def Let_def r2_def [symmetric] split: prod.splits)
qed (auto simp: scan_exponent_def)

definition token_in :: "number_token \<Rightarrow> nat \<Rightarrow> bool" where
  "token_in t e \<longleftrightarrow> s_begin (t_integer t) \<le> s_end (t_integer t) \<and> s_end (t_integer t) \<le> e \<and>
     s_begin (t_fraction t) \<le> s_end (t_fraction t) \<and> s_end (t_fraction t) \<le> e"

lemma moved_position: "moved r r' \<Longrightarrow> position r \<le> position r'"
  by (auto simp: moved_def)

lemma scan_number_ok:
  assumes "wf_reader r"
  shows "good (scan_number r)" "scan_number r = Ok (t, r') \<Longrightarrow> advanced r r' \<and> token_in t (position r')"
proof -
  have "good (scan_number r) \<and> (\<forall>t r'. scan_number r = Ok (t, r') \<longrightarrow> advanced r r' \<and> token_in t (position r'))"
  proof (cases "\<exists>r0. read_kind r = Ok (KNumber, r0)")
    case True
    then obtain r0 where k: "read_kind r = Ok (KNumber, r0)" by blast
    have m0: "moved r r0" "wf_reader r0" using k assms by (auto dest: read_kind_cases(1) read_kind_wf)
    have s1: "wf_reader r1 \<and> moved r r1" if "scan_sign r0 = Ok (neg, r1)" for neg r1
      using scan_sign_ok [OF m0(2)] m0 that moved_trans by (auto dest: moved_props(1))
    have s2: "wf_reader r2 \<and> advanced r r2 \<and> position r1 \<le> position r2"
      if "scan_sign r0 = Ok (neg, r1)" "scan_integer r1 = Ok r2" for neg r1 r2
      using s1 [OF that(1)] scan_integer_ok [of r1] that(2) advanced_trans2 advanced_moved moved_position
      by (blast dest: moved_props(1))
    have s3: "wf_reader r3 \<and> advanced r r3 \<and> position r1 \<le> position r2 \<and> position r2 \<le> position r3 \<and>
        s_begin sp \<le> s_end sp \<and> s_end sp \<le> position r3"
      if "scan_sign r0 = Ok (neg, r1)" "scan_integer r1 = Ok r2" "scan_fraction r2 = Ok (sp, fl, r3)" for neg r1 r2 sp fl r3
      using s2 [OF that(1,2)] scan_fraction_ok [of r2] that(3) advanced_trans1 moved_position by (blast dest: moved_props(1))
    have s4: "advanced r r4 \<and> position r1 \<le> position r2 \<and> position r2 \<le> position r4 \<and>
        s_begin sp \<le> s_end sp \<and> s_end sp \<le> position r4"
      if "scan_sign r0 = Ok (neg, r1)" "scan_integer r1 = Ok r2" "scan_fraction r2 = Ok (sp, fl, r3)" "scan_exponent r3 = Ok (ex, fl', r4)"
      for neg r1 r2 sp fl r3 ex fl' r4
      using s3 [OF that(1,2,3)] scan_exponent_ok [of r3] that(4) advanced_trans1 [of r r3 r4] moved_position [of r3 r4] by force
    have "good (scan_number r)" unfolding scan_number_def k
      using m0 s1 s2 s3 scan_sign_ok scan_integer_ok scan_fraction_ok scan_exponent_ok
      by (simp, intro good_and_then) (auto intro!: good_and_then)
    moreover have "advanced r r' \<and> token_in t (position r')" if "scan_number r = Ok (t, r')" for t r'
      using that unfolding scan_number_def k
      by (auto simp: and_then_eq_Ok token_in_def dest: s4)
    ultimately show ?thesis by blast
  next
    case False
    then show ?thesis using good_kind [OF assms] read_kind_wf [OF assms] unfolding scan_number_def
      by (cases "read_kind r") (auto simp: good_def)
  qed
  then show "good (scan_number r)" "scan_number r = Ok (t, r') \<Longrightarrow> advanced r r' \<and> token_in t (position r')" by auto
qed

lemma unit_at_Some: "wf_reader r \<Longrightarrow> i < position r \<Longrightarrow> \<exists>u. unit_at r i = Some u"
  by (cases "r_utf16 r") (auto simp: unit_at_def wf_reader_def position_def)

lemma units_at_Some: "wf_reader r \<Longrightarrow> (\<And>i. i \<in> set is \<Longrightarrow> i < position r) \<Longrightarrow> \<exists>us. units_at r is = Some us"
proof (induction "is")
  case (Cons i "is")
  then obtain u us where "unit_at r i = Some u" "units_at r is = Some us" using unit_at_Some by fastforce
  then show ?case by simp
qed simp

lemma span_bytes_Some:
  assumes "wf_reader r" "s_begin sp \<le> s_end sp" "s_end sp \<le> position r"
  shows "\<exists>bs. span_bytes r sp = Some bs"
  using assms units_at_Some [of r "[s_begin sp..<s_end sp]"]
  by (cases "r_utf16 r") (auto simp: span_bytes_def c_view_def wf_reader_def position_def)

text \<open>The documented result of the conversion: an overflow is an error, so a value is finite.\<close>

lemma parse_float_ok:
  assumes "wf_reader r" "token_in t (position r)"
  shows "good (parse_float to_f64 t ov r)"
proof -
  obtain a b where ab: "span_bytes r (t_integer t) = Some a" "span_bytes r (t_fraction t) = Some b"
    using assms span_bytes_Some unfolding token_in_def by blast
  show ?thesis using assms(1) by (auto simp: parse_float_def ab split: sum.splits dec2flt_error.splits)
qed

lemma parse_float_finite:
  assumes "finite_results to_f64" "parse_float to_f64 t Reject r = Ok v"
  shows "is_finite v"
  using assms by (auto simp: parse_float_def finite_results_def split: option.splits sum.splits dec2flt_error.splits if_splits)

lemma floating_ok:
  assumes "wf_reader r" "token_in t (position r)" "finite_results to_f64"
  shows "good (floating to_f64 t r)"
  unfolding floating_def number_from_f64_def
  by (rule good_and_then) (auto simp: parse_float_ok [OF assms(1,2)] parse_float_finite [OF assms(3)])

lemma parse_number_ok:
  assumes "wf_reader r" "finite_results to_f64"
  shows "consumes r (parse_number to_f64 r)"
proof -
  have "good (number_of_token to_f64 t r')" if "scan_number r = Ok (t, r')" for t r'
  proof -
    have a: "advanced r r'" "token_in t (position r')" using scan_number_ok(2) [OF assms(1) that] by auto
    then have w: "wf_reader r'" using assms(1) advanced_moved by (blast intro: moved_props)
    obtain us where "units_at r' [s_begin (t_integer t)..<s_end (t_integer t)] = Some us"
      using units_at_Some [OF w, of "[s_begin (t_integer t)..<s_end (t_integer t)]"] a(2) by (auto simp: token_in_def)
    then show ?thesis using floating_ok [OF w a(2) assms(2)] w by (simp add: number_of_token_def Let_def split: option.splits)
  qed
  then show ?thesis using scan_number_ok [OF assms(1)] unfolding consumes_def parse_number_def
    by (auto simp: and_then_eq_Ok intro!: good_and_then)
qed

section \<open>Containers\<close>

lemma depth_moves:
  "moved r r' \<Longrightarrow> moved (r\<lparr>r_depth := d\<rparr>) (r'\<lparr>r_depth := d\<rparr>)"
  "advanced r r' \<Longrightarrow> advanced (r\<lparr>r_depth := d\<rparr>) (r'\<lparr>r_depth := d\<rparr>)"
  by (auto simp: moved_def advanced_def)

lemma valid_in_depth [simp]: "valid_in (r\<lparr>r_depth := d\<rparr>) = valid_in r"
  by (simp add: valid_in_def)

text \<open>Entering a container takes one level of the budget and the bracket, leaving gives it back.\<close>

definition enters :: "reader \<Rightarrow> reader \<Rightarrow> bool" where
  "enters r r' \<longleftrightarrow> 1 < r_depth r \<and> advanced (r\<lparr>r_depth := r_depth r - 1\<rparr>) r'"

definition leaves :: "reader \<Rightarrow> reader \<Rightarrow> bool" where
  "leaves r r' \<longleftrightarrow> advanced (r\<lparr>r_depth := r_depth r + 1\<rparr>) r'"

lemma good_whitespace_moved: "wf_reader r \<Longrightarrow> moved r r' \<Longrightarrow> good (consume_whitespace r')"
  by (blast intro: good_whitespace moved_props)

lemma begin_container:
  fixes wanted :: value_kind
  assumes "wf_reader r"
  defines "res \<equiv> and_then (read_kind r) (\<lambda>(kind, r1).
     if kind \<noteq> wanted then Err (error r1 ExpectedSomeValue)
     else if r_depth r1 \<le> 1 then Err (error r1 RecursionLimitExceeded)
     else and_then (take_unit (r1\<lparr>r_depth := r_depth r1 - 1\<rparr>)) (\<lambda>(_, r2). consume_whitespace r2))"
  shows "good res" "res = Ok r' \<Longrightarrow> enters r r'"
proof -
  have tk: "take_unit (r1\<lparr>r_depth := d\<rparr>) = Ok (peek r1, (bump r1)\<lparr>r_depth := d\<rparr>)" if "rest r1 \<noteq> []" for r1 d
    using that by (simp add: take_unit_def reader_simps)
  have w2: "wf_reader ((bump r1)\<lparr>r_depth := d\<rparr>)" if "wf_reader r1" for r1 d
    using that moved_bump [of r1] moved_props(1) by simp
  show "good res" unfolding res_def
    by (rule good_after_kind [OF assms(1)]) (use w2 good_whitespace in \<open>auto simp: tk dest!: read_kind_cases(2)\<close>)
  show "enters r r'" if ok: "res = Ok r'"
  proof -
    obtain kd r1 where kd: "read_kind r = Ok (kd, r1)" using ok unfolding res_def by (auto simp: and_then_eq_Ok)
    have k: "read_kind r = Ok (wanted, r1)" "1 < r_depth r1"
      "consume_whitespace ((bump r1)\<lparr>r_depth := r_depth r1 - 1\<rparr>) = Ok r'"
      using ok kd tk [OF read_kind_cases(2) [OF kd]] unfolding res_def by (auto split: if_splits)
    have m: "moved r r1" "rest r1 \<noteq> []" using k(1) read_kind_cases by blast+
    have "advanced r (bump r1)" using m advanced_bump advanced_trans2 by blast
    then have "advanced (r\<lparr>r_depth := r_depth r - 1\<rparr>) ((bump r1)\<lparr>r_depth := r_depth r1 - 1\<rparr>)"
      using depth_moves(2) moved_props(3) [OF m(1)] by metis
    then show ?thesis using k moved_whitespace advanced_trans1 moved_props(3) [OF m(1)] unfolding enters_def by metis
  qed
qed

lemmas begin_array_ok = begin_container [where wanted = KArray, folded begin_array_def]
lemmas begin_object_ok = begin_container [where wanted = KObject, folded begin_object_def]

lemma leave_container_ok:
  assumes "wf_reader r" "rest r \<noteq> []"
  shows "leave_container r = Ok ((bump r)\<lparr>r_depth := r_depth r + 1\<rparr>)" "leaves r ((bump r)\<lparr>r_depth := r_depth r + 1\<rparr>)"
  using assms(2) depth_moves(2) [OF advanced_bump [OF assms(2)], of "r_depth r + 1"]
  by (auto simp: leave_container_def take_unit_def reader_simps leaves_def)

lemma leaves_moved: "moved r r1 \<Longrightarrow> leaves r1 r' \<Longrightarrow> leaves r r'"
  unfolding leaves_def by (rule advanced_trans2 [OF depth_moves(1)]) (simp_all add: moved_props(3))

text \<open>The comma between elements and the white space around it.\<close>

lemma skip_comma_ok:
  assumes "wf_reader r" "rest r \<noteq> []"
  shows "good (skip_comma c r)" "skip_comma c r = Ok r' \<Longrightarrow> advanced r r'"
proof -
  have t: "take_unit r = Ok (peek r, bump r)" "advanced r (bump r)" using assms(2) by (simp_all add: take_unit_def eof_rest advanced_bump)
  then have "good (consume_whitespace (bump r))" using assms(1) good_whitespace_moved advanced_moved by blast
  moreover have "wf_reader r2 \<and> advanced r r2" if "consume_whitespace (bump r) = Ok r2" for r2
    using assms(1) moved_whitespace [OF that] t(2) advanced_trans1 advanced_moved moved_props(1) by blast
  ultimately show "good (skip_comma c r)" "skip_comma c r = Ok r' \<Longrightarrow> advanced r r'"
    unfolding skip_comma_def t by (auto simp: and_then_eq_Ok split: if_splits intro!: good_and_then)
qed

lemma next_array_ok:
  assumes "wf_reader r"
  shows "good (next_array first r)" "next_array first r = Ok (go, first', r') \<Longrightarrow>
    if go then \<not> first' \<and> moved r r' \<and> (\<not> first \<longrightarrow> advanced r r') else leaves r r'"
proof -
  have w: "wf_reader r1" "moved r r1" if "consume_whitespace r = Ok r1" for r1
    using moved_whitespace [OF that] assms moved_props(1) by blast+
  show "good (next_array first r)" unfolding next_array_def
    by (rule good_and_then, rule good_whitespace [OF assms])
       (use w leave_container_ok skip_comma_ok in \<open>auto simp: eof_rest intro!: good_and_then\<close>)
  assume a: "next_array first r = Ok (go, first', r')"
  then obtain r1 where r1: "consume_whitespace r = Ok r1" by (auto simp: next_array_def and_then_eq_Ok)
  note w1 = w [OF r1]
  show "if go then \<not> first' \<and> moved r r' \<and> (\<not> first \<longrightarrow> advanced r r') else leaves r r'"
    using a r1 w1 leave_container_ok [OF w1(1)] skip_comma_ok(2) [OF w1(1)] leaves_moved [OF w1(2)]
      advanced_trans2 [OF w1(2)] advanced_moved by (auto simp: next_array_def and_then_eq_Ok eof_rest split: if_splits)
qed

lemma object_separator_ok:
  assumes "wf_reader r" "rest r \<noteq> []"
  shows "good (object_separator first r)" "object_separator first r = Ok r' \<Longrightarrow> moved r r'"
  using assms skip_comma_ok [OF assms] advanced_moved by (auto simp: object_separator_def split: if_splits)

lemma key_colon_ok:
  assumes "wf_reader r"
  shows "good (key_colon r)" "key_colon r = Ok r' \<Longrightarrow> moved r r'"
proof -
  have x: "wf_reader r4" "moved r r4" if "consume_whitespace r = Ok r4" for r4
    using moved_whitespace [OF that] assms moved_props(1) by blast+
  show "good (key_colon r)" unfolding key_colon_def
    by (rule good_and_then, rule good_whitespace [OF assms])
       (use x moved_bump good_whitespace_moved in \<open>auto simp: take_unit_def\<close>)
  show "key_colon r = Ok r' \<Longrightarrow> moved r r'"
    using x moved_bump moved_trans moved_whitespace unfolding key_colon_def
    by (auto simp: and_then_eq_Ok take_unit_def split: if_splits) blast
qed

lemma read_object_key_ok:
  assumes r: "wf_reader r" "valid_in r"
    and key: "\<And>r. wf_reader r \<Longrightarrow> valid_in r \<Longrightarrow> consumes r (parse_key r)"
  shows "good (read_object_key parse_key first r)"
    "read_object_key parse_key first r = Ok (k, first', r') \<Longrightarrow>
      if k = None then leaves r r' else \<not> first' \<and> advanced r r'"
proof -
  have w: "wf_reader r1" "moved r r1" if "consume_whitespace r = Ok r1" for r1
    using moved_whitespace [OF that] r moved_props(1) by blast+
  have w2: "wf_reader r2" "moved r r2" "valid_in r2"
    if "consume_whitespace r = Ok r1" "rest r1 \<noteq> []" "object_separator first r1 = Ok r2" for r1 r2
    using w [OF that(1)] object_separator_ok [OF _ that(2)] that(3) r moved_props(1) moved_trans valid_in_moved by blast+
  have w3: "good (parse_key r2) \<and> (\<forall>k r3. parse_key r2 = Ok (k, r3) \<longrightarrow> wf_reader r3 \<and> advanced r r3)"
    if "consume_whitespace r = Ok r1" "rest r1 \<noteq> []" "object_separator first r1 = Ok r2" for r1 r2
    using key [OF w2(1,3) [OF that]] w2 [OF that] advanced_moved advanced_trans2 moved_props(1) unfolding consumes_def by blast
  show "good (read_object_key parse_key first r)" unfolding read_object_key_def
    by (rule good_and_then, rule good_whitespace [OF r(1)])
       (use w w2 w3 leave_container_ok object_separator_ok key_colon_ok(1) in \<open>auto simp: eof_rest intro!: good_and_then\<close>)
  assume a: "read_object_key parse_key first r = Ok (k, first', r')"
  then obtain r1 where r1: "consume_whitespace r = Ok r1" "rest r1 \<noteq> []"
    by (auto simp: read_object_key_def and_then_eq_Ok eof_rest split: if_splits)
  show "if k = None then leaves r r' else \<not> first' \<and> advanced r r'"
  proof (cases "peek r1 = RBRACE")
    case True
    then show ?thesis using a r1 leave_container_ok [OF w(1) [OF r1(1)] r1(2)] leaves_moved [OF w(2) [OF r1(1)]]
      by (auto simp: read_object_key_def eof_rest)
  next
    case False
    then obtain r2 key r3 where "object_separator first r1 = Ok r2" "parse_key r2 = Ok (key, r3)" "key_colon r3 = Ok r'"
      "k = Some key" "\<not> first'"
      using a r1 by (auto simp: read_object_key_def and_then_eq_Ok eof_rest split: if_splits)
    then show ?thesis using w3 [OF r1] key_colon_ok(2) advanced_trans1 by auto
  qed
qed

lemma next_object_key_ok:
  assumes r: "wf_reader r" "valid_in r"
  shows "good (next_object_key first r)"
    "next_object_key first r = Ok (k, first', r') \<Longrightarrow> if k = None then leaves r r' else \<not> first' \<and> advanced r r'"
  using read_object_key_ok [OF r, of parse_string] parse_string_ok(1) unfolding next_object_key_def by blast+

end
