(* ===== verification/Json_Parser.thy ===== *)
theory Json_Parser
  imports Json_Progress Ordered_Map "HOL-Library.List_Lexorder"
begin

text \<open>
  The parser that builds JSON values, src/json/src/parser.cpp.  An object is the sorted association
  list that \<open>BTree\<close> proves the B-tree map to implement (\<open>Map\<close> is \<open>BTreeMap<String, Value>\<close>), keyed by
  byte strings in lexicographic order.  The recursion of \<open>parse_value\<close>, \<open>parse_array\<close> and
  \<open>parse_object\<close> carries a bound; \<open>parse_fuel\<close> is the bound \<open>from_str\<close> starts with, and the theorems
  show that it is never used up.
\<close>

section \<open>The code\<close>

datatype json =
    Null
  | Bool bool
  | Number number
  | String "u8 list"
  | Array "json list"
  | Object "(u8 list \<times> json) list"

fun parse_value :: "dec2flt \<Rightarrow> nat \<Rightarrow> reader \<Rightarrow> (json \<times> reader) json_result"
  and parse_array_loop :: "dec2flt \<Rightarrow> nat \<Rightarrow> json list \<Rightarrow> bool \<Rightarrow> reader \<Rightarrow> (json \<times> reader) json_result"
  and parse_object_loop ::
    "dec2flt \<Rightarrow> nat \<Rightarrow> (u8 list \<times> json) list \<Rightarrow> bool \<Rightarrow> reader \<Rightarrow> (json \<times> reader) json_result" where
  "parse_value to_f64 0 r0 = Err Fuel_out"
| "parse_value to_f64 (Suc fuel) r0 = and_then (read_kind r0) (\<lambda>(kind, r).
     case kind of
       KNull \<Rightarrow> and_then (parse_null r) (\<lambda>r1. Ok (Null, r1))
     | KBoolean \<Rightarrow> and_then (parse_bool r) (\<lambda>(b, r1). Ok (Bool b, r1))
     | KNumber \<Rightarrow> and_then (parse_number to_f64 r) (\<lambda>(n, r1). Ok (Number n, r1))
     | KString \<Rightarrow> and_then (parse_string r) (\<lambda>(s, r1). Ok (String s, r1))
     | KArray \<Rightarrow> and_then (begin_array r) (parse_array_loop to_f64 fuel [] True)
     | KObject \<Rightarrow> and_then (begin_object r) (parse_object_loop to_f64 fuel [] True))"
| "parse_array_loop to_f64 0 vals first r = Err Fuel_out"
| "parse_array_loop to_f64 (Suc fuel) vals first r = and_then (next_array first r) (\<lambda>(more, first', r1).
     if \<not> more then Ok (Array vals, r1)
     else and_then (parse_value to_f64 fuel r1) (\<lambda>(v, r2).
       parse_array_loop to_f64 fuel (vals @ [v]) first' r2))"
| "parse_object_loop to_f64 0 vals first r = Err Fuel_out"
| "parse_object_loop to_f64 (Suc fuel) vals first r = and_then (next_object_key first r) (\<lambda>(key, first', r1).
     case key of
       None \<Rightarrow> Ok (Object vals, r1)
     | Some k \<Rightarrow> and_then (parse_value to_f64 fuel r1) (\<lambda>(v, r2).
         if reject_duplicate_keys (r_options r2) \<and> map_of vals k \<noteq> None then Err (duplicate_key_error r2)
         else parse_object_loop to_f64 fuel (ins k v vals) first' r2))"

definition parse_fuel :: "reader \<Rightarrow> nat" where
  "parse_fuel r = 2 * left r + 1"

definition parse :: "dec2flt \<Rightarrow> reader \<Rightarrow> json json_result" where
  "parse to_f64 r0 = and_then (parse_value to_f64 (parse_fuel r0) r0) (\<lambda>(v, r1).
     and_then (finish r1) (\<lambda>_. Ok v))"

definition invalid_unicode_error :: "u8 list \<Rightarrow> nat \<Rightarrow> json_error failure" where
  "invalid_unicode_error inp offset =
    (case source_position_at (make_cursor inp) offset of
       None \<Rightarrow> Panics
     | Some (line, column) \<Rightarrow>
         Fails \<lparr>e_code = InvalidUnicodeCodePoint, e_line = line, e_column = column, e_offset = offset\<rparr>)"

definition from_str :: "dec2flt \<Rightarrow> u8 list \<Rightarrow> parse_options \<Rightarrow> json json_result" where
  "from_str to_f64 inp opts = parse to_f64 (reader_of_str inp opts)"

definition from_slice :: "dec2flt \<Rightarrow> u8 list \<Rightarrow> parse_options \<Rightarrow> json json_result" where
  "from_slice to_f64 inp opts =
    (case from_utf8 inp of
       Err er \<Rightarrow> Err (invalid_unicode_error inp (valid_up_to er))
     | Ok txt \<Rightarrow> from_str to_f64 txt opts)"

section \<open>Values a parse can return\<close>

text \<open>
  The type invariants the classes rely on: a \<open>String\<close> is well-formed UTF-8, the keys of a \<open>Map\<close> are in
  order and distinct, a signed number is negative (\<open>from_i64\<close> stores the others unsigned) and a
  floating one finite.
\<close>

fun valid_number :: "number \<Rightarrow> bool" where
  "valid_number (Unsigned n) = True"
| "valid_number (Signed n) = (n <s 0)"
| "valid_number (Float f) = is_finite f"

fun valid_json :: "json \<Rightarrow> bool" where
  "valid_json Null = True"
| "valid_json (Bool b) = True"
| "valid_json (Number n) = valid_number n"
| "valid_json (String s) = is_valid_utf8 s"
| "valid_json (Array vs) = list_all valid_json vs"
| "valid_json (Object ms) = (sorted1 ms \<and> list_all (\<lambda>m. is_valid_utf8 (fst m) \<and> valid_json (snd m)) ms)"

section \<open>Every parse returns\<close>

lemma enters_leaves: "enters r r1 \<Longrightarrow> leaves r1 r' \<Longrightarrow> advanced r r'"
proof -
  assume "enters r r1" "leaves r1 r'"
  then obtain n m where n: "1 < r_depth r" "0 < n" "n \<le> length (rest r)" "r1 = (adv n r)\<lparr>r_depth := r_depth r - 1\<rparr>"
    and m: "m \<le> length (rest r1)" "r' = adv m (r1\<lparr>r_depth := r_depth r1 + 1\<rparr>)"
    by (auto simp: enters_def leaves_def advanced_def)
  then have "r' = adv (n + m) r" by (simp add: reader_simps depth_same)
  then show ?thesis unfolding advanced_def using n(2-4) m(1) by (intro exI [of _ "n + m"]) (simp add: reader_simps)
qed

definition text_in :: "reader \<Rightarrow> bool" where
  "text_in r \<longleftrightarrow> wf_reader r \<and> valid_in r"

lemma text_in_moved: "text_in r \<Longrightarrow> moved r r' \<Longrightarrow> text_in r'"
  by (auto simp: text_in_def valid_in_moved dest: moved_props)

lemma text_in_advanced: "text_in r \<Longrightarrow> advanced r r' \<Longrightarrow> text_in r'"
  by (blast intro: text_in_moved advanced_moved)

lemma text_in_enters: "text_in r \<Longrightarrow> enters r r' \<Longrightarrow> text_in r' \<and> length (rest r') < length (rest r)"
  using text_in_advanced [of "r\<lparr>r_depth := r_depth r - 1\<rparr>" r'] advanced_less [of "r\<lparr>r_depth := r_depth r - 1\<rparr>" r']
  by (auto simp: enters_def text_in_def)

text \<open>What a parse promises: no panic, progress, and a value that satisfies the type invariants.\<close>

definition value_ok :: "reader \<Rightarrow> (json \<times> reader) json_result \<Rightarrow> bool" where
  "value_ok r res \<longleftrightarrow> good res \<and> (\<forall>v r'. res = Ok (v, r') \<longrightarrow> advanced r r' \<and> valid_json v)"

definition loop_ok :: "reader \<Rightarrow> (json \<times> reader) json_result \<Rightarrow> bool" where
  "loop_ok r res \<longleftrightarrow> good res \<and> (\<forall>v r'. res = Ok (v, r') \<longrightarrow> leaves r r' \<and> valid_json v)"

lemma loop_ok_moved: "moved r r1 \<Longrightarrow> loop_ok r1 res \<Longrightarrow> loop_ok r res"
  unfolding loop_ok_def using leaves_moved by blast

lemma loop_ok_step:
  assumes "moved r r1" "value_ok r1 res" "\<And>v r2. res = Ok (v, r2) \<Longrightarrow> valid_json v \<Longrightarrow> advanced r1 r2 \<Longrightarrow> loop_ok r2 (f v r2)"
  shows "loop_ok r (and_then res (\<lambda>(v, r2). f v r2))"
proof (cases res)
  case (Inl e)
  then show ?thesis using assms(2) by (auto simp: loop_ok_def value_ok_def good_def)
next
  case (Inr p)
  then obtain v r2 where p: "res = Ok (v, r2)" by (cases p) auto
  then have "valid_json v" "advanced r1 r2" using assms(2) by (auto simp: value_ok_def)
  then show ?thesis using assms(3) [OF p] loop_ok_moved [OF moved_trans [OF assms(1) advanced_moved]] p by auto
qed

lemma value_ok_container:
  assumes "good res" "\<And>r1. res = Ok r1 \<Longrightarrow> enters r r1 \<and> loop_ok r1 (f r1)"
  shows "value_ok r (and_then res f)"
  using assms enters_leaves by (cases res) (auto simp: value_ok_def loop_ok_def good_def)

lemma value_ok_token: "consumes r res \<Longrightarrow> (\<And>x r'. res = Ok (x, r') \<Longrightarrow> valid_json (f x)) \<Longrightarrow>
    value_ok r (and_then res (\<lambda>(x, r'). Ok (f x, r')))"
  by (auto simp: value_ok_def consumes_def and_then_eq_Ok intro!: good_and_then)

lemma number_of_token_cases:
  "number_of_token to_f64 t r = Ok n \<Longrightarrow>
    (\<exists>m. n = Unsigned m) \<or> (\<exists>m. n = number_from_i64 m) \<or> floating to_f64 t r = Ok n"
  by (auto simp: number_of_token_def Let_def split: option.splits if_splits)

lemma parse_number_valid:
  assumes "finite_results to_f64" "parse_number to_f64 r = Ok (n, r')"
  shows "valid_number n"
proof -
  have fl: "valid_number m" if "floating to_f64 t r1 = Ok m" for t r1 m
    using that parse_float_finite [OF assms(1)]
    by (auto simp: floating_def and_then_eq_Ok number_from_f64_def split: option.splits if_splits)
  obtain t where "number_of_token to_f64 t r' = Ok n" using assms(2) by (auto simp: parse_number_def and_then_eq_Ok)
  then show ?thesis using number_of_token_cases [of to_f64 t r' n] fl by (auto simp: number_from_i64_def)
qed

lemma value_round:
  assumes r: "text_in r" and fin: "finite_results to_f64"
    and arr: "\<And>r1. text_in r1 \<Longrightarrow> length (rest r1) < length (rest r) \<Longrightarrow> loop_ok r1 (parse_array_loop to_f64 fuel [] True r1)"
    and obj: "\<And>r1. text_in r1 \<Longrightarrow> length (rest r1) < length (rest r) \<Longrightarrow> loop_ok r1 (parse_object_loop to_f64 fuel [] True r1)"
  shows "value_ok r (parse_value to_f64 (Suc fuel) r)"
proof (cases "read_kind r")
  case (Inl e)
  then show ?thesis using good_kind [of r] r by (auto simp: value_ok_def good_def text_in_def)
next
  case (Inr p)
  obtain kind r1 where p: "p = (kind, r1)" by (cases p)
  have m: "moved r r1" using Inr p read_kind_cases(1) by simp
  have t: "text_in r1" using text_in_moved [OF r m] .
  then have w: "wf_reader r1" "valid_in r1" by (auto simp: text_in_def)
  have sub: "text_in r2 \<and> length (rest r2) < length (rest r)" if "enters r1 r2" for r2
    using text_in_enters [OF t that] moved_props(5) [OF m] by simp
  have "value_ok r1 (parse_value to_f64 (Suc fuel) r)"
  proof (cases kind)
    case KNull
    then show ?thesis using Inr p parse_null_ok [OF w(1)] by (auto simp: value_ok_def and_then_eq_Ok intro!: good_and_then)
  next
    case KBoolean
    then show ?thesis using Inr p value_ok_token [OF parse_bool_ok [OF w(1)], of Bool] by simp
  next
    case KNumber
    then show ?thesis using Inr p value_ok_token [OF parse_number_ok [OF w(1) fin], of Number] parse_number_valid [OF fin] by simp
  next
    case KString
    then show ?thesis using Inr p value_ok_token [OF parse_string_ok(1) [OF w], of String] parse_string_ok(2) [OF w] by simp
  next
    case KArray
    then show ?thesis using Inr p begin_array_ok [OF w(1)] arr sub by (auto intro!: value_ok_container)
  next
    case KObject
    then show ?thesis using Inr p begin_object_ok [OF w(1)] obj sub by (auto intro!: value_ok_container)
  qed
  then show ?thesis using m advanced_trans2 unfolding value_ok_def by blast
qed

lemma array_round:
  assumes r: "text_in r" and vals: "list_all valid_json vals"
    and val: "\<And>r1. text_in r1 \<Longrightarrow> length (rest r1) \<le> length (rest r) \<Longrightarrow> value_ok r1 (parse_value to_f64 fuel r1)"
    and loop: "\<And>vs r1. list_all valid_json vs \<Longrightarrow> text_in r1 \<Longrightarrow> length (rest r1) < length (rest r) \<Longrightarrow>
      loop_ok r1 (parse_array_loop to_f64 fuel vs False r1)"
  shows "loop_ok r (parse_array_loop to_f64 (Suc fuel) vals first r)"
proof (cases "next_array first r")
  case (Inl e)
  then show ?thesis using next_array_ok(1) [of r first] r by (auto simp: loop_ok_def good_def text_in_def)
next
  case (Inr p)
  obtain go first' r1 where p: "next_array first r = Ok (go, first', r1)" using Inr by (cases p) auto
  note n = next_array_ok(2) [OF _ p]
  show ?thesis
  proof (cases go)
    case False
    then show ?thesis using n p r vals by (auto simp: loop_ok_def text_in_def)
  next
    case True
    then have m: "moved r r1" "\<not> first'" using n r by (auto simp: text_in_def)
    have t: "text_in r1" "length (rest r1) \<le> length (rest r)" using r m by (auto intro: text_in_moved dest: moved_props(5))
    have "loop_ok r2 (parse_array_loop to_f64 fuel (vals @ [v]) False r2)" if "valid_json v" "advanced r1 r2" for v r2
      using loop [of "vals @ [v]" r2] that vals text_in_advanced [OF t(1) that(2)] advanced_less [OF that(2)] t(2) by simp
    then show ?thesis using loop_ok_step [OF m(1) val [OF t]] p True m(2) by simp
  qed
qed

lemma next_object_key_valid:
  assumes "wf_reader r" "valid_in r" "next_object_key first r = Ok (Some k, first', r')"
  shows "is_valid_utf8 k"
proof -
  obtain r1 r2 r3 where r: "consume_whitespace r = Ok r1" "rest r1 \<noteq> []" "object_separator first r1 = Ok r2"
    "parse_string r2 = Ok (k, r3)"
    using assms(3) by (auto simp: next_object_key_def read_object_key_def and_then_eq_Ok eof_rest split: if_splits)
  have m1: "moved r r1" using moved_whitespace r(1) by blast
  then have "wf_reader r1" using assms(1) moved_props(1) by blast
  then have "moved r r2" using object_separator_ok(2) r m1 moved_trans by blast
  then show ?thesis using parse_string_ok(2) [OF _ _ r(4)] assms(1,2) by (auto simp: valid_in_moved dest: moved_props)
qed

lemma object_round:
  assumes r: "text_in r" and vals: "valid_json (Object vals)"
    and val: "\<And>r1. text_in r1 \<Longrightarrow> length (rest r1) \<le> length (rest r) \<Longrightarrow> value_ok r1 (parse_value to_f64 fuel r1)"
    and loop: "\<And>vs r1. valid_json (Object vs) \<Longrightarrow> text_in r1 \<Longrightarrow> length (rest r1) < length (rest r) \<Longrightarrow>
      loop_ok r1 (parse_object_loop to_f64 fuel vs False r1)"
  shows "loop_ok r (parse_object_loop to_f64 (Suc fuel) vals first r)"
proof (cases "next_object_key first r")
  case (Inl e)
  then show ?thesis using next_object_key_ok(1) [of r first] r by (auto simp: loop_ok_def good_def text_in_def)
next
  case (Inr p)
  obtain key first' r1 where p: "next_object_key first r = Ok (key, first', r1)" using Inr by (cases p) auto
  note n = next_object_key_ok(2) [OF _ _ p]
  show ?thesis
  proof (cases key)
    case None
    then show ?thesis using n p r vals by (auto simp: loop_ok_def text_in_def)
  next
    case (Some k)
    then have m: "moved r r1" "\<not> first'" using n r by (auto simp: text_in_def intro: advanced_moved)
    have k: "is_valid_utf8 k" using next_object_key_valid [of r first] p Some r by (auto simp: text_in_def)
    have t: "text_in r1" "length (rest r1) \<le> length (rest r)" using r m by (auto intro: text_in_moved dest: moved_props(5))
    have "loop_ok r2 (if reject_duplicate_keys (r_options r2) \<and> map_of vals k \<noteq> None then Err (duplicate_key_error r2)
         else parse_object_loop to_f64 fuel (ins k v vals) False r2)" if "valid_json v" "advanced r1 r2" for v r2
    proof -
      have t2: "text_in r2" "length (rest r2) < length (rest r)"
        using text_in_advanced [OF t(1) that(2)] advanced_less [OF that(2)] t(2) by auto
      have "valid_json (Object (ins k v vals))" using vals that(1) k sorted1_ins [of vals k v]
        by (auto simp: list_all_iff ins_def)
      then show ?thesis using loop [OF _ t2, of "ins k v vals"] t2(1)
        by (auto simp: loop_ok_def duplicate_key_error_def text_in_def)
    qed
    then show ?thesis using loop_ok_step [OF m(1) val [OF t]] p Some m(2) by simp
  qed
qed

lemma parse_total_fuel:
  assumes fin: "finite_results to_f64"
  shows "(\<forall>r. text_in r \<longrightarrow> 2 * length (rest r) + 1 \<le> fuel \<longrightarrow> value_ok r (parse_value to_f64 fuel r)) \<and>
    (\<forall>r vals first. text_in r \<longrightarrow> list_all valid_json vals \<longrightarrow> 2 * length (rest r) + 2 \<le> fuel \<longrightarrow>
      loop_ok r (parse_array_loop to_f64 fuel vals first r)) \<and>
    (\<forall>r vals first. text_in r \<longrightarrow> valid_json (Object vals) \<longrightarrow> 2 * length (rest r) + 2 \<le> fuel \<longrightarrow>
      loop_ok r (parse_object_loop to_f64 fuel vals first r))"
proof (induction fuel)
  case (Suc fuel)
  show ?case
  proof (intro conjI allI impI)
    fix r assume "text_in r" "2 * length (rest r) + 1 \<le> Suc fuel"
    then show "value_ok r (parse_value to_f64 (Suc fuel) r)" using Suc.IH by (intro value_round [OF _ fin]) auto
  next
    fix r vals first assume "text_in r" "list_all valid_json vals" "2 * length (rest r) + 2 \<le> Suc fuel"
    then show "loop_ok r (parse_array_loop to_f64 (Suc fuel) vals first r)" using Suc.IH by (intro array_round) auto
  next
    fix r vals first assume "text_in r" "valid_json (Object vals)" "2 * length (rest r) + 2 \<le> Suc fuel"
    then show "loop_ok r (parse_object_loop to_f64 (Suc fuel) vals first r)"
      using Suc.IH by (intro object_round) (auto simp del: valid_json.simps)
  qed
qed simp

lemma text_in_of_str: "is_valid_utf8 inp \<Longrightarrow> text_in (reader_of_str inp opts)"
  by (simp add: text_in_def wf_reader_def valid_in_def reader_of_str_def make_cursor_def)

lemma finish_good: "wf_reader r \<Longrightarrow> good (finish r)"
  unfolding finish_def by (rule good_and_then, erule good_whitespace) (auto dest: moved_whitespace moved_props(1))

lemma from_str_ok:
  assumes "finite_results to_f64" "is_valid_utf8 inp"
  shows "good (from_str to_f64 inp opts)" "from_str to_f64 inp opts = Ok v \<Longrightarrow> valid_json v"
proof -
  let ?r = "reader_of_str inp opts"
  have v: "value_ok ?r (parse_value to_f64 (parse_fuel ?r) ?r)"
    by (rule parse_total_fuel [OF assms(1), THEN conjunct1, rule_format, OF text_in_of_str [OF assms(2)]])
       (simp add: parse_fuel_def left_rest)
  have w: "wf_reader r'" if "parse_value to_f64 (parse_fuel ?r) ?r = Ok (x, r')" for x r'
  proof -
    have "advanced ?r r'" using v that unfolding value_ok_def by blast
    from text_in_advanced [OF text_in_of_str [OF assms(2)] this] show ?thesis by (simp add: text_in_def)
  qed
  show "good (from_str to_f64 inp opts)" unfolding from_str_def parse_def
    by (rule good_and_then) (use v w finish_good in \<open>auto simp: value_ok_def intro!: good_and_then\<close>)
  show "from_str to_f64 inp opts = Ok v \<Longrightarrow> valid_json v"
    using v by (auto simp: from_str_def parse_def value_ok_def and_then_eq_Ok)
qed

section \<open>Skipping a value\<close>

text \<open>The reader of a result, when the parsed value is dropped.\<close>

definition skipped :: "(json \<times> reader) json_result \<Rightarrow> reader json_result" where
  "skipped res = and_then res (\<lambda>(_, r). Ok r)"

lemma skipped_simps [simp]: "skipped (Err e) = Err e" "skipped (Ok (v, r)) = Ok r"
  by (simp_all add: skipped_def)

lemma skipped_and_then: "skipped (and_then res f) = and_then res (\<lambda>x. skipped (f x))"
  by (cases res) simp_all

lemma skipped_split: "skipped (case p of (x, y) \<Rightarrow> f x y) = (case p of (x, y) \<Rightarrow> skipped (f x y))"
  by (cases p) simp

text \<open>Skipping follows parsing: the same place or the same error, except that a parser that rejects repeated
  keys (\<open>d\<close>) may stop at one, which skipping does not look for.\<close>

definition follows :: "bool \<Rightarrow> reader json_result \<Rightarrow> (json \<times> reader) json_result \<Rightarrow> bool" where
  "follows d skip res \<longleftrightarrow> skip = skipped res \<or> d \<and> (\<exists>r. res = Err (duplicate_key_error r))"

lemma follows_skipped [simp]: "follows d (skipped res) res"
  by (simp add: follows_def)

lemma follows_and_then:
  assumes "follows d skip res" "\<And>v r. res = Ok (v, r) \<Longrightarrow> follows d (f r) (g v r)"
  shows "follows d (and_then skip f) (and_then res (\<lambda>(v, r). g v r))"
proof (cases res)
  case (Inl e)
  then show ?thesis using assms(1) by (auto simp: follows_def)
next
  case (Inr p)
  then show ?thesis using assms by (cases p) (auto simp: follows_def)
qed

lemma follows_same: "(\<And>x. res = Ok x \<Longrightarrow> follows d (f x) (g x)) \<Longrightarrow> follows d (and_then res f) (and_then res g)"
  by (cases res) (auto simp: follows_def)

definition keyed_in :: "bool \<Rightarrow> reader \<Rightarrow> bool" where
  "keyed_in d r \<longleftrightarrow> text_in r \<and> reject_duplicate_keys (r_options r) = d"

lemma keyed_moved: "keyed_in d r \<Longrightarrow> moved r r' \<Longrightarrow> keyed_in d r'"
  using text_in_moved [of r r'] moved_props(2) [of r r'] by (auto simp: keyed_in_def)

lemma keyed_enters: "keyed_in d r \<Longrightarrow> enters r r' \<Longrightarrow> keyed_in d r' \<and> length (rest r') < length (rest r)"
  using text_in_enters [of r r'] moved_props(2) [OF advanced_moved [of "r\<lparr>r_depth := r_depth r - 1\<rparr>" r']]
  by (auto simp: keyed_in_def enters_def)

lemma keyed_value:
  assumes "finite_results to_f64" "keyed_in d r" "2 * length (rest r) + 1 \<le> fuel" "parse_value to_f64 fuel r = Ok (v, r')"
  shows "keyed_in d r' \<and> length (rest r') < length (rest r)"
proof -
  have "text_in r" using assms(2) by (simp add: keyed_in_def)
  then have "advanced r r'" using parse_total_fuel [OF assms(1)] assms(3,4) unfolding value_ok_def by blast
  then show ?thesis using keyed_moved [OF assms(2)] advanced_moved advanced_less by blast
qed

lemma skip_value_round:
  assumes r: "keyed_in d r"
    and arr: "\<And>r1. keyed_in d r1 \<Longrightarrow> length (rest r1) < length (rest r) \<Longrightarrow>
      follows d (skip_array_loop to_f64 fuel True r1) (parse_array_loop to_f64 fuel [] True r1)"
    and obj: "\<And>r1. keyed_in d r1 \<Longrightarrow> length (rest r1) < length (rest r) \<Longrightarrow>
      follows d (skip_object_loop to_f64 fuel True r1) (parse_object_loop to_f64 fuel [] True r1)"
  shows "follows d (skip_value to_f64 (Suc fuel) r) (parse_value to_f64 (Suc fuel) r)"
proof (cases "read_kind r")
  case (Inr p)
  obtain kind r1 where p: "p = (kind, r1)" by (cases p)
  have m: "moved r r1" using Inr p read_kind_cases(1) by simp
  have l1: "keyed_in d r1" using keyed_moved [OF r m] .
  then have w: "wf_reader r1" by (simp add: keyed_in_def text_in_def)
  have sub: "keyed_in d r2 \<and> length (rest r2) < length (rest r)" if "enters r1 r2" for r2
    using keyed_enters [OF l1 that] moved_props(5) [OF m] by simp
  have eq: "follows d x res" if "x = skipped res" for x res using that by simp
  have n: "and_then (parse_null r1) Ok = parse_null r1" by (cases "parse_null r1") simp_all
  show ?thesis
  proof (cases kind)
    case KArray
    then show ?thesis using Inr p by (auto intro!: follows_same arr dest!: begin_array_ok(2) [OF w] sub)
  next
    case KObject
    then show ?thesis using Inr p by (auto intro!: follows_same obj dest!: begin_object_ok(2) [OF w] sub)
  qed (use Inr p n in \<open>auto simp: skipped_and_then skipped_split intro!: eq\<close>)
qed (simp add: follows_def)

lemma skip_array_round:
  assumes r: "keyed_in d r" and fuel: "2 * length (rest r) + 2 \<le> Suc fuel" and fin: "finite_results to_f64"
    and val: "\<And>r1. keyed_in d r1 \<Longrightarrow> 2 * length (rest r1) + 1 \<le> fuel \<Longrightarrow> follows d (skip_value to_f64 fuel r1) (parse_value to_f64 fuel r1)"
    and loop: "\<And>vs first r1. keyed_in d r1 \<Longrightarrow> 2 * length (rest r1) + 2 \<le> fuel \<Longrightarrow>
      follows d (skip_array_loop to_f64 fuel first r1) (parse_array_loop to_f64 fuel vs first r1)"
  shows "follows d (skip_array_loop to_f64 (Suc fuel) first r) (parse_array_loop to_f64 (Suc fuel) vals first r)"
proof (cases "next_array first r")
  case (Inr p)
  obtain go first' r1 where p: "next_array first r = Ok (go, first', r1)" using Inr by (cases p) auto
  show ?thesis
  proof (cases go)
    case True
    then have m: "moved r r1" using next_array_ok(2) [OF _ p] r by (simp add: keyed_in_def text_in_def)
    have l1: "keyed_in d r1" "2 * length (rest r1) + 1 \<le> fuel" using keyed_moved [OF r m] moved_props(5) [OF m] fuel by auto
    have "follows d (skip_array_loop to_f64 fuel first' r2) (parse_array_loop to_f64 fuel (vals @ [v]) first' r2)"
      if "parse_value to_f64 fuel r1 = Ok (v, r2)" for v r2
      using keyed_value [OF fin l1 that] l1(2) by (intro loop) auto
    then show ?thesis using follows_and_then [OF val [OF l1]] p True by simp
  qed (use p in \<open>simp add: follows_def\<close>)
qed (simp add: follows_def)

lemma skip_object_round:
  assumes r: "keyed_in d r" and fuel: "2 * length (rest r) + 2 \<le> Suc fuel" and fin: "finite_results to_f64"
    and val: "\<And>r1. keyed_in d r1 \<Longrightarrow> 2 * length (rest r1) + 1 \<le> fuel \<Longrightarrow> follows d (skip_value to_f64 fuel r1) (parse_value to_f64 fuel r1)"
    and loop: "\<And>vs first r1. keyed_in d r1 \<Longrightarrow> 2 * length (rest r1) + 2 \<le> fuel \<Longrightarrow>
      follows d (skip_object_loop to_f64 fuel first r1) (parse_object_loop to_f64 fuel vs first r1)"
  shows "follows d (skip_object_loop to_f64 (Suc fuel) first r) (parse_object_loop to_f64 (Suc fuel) vals first r)"
proof (cases "next_object_key first r")
  case (Inr p)
  obtain key first' r1 where p: "next_object_key first r = Ok (key, first', r1)" using Inr by (cases p) auto
  show ?thesis
  proof (cases key)
    case (Some k)
    then have m: "moved r r1" using next_object_key_ok(2) [OF _ _ p] r advanced_moved by (simp add: keyed_in_def text_in_def)
    have l1: "keyed_in d r1" "2 * length (rest r1) + 1 \<le> fuel" using keyed_moved [OF r m] moved_props(5) [OF m] fuel by auto
    have "follows d (skip_object_loop to_f64 fuel first' r2)
        (if reject_duplicate_keys (r_options r2) \<and> map_of vals k \<noteq> None then Err (duplicate_key_error r2)
         else parse_object_loop to_f64 fuel (ins k v vals) first' r2)"
      if "parse_value to_f64 fuel r1 = Ok (v, r2)" for v r2
    proof -
      have "keyed_in d r2" "2 * length (rest r2) + 2 \<le> fuel" using keyed_value [OF fin l1 that] l1(2) by auto
      then show ?thesis using loop by (auto simp: keyed_in_def follows_def)
    qed
    then show ?thesis using follows_and_then [OF val [OF l1]] p Some by simp
  qed (use p in \<open>simp add: follows_def\<close>)
qed (simp add: follows_def)

lemma skip_value_fuel:
  assumes fin: "finite_results to_f64"
  shows "(\<forall>r. keyed_in d r \<longrightarrow> 2 * length (rest r) + 1 \<le> fuel \<longrightarrow> follows d (skip_value to_f64 fuel r) (parse_value to_f64 fuel r)) \<and>
    (\<forall>r vals first. keyed_in d r \<longrightarrow> 2 * length (rest r) + 2 \<le> fuel \<longrightarrow>
      follows d (skip_array_loop to_f64 fuel first r) (parse_array_loop to_f64 fuel vals first r)) \<and>
    (\<forall>r vals first. keyed_in d r \<longrightarrow> 2 * length (rest r) + 2 \<le> fuel \<longrightarrow>
      follows d (skip_object_loop to_f64 fuel first r) (parse_object_loop to_f64 fuel vals first r))"
proof (induction fuel)
  case (Suc fuel)
  show ?case
  proof (intro conjI allI impI)
    fix r assume "keyed_in d r" "2 * length (rest r) + 1 \<le> Suc fuel"
    then show "follows d (skip_value to_f64 (Suc fuel) r) (parse_value to_f64 (Suc fuel) r)"
      by (intro skip_value_round) (use Suc.IH in auto)
  next
    fix r vals first assume "keyed_in d r" "2 * length (rest r) + 2 \<le> Suc fuel"
    then show "follows d (skip_array_loop to_f64 (Suc fuel) first r) (parse_array_loop to_f64 (Suc fuel) vals first r)"
      using Suc.IH by (intro skip_array_round [OF _ _ fin]; blast)
  next
    fix r vals first assume "keyed_in d r" "2 * length (rest r) + 2 \<le> Suc fuel"
    then show "follows d (skip_object_loop to_f64 (Suc fuel) first r) (parse_object_loop to_f64 (Suc fuel) vals first r)"
      using Suc.IH by (intro skip_object_round [OF _ _ fin]; blast)
  qed
qed simp

section \<open>Depth of nesting\<close>

fun nesting :: "json \<Rightarrow> nat" where
  "nesting (Array vs) = Suc (foldr (\<lambda>v. max (nesting v)) vs 0)"
| "nesting (Object ms) = Suc (foldr (\<lambda>m. max (nesting (snd m))) ms 0)"
| "nesting Null = 0"
| "nesting (Bool b) = 0"
| "nesting (Number n) = 0"
| "nesting (String s) = 0"

lemma foldr_max_le: "foldr (\<lambda>x. max (f x)) xs 0 \<le> n \<longleftrightarrow> (\<forall>x \<in> set xs. f x \<le> (n :: nat))"
  by (induction xs) auto

lemma nesting_le:
  "nesting (Array vs) \<le> d \<longleftrightarrow> 0 < d \<and> (\<forall>v \<in> set vs. nesting v \<le> d - 1)"
  "nesting (Object ms) \<le> d \<longleftrightarrow> 0 < d \<and> (\<forall>m \<in> set ms. nesting (snd m) \<le> d - 1)"
  by (cases d; simp add: foldr_max_le)+

declare nesting.simps(1,2) [simp del]

lemma parse_value_step:
  assumes "finite_results to_f64" "text_in r" "2 * length (rest r) + 1 \<le> fuel" "parse_value to_f64 fuel r = Ok (v, r')"
  shows "text_in r'" "r_depth r' = r_depth r" "length (rest r') < length (rest r)"
proof -
  have a: "advanced r r'" using parse_total_fuel [OF assms(1)] assms(2-4) unfolding value_ok_def by blast
  show "text_in r'" "r_depth r' = r_depth r" "length (rest r') < length (rest r)"
    using text_in_advanced [OF assms(2) a] moved_props(3) [OF advanced_moved [OF a]] advanced_less [OF a] by auto
qed

lemma nesting_value_round:
  assumes r: "text_in r" and ok: "parse_value to_f64 (Suc fuel) r = Ok (v, r')"
    and arr: "\<And>r1 w r2. text_in r1 \<Longrightarrow> length (rest r1) < length (rest r) \<Longrightarrow> 0 < r_depth r1 \<Longrightarrow>
      parse_array_loop to_f64 fuel [] True r1 = Ok (w, r2) \<Longrightarrow> nesting w \<le> r_depth r1"
    and obj: "\<And>r1 w r2. text_in r1 \<Longrightarrow> length (rest r1) < length (rest r) \<Longrightarrow> 0 < r_depth r1 \<Longrightarrow>
      parse_object_loop to_f64 fuel [] True r1 = Ok (w, r2) \<Longrightarrow> nesting w \<le> r_depth r1"
  shows "nesting v \<le> r_depth r - 1"
proof -
  obtain kind r1 where k: "read_kind r = Ok (kind, r1)" using ok by (auto simp: and_then_eq_Ok)
  have m: "moved r r1" using k read_kind_cases(1) by simp
  have t: "text_in r1" "r_depth r1 = r_depth r" using text_in_moved [OF r m] moved_props(3) [OF m] by auto
  have w: "wf_reader r1" using t by (simp add: text_in_def)
  have sub: "text_in r2 \<and> length (rest r2) < length (rest r) \<and> 0 < r_depth r2 \<and> r_depth r2 = r_depth r - 1" if "enters r1 r2" for r2
    using text_in_enters [OF t(1) that] moved_props(3,5) [OF m] that moved_props(3) [OF advanced_moved] by (auto simp: enters_def)
  show ?thesis
  proof (cases kind)
    case KArray
    then obtain r2 where "begin_array r1 = Ok r2" "parse_array_loop to_f64 fuel [] True r2 = Ok (v, r')"
      using ok k by (auto simp: and_then_eq_Ok)
    then show ?thesis using arr [of r2 v r'] sub [OF begin_array_ok(2) [OF w]] by metis
  next
    case KObject
    then obtain r2 where "begin_object r1 = Ok r2" "parse_object_loop to_f64 fuel [] True r2 = Ok (v, r')"
      using ok k by (auto simp: and_then_eq_Ok)
    then show ?thesis using obj [of r2 v r'] sub [OF begin_object_ok(2) [OF w]] by metis
  qed (use ok k in \<open>auto simp: and_then_eq_Ok\<close>)
qed

lemma nesting_array_round:
  assumes fin: "finite_results to_f64" and r: "text_in r" "2 * length (rest r) + 2 \<le> Suc fuel"
    and ok: "parse_array_loop to_f64 (Suc fuel) vals first r = Ok (w, r')"
    and vals: "nesting (Array vals) \<le> r_depth r"
    and val: "\<And>r1 v r2. text_in r1 \<Longrightarrow> 2 * length (rest r1) + 1 \<le> fuel \<Longrightarrow> parse_value to_f64 fuel r1 = Ok (v, r2) \<Longrightarrow>
      nesting v \<le> r_depth r1 - 1"
    and loop: "\<And>vs f r1. text_in r1 \<Longrightarrow> 2 * length (rest r1) + 2 \<le> fuel \<Longrightarrow> nesting (Array vs) \<le> r_depth r1 \<Longrightarrow>
      parse_array_loop to_f64 fuel vs f r1 = Ok (w, r') \<Longrightarrow> nesting w \<le> r_depth r1"
  shows "nesting w \<le> r_depth r"
proof -
  obtain go first' r1 where p: "next_array first r = Ok (go, first', r1)" using ok by (auto simp: and_then_eq_Ok)
  note n = next_array_ok(2) [OF _ p]
  show ?thesis
  proof (cases go)
    case True
    then have m: "moved r r1" using n r by (auto simp: text_in_def)
    have t: "text_in r1" "2 * length (rest r1) + 1 \<le> fuel" "r_depth r1 = r_depth r"
      using text_in_moved [OF r(1) m] moved_props(3,5) [OF m] r(2) by auto
    obtain v r2 where q: "parse_value to_f64 fuel r1 = Ok (v, r2)" "parse_array_loop to_f64 fuel (vals @ [v]) first' r2 = Ok (w, r')"
      using ok p True by (auto simp: and_then_eq_Ok)
    note s = parse_value_step [OF fin t(1,2) q(1)]
    have "nesting (Array (vals @ [v])) \<le> r_depth r2" using vals val [OF t(1,2) q(1)] s t(3) by (auto simp: nesting_le)
    then show ?thesis using loop [OF s(1) _ _ q(2)] s t by simp
  qed (use ok p vals in simp)
qed

lemma nesting_object_round:
  assumes fin: "finite_results to_f64" and r: "text_in r" "2 * length (rest r) + 2 \<le> Suc fuel"
    and ok: "parse_object_loop to_f64 (Suc fuel) vals first r = Ok (w, r')"
    and vals: "nesting (Object vals) \<le> r_depth r"
    and val: "\<And>r1 v r2. text_in r1 \<Longrightarrow> 2 * length (rest r1) + 1 \<le> fuel \<Longrightarrow> parse_value to_f64 fuel r1 = Ok (v, r2) \<Longrightarrow>
      nesting v \<le> r_depth r1 - 1"
    and loop: "\<And>vs f r1. text_in r1 \<Longrightarrow> 2 * length (rest r1) + 2 \<le> fuel \<Longrightarrow> nesting (Object vs) \<le> r_depth r1 \<Longrightarrow>
      parse_object_loop to_f64 fuel vs f r1 = Ok (w, r') \<Longrightarrow> nesting w \<le> r_depth r1"
  shows "nesting w \<le> r_depth r"
proof -
  obtain key first' r1 where p: "next_object_key first r = Ok (key, first', r1)" using ok by (auto simp: and_then_eq_Ok)
  note n = next_object_key_ok(2) [OF _ _ p]
  show ?thesis
  proof (cases key)
    case (Some k)
    then have m: "moved r r1" using n r by (auto simp: text_in_def intro: advanced_moved)
    have t: "text_in r1" "2 * length (rest r1) + 1 \<le> fuel" "r_depth r1 = r_depth r"
      using text_in_moved [OF r(1) m] moved_props(3,5) [OF m] r(2) by auto
    obtain v r2 where q: "parse_value to_f64 fuel r1 = Ok (v, r2)" "parse_object_loop to_f64 fuel (ins k v vals) first' r2 = Ok (w, r')"
      using ok p Some by (auto simp: and_then_eq_Ok split: if_splits)
    note s = parse_value_step [OF fin t(1,2) q(1)]
    have "nesting (Object (ins k v vals)) \<le> r_depth r2"
      using vals val [OF t(1,2) q(1)] s t(3) by (auto simp: nesting_le ins_def)
    then show ?thesis using loop [OF s(1) _ _ q(2)] s t by simp
  qed (use ok p vals in simp)
qed

lemma nesting_fuel:
  assumes fin: "finite_results to_f64"
  shows "(\<forall>r v r'. text_in r \<longrightarrow> 2 * length (rest r) + 1 \<le> fuel \<longrightarrow> parse_value to_f64 fuel r = Ok (v, r') \<longrightarrow>
      nesting v \<le> r_depth r - 1) \<and>
    (\<forall>r vals first w r'. text_in r \<longrightarrow> 2 * length (rest r) + 2 \<le> fuel \<longrightarrow> nesting (Array vals) \<le> r_depth r \<longrightarrow>
      parse_array_loop to_f64 fuel vals first r = Ok (w, r') \<longrightarrow> nesting w \<le> r_depth r) \<and>
    (\<forall>r vals first w r'. text_in r \<longrightarrow> 2 * length (rest r) + 2 \<le> fuel \<longrightarrow> nesting (Object vals) \<le> r_depth r \<longrightarrow>
      parse_object_loop to_f64 fuel vals first r = Ok (w, r') \<longrightarrow> nesting w \<le> r_depth r)"
proof (induction fuel)
  case (Suc fuel)
  note IHv = Suc.IH [THEN conjunct1, rule_format]
    and IHa = Suc.IH [THEN conjunct2, THEN conjunct1, rule_format]
    and IHo = Suc.IH [THEN conjunct2, THEN conjunct2, rule_format]
  show ?case
  proof (intro conjI allI impI)
    fix r v r' assume a: "text_in r" "2 * length (rest r) + 1 \<le> Suc fuel" "parse_value to_f64 (Suc fuel) r = Ok (v, r')"
    show "nesting v \<le> r_depth r - 1"
    proof (rule nesting_value_round [OF a(1,3)])
      fix r1 w r2 assume b: "text_in r1" "length (rest r1) < length (rest r)" "0 < r_depth r1"
        "parse_array_loop to_f64 fuel [] True r1 = Ok (w, r2)"
      show "nesting w \<le> r_depth r1" by (rule IHa [OF b(1) _ _ b(4)]) (use b a(2) in \<open>simp_all add: nesting_le\<close>)
    next
      fix r1 w r2 assume b: "text_in r1" "length (rest r1) < length (rest r)" "0 < r_depth r1"
        "parse_object_loop to_f64 fuel [] True r1 = Ok (w, r2)"
      show "nesting w \<le> r_depth r1" by (rule IHo [OF b(1) _ _ b(4)]) (use b a(2) in \<open>simp_all add: nesting_le\<close>)
    qed
  next
    fix r vals first w r' assume c: "text_in r" "2 * length (rest r) + 2 \<le> Suc fuel" "nesting (Array vals) \<le> r_depth r"
      "parse_array_loop to_f64 (Suc fuel) vals first r = Ok (w, r')"
    show "nesting w \<le> r_depth r" by (rule nesting_array_round [OF fin c(1,2,4,3) IHv IHa])
  next
    fix r vals first w r' assume c: "text_in r" "2 * length (rest r) + 2 \<le> Suc fuel" "nesting (Object vals) \<le> r_depth r"
      "parse_object_loop to_f64 (Suc fuel) vals first r = Ok (w, r')"
    show "nesting w \<le> r_depth r" by (rule nesting_object_round [OF fin c(1,2,4,3) IHv IHo])
  qed
qed simp

section \<open>Theorems\<close>

text \<open>C5. Parsing returns for every input and every options: a JSON value or a parse error, never a
  panic, and the recursion stays within the bound the model carries.  The value satisfies the type
  invariants of the library's classes: strings are well-formed UTF-8, object keys are ordered and
  distinct, floating-point numbers are finite.  The conversion to doubles is assumed to report an
  overflow as an error, as its documentation says.\<close>

theorem json_parse_total:
  assumes "finite_results to_f64"
  shows "(\<exists>v. from_slice to_f64 inp opts = Ok v \<and> valid_json v) \<or> (\<exists>e. from_slice to_f64 inp opts = Err (Fails e))"
proof (cases "validate_utf8 inp")
  case (Inl er)
  then show ?thesis using validate_utf8_Err(1) [OF Inl]
    by (auto simp: from_slice_def from_utf8_def invalid_unicode_error_def source_position_at_def make_cursor_def split: prod.splits)
next
  case (Inr u)
  then have v: "is_valid_utf8 inp" using validate_utf8_iff by simp
  have "from_slice to_f64 inp opts = from_str to_f64 inp opts" using Inr by (simp add: from_slice_def from_utf8_def)
  then show ?thesis using from_str_ok [OF assms v, of opts] unfolding good_def
    by (cases "from_str to_f64 inp opts") (auto intro: failure.exhaust)
qed

definition no_floats :: dec2flt where
  "no_floats d = Err DecInvalid"

theorem json_parse_total_witness:
  "from_slice no_floats (lit ''[1, {}]'') default_options = Ok (Array [Number (Unsigned 1), Object []]) \<and>
   ((\<exists>v. from_slice no_floats (lit ''[1,'') default_options = Ok v \<and> valid_json v) \<or>
    (\<exists>e. from_slice no_floats (lit ''[1,'') default_options = Err (Fails e)))"
proof -
  have "finite_results no_floats" by (simp add: finite_results_def no_floats_def)
  from json_parse_total [OF this, of "lit ''[1,''" default_options]
  have "(\<exists>v. from_slice no_floats (lit ''[1,'') default_options = Ok v \<and> valid_json v) \<or>
    (\<exists>e. from_slice no_floats (lit ''[1,'') default_options = Err (Fails e))" .
  moreover have "from_slice no_floats (lit ''[1, {}]'') default_options = Ok (Array [Number (Unsigned 1), Object []])" by code_simp
  ultimately show ?thesis by (rule conjI [rotated])
qed

text \<open>C15. A value nested deeper than the recursion budget is never built: the result of a parse has at
  most \<open>max_depth - 1\<close> containers inside each other (\<open>max_depth\<close> counts the outermost value).\<close>

theorem json_nesting_bounded:
  assumes "finite_results to_f64" and "from_slice to_f64 inp opts = Ok v"
  shows "nesting v \<le> max_depth opts - 1"
proof -
  have v: "is_valid_utf8 inp" and s: "from_str to_f64 inp opts = Ok v"
    using assms(2) validate_utf8_iff [of inp] by (auto simp: from_slice_def from_utf8_def and_then_def split: sum.splits)
  let ?r = "reader_of_str inp opts"
  obtain r' where "parse_value to_f64 (parse_fuel ?r) ?r = Ok (v, r')"
    using s by (auto simp: from_str_def parse_def and_then_eq_Ok)
  then have "nesting v \<le> r_depth ?r - 1"
    by (rule nesting_fuel [OF assms(1), THEN conjunct1, rule_format, OF text_in_of_str [OF v], rotated])
       (simp add: parse_fuel_def left_rest)
  then show ?thesis by (simp add: reader_of_str_def)
qed

theorem json_nesting_bounded_witness:
  "from_slice no_floats (lit ''[[]]'') (default_options\<lparr>max_depth := 3\<rparr>) = Ok (Array [Array []]) \<and> nesting (Array [Array []]) \<le> 2"
proof -
  have f: "finite_results no_floats" by (simp add: finite_results_def no_floats_def)
  have e: "from_slice no_floats (lit ''[[]]'') (default_options\<lparr>max_depth := 3\<rparr>) = Ok (Array [Array []])" by code_simp
  show ?thesis using json_nesting_bounded [OF f e] e by simp
qed

text \<open>C35. Skipping a value against parsing it, on a reader of well-formed text with any options:
  \<open>skip_value\<close> stops at the same place as \<open>parse_value\<close> and fails with the same error.  There is one
  difference: when the options reject repeated keys, \<open>parse_value\<close> may fail with a duplicate key, which
  \<open>skip_value\<close> does not look for.\<close>

theorem json_skip_value_eq:
  assumes "finite_results to_f64" and "text_in r"
  shows "skip_value to_f64 (parse_fuel r) r = skipped (parse_value to_f64 (parse_fuel r) r) \<or>
    reject_duplicate_keys (r_options r) \<and> (\<exists>r1. parse_value to_f64 (parse_fuel r) r = Err (duplicate_key_error r1))"
proof -
  have "2 * length (rest r) + 1 \<le> parse_fuel r" by (simp add: parse_fuel_def left_rest)
  then show ?thesis using skip_value_fuel [OF assms(1), of "reject_duplicate_keys (r_options r)" "parse_fuel r"] assms(2)
    by (auto simp: keyed_in_def follows_def)
qed

theorem json_skip_value_eq_witness:
  "\<exists>r. skip_value no_floats (parse_fuel r) r = skipped (parse_value no_floats (parse_fuel r) r) \<and>
     r = reader_of_str (lit ''[1, 2] x'') default_options \<and> skip_value no_floats (parse_fuel r) r = Ok (adv 6 r)"
proof -
  let ?r = "reader_of_str (lit ''[1, 2] x'') default_options"
  have f: "finite_results no_floats" by (simp add: finite_results_def no_floats_def)
  have "is_valid_utf8 (lit ''[1, 2] x'')" by code_simp
  then have l: "text_in ?r" by (simp add: text_in_of_str)
  have d: "\<not> reject_duplicate_keys (r_options ?r)" by (simp add: reader_of_str_def default_options_def)
  have "skip_value no_floats (parse_fuel ?r) ?r = Ok (adv 6 ?r)" by code_simp
  then show ?thesis using json_skip_value_eq [OF f l] d by blast
qed

text \<open>The difference is real: a repeated key is skipped but not parsed.\<close>

lemma json_skip_repeated_key:
  "let r = reader_of_str (lit ''{\"a\":1,\"a\":2}'') (default_options\<lparr>reject_duplicate_keys := True\<rparr>) in
   skip_value no_floats (parse_fuel r) r = Ok (adv 13 r) \<and> (\<exists>r1. parse_value no_floats (parse_fuel r) r = Err (duplicate_key_error r1))"
proof -
  let ?r = "reader_of_str (lit ''{\"a\":1,\"a\":2}'') (default_options\<lparr>reject_duplicate_keys := True\<rparr>)"
  have "skip_value no_floats (parse_fuel ?r) ?r = Ok (adv 13 ?r)" by code_simp
  moreover have "parse_value no_floats (parse_fuel ?r) ?r = Err (duplicate_key_error ((adv 12 ?r)\<lparr>r_depth := r_depth ?r - 1\<rparr>))" by code_simp
  ultimately show ?thesis unfolding Let_def by blast
qed

text \<open>The column of an error at the end of the input is the column before it, which is 0 on empty input.\<close>

lemma json_column_of_empty_input:
  "from_slice no_floats [] default_options = Err (Fails \<lparr>e_code = EofWhileParsingValue, e_line = 1, e_column = 0, e_offset = 0\<rparr>)"
  by code_simp

end
