(* ===== verification/Toml_Lexer.thy ===== *)
theory Toml_Lexer
  imports Text_Cursor Dec2flt
begin

text \<open>
  The methods of \<open>TomlParser\<close> (src/toml/src/parser.cpp) that only read from its cursor: trivia,
  strings, keys, numbers, dates and times.  They are functions on the cursor; an error carries the
  position of the cursor where it is raised and drops the rest of the parser.  \<open>take()\<close> at the end of
  the input would read through an empty option: it is \<open>Panics\<close>.  The types of
  src/toml/src/error.cppm, datetime.cppm and value.cppm come first.
\<close>

section \<open>Types\<close>

datatype toml_error_code =
    UnexpectedEnd | UnexpectedCharacter | ExpectedKey | ExpectedEquals | ExpectedValue | ExpectedCommaOrEnd
  | ExpectedLineEnd | InvalidUtf8 | InvalidEscape | InvalidUnicode | InvalidString | InvalidNumber
  | NumberOutOfRange | InvalidDateTime | DuplicateKey | DuplicateTable | TableRedefinition
  | RecursionLimitExceeded | ResourceLimitExceeded

record toml_error =
  te_code :: toml_error_code
  te_line :: nat
  te_column :: nat
  te_offset :: nat

type_synonym 'a toml_result = "(toml_error failure, 'a) result"

type_synonym text_cursor = "u8 cursor"

record local_date =
  ld_year :: u16
  ld_month :: u8
  ld_day :: u8

record local_time =
  lt_hour :: u8
  lt_minute :: u8
  lt_second :: u8
  lt_nanosecond :: u32

record local_date_time =
  ldt_date :: local_date
  ldt_time :: local_time

record toml_offset_date_time =
  to_local :: local_date_time
  to_offset_minutes :: "16 word"

datatype toml_value =
    Integer i64
  | Float f64
  | Boolean bool
  | String "u8 list"
  | OffsetDateTime toml_offset_date_time
  | LocalDateTime local_date_time
  | LocalDate local_date
  | LocalTime local_time
  | Array "toml_value list"
  | Table "(u8 list \<times> toml_value) list"

section \<open>The cursor\<close>

definition eof :: "text_cursor \<Rightarrow> bool" where
  "eof c = c_is_eof c"

definition peek_at :: "text_cursor \<Rightarrow> nat \<Rightarrow> u8" where
  "peek_at c ahead = (case c_peek c ahead of None \<Rightarrow> 0 | Some v \<Rightarrow> v)"

abbreviation peek :: "text_cursor \<Rightarrow> u8" where
  "peek c \<equiv> peek_at c 0"

definition take_byte :: "text_cursor \<Rightarrow> (u8 \<times> text_cursor) toml_result" where
  "take_byte c = (case c_take c of (None, c') \<Rightarrow> Err Panics | (Some v, c') \<Rightarrow> Ok (v, c'))"

text \<open>\<open>take()\<close> behind a test that the input has not ended, with its result dropped.\<close>

definition bump :: "text_cursor \<Rightarrow> text_cursor" where
  "bump c = snd (c_take c)"

definition error :: "text_cursor \<Rightarrow> toml_error_code \<Rightarrow> toml_error failure" where
  "error c code =
    (case source_position c of
       None \<Rightarrow> Panics
     | Some (line, column) \<Rightarrow>
         Fails \<lparr>te_code = code, te_line = line, te_column = column, te_offset = c_position c\<rparr>)"

definition invalid_utf8_error :: "toml_error failure" where
  "invalid_utf8_error = Fails \<lparr>te_code = InvalidUtf8, te_line = 1, te_column = 1, te_offset = 0\<rparr>"

lemma bump_advanced: "\<not> eof c \<Longrightarrow> c_advanced c (bump c)"
  by (auto simp: eof_def c_is_eof_def bump_def c_take_def c_peek_def c_advance_def c_remaining_def
      c_advanced_def c_moved_def)

lemma bump_eof: "eof c \<Longrightarrow> bump c = c"
  by (simp add: eof_def c_is_eof_def bump_def c_take_def c_peek_def c_remaining_def)

lemma bump_moved [simp, cursor_moves]: "c_moved c (bump c)"
  by (cases "eof c") (auto simp: bump_eof dest: bump_advanced c_advanced_moved)

lemma bump_bump_moved [simp, cursor_moves]: "c_moved c (bump (bump c))"
  by (rule c_moved_trans [OF bump_moved bump_moved])

lemma c_moved_bump: "c_moved c d \<Longrightarrow> c_moved c (bump d)"
  by (rule c_moved_trans [OF _ bump_moved])

lemma remaining_bump:
  "\<not> eof c \<Longrightarrow> c_remaining (bump c) < c_remaining c"
  "\<not> eof d \<Longrightarrow> c_moved c d \<Longrightarrow> c_remaining (bump d) < c_remaining c"
  "\<not> eof d \<Longrightarrow> c_moved c d \<Longrightarrow> c_remaining (bump (bump d)) < c_remaining c"
  using c_advanced_less(1) bump_advanced c_advanced_trans1 c_advanced_trans2 bump_moved by blast+

lemma peek_at_not_eof: "peek_at c n \<noteq> 0 \<Longrightarrow> \<not> eof c"
  by (auto simp: peek_at_def eof_def c_is_eof_def c_peek_def c_remaining_def)

lemma take_byte_Ok: "take_byte c = Ok (v, c') \<longleftrightarrow> \<not> eof c \<and> v = peek c \<and> c' = bump c"
  by (auto simp: take_byte_def bump_def c_take_def peek_at_def eof_def c_is_eof_def c_peek_def c_remaining_def)

text \<open>\<open>skip_while\<close> and \<open>consume_while\<close> of src/parse/src/core/consume.cppm.\<close>

function skip_while :: "(u8 \<Rightarrow> bool) \<Rightarrow> text_cursor \<Rightarrow> text_cursor" where
  "skip_while p c = (if eof c \<or> \<not> p (peek c) then c else skip_while p (bump c))"
  by pat_completeness auto
termination by (relation "measure (\<lambda>(p, c). c_remaining c)") (auto simp: remaining_bump)

declare skip_while.simps [simp del]

lemma skip_while_moved [simp, cursor_moves]: "c_moved c (skip_while p c)"
proof (induction p c rule: skip_while.induct)
  case (1 p c)
  then show ?case by (subst skip_while.simps) (auto intro: c_moved_trans [OF bump_moved])
qed

section \<open>White space, comments and line ends\<close>

definition is_horizontal :: "u8 \<Rightarrow> bool" where
  "is_horizontal b \<longleftrightarrow> b = SP \<or> b = HT"

definition is_bare_key :: "u8 \<Rightarrow> bool" where
  "is_bare_key b \<longleftrightarrow> is_alnum b \<or> b = UNDERSCORE \<or> b = MINUS"

definition consume_horizontal :: "text_cursor \<Rightarrow> text_cursor" where
  "consume_horizontal c = skip_while is_horizontal c"

definition is_control :: "u8 \<Rightarrow> bool" where
  "is_control b \<longleftrightarrow> (b < 0x20 \<and> b \<noteq> HT) \<or> b = 0x7F"

definition at_crlf :: "text_cursor \<Rightarrow> bool" where
  "at_crlf c \<longleftrightarrow> peek c = CR \<and> peek_at c 1 = LF"

function comment_loop :: "text_cursor \<Rightarrow> text_cursor toml_result" where
  "comment_loop c =
    (if eof c \<or> peek c = LF then Ok c
     else if at_crlf c then Ok c
     else if is_control (peek c) then Err (error c UnexpectedCharacter)
     else comment_loop (bump c))"
  by pat_completeness auto
termination by (relation "measure c_remaining") (auto simp: remaining_bump)

declare comment_loop.simps [simp del]

definition consume_comment :: "text_cursor \<Rightarrow> text_cursor toml_result" where
  "consume_comment c = (if eof c \<or> peek c \<noteq> HASH then Ok c else comment_loop c)"

lemma comment_moved: "comment_loop c = Ok c' \<Longrightarrow> c_moved c c'"
proof (induction c rule: comment_loop.induct)
  case (1 c)
  then show ?case by (subst (asm) comment_loop.simps) (auto split: if_splits intro: c_moved_trans [OF bump_moved])
qed

lemma comment_horizontal_moved:
  assumes "consume_comment (consume_horizontal c) = Ok c'"
  shows "c_moved c c'"
  using assms comment_moved c_moved_trans [OF skip_while_moved [of c is_horizontal], of c']
  by (auto simp: consume_comment_def consume_horizontal_def split: if_splits)

function consume_trivia :: "text_cursor \<Rightarrow> text_cursor toml_result" where
  "consume_trivia c = and_then (consume_comment (consume_horizontal c)) (\<lambda>c1.
     if eof c1 then Ok c1
     else if peek c1 = LF then consume_trivia (bump c1)
     else if at_crlf c1 then consume_trivia (bump (bump c1))
     else Ok c1)"
  by pat_completeness auto
termination by (relation "measure c_remaining") (auto dest: comment_horizontal_moved intro: remaining_bump)

declare consume_trivia.simps [simp del]

definition finish_line :: "text_cursor \<Rightarrow> text_cursor toml_result" where
  "finish_line c = and_then (consume_comment (consume_horizontal c)) (\<lambda>c1.
     if eof c1 then Ok c1
     else if peek c1 = LF then Ok (bump c1)
     else if at_crlf c1 then Ok (bump (bump c1))
     else Err (error c1 ExpectedLineEnd))"

section \<open>Strings\<close>

definition push_scalar :: "u8 list \<Rightarrow> u32 \<Rightarrow> (u8 list) toml_result" where
  "push_scalar out v =
    (let (bytes, len) = encode_utf8 v in if len = 0 then Err Panics else Ok (out @ bytes))"

fun escape_digits :: "nat \<Rightarrow> u32 \<Rightarrow> text_cursor \<Rightarrow> (u32 \<times> text_cursor) toml_result" where
  "escape_digits 0 v c = Ok (v, c)"
| "escape_digits (Suc n) v c =
    (if eof c then Err (error c UnexpectedEnd)
     else case digit_value (peek c) 16 of
       None \<Rightarrow> Err (error c InvalidUnicode)
     | Some d \<Rightarrow> escape_digits n (v * 16 + ucast d) (bump c))"

definition parse_unicode_escape :: "nat \<Rightarrow> text_cursor \<Rightarrow> (u32 \<times> text_cursor) toml_result" where
  "parse_unicode_escape digits c = and_then (escape_digits digits 0 c) (\<lambda>(v, c1).
     if v > 0x10FFFF \<or> (v \<ge> 0xD800 \<and> v \<le> 0xDFFF) then Err (error c1 InvalidUnicode)
     else Ok (v, c1))"

text \<open>
  The opening of a string: one quote, or three and an optional line end.  The result says whether the
  string may span lines.
\<close>

definition open_string :: "u8 \<Rightarrow> bool \<Rightarrow> text_cursor \<Rightarrow> (bool \<times> text_cursor) toml_result" where
  "open_string quote allow_multiline c =
    (let multiline = allow_multiline \<and> peek_at c 1 = quote \<and> peek_at c 2 = quote in
     and_then (take_byte c) (\<lambda>(_, c1).
       if \<not> multiline then Ok (False, c1)
       else and_then (take_byte c1) (\<lambda>(_, c2). and_then (take_byte c2) (\<lambda>(_, c3).
         if \<not> eof c3 \<and> peek c3 = LF then Ok (True, bump c3)
         else if \<not> eof c3 \<and> at_crlf c3 then Ok (True, bump (bump c3))
         else Ok (True, c3)))))"

text \<open>
  The counting loops \<open>while (p(peek(n))) ++n\<close>: the predicates do not hold of the zero that \<open>peek\<close>
  returns past the end, so the loops stop there.
\<close>

function count_run :: "(u8 \<Rightarrow> bool) \<Rightarrow> text_cursor \<Rightarrow> nat \<Rightarrow> nat" where
  "count_run p c n = (if n < c_remaining c \<and> p (peek_at c n) then count_run p c (n + 1) else n)"
  by pat_completeness auto
termination by (relation "measure (\<lambda>(p, c, n). c_remaining c - n)") auto

declare count_run.simps [simp del]

fun bump_n :: "nat \<Rightarrow> text_cursor \<Rightarrow> text_cursor" where
  "bump_n 0 c = c"
| "bump_n (Suc n) c = bump_n n (bump c)"

text \<open>A quote inside a string: whether it ends the string, the text and the cursor after it.\<close>

definition quote_run :: "u8 \<Rightarrow> bool \<Rightarrow> u8 list \<Rightarrow> text_cursor \<Rightarrow> (bool \<times> u8 list \<times> text_cursor) toml_result" where
  "quote_run quote multiline out c =
    (if \<not> multiline then Ok (True, out, bump c)
     else
       let quotes = count_run (\<lambda>b. b = quote) c 0 in
       if quotes > 5 then Err (error c InvalidString)
       else if quotes \<ge> 3 then Ok (True, out @ replicate (quotes - 3) quote, bump_n quotes c)
       else Ok (False, out, c))"

definition continuation_line :: "text_cursor \<Rightarrow> bool" where
  "continuation_line c =
    (let n = count_run is_horizontal c 0 in
     peek_at c n = LF \<or> (peek_at c n = CR \<and> peek_at c (n + 1) = LF))"

function skip_blank_lines :: "text_cursor \<Rightarrow> text_cursor" where
  "skip_blank_lines c =
    (let c1 = skip_while is_horizontal c in
     if \<not> eof c1 \<and> peek c1 = LF then skip_blank_lines (bump c1)
     else if \<not> eof c1 \<and> at_crlf c1 then skip_blank_lines (bump (bump c1))
     else c1)"
  by pat_completeness auto
termination by (relation "measure c_remaining") (auto intro: remaining_bump)

declare skip_blank_lines.simps [simp del]

definition skip_continuation :: "text_cursor \<Rightarrow> text_cursor toml_result" where
  "skip_continuation c =
    (let c1 = skip_while is_horizontal c in
     and_then
       (if peek c1 = CR then and_then (take_byte c1) (\<lambda>(_, c2).
          if eof c2 \<or> peek c2 \<noteq> LF then Err (error c2 InvalidString) else Ok c2)
        else Ok c1)
       (\<lambda>c3. and_then (take_byte c3) (\<lambda>(_, c4). Ok (skip_blank_lines c4))))"

definition escaped_byte :: "u8 \<Rightarrow> u8 option" where
  "escaped_byte b = map_of
    [(0x62, 0x08), (0x74, 0x09), (0x6E, 0x0A), (0x66, 0x0C), (0x72, 0x0D), (0x65, 0x1B), (DQUOTE, DQUOTE),
     (BSLASH, BSLASH)] b"

definition escape_length :: "u8 \<Rightarrow> nat option" where
  "escape_length b = map_of [(0x78, 2), (0x75, 4), (0x55, 8)] b"

definition parse_escape :: "bool \<Rightarrow> u8 list \<Rightarrow> text_cursor \<Rightarrow> (u8 list \<times> text_cursor) toml_result" where
  "parse_escape multiline out c =
    (if eof c then Err (error c UnexpectedEnd)
     else if multiline \<and> continuation_line c then and_then (skip_continuation c) (\<lambda>c1. Ok (out, c1))
     else and_then (take_byte c) (\<lambda>(b, c1).
       case escaped_byte b of
         Some v \<Rightarrow> Ok (out @ [v], c1)
       | None \<Rightarrow> (case escape_length b of
           Some digits \<Rightarrow> and_then (parse_unicode_escape digits c1) (\<lambda>(v, c2).
             and_then (push_scalar out v) (\<lambda>out1. Ok (out1, c2)))
         | None \<Rightarrow> Err (error c1 InvalidEscape))))"

definition plain_byte :: "bool \<Rightarrow> u8 list \<Rightarrow> text_cursor \<Rightarrow> (u8 list \<times> text_cursor) toml_result" where
  "plain_byte multiline out c =
    (if \<not> multiline \<and> (peek c = LF \<or> peek c = CR) then Err (error c InvalidString)
     else if multiline \<and> peek c = LF then Ok (out @ [LF], bump c)
     else if multiline \<and> at_crlf c then Ok (out @ [LF], bump (bump c))
     else if is_control (peek c) then Err (error c InvalidString)
     else Ok (out @ [peek c], bump c))"

lemma escape_digits_moved: "escape_digits n v c = Ok (w, c') \<Longrightarrow> c_moved c c'"
  by (induction n arbitrary: v c) (auto split: if_splits option.splits intro: c_moved_trans [OF bump_moved])

lemma unicode_escape_moved: "parse_unicode_escape n c = Ok (w, c') \<Longrightarrow> c_moved c c'"
  by (auto simp: parse_unicode_escape_def and_then_eq_Ok split: if_splits dest: escape_digits_moved)

lemma blank_lines_moved [cursor_moves]: "c_moved c (skip_blank_lines c)"
proof (induction c rule: skip_blank_lines.induct)
  case (1 c)
  let ?d = "skip_while is_horizontal c"
  have "c_moved c (bump ?d)" "c_moved c (bump (bump ?d))" by (simp_all add: c_moved_bump)
  then show ?case using 1 by (subst skip_blank_lines.simps) (auto simp: Let_def intro: c_moved_trans)
qed

lemma continuation_moved:
  assumes "skip_continuation c = Ok c'"
  shows "c_moved c c'"
proof -
  let ?d = "skip_while is_horizontal c"
  have m: "c_moved c (bump ?d)" "c_moved c (bump (bump ?d))" by (simp_all add: c_moved_bump)
  show ?thesis
    using assms by (auto simp: skip_continuation_def Let_def and_then_eq_Ok take_byte_Ok split: if_splits
        intro: c_moved_trans [OF _ blank_lines_moved] m)
qed

lemma parse_escape_moved: "parse_escape multiline out c = Ok (out', c') \<Longrightarrow> c_moved c c'"
  by (auto simp: parse_escape_def and_then_eq_Ok take_byte_Ok split: if_splits option.splits
      dest: continuation_moved dest!: unicode_escape_moved intro: c_moved_trans [OF bump_moved])

lemma plain_byte_moved: "plain_byte multiline out c = Ok (out', c') \<Longrightarrow> \<not> eof c \<Longrightarrow> c_advanced c c'"
  by (auto simp: plain_byte_def split: if_splits intro: bump_advanced c_advanced_trans1 [OF bump_advanced bump_moved])

lemma quote_run_unfinished: "quote_run quote multiline out c = Ok (False, out', c') \<Longrightarrow> out' = out \<and> c' = c"
  by (auto simp: quote_run_def Let_def split: if_splits)

function basic_loop :: "bool \<Rightarrow> u8 list \<Rightarrow> text_cursor \<Rightarrow> (u8 list \<times> text_cursor) toml_result" where
  "basic_loop multiline out c =
    (if eof c then Err (error c UnexpectedEnd)
     else if peek c = DQUOTE then and_then (quote_run DQUOTE multiline out c) (\<lambda>(finished, out1, c1).
       if finished then Ok (out1, c1) else basic_loop multiline (out1 @ [peek c1]) (bump c1))
     else if peek c = BSLASH then and_then (parse_escape multiline out (bump c)) (\<lambda>(out1, c1).
       basic_loop multiline out1 c1)
     else and_then (plain_byte multiline out c) (\<lambda>(out1, c1). basic_loop multiline out1 c1))"
  by pat_completeness auto
termination
proof (relation "measure (\<lambda>(multiline, out, c). c_remaining c)", simp, goal_cases)
  case (1 multiline out c)
  then show ?case using remaining_bump(1) by (auto dest!: quote_run_unfinished)
next
  case (2 multiline out c)
  then show ?case using c_advanced_less(1) [OF c_advanced_trans1 [OF bump_advanced]] by (auto dest: parse_escape_moved)
next
  case (3 multiline out c)
  then show ?case using c_advanced_less(1) by (auto dest: plain_byte_moved)
qed

declare basic_loop.simps [simp del]

definition parse_basic_string :: "bool \<Rightarrow> text_cursor \<Rightarrow> (u8 list \<times> text_cursor) toml_result" where
  "parse_basic_string allow_multiline c = and_then (open_string DQUOTE allow_multiline c) (\<lambda>(multiline, c1).
     basic_loop multiline [] c1)"

function literal_loop :: "bool \<Rightarrow> u8 list \<Rightarrow> text_cursor \<Rightarrow> (u8 list \<times> text_cursor) toml_result" where
  "literal_loop multiline out c =
    (if eof c then Err (error c UnexpectedEnd)
     else and_then (if peek c = SQUOTE then quote_run SQUOTE multiline out c else Ok (False, out, c))
       (\<lambda>(finished, out1, c1).
         if finished then Ok (out1, c1)
         else and_then (plain_byte multiline out1 c1) (\<lambda>(out2, c2). literal_loop multiline out2 c2)))"
  by pat_completeness auto
termination
proof (relation "measure (\<lambda>(multiline, out, c). c_remaining c)", simp, goal_cases)
  case (1 multiline out c)
  then show ?case using c_advanced_less(1)
    by (auto split: if_splits dest!: quote_run_unfinished dest: plain_byte_moved)
qed

declare literal_loop.simps [simp del]

definition parse_literal_string :: "bool \<Rightarrow> text_cursor \<Rightarrow> (u8 list \<times> text_cursor) toml_result" where
  "parse_literal_string allow_multiline c = and_then (open_string SQUOTE allow_multiline c) (\<lambda>(multiline, c1).
     literal_loop multiline [] c1)"

lemma bump_n_moved: "c_moved c (bump_n n c)"
  by (induction n arbitrary: c) (auto intro: c_moved_trans [OF bump_moved])

lemma quote_run_moved: "quote_run quote multiline out c = Ok (finished, out', c') \<Longrightarrow> c_moved c c'"
  by (auto simp: quote_run_def Let_def bump_n_moved split: if_splits)

lemma open_string_advanced:
  assumes "open_string quote allow c = Ok (multiline, c')"
  shows "c_advanced c c'"
proof -
  have m: "c_moved (bump c) (bump (bump (bump c)))" "c_moved (bump c) (bump (bump (bump (bump c))))"
    "c_moved (bump c) (bump (bump (bump (bump (bump c)))))" by (simp_all add: c_moved_bump)
  then show ?thesis using assms bump_advanced [of c]
    by (auto simp: open_string_def Let_def and_then_eq_Ok take_byte_Ok split: if_splits intro: c_advanced_trans1)
qed

lemma basic_loop_moved: "basic_loop multiline out c = Ok (out', c') \<Longrightarrow> c_moved c c'"
proof (induction multiline out c rule: basic_loop.induct)
  case (1 multiline out c)
  have ne: "\<not> eof c" using 1(4) by (subst (asm) basic_loop.simps) (auto split: if_splits)
  consider (q) "peek c = DQUOTE" | (e) "peek c = BSLASH" | (p) "peek c \<noteq> DQUOTE" "peek c \<noteq> BSLASH" by blast
  then show ?case
  proof cases
    case q
    with 1(4) ne obtain fin out1 c1 where r: "quote_run DQUOTE multiline out c = Ok (fin, out1, c1)"
      "if fin then Ok (out1, c1) = (Ok (out', c') :: (u8 list \<times> text_cursor) toml_result)
       else basic_loop multiline (out1 @ [peek c1]) (bump c1) = Ok (out', c')"
      by (subst (asm) basic_loop.simps) (auto simp: and_then_eq_Ok split: if_splits)
    show ?thesis
    proof (cases fin)
      case True
      then show ?thesis using r quote_run_moved by auto
    next
      case False
      then have "c_moved (bump c1) c'" using 1(1) [OF ne q r(1) refl refl False] r(2) by simp
      then show ?thesis using quote_run_unfinished [of DQUOTE multiline out c out1 c1] r(1) False c_moved_trans [OF bump_moved] by auto
    qed
  next
    case e
    with 1(4) ne obtain out1 c1 where r: "parse_escape multiline out (bump c) = Ok (out1, c1)"
      "basic_loop multiline out1 c1 = Ok (out', c')"
      by (subst (asm) basic_loop.simps) (auto simp: and_then_eq_Ok)
    have "c_moved c1 c'" using 1(2) [OF ne _ e r(1) refl] r(2) e by simp
    then show ?thesis using r(1) parse_escape_moved c_moved_trans bump_moved by blast
  next
    case p
    with 1(4) ne obtain out1 c1 where r: "plain_byte multiline out c = Ok (out1, c1)"
      "basic_loop multiline out1 c1 = Ok (out', c')"
      by (subst (asm) basic_loop.simps) (auto simp: and_then_eq_Ok)
    have "c_moved c1 c'" using 1(3) [OF ne p r(1) refl] r(2) by simp
    then show ?thesis using r(1) plain_byte_moved ne c_advanced_moved c_moved_trans by blast
  qed
qed

lemma literal_step:
  assumes "literal_loop multiline out c = Ok (out', c')"
  obtains "quote_run SQUOTE multiline out c = Ok (True, out', c')" "peek c = SQUOTE" "\<not> eof c"
  | out2 c2 where "\<not> eof c" "plain_byte multiline out c = Ok (out2, c2)" "literal_loop multiline out2 c2 = Ok (out', c')"
proof -
  have ne: "\<not> eof c" using assms by (subst (asm) literal_loop.simps) (auto split: if_splits)
  obtain fin out1 c1 where r: "(if peek c = SQUOTE then quote_run SQUOTE multiline out c else Ok (False, out, c)) = Ok (fin, out1, c1)"
    "if fin then (out1, c1) = (out', c') else and_then (plain_byte multiline out1 c1) (\<lambda>(out2, c2). literal_loop multiline out2 c2) = Ok (out', c')"
    using assms ne by (subst (asm) literal_loop.simps) (auto simp: and_then_eq_Ok split: if_splits)
  show thesis
  proof (cases fin)
    case True
    then show thesis using that(1) r ne by (auto split: if_splits)
  next
    case False
    then have "out1 = out" "c1 = c" using r(1) by (auto split: if_splits dest: quote_run_unfinished)
    then show thesis using that(2) r(2) False ne by (auto simp: and_then_eq_Ok)
  qed
qed

lemma literal_loop_moved: "literal_loop multiline out c = Ok (out', c') \<Longrightarrow> c_moved c c'"
proof (induction "c_remaining c" arbitrary: out c rule: less_induct)
  case less
  from less.prems show ?case
  proof (cases rule: literal_step)
    case 1
    then show ?thesis using quote_run_moved by blast
  next
    case (2 out2 c2)
    then have a: "c_advanced c c2" using plain_byte_moved by blast
    then show ?thesis using less.hyps [OF c_advanced_less(1) [OF a] 2(3)] c_moved_trans c_advanced_moved by blast
  qed
qed

section \<open>Keys\<close>

definition consumed_text :: "text_cursor \<Rightarrow> text_cursor \<Rightarrow> (u8 list) toml_result" where
  "consumed_text c c' =
    (case c_text c' (c_position c) (c_position c') of Err er \<Rightarrow> Err Panics | Ok t \<Rightarrow> Ok t)"

definition parse_key_part :: "text_cursor \<Rightarrow> (u8 list \<times> text_cursor) toml_result" where
  "parse_key_part c =
    (if eof c then Err (error c ExpectedKey)
     else if peek c = DQUOTE then parse_basic_string False c
     else if peek c = SQUOTE then parse_literal_string False c
     else if \<not> is_bare_key (peek c) then Err (error c ExpectedKey)
     else let c1 = skip_while is_bare_key c in
       and_then (consumed_text c c1) (\<lambda>t. Ok (t, c1)))"

lemma string_advanced:
  "parse_basic_string allow c = Ok (t, c') \<Longrightarrow> c_advanced c c'"
  "parse_literal_string allow c = Ok (t, c') \<Longrightarrow> c_advanced c c'"
  by (auto simp: parse_basic_string_def parse_literal_string_def and_then_eq_Ok
      dest!: open_string_advanced dest: basic_loop_moved literal_loop_moved intro: c_advanced_trans1)

lemma key_part_moved: "parse_key_part c = Ok (t, c') \<Longrightarrow> c_moved c c'"
  by (auto simp: parse_key_part_def Let_def and_then_eq_Ok split: if_splits dest: string_advanced c_advanced_moved)

lemma key_part_horizontal_moved:
  assumes "parse_key_part (consume_horizontal c) = Ok (t, c')"
  shows "c_moved c (consume_horizontal c')"
  unfolding consume_horizontal_def
  by (rule c_moved_trans [OF skip_while_moved [of c is_horizontal]])
     (rule c_moved_trans [OF key_part_moved [OF assms [unfolded consume_horizontal_def]] skip_while_moved])

function key_path_loop :: "u8 list list \<Rightarrow> text_cursor \<Rightarrow> (u8 list list \<times> text_cursor) toml_result" where
  "key_path_loop path c = and_then (parse_key_part (consume_horizontal c)) (\<lambda>(key, c1).
     let c2 = consume_horizontal c1 in
     if eof c2 \<or> peek c2 \<noteq> DOT then Ok (path @ [key], c2)
     else key_path_loop (path @ [key]) (bump c2))"
  by pat_completeness auto
termination
  by (relation "measure (\<lambda>(path, c). c_remaining c)") (auto dest: key_part_horizontal_moved intro: remaining_bump)

declare key_path_loop.simps [simp del]

definition parse_key_path :: "text_cursor \<Rightarrow> (u8 list list \<times> text_cursor) toml_result" where
  "parse_key_path c = key_path_loop [] c"

section \<open>Numbers\<close>

definition digit_for_base :: "u8 \<Rightarrow> u8 \<Rightarrow> u8 option" where
  "digit_for_base b base = digit_value b base"

text \<open>A radix prefix; the test of the source compares two bytes when there are two.\<close>

definition prefix_base :: "u8 list \<Rightarrow> u8" where
  "prefix_base t =
    (if 2 \<le> length t \<and> t ! 0 = D0 then
       (if t ! 1 = 0x78 then 16 else if t ! 1 = 0x6F then 8 else if t ! 1 = 0x62 then 2 else 10)
     else 10)"

definition is_sign :: "u8 \<Rightarrow> bool" where
  "is_sign b \<longleftrightarrow> b = PLUS \<or> b = MINUS"

fun integer_loop :: "text_cursor \<Rightarrow> u8 \<Rightarrow> u64 \<Rightarrow> u8 list \<Rightarrow> u64 \<Rightarrow> u64 toml_result" where
  "integer_loop c base limit [] v = Ok v"
| "integer_loop c base limit (b # bs) v =
    (case digit_for_base b base of
       None \<Rightarrow> Err (error c InvalidNumber)
     | Some d \<Rightarrow>
         let raw = ucast d in
         if v > (limit - raw) div ucast base then Err (error c NumberOutOfRange)
         else integer_loop c base limit bs (v * ucast base + raw))"

definition I64_MIN :: i64 where "I64_MIN = 0x8000000000000000"

definition parse_integer :: "text_cursor \<Rightarrow> u8 list \<Rightarrow> toml_value toml_result" where
  "parse_integer c token =
    (case filter (\<lambda>b. b \<noteq> UNDERSCORE) token of
       [] \<Rightarrow> Err Panics
     | b # bs \<Rightarrow>
         let signed_value = is_sign b;
             negative = (b = MINUS);
             body = (if signed_value then bs else b # bs) in
         if signed_value \<and> body = [] then Err (error c InvalidNumber)
         else
           let base = prefix_base body;
               digits = (if base \<noteq> 10 then drop 2 body else body) in
           if digits = [] then Err (error c InvalidNumber)
           else if base \<noteq> 10 \<and> signed_value then Err (error c InvalidNumber)
           else if base = 10 \<and> hd digits = D0 \<and> 1 < length digits then Err (error c InvalidNumber)
           else and_then
             (integer_loop c base (if negative then 0x8000000000000000 else 0x7FFFFFFFFFFFFFFF) digits 0)
             (\<lambda>v. if negative then if v = 0x8000000000000000 then Ok (Integer I64_MIN) else Ok (Integer (- v))
                 else Ok (Integer v)))"

text \<open>The exponent of a floating-point literal: digits past 100000 are read and dropped.\<close>

fun exponent_loop :: "int \<Rightarrow> u8 list \<Rightarrow> int" where
  "exponent_loop raw [] = raw"
| "exponent_loop raw (b # bs) =
    exponent_loop (if raw < 100000 then raw * 10 + uint (b - D0) else raw) bs"

definition float_exponent :: "text_cursor \<Rightarrow> u8 list \<Rightarrow> (int \<times> bool \<times> u8 list) toml_result" where
  "float_exponent c t =
    (if t \<noteq> [] \<and> (hd t = 0x65 \<or> hd t = 0x45) then
       let t1 = tl t;
           negative = (t1 \<noteq> [] \<and> hd t1 = MINUS);
           t2 = (if t1 \<noteq> [] \<and> is_sign (hd t1) then tl t1 else t1) in
       if t2 = [] \<or> \<not> is_digit (hd t2) then Err (error c InvalidNumber)
       else
         let raw = exponent_loop 0 (takeWhile is_digit t2) in
         Ok (if negative then - raw else raw, True, dropWhile is_digit t2)
     else Ok (0, False, t))"

definition float_fraction :: "text_cursor \<Rightarrow> u8 list \<Rightarrow> (u8 list \<times> u8 list) toml_result" where
  "float_fraction c t =
    (if t \<noteq> [] \<and> hd t = DOT then
       if takeWhile is_digit (tl t) = [] then Err (error c InvalidNumber)
       else Ok (takeWhile is_digit (tl t), dropWhile is_digit (tl t))
     else Ok ([], t))"

definition special_float :: "u8 list \<Rightarrow> f64 option" where
  "special_float token =
    (if token = lit ''inf'' \<or> token = lit ''+inf'' then Some INFINITY_F64
     else if token = lit ''-inf'' then Some NEG_INFINITY_F64
     else if token = lit ''nan'' \<or> token = lit ''+nan'' then Some NAN_F64
     else if token = lit ''-nan'' then Some NEG_NAN_F64
     else None)"

definition decimal_float :: "dec2flt \<Rightarrow> text_cursor \<Rightarrow> u8 list \<Rightarrow> toml_value toml_result" where
  "decimal_float to_f64 c text1 =
    (if text1 = [] then Err Panics
     else
       let negative = (hd text1 = MINUS);
           t1 = (if is_sign (hd text1) then tl text1 else text1);
           digits = takeWhile is_digit t1 in
       if digits = [] \<or> (1 < length digits \<and> hd digits = D0) then Err (error c InvalidNumber)
       else and_then (float_fraction c (dropWhile is_digit t1)) (\<lambda>(fraction, t2).
         and_then (float_exponent c t2) (\<lambda>(exponent, exponent_present, t3).
           if t3 \<noteq> [] \<or> (fraction = [] \<and> \<not> exponent_present) then Err (error c InvalidNumber)
           else case to_f64 \<lparr>dec_integer = digits, dec_fraction = fraction, dec_exponent = exponent, dec_negative = negative\<rparr> of
             Err er \<Rightarrow> Err (error c (if er = DecOverflow then NumberOutOfRange else InvalidNumber))
           | Ok v \<Rightarrow> Ok (Float v))))"

definition parse_float :: "dec2flt \<Rightarrow> text_cursor \<Rightarrow> u8 list \<Rightarrow> toml_value toml_result" where
  "parse_float to_f64 c token =
    (case special_float token of
       Some v \<Rightarrow> Ok (Float v)
     | None \<Rightarrow> decimal_float to_f64 c (filter (\<lambda>b. b \<noteq> UNDERSCORE) token))"

section \<open>Dates and times\<close>

definition is_leap_year :: "u16 \<Rightarrow> bool" where
  "is_leap_year year \<longleftrightarrow> year mod 4 = 0 \<and> (year mod 100 \<noteq> 0 \<or> year mod 400 = 0)"

definition days_in_month :: "u16 \<Rightarrow> u8 \<Rightarrow> u8" where
  "days_in_month year month =
    (if month < 1 \<or> month > 12 then 0
     else if month = 2 \<and> is_leap_year year then 29
     else [31, 28, 31, 30, 31, 30, 31, 31, 30, 31, 30, 31] ! unat (month - 1))"

definition parse_two :: "u8 list \<Rightarrow> nat \<Rightarrow> u8 option" where
  "parse_two token offset =
    (if offset + 2 > length token \<or> \<not> is_digit (token ! offset) \<or> \<not> is_digit (token ! (offset + 1)) then None
     else Some ((token ! offset - D0) * 10 + (token ! (offset + 1) - D0)))"

fun four_loop :: "u8 list \<Rightarrow> nat list \<Rightarrow> u16 \<Rightarrow> u16 option" where
  "four_loop token [] v = Some v"
| "four_loop token (i # is) v =
    (if \<not> is_digit (token ! i) then None else four_loop token is (v * 10 + ucast (token ! i - D0)))"

definition parse_four :: "u8 list \<Rightarrow> nat \<Rightarrow> u16 option" where
  "parse_four token offset =
    (if offset + 4 > length token then None else four_loop token [offset ..< offset + 4] 0)"

definition parse_date :: "text_cursor \<Rightarrow> u8 list \<Rightarrow> nat \<Rightarrow> local_date toml_result" where
  "parse_date c token offset =
    (case (parse_four token offset, parse_two token (offset + 5), parse_two token (offset + 8)) of
       (Some year, Some month, Some day) \<Rightarrow>
         if token ! (offset + 4) \<noteq> MINUS \<or> token ! (offset + 7) \<noteq> MINUS \<or> month < 1 \<or> month > 12 \<or> day < 1 \<or>
            day > days_in_month year month
         then Err (error c InvalidDateTime)
         else Ok \<lparr>ld_year = year, ld_month = month, ld_day = day\<rparr>
     | _ \<Rightarrow> Err (error c InvalidDateTime))"

text \<open>The digits of a fraction of a second: nine count, the others are dropped, missing ones are zeros.\<close>

fun nano_loop :: "nat \<Rightarrow> u32 \<Rightarrow> u8 list \<Rightarrow> u32" where
  "nano_loop digits v [] = v * 10 ^ (9 - digits)"
| "nano_loop digits v (b # bs) =
    nano_loop (digits + 1) (if digits < 9 then v * 10 + ucast (b - D0) else v) bs"

definition parse_seconds :: "text_cursor \<Rightarrow> u8 list \<Rightarrow> nat \<Rightarrow> (u8 \<times> bool \<times> nat) toml_result" where
  "parse_seconds c token stop =
    (if stop < length token \<and> token ! stop = COLON then
       (case parse_two token (stop + 1) of
          None \<Rightarrow> Err (error c InvalidDateTime)
        | Some s \<Rightarrow> if s > 59 then Err (error c InvalidDateTime) else Ok (s, True, stop + 3))
     else Ok (0, False, stop))"

definition parse_nanos :: "text_cursor \<Rightarrow> u8 list \<Rightarrow> bool \<Rightarrow> nat \<Rightarrow> (u32 \<times> nat) toml_result" where
  "parse_nanos c token has_seconds stop =
    (if stop < length token \<and> token ! stop = DOT then
       if \<not> has_seconds then Err (error c InvalidDateTime)
       else
         let digits = takeWhile is_digit (drop (stop + 1) token) in
         if digits = [] then Err (error c InvalidDateTime)
         else Ok (nano_loop 0 0 digits, stop + 1 + length digits)
     else Ok (0, stop))"

definition parse_time :: "text_cursor \<Rightarrow> u8 list \<Rightarrow> nat \<Rightarrow> (local_time \<times> nat) toml_result" where
  "parse_time c token offset =
    (case (parse_two token offset, parse_two token (offset + 3)) of
       (Some hour, Some minute) \<Rightarrow>
         if token ! (offset + 2) \<noteq> COLON \<or> hour > 23 \<or> minute > 59 then Err (error c InvalidDateTime)
         else and_then (parse_seconds c token (offset + 5)) (\<lambda>(second, has_seconds, end1).
           and_then (parse_nanos c token has_seconds end1) (\<lambda>(nanosecond, end2).
             Ok (\<lparr>lt_hour = hour, lt_minute = minute, lt_second = second, lt_nanosecond = nanosecond\<rparr>, end2)))
     | _ \<Rightarrow> Err (error c InvalidDateTime))"

definition parse_offset :: "text_cursor \<Rightarrow> u8 list \<Rightarrow> local_date_time \<Rightarrow> nat \<Rightarrow> toml_value toml_result" where
  "parse_offset c token local stop =
    (if stop = length token then Ok (LocalDateTime local)
     else if token ! stop = 0x5A \<or> token ! stop = 0x7A then
       if stop + 1 \<noteq> length token then Err (error c InvalidDateTime)
       else Ok (OffsetDateTime \<lparr>to_local = local, to_offset_minutes = 0\<rparr>)
     else if \<not> is_sign (token ! stop) then Err (error c InvalidDateTime)
     else case (parse_two token (stop + 1), parse_two token (stop + 4)) of
       (Some hour, Some minute) \<Rightarrow>
         if stop + 6 \<noteq> length token \<or> token ! (stop + 3) \<noteq> COLON \<or> hour > 23 \<or> minute > 59
         then Err (error c InvalidDateTime)
         else
           let minutes = ucast hour * 60 + ucast minute in
           Ok (OffsetDateTime \<lparr>to_local = local,
             to_offset_minutes = (if token ! stop = MINUS then - minutes else minutes)\<rparr>)
     | _ \<Rightarrow> Err (error c InvalidDateTime))"

definition parse_datetime :: "text_cursor \<Rightarrow> u8 list \<Rightarrow> toml_value toml_result" where
  "parse_datetime c token =
    (if 10 \<le> length token \<and> token ! 4 = MINUS \<and> token ! 7 = MINUS then
       and_then (parse_date c token 0) (\<lambda>date.
         if length token = 10 then Ok (LocalDate date)
         else if length token < 16 \<or> (token ! 10 \<noteq> 0x54 \<and> token ! 10 \<noteq> 0x74 \<and> token ! 10 \<noteq> SP)
         then Err (error c InvalidDateTime)
         else and_then (parse_time c token 11) (\<lambda>(time, stop).
           parse_offset c token \<lparr>ldt_date = date, ldt_time = time\<rparr> stop))
     else if 5 \<le> length token \<and> token ! 2 = COLON then
       (case parse_time c token 0 of
          Err Panics \<Rightarrow> Err Panics
        | Err e \<Rightarrow> Err (error c InvalidDateTime)
        | Ok (time, stop) \<Rightarrow> if stop \<noteq> length token then Err (error c InvalidDateTime) else Ok (LocalTime time))
     else Err (error c InvalidDateTime))"

section \<open>Scalars\<close>

definition valid_underscores :: "u8 list \<Rightarrow> bool" where
  "valid_underscores token =
    (let start = (if token \<noteq> [] \<and> is_sign (token ! 0) then 1 else 0);
         base = prefix_base (drop start token) in
     list_all (\<lambda>i. token ! i \<noteq> UNDERSCORE \<or>
         \<not> (i = 0 \<or> i + 1 = length token \<or> digit_for_base (token ! (i - 1)) base = None \<or>
            digit_for_base (token ! (i + 1)) base = None))
       [0 ..< length token])"

definition ends_scalar :: "u8 \<Rightarrow> bool" where
  "ends_scalar b \<longleftrightarrow> b = COMMA \<or> b = RBRACK \<or> b = RBRACE \<or> b = HASH \<or> b = LF \<or> b = CR"

fun trim_end :: "u8 list \<Rightarrow> nat \<Rightarrow> nat \<Rightarrow> nat" where
  "trim_end inp b 0 = 0"
| "trim_end inp b (Suc e) = (if b < Suc e \<and> is_horizontal (inp ! e) then trim_end inp b e else Suc e)"

definition scalar_of_token :: "dec2flt \<Rightarrow> text_cursor \<Rightarrow> u8 list \<Rightarrow> toml_value toml_result" where
  "scalar_of_token to_f64 c token =
    (if token = lit ''true'' then Ok (Boolean True)
     else if token = lit ''false'' then Ok (Boolean False)
     else if (5 \<le> length token \<and> token ! 2 = COLON) \<or> (10 \<le> length token \<and> token ! 4 = MINUS) then
       parse_datetime c token
     else if \<not> valid_underscores token then Err (error c InvalidNumber)
     else if token = [] then Err Panics
     else
       let body = (if is_sign (hd token) then tl token else token) in
       if prefix_base body \<noteq> 10 then parse_integer c token
       else if list_ex (\<lambda>b. b = DOT \<or> b = 0x65 \<or> b = 0x45) token \<or> special_float token \<noteq> None
       then parse_float to_f64 c token
       else parse_integer c token)"

definition parse_scalar :: "dec2flt \<Rightarrow> text_cursor \<Rightarrow> (toml_value \<times> text_cursor) toml_result" where
  "parse_scalar to_f64 c =
    (let c1 = skip_while (\<lambda>b. \<not> ends_scalar b) c;
         stop = trim_end (c_input c1) (c_position c) (c_position c1) in
     if stop = c_position c then Err (error c1 ExpectedValue)
     else case c_text c1 (c_position c) stop of
       Err er \<Rightarrow> Err Panics
     | Ok token \<Rightarrow> and_then (scalar_of_token to_f64 c1 token) (\<lambda>v. Ok (v, c1)))"

end
