(* ===== verification/Toml_Parser.thy ===== *)
theory Toml_Parser
  imports Toml_Lexer Ordered_Map "HOL-Library.List_Lexorder"
begin

text \<open>
  The recursive part of \<open>TomlParser\<close> (src/toml/src/parser.cpp): arrays and inline tables, the document
  under construction with its tree of definitions, assignments, headers and the entry points.  A
  pointer into a tree (\<open>Table*\<close>, \<open>DefinitionNode*\<close>) is a pair of the node it points to and the function
  that rebuilds the tree around a changed node; the creation of missing nodes on the way is part of
  that function.  A \<open>Table\<close> (a \<open>BTreeMap\<close>) is its sorted list of entries.  The mutually recursive
  functions carry fuel; \<open>toml_fuel\<close> is enough for every input.
\<close>

section \<open>Definition nodes\<close>

datatype definition_kind = ImplicitTable | ExplicitTable | DottedTable | InlineTable | ArrayOfTables | DValue

type_synonym key = "u8 list"
type_synonym toml_table = "(key \<times> toml_value) list"

datatype definition_node =
  DefinitionNode (d_kind: definition_kind) (children: "(key \<times> definition_node) list")
    (array_items: "definition_node list")

definition new_node :: "definition_kind \<Rightarrow> definition_node" where
  "new_node k = DefinitionNode k [] []"

definition set_child :: "key \<Rightarrow> definition_node \<Rightarrow> definition_node \<Rightarrow> definition_node" where
  "set_child k child node = DefinitionNode (d_kind node) (ins k child (children node)) (array_items node)"

definition get_child :: "definition_node \<Rightarrow> key \<Rightarrow> definition_node option" where
  "get_child node k = map_of (children node) k"

section \<open>The parser\<close>

record toml_options =
  to_max_depth :: u8
  to_max_input_bytes :: nat
  to_max_values :: nat

definition toml_default_options :: toml_options where
  "toml_default_options = \<lparr>to_max_depth = 128, to_max_input_bytes = 16 * 1024 * 1024, to_max_values = 1024 * 1024\<rparr>"

record toml_parser =
  p_cursor :: text_cursor
  p_remaining_depth :: u8
  p_max_input_bytes :: nat
  p_remaining_values :: nat
  p_root :: toml_table
  p_definitions :: definition_node
  p_current_path :: "key list"

definition make_parser :: "u8 list \<Rightarrow> toml_options \<Rightarrow> toml_parser" where
  "make_parser inp opts =
    \<lparr>p_cursor = make_cursor inp, p_remaining_depth = to_max_depth opts, p_max_input_bytes = to_max_input_bytes opts,
     p_remaining_values = to_max_values opts, p_root = [], p_definitions = new_node ExplicitTable, p_current_path = []\<rparr>"

abbreviation set_cursor :: "text_cursor \<Rightarrow> toml_parser \<Rightarrow> toml_parser" where
  "set_cursor c p \<equiv> p\<lparr>p_cursor := c\<rparr>"

text \<open>A method that only moves the cursor, called on the parser.\<close>

definition lex :: "(text_cursor \<Rightarrow> ('a \<times> text_cursor) toml_result) \<Rightarrow> toml_parser \<Rightarrow> ('a \<times> toml_parser) toml_result" where
  "lex f p = and_then (f (p_cursor p)) (\<lambda>(x, c). Ok (x, set_cursor c p))"

definition lex_unit :: "(text_cursor \<Rightarrow> text_cursor toml_result) \<Rightarrow> toml_parser \<Rightarrow> toml_parser toml_result" where
  "lex_unit f p = and_then (f (p_cursor p)) (\<lambda>c. Ok (set_cursor c p))"

abbreviation p_peek :: "toml_parser \<Rightarrow> u8" where "p_peek p \<equiv> peek (p_cursor p)"
abbreviation p_eof :: "toml_parser \<Rightarrow> bool" where "p_eof p \<equiv> eof (p_cursor p)"
abbreviation p_error :: "toml_parser \<Rightarrow> toml_error_code \<Rightarrow> toml_error failure" where "p_error p \<equiv> error (p_cursor p)"
abbreviation p_bump :: "toml_parser \<Rightarrow> toml_parser" where "p_bump p \<equiv> set_cursor (bump (p_cursor p)) p"
abbreviation p_horizontal :: "toml_parser \<Rightarrow> toml_parser" where
  "p_horizontal p \<equiv> set_cursor (consume_horizontal (p_cursor p)) p"

definition take_one :: "toml_parser \<Rightarrow> toml_parser toml_result" where
  "take_one p = and_then (take_byte (p_cursor p)) (\<lambda>(_, c). Ok (set_cursor c p))"

section \<open>Paths in the document and in the definitions\<close>

fun resolve_table :: "toml_parser \<Rightarrow> toml_table \<Rightarrow> key list \<Rightarrow> (toml_table \<times> (toml_table \<Rightarrow> toml_table)) toml_result" where
  "resolve_table p table [] = Ok (table, \<lambda>t. t)"
| "resolve_table p table (k # ks) =
    (case (case map_of table k of None \<Rightarrow> Table [] | Some item \<Rightarrow> item) of
       Table t \<Rightarrow> and_then (resolve_table p t ks) (\<lambda>(found, put). Ok (found, \<lambda>t'. ins k (Table (put t')) table))
     | Array vs \<Rightarrow>
         (if vs = [] then Err (p_error p TableRedefinition)
          else case last vs of
            Table t \<Rightarrow> and_then (resolve_table p t ks) (\<lambda>(found, put).
              Ok (found, \<lambda>t'. ins k (Array (butlast vs @ [Table (put t')])) table))
          | _ \<Rightarrow> Err (p_error p TableRedefinition))
     | _ \<Rightarrow> Err (p_error p TableRedefinition))"

fun resolve_definition ::
  "toml_parser \<Rightarrow> definition_node \<Rightarrow> key list \<Rightarrow> definition_kind \<Rightarrow> bool
    \<Rightarrow> (definition_node \<times> (definition_node \<Rightarrow> definition_node)) toml_result" where
  "resolve_definition p table [] missing create = Ok (table, \<lambda>n. n)"
| "resolve_definition p table (k # ks) missing create =
    (if get_child table k = None \<and> \<not> create then Err (p_error p TableRedefinition)
     else
       let node = (case get_child table k of None \<Rightarrow> new_node missing | Some n \<Rightarrow> n) in
       if missing = DottedTable \<and> d_kind node \<noteq> DottedTable then Err (p_error p TableRedefinition)
       else if d_kind node = ArrayOfTables then
         (if array_items node = [] then Err (p_error p TableRedefinition)
          else and_then (resolve_definition p (last (array_items node)) ks missing create) (\<lambda>(found, put).
            Ok (found, \<lambda>n. set_child k
              (DefinitionNode (d_kind node) (children node) (butlast (array_items node) @ [put n])) table)))
       else if d_kind node \<noteq> ImplicitTable \<and> d_kind node \<noteq> ExplicitTable \<and> d_kind node \<noteq> DottedTable
       then Err (p_error p TableRedefinition)
       else and_then (resolve_definition p node ks missing create) (\<lambda>(found, put).
         Ok (found, \<lambda>n. set_child k (put n) table)))"

definition resolve_current_table :: "toml_parser \<Rightarrow> (toml_table \<times> (toml_table \<Rightarrow> toml_table)) toml_result" where
  "resolve_current_table p = resolve_table p (p_root p) (p_current_path p)"

definition resolve_current_definition :: "toml_parser \<Rightarrow> (definition_node \<times> (definition_node \<Rightarrow> definition_node)) toml_result" where
  "resolve_current_definition p = resolve_definition p (p_definitions p) (p_current_path p) ImplicitTable False"

definition is_table :: "toml_value \<Rightarrow> bool" where
  "is_table v = (case v of Table _ \<Rightarrow> True | _ \<Rightarrow> False)"

definition is_array :: "toml_value \<Rightarrow> bool" where
  "is_array v = (case v of Array _ \<Rightarrow> True | _ \<Rightarrow> False)"

text \<open>The path is never empty: \<open>parse_key_path\<close> reads at least one key.\<close>

definition insert_path ::
  "toml_parser \<Rightarrow> toml_table \<Rightarrow> definition_node \<Rightarrow> key list \<Rightarrow> toml_value \<Rightarrow> (toml_table \<times> definition_node) toml_result" where
  "insert_path p table def path v =
    (if path = [] then Err Panics
     else and_then (resolve_definition p def (butlast path) DottedTable True) (\<lambda>(parent_def, put_def).
       and_then (resolve_table p table (butlast path)) (\<lambda>(parent, put).
         let k = last path in
         if get_child parent_def k \<noteq> None \<or> map_of parent k \<noteq> None then Err (p_error p DuplicateKey)
         else Ok (put (ins k v parent),
                  put_def (set_child k (new_node (if is_table v then InlineTable else DValue)) parent_def)))))"

section \<open>Values\<close>

definition leave_container :: "toml_parser \<Rightarrow> toml_parser" where
  "leave_container p = (p_bump p)\<lparr>p_remaining_depth := p_remaining_depth p + 1\<rparr>"

definition enter_container :: "toml_parser \<Rightarrow> toml_parser toml_result" where
  "enter_container p =
    (if p_remaining_depth p = 1 then Err (p_error p RecursionLimitExceeded)
     else and_then (take_one (p\<lparr>p_remaining_depth := p_remaining_depth p - 1\<rparr>)) (lex_unit consume_trivia))"

text \<open>
  What follows an element of a container closed by \<open>close\<close>: its end (\<open>True\<close>, the container is left), or
  a comma and then the end or another element.
\<close>

definition after_element :: "u8 \<Rightarrow> toml_parser \<Rightarrow> (bool \<times> toml_parser) toml_result" where
  "after_element close p0 = and_then (lex_unit consume_trivia p0) (\<lambda>p1.
     if p_eof p1 then Err (p_error p1 UnexpectedEnd)
     else if p_peek p1 = close then Ok (True, leave_container p1)
     else if p_peek p1 \<noteq> COMMA then Err (p_error p1 ExpectedCommaOrEnd)
     else and_then (lex_unit consume_trivia (p_bump p1)) (\<lambda>p2.
       if \<not> p_eof p2 \<and> p_peek p2 = close then Ok (True, leave_container p2) else Ok (False, p2)))"

definition inline_key :: "toml_parser \<Rightarrow> (key list \<times> toml_parser) toml_result" where
  "inline_key p0 = and_then (lex parse_key_path p0) (\<lambda>(path, p1).
     and_then (lex_unit consume_trivia p1) (\<lambda>p2.
       if p_eof p2 \<or> p_peek p2 \<noteq> EQUALS then Err (p_error p2 ExpectedEquals)
       else and_then (lex_unit consume_trivia (p_bump p2)) (\<lambda>p3. Ok (path, p3))))"

fun parse_value :: "dec2flt \<Rightarrow> nat \<Rightarrow> toml_parser \<Rightarrow> (toml_value \<times> toml_parser) toml_result"
  and array_loop :: "dec2flt \<Rightarrow> nat \<Rightarrow> toml_value list \<Rightarrow> toml_parser \<Rightarrow> (toml_value \<times> toml_parser) toml_result"
  and inline_table_loop ::
    "dec2flt \<Rightarrow> nat \<Rightarrow> toml_table \<Rightarrow> definition_node \<Rightarrow> toml_parser \<Rightarrow> (toml_value \<times> toml_parser) toml_result" where
  "parse_value to_f64 0 q = Err Fuel_out"
| "parse_value to_f64 (Suc fuel) q =
    (if p_eof q then Err (p_error q ExpectedValue)
     else if p_remaining_values q = 0 then Err (p_error q ResourceLimitExceeded)
     else
       let p = q\<lparr>p_remaining_values := p_remaining_values q - 1\<rparr> in
       if p_peek p = DQUOTE then and_then (lex (parse_basic_string True) p) (\<lambda>(s, p1). Ok (String s, p1))
       else if p_peek p = SQUOTE then and_then (lex (parse_literal_string True) p) (\<lambda>(s, p1). Ok (String s, p1))
       else if p_peek p = LBRACK then and_then (enter_container p) (\<lambda>p1.
         if \<not> p_eof p1 \<and> p_peek p1 = RBRACK then Ok (Array [], leave_container p1)
         else array_loop to_f64 fuel [] p1)
       else if p_peek p = LBRACE then and_then (enter_container p) (\<lambda>p1.
         if \<not> p_eof p1 \<and> p_peek p1 = RBRACE then Ok (Table [], leave_container p1)
         else inline_table_loop to_f64 fuel [] (new_node InlineTable) p1)
       else lex (parse_scalar to_f64) p)"
| "array_loop to_f64 0 vals p = Err Fuel_out"
| "array_loop to_f64 (Suc fuel) vals p = and_then (parse_value to_f64 fuel p) (\<lambda>(v, p1).
     and_then (after_element RBRACK p1) (\<lambda>(finished, p2).
       if finished then Ok (Array (vals @ [v]), p2) else array_loop to_f64 fuel (vals @ [v]) p2))"
| "inline_table_loop to_f64 0 table def p = Err Fuel_out"
| "inline_table_loop to_f64 (Suc fuel) table def p = and_then (inline_key p) (\<lambda>(path, p1).
     and_then (parse_value to_f64 fuel p1) (\<lambda>(v, p2).
       and_then (insert_path p2 table def path v) (\<lambda>(table1, def1).
         and_then (after_element RBRACE p2) (\<lambda>(finished, p3).
           if finished then Ok (Table table1, p3) else inline_table_loop to_f64 fuel table1 def1 p3))))"

definition toml_fuel :: "toml_parser \<Rightarrow> nat" where
  "toml_fuel p = 2 * c_remaining (p_cursor p) + 1"

section \<open>Statements\<close>

definition parse_assignment :: "dec2flt \<Rightarrow> toml_parser \<Rightarrow> toml_parser toml_result" where
  "parse_assignment to_f64 p0 = and_then (lex parse_key_path p0) (\<lambda>(path, p1).
     let p2 = p_horizontal p1 in
     if p_eof p2 \<or> p_peek p2 \<noteq> EQUALS then Err (p_error p2 ExpectedEquals)
     else
       let p3 = p_horizontal (p_bump p2) in
       and_then (parse_value to_f64 (toml_fuel p3) p3) (\<lambda>(v, p4).
         and_then (resolve_current_table p4) (\<lambda>(current, put).
           and_then (resolve_current_definition p4) (\<lambda>(current_def, put_def).
             and_then (insert_path p4 current current_def path v) (\<lambda>(t, d).
               lex_unit finish_line (p4\<lparr>p_root := put t, p_definitions := put_def d\<rparr>))))))"

text \<open>The brackets and the path of a header; the result says whether it names an array element.\<close>

definition header_path :: "toml_parser \<Rightarrow> (bool \<times> key list \<times> toml_parser) toml_result" where
  "header_path p0 = and_then (take_one p0) (\<lambda>p1.
     let arr = (\<not> p_eof p1 \<and> p_peek p1 = LBRACK);
         p2 = p_horizontal (if arr then p_bump p1 else p1) in
     and_then (lex parse_key_path p2) (\<lambda>(path, p3).
       let p4 = p_horizontal p3 in
       if p_eof p4 \<or> p_peek p4 \<noteq> RBRACK then Err (p_error p4 UnexpectedCharacter)
       else
         let p5 = p_bump p4 in
         if arr then
           if p_eof p5 \<or> p_peek p5 \<noteq> RBRACK then Err (p_error p5 UnexpectedCharacter)
           else Ok (True, path, p_bump p5)
         else Ok (False, path, p5)))"

text \<open>
  The new entries of the parent table and of its definition for the last key of a header: an element
  of an array of tables, or a table.
\<close>

definition define_array ::
  "toml_parser \<Rightarrow> key \<Rightarrow> toml_table \<Rightarrow> definition_node \<Rightarrow> (toml_table \<times> definition_node) toml_result" where
  "define_array p k parent parent_def =
    (case get_child parent_def k of
       None \<Rightarrow>
         Ok (ins k (Array [Table []]) parent,
             set_child k (DefinitionNode ArrayOfTables [] [new_node ExplicitTable]) parent_def)
     | Some node \<Rightarrow>
        (case map_of parent k of
           Some (Array vs) \<Rightarrow>
             if d_kind node = ArrayOfTables then
               Ok (ins k (Array (vs @ [Table []])) parent,
                   set_child k (DefinitionNode (d_kind node) (children node) (array_items node @ [new_node ExplicitTable]))
                     parent_def)
             else Err (p_error p TableRedefinition)
         | _ \<Rightarrow> Err (p_error p TableRedefinition)))"

definition define_table ::
  "toml_parser \<Rightarrow> key \<Rightarrow> toml_table \<Rightarrow> definition_node \<Rightarrow> (toml_table \<times> definition_node) toml_result" where
  "define_table p k parent parent_def =
    (case get_child parent_def k of
       None \<Rightarrow> Ok (ins k (Table []) parent, set_child k (new_node ExplicitTable) parent_def)
     | Some node \<Rightarrow>
         if d_kind node = ImplicitTable \<and> (case map_of parent k of Some v \<Rightarrow> is_table v | None \<Rightarrow> False) then
           Ok (parent, set_child k (DefinitionNode ExplicitTable (children node) (array_items node)) parent_def)
         else if d_kind node = ExplicitTable then Err (p_error p DuplicateTable)
         else Err (p_error p TableRedefinition))"

definition parse_header :: "toml_parser \<Rightarrow> toml_parser toml_result" where
  "parse_header p0 = and_then (header_path p0) (\<lambda>(arr, path, p).
     if path = [] then Err Panics
     else and_then (resolve_definition p (p_definitions p) (butlast path) ImplicitTable True) (\<lambda>(parent_def, put_def).
       and_then (resolve_table p (p_root p) (butlast path)) (\<lambda>(parent, put).
         and_then ((if arr then define_array else define_table) p (last path) parent parent_def) (\<lambda>(t, d).
           lex_unit finish_line
             (p\<lparr>p_root := put t, p_definitions := put_def d, p_current_path := path\<rparr>)))))"

section \<open>Entry points\<close>

definition parse_standalone_key :: "toml_parser \<Rightarrow> (key list) toml_result" where
  "parse_standalone_key p0 =
    (if length (c_input (p_cursor p0)) > p_max_input_bytes p0 then Err (p_error p0 ResourceLimitExceeded)
     else and_then (lex parse_key_path (p_horizontal p0)) (\<lambda>(path, p1).
       let p2 = p_horizontal p1 in
       if \<not> p_eof p2 then Err (p_error p2 ExpectedLineEnd) else Ok path))"

definition check_limits :: "toml_parser \<Rightarrow> unit toml_result" where
  "check_limits p =
    (if p_remaining_depth p = 0 then Err (p_error p RecursionLimitExceeded)
     else if length (c_input (p_cursor p)) > p_max_input_bytes p then Err (p_error p ResourceLimitExceeded)
     else Ok ())"

definition parse_standalone_value :: "dec2flt \<Rightarrow> toml_parser \<Rightarrow> toml_value toml_result" where
  "parse_standalone_value to_f64 p0 = and_then (check_limits p0) (\<lambda>_.
     let p1 = p_horizontal p0 in
     and_then (parse_value to_f64 (toml_fuel p1) p1) (\<lambda>(v, p2).
       let p3 = p_horizontal p2 in
       if \<not> p_eof p3 then Err (p_error p3 ExpectedLineEnd) else Ok v))"

definition standalone_key_equals :: "toml_parser \<Rightarrow> (key list \<times> toml_parser) toml_result" where
  "standalone_key_equals p0 = and_then (lex parse_key_path (p_horizontal p0)) (\<lambda>(path, p1).
     let p2 = p_horizontal p1 in
     if p_eof p2 \<or> p_peek p2 \<noteq> EQUALS then Err (p_error p2 ExpectedEquals)
     else Ok (path, p_horizontal (p_bump p2)))"

definition parse_standalone_assignment :: "dec2flt \<Rightarrow> toml_parser \<Rightarrow> (key list \<times> toml_value) toml_result" where
  "parse_standalone_assignment to_f64 p0 = and_then (check_limits p0) (\<lambda>_.
     and_then (standalone_key_equals p0) (\<lambda>(path, p1).
       and_then (parse_value to_f64 (toml_fuel p1) p1) (\<lambda>(v, p2).
         let p3 = p_horizontal p2 in
         if \<not> p_eof p3 then Err (p_error p3 ExpectedLineEnd) else Ok (path, v))))"

definition parse_standalone_assignment_text :: "toml_parser \<Rightarrow> (key list \<times> u8 list) toml_result" where
  "parse_standalone_assignment_text p0 =
    (if length (c_input (p_cursor p0)) > p_max_input_bytes p0 then Err (p_error p0 ResourceLimitExceeded)
     else and_then (standalone_key_equals p0) (\<lambda>(path, p1).
       let c = p_cursor p1;
           stop = trim_end (c_input c) (c_position c) (length (c_input c)) in
       if stop = c_position c then Err (p_error p1 ExpectedValue)
       else case c_text c (c_position c) stop of
         Err er \<Rightarrow> Err Panics
       | Ok t \<Rightarrow> Ok (path, t)))"

definition statement :: "dec2flt \<Rightarrow> toml_parser \<Rightarrow> toml_parser toml_result" where
  "statement to_f64 p = (if p_peek p = LBRACK then parse_header p else parse_assignment to_f64 p)"

fun document_loop :: "dec2flt \<Rightarrow> nat \<Rightarrow> toml_parser \<Rightarrow> toml_parser toml_result" where
  "document_loop to_f64 0 p = Err Fuel_out"
| "document_loop to_f64 (Suc fuel) p =
    (if p_eof p then Ok p
     else and_then (statement to_f64 p) (\<lambda>p1. and_then (lex_unit consume_trivia p1) (document_loop to_f64 fuel)))"

definition parse :: "dec2flt \<Rightarrow> toml_parser \<Rightarrow> toml_value toml_result" where
  "parse to_f64 p0 = and_then (check_limits p0) (\<lambda>_.
     and_then (lex_unit consume_trivia p0) (\<lambda>p1.
       and_then (document_loop to_f64 (toml_fuel p0) p1) (\<lambda>p2. Ok (Table (p_root p2)))))"

definition from_str :: "dec2flt \<Rightarrow> u8 list \<Rightarrow> toml_options \<Rightarrow> toml_value toml_result" where
  "from_str to_f64 inp opts = parse to_f64 (make_parser inp opts)"

definition from_slice :: "dec2flt \<Rightarrow> u8 list \<Rightarrow> toml_options \<Rightarrow> toml_value toml_result" where
  "from_slice to_f64 inp opts =
    (case from_utf8 inp of Err er \<Rightarrow> Err invalid_utf8_error | Ok txt \<Rightarrow> from_str to_f64 txt opts)"

definition parse_key_path_str :: "u8 list \<Rightarrow> (key list) toml_result" where
  "parse_key_path_str inp = parse_standalone_key (make_parser inp toml_default_options)"

definition parse_value_str :: "dec2flt \<Rightarrow> u8 list \<Rightarrow> toml_value toml_result" where
  "parse_value_str to_f64 inp = parse_standalone_value to_f64 (make_parser inp toml_default_options)"

definition parse_assignment_str :: "dec2flt \<Rightarrow> u8 list \<Rightarrow> (key list \<times> toml_value) toml_result" where
  "parse_assignment_str to_f64 inp = parse_standalone_assignment to_f64 (make_parser inp toml_default_options)"

definition parse_assignment_text_str :: "u8 list \<Rightarrow> (key list \<times> u8 list) toml_result" where
  "parse_assignment_text_str inp = parse_standalone_assignment_text (make_parser inp toml_default_options)"

end
