(* ===== verification/Toml_Lexer_Facts.thy ===== *)
theory Toml_Lexer_Facts
  imports Toml_Parser
begin

text \<open>
  Parsing TOML text always returns: no operation on the cursor yields past the end, no slice splits a
  character, and the recursion stays within its fuel.  The same induction shows that strings and keys are
  well-formed UTF-8.
\<close>

section \<open>Cursors on text\<close>

definition base :: "text_cursor \<Rightarrow> bool" where
  "base c \<longleftrightarrow> c_wf c \<and> is_valid_utf8 (c_input c)"

definition tok :: "text_cursor \<Rightarrow> bool" where
  "tok c \<longleftrightarrow> base c \<and> is_char_boundary (c_input c) (c_position c)"

lemma tok_base: "tok c \<Longrightarrow> base c"
  by (simp add: tok_def)

lemma base_moved: "base c \<Longrightarrow> c_moved c c' \<Longrightarrow> base c'"
  using c_moved_props(1,2) [of c c'] by (auto simp: base_def)

lemma base_bump: "base c \<Longrightarrow> base (bump c)"
  using base_moved bump_moved by blast

lemma not_eof: "\<not> eof c \<longleftrightarrow> c_position c < length (c_input c)"
  by (simp add: eof_def c_is_eof_def not_le)

lemma peek_nth: "\<not> eof c \<Longrightarrow> peek c = c_input c ! c_position c"
  by (simp add: not_eof peek_at_def c_peek_def c_remaining_def)

lemma bump_position: "\<not> eof c \<Longrightarrow> c_position (bump c) = Suc (c_position c) \<and> c_input (bump c) = c_input c"
  by (simp add: not_eof bump_def c_take_def c_peek_def c_advance_def c_remaining_def)

lemma rest_bump: "\<not> eof c \<Longrightarrow> c_rest c = peek c # c_rest (bump c)"
  using bump_position [of c] peek_nth [of c] by (simp add: c_rest_def not_eof Cons_nth_drop_Suc)

lemma tok_ascii:
  assumes "base c" "\<not> eof c" "unat (peek c) < 128"
  shows "tok c" "tok (bump c)"
  using ascii_boundaries [of "c_input c" "c_position c"] assms base_bump [OF assms(1)] bump_position [OF assms(2)] peek_nth [OF assms(2)]
  by (auto simp: tok_def base_def not_eof)

lemma tok_eof: "base c \<Longrightarrow> eof c \<Longrightarrow> tok c"
  using c_wf_def [of c] by (simp add: tok_def base_def is_char_boundary_def eof_def c_is_eof_def)

lemma tok_rest: "tok c \<Longrightarrow> is_valid_utf8 (c_rest c)"
  using valid_slice [of "c_input c" "c_position c" "length (c_input c)"]
  by (simp add: tok_def base_def c_wf_def c_rest_def is_char_boundary_def)

lemma toml_error_good [simp]: "base c \<Longrightarrow> good (Err (error c k))"
  by (simp add: base_def c_wf_def good_def error_def source_position_def source_position_at_def split: prod.split)

text \<open>What the methods on the cursor promise.\<close>

definition moves :: "text_cursor \<Rightarrow> text_cursor toml_result \<Rightarrow> bool" where
  "moves c res \<longleftrightarrow> good res \<and> (\<forall>c'. res = Ok c' \<longrightarrow> c_moved c c' \<and> tok c')"

definition yields :: "('a \<Rightarrow> bool) \<Rightarrow> text_cursor \<Rightarrow> ('a \<times> text_cursor) toml_result \<Rightarrow> bool" where
  "yields P c res \<longleftrightarrow> good res \<and> (\<forall>x c'. res = Ok (x, c') \<longrightarrow> c_moved c c' \<and> tok c' \<and> P x)"

lemma moves_Ok [simp]: "moves c (Ok c') \<longleftrightarrow> c_moved c c' \<and> tok c'"
  by (auto simp: moves_def)

lemma moves_error [simp]: "base d \<Longrightarrow> moves c (Err (error d k))"
  by (simp add: moves_def)

lemma yields_Ok [simp]: "yields P c (Ok (x, c')) \<longleftrightarrow> c_moved c c' \<and> tok c' \<and> P x"
  by (auto simp: yields_def)

lemma yields_error [simp]: "base d \<Longrightarrow> yields P c (Err (error d k))"
  by (simp add: yields_def)

lemma moves_then: "moves c r \<Longrightarrow> (\<And>c1. r = Ok c1 \<Longrightarrow> c_moved c c1 \<Longrightarrow> tok c1 \<Longrightarrow> moves c (f c1)) \<Longrightarrow> moves c (and_then r f)"
  by (cases r) (auto simp: moves_def good_def)

lemma moves_from: "c_moved c d \<Longrightarrow> moves d r \<Longrightarrow> moves c r"
  by (auto simp: moves_def intro: c_moved_trans)

lemma yields_from: "c_moved c d \<Longrightarrow> yields P d r \<Longrightarrow> yields P c r"
  by (auto simp: yields_def intro: c_moved_trans)

lemma yields_then:
  "yields Q c r \<Longrightarrow> (\<And>x c1. r = Ok (x, c1) \<Longrightarrow> c_moved c c1 \<Longrightarrow> tok c1 \<Longrightarrow> Q x \<Longrightarrow> yields P c (f (x, c1))) \<Longrightarrow> yields P c (and_then r f)"
  by (cases r) (auto simp: yields_def good_def)

lemma yields_moves:
  "moves c r \<Longrightarrow> (\<And>c1. r = Ok c1 \<Longrightarrow> c_moved c c1 \<Longrightarrow> tok c1 \<Longrightarrow> yields P c (f c1)) \<Longrightarrow> yields P c (and_then r f)"
  by (cases r) (auto simp: yields_def moves_def good_def)

section \<open>White space, comments and line ends\<close>

lemma skip_while_tok:
  assumes "\<And>b. p b \<Longrightarrow> unat b < 128" "tok c"
  shows "tok (skip_while p c)"
  using assms
proof (induction p c rule: skip_while.induct)
  case (1 p c)
  then show ?case using tok_ascii(2) [of c] tok_base [of c] by (subst skip_while.simps) auto
qed

lemma horizontal_ascii: "is_horizontal b \<Longrightarrow> unat b < 128"
  by (auto simp: is_horizontal_def)

lemma horizontal_tok: "tok c \<Longrightarrow> tok (consume_horizontal c)"
  unfolding consume_horizontal_def by (rule skip_while_tok [OF horizontal_ascii])

lemma horizontal_moved [simp]: "c_moved c (consume_horizontal c)"
  by (simp add: consume_horizontal_def)

lemma comment_loop_moves: "base c \<Longrightarrow> moves c (comment_loop c)"
proof (induction c rule: comment_loop.induct)
  case (1 c)
  have e: "tok c" if "eof c \<or> peek c = LF \<or> at_crlf c"
    using that 1(2) tok_eof tok_ascii(1) [of c] by (cases "eof c") (auto simp: at_crlf_def)
  show ?case
  proof (cases "eof c \<or> peek c = LF \<or> at_crlf c \<or> is_control (peek c)")
    case True
    then show ?thesis using e 1(2) by (subst comment_loop.simps) auto
  next
    case False
    then have "moves (bump c) (comment_loop (bump c))" using 1 base_bump by auto
    then show ?thesis using False moves_from [OF bump_moved] by (subst comment_loop.simps) auto
  qed
qed

lemma comment_moves: "tok c \<Longrightarrow> moves c (consume_comment c)"
  using comment_loop_moves tok_base by (auto simp: consume_comment_def)

lemma comment_horizontal_moves: "tok c \<Longrightarrow> moves c (consume_comment (consume_horizontal c))"
  using moves_from [OF horizontal_moved comment_moves [OF horizontal_tok]] .

lemma peek_at_bump: "\<not> eof c \<Longrightarrow> peek_at c (Suc n) = peek_at (bump c) n"
  using bump_position [of c] by (auto simp: peek_at_def c_peek_def c_remaining_def)

lemma crlf_tok: "base c \<Longrightarrow> at_crlf c \<Longrightarrow> tok (bump (bump c)) \<and> \<not> eof c"
proof -
  assume b: "base c" and a: "at_crlf c"
  have ne: "\<not> eof c" using a peek_at_not_eof [of c 0] by (simp add: at_crlf_def)
  have "peek_at c 1 = peek (bump c)" using peek_at_bump [OF ne, of 0] by simp
  then have "peek (bump c) = LF" using a by (simp add: at_crlf_def)
  then show ?thesis using tok_ascii(2) [of "bump c"] base_bump [OF b] peek_at_not_eof [of "bump c" 0] ne by simp
qed

lemma lf_tok: "base c \<Longrightarrow> \<not> eof c \<Longrightarrow> peek c = LF \<Longrightarrow> tok (bump c)"
  using tok_ascii(2) by simp

lemma trivia_moves: "tok c \<Longrightarrow> moves c (consume_trivia c)"
proof (induction c rule: consume_trivia.induct)
  case (1 c)
  show ?case unfolding consume_trivia.simps [of c]
  proof (rule moves_then [OF comment_horizontal_moves [OF 1(3)]])
    fix c1 assume c1: "consume_comment (consume_horizontal c) = Ok c1" "c_moved c c1" "tok c1"
    note b = tok_base [OF c1(3)]
    show "moves c (if eof c1 then Ok c1 else if peek c1 = LF then consume_trivia (bump c1)
      else if at_crlf c1 then consume_trivia (bump (bump c1)) else Ok c1)"
      using 1(1) [OF c1(1)] 1(2) [OF c1(1)] lf_tok [OF b] crlf_tok [OF b] c1
        moves_from [OF c_moved_bump [OF c1(2)]] moves_from [OF c_moved_bump [OF c_moved_bump [OF c1(2)]]] by auto
  qed
qed

lemma finish_line_moves: "tok c \<Longrightarrow> moves c (finish_line c)"
  unfolding finish_line_def
proof (rule moves_then [OF comment_horizontal_moves])
  fix c1 assume c1: "c_moved c c1" "tok c1"
  note b = tok_base [OF c1(2)]
  show "moves c (if eof c1 then Ok c1 else if peek c1 = LF then Ok (bump c1)
      else if at_crlf c1 then Ok (bump (bump c1)) else Err (error c1 ExpectedLineEnd))"
    using lf_tok [OF b] crlf_tok [OF b] c1 b by (auto intro: c_moved_bump)
qed

section \<open>Strings\<close>

lemma take_byte_Err: "take_byte c = Err e \<Longrightarrow> eof c"
  by (auto simp: take_byte_def c_take_def c_peek_def eof_def c_is_eof_def c_remaining_def split: if_splits)

lemma take_byte_eq: "\<not> eof c \<Longrightarrow> take_byte c = Ok (peek c, bump c)"
  by (simp add: take_byte_Ok)

lemma hex_digit_ascii: "digit_value b 16 = Some d \<Longrightarrow> unat b < 128"
  by (auto simp: digit_value_def Let_def is_digit_def word_le_nat_alt split: if_splits option.splits)

lemma escape_digits_yields: "tok c \<Longrightarrow> yields (\<lambda>v. True) c (escape_digits n v c)"
proof (induction n arbitrary: v c)
  case (Suc n)
  note b = tok_base [OF Suc.prems]
  show ?case
  proof (cases "eof c \<or> digit_value (peek c) 16 = None")
    case True
    then show ?thesis using b by auto
  next
    case False
    then obtain d where d: "digit_value (peek c) 16 = Some d" by auto
    then have "tok (bump c)" using tok_ascii(2) [OF b] hex_digit_ascii False by blast
    then show ?thesis using yields_from [OF bump_moved Suc.IH] d False by simp
  qed
qed simp

lemma unicode_escape_yields: "tok c \<Longrightarrow> yields is_scalar c (parse_unicode_escape n c)"
  unfolding parse_unicode_escape_def
  by (rule yields_then [OF escape_digits_yields])
    (auto simp: tok_base is_scalar_def MAX_SCALAR_def not_less not_le)

lemma blank_lines_tok: "tok c \<Longrightarrow> tok (skip_blank_lines c)"
proof (induction c rule: skip_blank_lines.induct)
  case (1 c)
  have t: "tok (skip_while is_horizontal c)" using 1(3) horizontal_tok by (simp add: consume_horizontal_def)
  then show ?case using 1 lf_tok [OF tok_base [OF t]] crlf_tok [OF tok_base [OF t]] by (subst skip_blank_lines.simps) (auto simp: Let_def)
qed

lemma peek_at_rest: "peek_at c n = (if n < length (c_rest c) then c_rest c ! n else 0)"
  by (simp add: peek_at_def c_peek_def c_remaining_def c_rest_def not_le)

lemma count_run_eq: "n \<le> length (c_rest c) \<Longrightarrow> count_run p c n = n + length (takeWhile p (drop n (c_rest c)))"
proof (induction p c n rule: count_run.induct)
  case (1 p c n)
  show ?case
  proof (cases "n < length (c_rest c)")
    case True
    then have d: "drop n (c_rest c) = c_rest c ! n # drop (Suc n) (c_rest c)" by (simp add: Cons_nth_drop_Suc)
    show ?thesis using 1 True by (subst count_run.simps) (simp add: d peek_at_rest c_remaining_rest)
  qed (subst count_run.simps, simp add: c_remaining_rest)
qed

lemma skip_while_eq: "c_input (skip_while p c) = c_input c \<and> c_position (skip_while p c) = c_position c + length (takeWhile p (c_rest c))"
proof (induction p c rule: skip_while.induct)
  case (1 p c)
  show ?case
  proof (cases "eof c")
    case True
    then have "c_rest c = []" by (simp add: c_rest_def eof_def c_is_eof_def)
    then show ?thesis using True by (subst (1 2) skip_while.simps) simp
  next
    case False
    show ?thesis using 1 False bump_position [OF False] by (subst (1 2) skip_while.simps) (auto simp: rest_bump [OF False])
  qed
qed

lemma skip_while_peek: "peek_at (skip_while p c) i = peek_at c (length (takeWhile p (c_rest c)) + i)"
  using skip_while_eq [of p c] by (simp add: peek_at_def c_peek_def c_remaining_def add.assoc) auto

lemma continuation_at: "continuation_line c \<Longrightarrow> peek (skip_while is_horizontal c) = LF \<or> at_crlf (skip_while is_horizontal c)"
  by (auto simp: continuation_line_def Let_def count_run_eq skip_while_peek at_crlf_def)

lemma continuation_moves:
  assumes t: "tok c" and l: "continuation_line c"
  shows "moves c (skip_continuation c)"
proof -
  let ?d = "skip_while is_horizontal c"
  have d: "tok ?d" "c_moved c ?d" using horizontal_tok [OF t] by (simp_all add: consume_horizontal_def)
  note b = tok_base [OF d(1)]
  show ?thesis
  proof (cases "peek ?d = LF")
    case True
    then have ne: "\<not> eof ?d" using peek_at_not_eof [of ?d 0] by simp
    have "tok (skip_blank_lines (bump ?d))" using blank_lines_tok lf_tok [OF b ne True] by blast
    moreover have "c_moved c (skip_blank_lines (bump ?d))" using c_moved_trans [OF c_moved_bump [OF d(2)] blank_lines_moved] .
    ultimately show ?thesis using True ne by (simp add: skip_continuation_def Let_def take_byte_eq)
  next
    case False
    then have a: "at_crlf ?d" using continuation_at [OF l] by blast
    note c = crlf_tok [OF b a]
    have p: "peek ?d = CR" "peek (bump ?d) = LF" "\<not> eof (bump ?d)"
    proof -
      show "peek ?d = CR" using a by (simp add: at_crlf_def)
      have "peek_at ?d 1 = peek (bump ?d)" using c peek_at_bump [of ?d 0] by simp
      then show "peek (bump ?d) = LF" using a by (simp add: at_crlf_def)
      then show "\<not> eof (bump ?d)" using peek_at_not_eof [of "bump ?d" 0] by simp
    qed
    have "tok (skip_blank_lines (bump (bump ?d)))" using blank_lines_tok c by blast
    moreover have "c_moved c (skip_blank_lines (bump (bump ?d)))"
      using c_moved_trans [OF c_moved_bump [OF c_moved_bump [OF d(2)]] blank_lines_moved] .
    ultimately show ?thesis using p c by (simp add: skip_continuation_def Let_def take_byte_eq)
  qed
qed

lemma escaped_ascii: "escaped_byte b = Some v \<Longrightarrow> unat b < 128 \<and> v < 0x80"
  by (auto simp: escaped_byte_def split: if_splits)

lemma escape_length_ascii: "escape_length b = Some n \<Longrightarrow> unat b < 128"
  by (auto simp: escape_length_def split: if_splits)

lemma push_scalar_eq: "is_scalar v \<Longrightarrow> is_valid_utf8 out \<Longrightarrow> \<exists>out1. push_scalar out v = Ok out1 \<and> is_valid_utf8 out1"
  using valid_append [OF _ valid_enc [of v], of out] enc_not_Nil [of v] length_encode_utf8_scalar [of v] snd_encode_utf8_scalar [of v]
  by (auto simp: push_scalar_def encode_utf8_def len_utf8_scalar_pos [THEN gr_implies_not0] split: prod.split)

lemma escape_yields:
  assumes t: "tok c" and v: "is_valid_utf8 out"
  shows "yields is_valid_utf8 c (parse_escape multiline out c)"
proof -
  note b = tok_base [OF t]
  consider (eof) "eof c" | (line) "\<not> eof c" "multiline \<and> continuation_line c"
    | (byte) "\<not> eof c" "\<not> (multiline \<and> continuation_line c)" by blast
  then show ?thesis
  proof cases
    case eof
    then show ?thesis using b by (simp add: parse_escape_def)
  next
    case line
    have "yields is_valid_utf8 c (and_then (skip_continuation c) (\<lambda>c1. Ok (out, c1)))"
      by (rule yields_moves [OF continuation_moves]) (use t v line in auto)
    then show ?thesis using line by (simp add: parse_escape_def)
  next
    case byte
    then have e: "parse_escape multiline out c = (case escaped_byte (peek c) of
         Some v \<Rightarrow> Ok (out @ [v], bump c)
       | None \<Rightarrow> (case escape_length (peek c) of
           Some digits \<Rightarrow> and_then (parse_unicode_escape digits (bump c)) (\<lambda>(v, c2).
             and_then (push_scalar out v) (\<lambda>out1. Ok (out1, c2)))
         | None \<Rightarrow> Err (error (bump c) InvalidEscape)))"
      by (auto simp: parse_escape_def take_byte_eq)
    have u: "yields is_valid_utf8 c (and_then (parse_unicode_escape digits (bump c)) (\<lambda>(v, c2).
             and_then (push_scalar out v) (\<lambda>out1. Ok (out1, c2))))" if "tok (bump c)" for digits
      by (rule yields_then [OF yields_from [OF bump_moved unicode_escape_yields [OF that]]]) (use push_scalar_eq v in fastforce)
    show ?thesis
    proof (cases "escaped_byte (peek c)")
      case (Some w)
      note a = escaped_ascii [OF Some]
      have "is_valid_utf8 (out @ [w])" using a v by (simp add: valid_append valid_ascii)
      then show ?thesis unfolding e using Some tok_ascii(2) [OF b byte(1)] a by simp
    next
      case None
      then show ?thesis unfolding e
        using tok_ascii(2) [OF b byte(1)] escape_length_ascii [of "peek c"] u base_bump [OF b] by (auto split: option.split)
    qed
  qed
qed

text \<open>
  The loops copy bytes one at a time: between two steps the text written so far may end inside a
  character, which the input completes.
\<close>

definition spans :: "u8 list \<Rightarrow> text_cursor \<Rightarrow> bool" where
  "spans out c \<longleftrightarrow> base c \<and> is_valid_utf8 (out @ c_rest c)"

lemma spans_tok: "tok c \<Longrightarrow> is_valid_utf8 out \<Longrightarrow> spans out c"
  by (simp add: spans_def tok_base tok_rest valid_append)

lemma spans_out:
  assumes "spans out c" "\<not> eof c" "unat (peek c) < 128"
  shows "is_valid_utf8 out"
  using valid_split_ascii(1) [of out "peek c" "c_rest (bump c)"] assms by (simp add: spans_def rest_bump)

lemma spans_byte: "spans out c \<Longrightarrow> \<not> eof c \<Longrightarrow> spans (out @ [peek c]) (bump c)"
  using base_bump by (simp add: spans_def rest_bump [of c])

lemma spans_ascii:
  assumes "spans out c" "\<not> eof c" "unat (peek c) < 128" "is_valid_utf8 ys"
  shows "spans (out @ ys) (bump c)"
  using spans_tok tok_ascii(2) assms spans_out spans_def valid_append by metis

lemma bump_n_tok: "tok c \<Longrightarrow> (\<And>i. i < n \<Longrightarrow> unat (peek_at c i) < 128 \<and> peek_at c i \<noteq> 0) \<Longrightarrow> tok (bump_n n c)"
proof (induction n arbitrary: c)
  case (Suc n)
  have p: "\<not> eof c" "unat (peek c) < 128" using Suc.prems(2) [of 0] peek_at_not_eof [of c 0] by auto
  have "tok (bump c)" using tok_ascii(2) tok_base Suc.prems(1) p by blast
  moreover have "unat (peek_at (bump c) i) < 128 \<and> peek_at (bump c) i \<noteq> 0" if "i < n" for i
    using Suc.prems(2) [of "Suc i"] that peek_at_bump [OF p(1), of i] by simp
  ultimately show ?case using Suc.IH by simp
qed simp

lemma count_run_peek: "i < count_run p c 0 \<Longrightarrow> p (peek_at c i)"
proof -
  assume "i < count_run p c 0"
  then have i: "i < length (takeWhile p (c_rest c))" by (simp add: count_run_eq)
  then have "p (takeWhile p (c_rest c) ! i)" using nth_mem set_takeWhileD by fastforce
  then show ?thesis using i length_takeWhile_le [of p "c_rest c"] by (simp add: takeWhile_nth peek_at_rest)
qed

lemma quote_run_ok:
  assumes s: "spans out c" "\<not> eof c" "peek c = q" "unat q < 128" "q \<noteq> 0"
  shows "good (quote_run q m out c)"
    "quote_run q m out c = Ok (True, out1, c1) \<Longrightarrow> tok c1 \<and> is_valid_utf8 out1"
proof -
  have b: "base c" using s by (simp add: spans_def)
  then show "good (quote_run q m out c)" by (simp add: quote_run_def Let_def)
  have o: "is_valid_utf8 out" using spans_out s by simp
  have q: "q < 0x80" using s(4) by (simp add: word_less_nat_alt)
  have t: "tok (bump_n (count_run (\<lambda>b. b = q) c 0) c)"
    by (rule bump_n_tok) (use tok_ascii(1) [OF b] s count_run_peek [of _ "\<lambda>b. b = q" c] in auto)
  show "tok c1 \<and> is_valid_utf8 out1" if "quote_run q m out c = Ok (True, out1, c1)"
    using that o t tok_ascii(2) [OF b s(2)] s(3,4) valid_replicate [OF q] valid_append
    by (auto simp: quote_run_def Let_def split: if_splits)
qed

lemma quote_then:
  assumes "good (quote_run q m out c)" "\<And>o1 c1. quote_run q m out c = Ok (True, o1, c1) \<Longrightarrow> tok c1 \<and> is_valid_utf8 o1"
    and "yields is_valid_utf8 c (f out c)"
  shows "yields is_valid_utf8 c (and_then (quote_run q m out c) (\<lambda>(finished, o1, c1). if finished then Ok (o1, c1) else f o1 c1))"
proof (cases "quote_run q m out c")
  case (Inl e)
  then show ?thesis using assms(1) by (simp add: yields_def good_def)
next
  case (Inr r)
  obtain fin o1 c1 where r: "r = (fin, o1, c1)" by (cases r) auto
  show ?thesis using Inr r assms(2,3) quote_run_moved [of q m out c fin o1 c1] quote_run_unfinished [of q m out c o1 c1]
    by (cases fin) auto
qed

lemma plain_byte_ok:
  assumes s: "spans out c" "\<not> eof c"
  shows "good (plain_byte m out c)" "plain_byte m out c = Ok (out1, c1) \<Longrightarrow> spans out1 c1"
proof -
  have b: "base c" using s by (simp add: spans_def)
  then show "good (plain_byte m out c)" by (simp add: plain_byte_def)
  have v: "is_valid_utf8 [LF]" by (simp add: valid_ascii)
  have "spans (out @ [LF]) (bump (bump c))" if "at_crlf c"
    using that crlf_tok [OF b that] spans_out [OF s] spans_tok valid_append [OF _ v] by (simp add: at_crlf_def)
  then show "spans out1 c1" if "plain_byte m out c = Ok (out1, c1)"
    using that spans_ascii [OF s _ v] spans_byte [OF s] by (auto simp: plain_byte_def split: if_splits)
qed

lemma plain_then:
  assumes "spans out c" "\<not> eof c" "\<And>o1 c1. spans o1 c1 \<Longrightarrow> c_advanced c c1 \<Longrightarrow> yields P c (f o1 c1)"
  shows "yields P c (and_then (plain_byte m out c) (\<lambda>(o1, c1). f o1 c1))"
proof (cases "plain_byte m out c")
  case (Inl e)
  then show ?thesis using plain_byte_ok(1) [OF assms(1,2), of m] by (simp add: yields_def good_def)
next
  case (Inr r)
  then show ?thesis using plain_byte_ok(2) [OF assms(1,2), of m] assms(2,3) plain_byte_moved [of m out c] by (cases r) simp
qed

lemma basic_loop_yields: "spans out c \<Longrightarrow> yields is_valid_utf8 c (basic_loop m out c)"
proof (induction "c_remaining c" arbitrary: out c rule: less_induct)
  case less
  have b: "base c" using less.prems by (simp add: spans_def)
  have IH: "yields is_valid_utf8 c (basic_loop m out1 c1)" if "c_advanced c c1" "spans out1 c1" for out1 c1
    using less.hyps [OF c_advanced_less(1) [OF that(1)] that(2)] yields_from c_advanced_moved that(1) by blast
  consider (eof) "eof c" | (quote) "\<not> eof c" "peek c = DQUOTE" | (esc) "\<not> eof c" "peek c = BSLASH"
    | (plain) "\<not> eof c" "peek c \<noteq> DQUOTE" "peek c \<noteq> BSLASH" by blast
  then show ?case
  proof cases
    case eof
    then show ?thesis using b by (subst basic_loop.simps) simp
  next
    case quote
    have q: "unat (DQUOTE :: u8) < 128" "(DQUOTE :: u8) \<noteq> 0" by simp_all
    note ok = quote_run_ok [OF less.prems quote q, of m]
    have "yields is_valid_utf8 c (basic_loop m (out @ [peek c]) (bump c))"
      using IH [OF bump_advanced spans_byte] quote less.prems by simp
    then show ?thesis using quote_then [of DQUOTE m out c "\<lambda>o1 c1. basic_loop m (o1 @ [peek c1]) (bump c1)"] ok quote by (subst basic_loop.simps) simp
  next
    case esc
    have t: "tok (bump c)" "is_valid_utf8 out" using tok_ascii(2) [OF b esc(1)] spans_out [OF less.prems esc(1)] esc(2) by simp_all
    have "yields is_valid_utf8 c (and_then (parse_escape m out (bump c)) (\<lambda>(out1, c1). basic_loop m out1 c1))"
    proof (rule yields_then [OF yields_from [OF bump_moved escape_yields [OF t]]])
      fix x c1 assume a: "parse_escape m out (bump c) = Ok (x, c1)" "tok c1" "is_valid_utf8 x"
      have "c_advanced c c1" using c_advanced_trans1 [OF bump_advanced [OF esc(1)] parse_escape_moved [OF a(1)]] .
      then show "yields is_valid_utf8 c (case (x, c1) of (out1, c1) \<Rightarrow> basic_loop m out1 c1)"
        using IH spans_tok [OF a(2,3)] by simp
    qed
    then show ?thesis using esc by (subst basic_loop.simps) simp
  next
    case plain
    have "yields is_valid_utf8 c (and_then (plain_byte m out c) (\<lambda>(out1, c1). basic_loop m out1 c1))"
      by (rule plain_then [OF less.prems plain(1)]) (use IH in blast)
    then show ?thesis using plain by (subst basic_loop.simps) simp
  qed
qed

lemma literal_loop_yields: "spans out c \<Longrightarrow> yields is_valid_utf8 c (literal_loop m out c)"
proof (induction "c_remaining c" arbitrary: out c rule: less_induct)
  case less
  have b: "base c" using less.prems by (simp add: spans_def)
  have IH: "yields is_valid_utf8 c (literal_loop m out1 c1)" if "c_advanced c c1" "spans out1 c1" for out1 c1
    using less.hyps [OF c_advanced_less(1) [OF that(1)] that(2)] yields_from c_advanced_moved that(1) by blast
  show ?case
  proof (cases "eof c")
    case True
    then show ?thesis using b by (subst literal_loop.simps) simp
  next
    case False
    have p: "yields is_valid_utf8 c (and_then (plain_byte m out c) (\<lambda>(o1, c1). literal_loop m o1 c1))"
      by (rule plain_then [OF less.prems False]) (use IH in blast)
    show ?thesis
    proof (cases "peek c = SQUOTE")
      case True
      have q: "unat (SQUOTE :: u8) < 128" "(SQUOTE :: u8) \<noteq> 0" by simp_all
      note ok = quote_run_ok [OF less.prems False True q, of m]
      have "yields is_valid_utf8 c (and_then (quote_run SQUOTE m out c) (\<lambda>(finished, o1, c1).
          if finished then Ok (o1, c1) else and_then (plain_byte m o1 c1) (\<lambda>(o1, c1). literal_loop m o1 c1)))"
        by (rule quote_then [of _ _ _ _ "\<lambda>o1 c1. and_then (plain_byte m o1 c1) (\<lambda>(o1, c1). literal_loop m o1 c1)"]) (use ok p in auto)
      then show ?thesis using True False by (subst literal_loop.simps) simp
    next
      case neq: False
      then show ?thesis using False p by (subst literal_loop.simps) simp
    qed
  qed
qed

lemma open_string_yields:
  assumes b: "base c" and q: "peek c = q" "unat q < 128" "q \<noteq> 0"
  shows "yields (\<lambda>_. True) c (open_string q allow c)"
proof -
  have ne: "\<not> eof c" using q peek_at_not_eof [of c 0] by simp
  have t1: "tok (bump c)" using tok_ascii(2) [OF b ne] q by simp
  show ?thesis
  proof (cases "allow \<and> peek_at c 1 = q \<and> peek_at c 2 = q")
    case False
    then show ?thesis using ne t1 by (auto simp: open_string_def Let_def take_byte_eq)
  next
    case True
    have p1: "peek (bump c) = q" "peek_at (bump c) 1 = q"
      using True peek_at_bump [OF ne, of 0] peek_at_bump [OF ne, of 1] by (simp_all add: numeral_2_eq_2)
    have n1: "\<not> eof (bump c)" using p1(1) q(3) peek_at_not_eof [of "bump c" 0] by simp
    have t2: "tok (bump (bump c))" using tok_ascii(2) [OF base_bump [OF b] n1] p1(1) q(2) by simp
    have p2: "peek (bump (bump c)) = q" using p1(2) peek_at_bump [OF n1, of 0] by simp
    have n2: "\<not> eof (bump (bump c))" using p2 q(3) peek_at_not_eof [of "bump (bump c)" 0] by simp
    let ?d = "bump (bump (bump c))"
    have t3: "tok ?d" using tok_ascii(2) [OF tok_base [OF t2] n2] p2 q(2) by simp
    have m: "c_moved c ?d" "c_moved c (bump ?d)" "c_moved c (bump (bump ?d))" by (simp_all add: c_moved_bump)
    have "open_string q allow c = (if \<not> eof ?d \<and> peek ?d = LF then Ok (True, bump ?d)
         else if \<not> eof ?d \<and> at_crlf ?d then Ok (True, bump (bump ?d)) else Ok (True, ?d))"
      using True ne n1 n2 by (simp add: open_string_def Let_def take_byte_eq)
    then show ?thesis using t3 m lf_tok [OF tok_base [OF t3]] crlf_tok [OF tok_base [OF t3]] by auto
  qed
qed

lemma basic_string_yields:
  assumes "base c" "peek c = DQUOTE"
  shows "yields is_valid_utf8 c (parse_basic_string allow c)"
  unfolding parse_basic_string_def
  by (rule yields_then [OF open_string_yields]) (use assms in \<open>auto intro!: yields_from [OF _ basic_loop_yields [OF spans_tok]]\<close>)

lemma literal_string_yields:
  assumes "base c" "peek c = SQUOTE"
  shows "yields is_valid_utf8 c (parse_literal_string allow c)"
  unfolding parse_literal_string_def
  by (rule yields_then [OF open_string_yields]) (use assms in \<open>auto intro!: yields_from [OF _ literal_loop_yields [OF spans_tok]]\<close>)

section \<open>Keys\<close>

lemma c_text_valid:
  assumes "tok c" "is_char_boundary (c_input c) e" "c_position c \<le> e" "e \<le> length (c_input c)" "c_input c' = c_input c"
  shows "\<exists>t. c_text c' (c_position c) e = Ok t \<and> is_valid_utf8 t \<and> t = take (e - c_position c) (drop (c_position c) (c_input c))"
proof -
  let ?t = "take (e - c_position c) (drop (c_position c) (c_input c))"
  have "is_valid_utf8 ?t" using valid_slice [of "c_input c" "c_position c" e] assms by (simp add: tok_def base_def)
  then show ?thesis using assms by (auto simp: c_text_def c_view_def tok_def)
qed

lemma bare_ascii: "is_bare_key b \<Longrightarrow> unat b < 128"
  by (auto simp: is_bare_key_def is_alnum_def is_alpha_def is_digit_def word_le_nat_alt)

lemma key_part_yields: "tok c \<Longrightarrow> yields is_valid_utf8 c (parse_key_part c)"
proof -
  assume t: "tok c"
  let ?d = "skip_while is_bare_key c"
  have d: "tok ?d" "c_moved c ?d" using skip_while_tok [OF bare_ascii t] by simp_all
  then obtain s where "c_text ?d (c_position c) (c_position ?d) = Ok s" "is_valid_utf8 s"
    using c_text_valid [OF t, of "c_position ?d" ?d] by (auto simp: c_moved_def tok_def base_def c_wf_def)
  then have "yields is_valid_utf8 c (and_then (consumed_text c ?d) (\<lambda>t. Ok (t, ?d)))" using d by (simp add: consumed_text_def)
  then show ?thesis using basic_string_yields literal_string_yields tok_base [OF t] by (auto simp: parse_key_part_def Let_def)
qed

lemma key_path_yields: "tok c \<Longrightarrow> list_all is_valid_utf8 path \<Longrightarrow>
   yields (\<lambda>ks. ks \<noteq> [] \<and> list_all is_valid_utf8 ks) c (key_path_loop path c)"
proof (induction path c rule: key_path_loop.induct)
  case (1 path c)
  note k = yields_from [OF horizontal_moved key_part_yields [OF horizontal_tok [OF 1(2)]]]
  show ?case unfolding key_path_loop.simps [of path c]
  proof (rule yields_then [OF k])
    fix key c1 assume a: "parse_key_part (consume_horizontal c) = Ok (key, c1)" "c_moved c c1" "tok c1" "is_valid_utf8 key"
    let ?d = "consume_horizontal c1"
    have d: "tok ?d" "c_moved c ?d" using horizontal_tok [OF a(3)] c_moved_trans [OF a(2) horizontal_moved] by auto
    show "yields (\<lambda>ks. ks \<noteq> [] \<and> list_all is_valid_utf8 ks) c (case (key, c1) of (key, c1) \<Rightarrow>
      let c2 = consume_horizontal c1 in
      if eof c2 \<or> peek c2 \<noteq> DOT then Ok (path @ [key], c2) else key_path_loop (path @ [key]) (bump c2))"
    proof (cases "eof ?d \<or> peek ?d \<noteq> DOT")
      case True
      then show ?thesis using d a(4) 1(3) by simp
    next
      case False
      then have "tok (bump ?d)" using tok_ascii(2) [OF tok_base [OF d(1)]] by simp
      then have "yields (\<lambda>ks. ks \<noteq> [] \<and> list_all is_valid_utf8 ks) (bump ?d) (key_path_loop (path @ [key]) (bump ?d))"
        using 1(1) [OF a(1) refl refl] False 1(3) a(4) by simp
      then show ?thesis using False yields_from [OF c_moved_bump [OF d(2)]] by simp
    qed
  qed
qed

section \<open>Numbers and dates\<close>

lemma underscore_first:
  assumes "valid_underscores t" "t \<noteq> []"
  shows "hd t \<noteq> UNDERSCORE" "filter (\<lambda>b. b \<noteq> UNDERSCORE) t \<noteq> []"
proof -
  have "0 \<in> set [0 ..< length t]" using assms(2) by simp
  then show "hd t \<noteq> UNDERSCORE" using assms unfolding valid_underscores_def Let_def list_all_iff by (metis hd_conv_nth)
  then show "filter (\<lambda>b. b \<noteq> UNDERSCORE) t \<noteq> []" using assms(2) by (cases t) auto
qed

lemma integer_loop_good: "base c \<Longrightarrow> good (integer_loop c bs limit ds v)"
  by (induction ds arbitrary: v) (auto simp: Let_def split: option.split)

lemma integer_then: "base c \<Longrightarrow> (\<And>v. good (f v)) \<Longrightarrow> good (and_then (integer_loop c bs limit ds v) f)"
  using good_and_then [OF integer_loop_good] by blast

lemma integer_good: "base c \<Longrightarrow> filter (\<lambda>b. b \<noteq> UNDERSCORE) t \<noteq> [] \<Longrightarrow> good (parse_integer c t)"
  unfolding parse_integer_def Let_def by (simp add: integer_then split: list.split del: integer_loop.simps)

lemma exponent_good: "base c \<Longrightarrow> good (float_exponent c t)"
  by (simp add: float_exponent_def Let_def)

lemma fraction_good: "base c \<Longrightarrow> good (float_fraction c t)"
  by (simp add: float_fraction_def)

lemma decimal_good: "base c \<Longrightarrow> t \<noteq> [] \<Longrightarrow> good (decimal_float to_f64 c t)"
  by (auto simp: decimal_float_def Let_def intro!: good_and_then fraction_good exponent_good split: sum.split)

lemma float_good: "base c \<Longrightarrow> filter (\<lambda>b. b \<noteq> UNDERSCORE) t \<noteq> [] \<Longrightarrow> good (parse_float to_f64 c t)"
  using decimal_good by (simp add: parse_float_def split: option.split)

lemma date_good: "base c \<Longrightarrow> good (parse_date c t i)"
  by (auto simp: parse_date_def split: option.split)

lemma time_good: "base c \<Longrightarrow> good (parse_time c t i)"
  by (auto simp: parse_time_def parse_seconds_def parse_nanos_def Let_def intro!: good_and_then split: option.split)

lemma offset_good: "base c \<Longrightarrow> good (parse_offset c t d i)"
  by (auto simp: parse_offset_def Let_def split: option.split)

lemma datetime_good: "base c \<Longrightarrow> good (parse_datetime c t)"
  using time_good [of c t 0, unfolded good_def [of "parse_time c t 0"]] by (auto simp: parse_datetime_def intro!: good_and_then date_good time_good offset_good
      split: sum.split failure.split)

lemma scalar_token_good: "base c \<Longrightarrow> t \<noteq> [] \<Longrightarrow> good (scalar_of_token to_f64 c t)"
  using underscore_first(2) [of t] by (auto simp: scalar_of_token_def Let_def intro: datetime_good integer_good float_good)

lemma ends_scalar_ascii: "ends_scalar b \<Longrightarrow> unat b < 128"
  by (auto simp: ends_scalar_def)

lemma skip_until_tok:
  assumes "\<And>b. \<not> p b \<Longrightarrow> unat b < 128" "base c"
  shows "tok (skip_while p c)"
  using assms
proof (induction p c rule: skip_while.induct)
  case (1 p c)
  then show ?case using tok_ascii(1) [of c] tok_eof [of c] base_bump [of c] by (subst skip_while.simps) auto
qed

lemma trim_end_boundary:
  assumes "is_valid_utf8 inp" "is_char_boundary inp b" "is_char_boundary inp e" "b \<le> e" "e \<le> length inp"
  shows "is_char_boundary inp (trim_end inp b e) \<and> b \<le> trim_end inp b e \<and> trim_end inp b e \<le> e"
  using assms
proof (induction e)
  case (Suc e)
  show ?case
  proof (cases "b < Suc e \<and> is_horizontal (inp ! e)")
    case True
    then have "is_char_boundary inp e" using ascii_boundaries(1) [of inp e] Suc.prems horizontal_ascii by simp
    then show ?thesis using True Suc by auto
  qed (use Suc.prems in auto)
qed simp

lemma scalar_yields: "tok c \<Longrightarrow> yields (\<lambda>_. True) c (parse_scalar to_f64 c)"
proof -
  assume t: "tok c"
  let ?d = "skip_while (\<lambda>b. \<not> ends_scalar b) c"
  define stop where "stop = trim_end (c_input ?d) (c_position c) (c_position ?d)"
  have d: "tok ?d" "c_moved c ?d" using skip_until_tok [of "\<lambda>b. \<not> ends_scalar b" c] ends_scalar_ascii tok_base [OF t] by auto
  have i: "c_input ?d = c_input c" "c_position c \<le> c_position ?d" "c_position ?d \<le> length (c_input c)"
    using d by (auto simp: c_moved_def tok_def base_def c_wf_def)
  have s: "is_char_boundary (c_input c) stop" "c_position c \<le> stop" "stop \<le> length (c_input c)"
    using trim_end_boundary [of "c_input c" "c_position c" "c_position ?d"] t d i by (auto simp: stop_def tok_def base_def)
  show ?thesis
  proof (cases "stop = c_position c")
    case True
    then show ?thesis using tok_base [OF d(1)] by (simp add: parse_scalar_def Let_def stop_def)
  next
    case False
    obtain tx where x: "c_text ?d (c_position c) stop = Ok tx" "tx = take (stop - c_position c) (drop (c_position c) (c_input c))"
      using c_text_valid [OF t s(1) s(2) s(3) i(1)] by blast
    then have "tx \<noteq> []" using False s by auto
    then have "good (scalar_of_token to_f64 ?d tx)" using scalar_token_good tok_base [OF d(1)] by blast
    then show ?thesis using False x d by (cases "scalar_of_token to_f64 ?d tx") (auto simp: parse_scalar_def Let_def stop_def yields_def good_def)
  qed
qed

end
