(* ===== verification/Toml_Total.thy ===== *)
theory Toml_Total
  imports Toml_Lexer_Facts
begin

text \<open>
  Parsing TOML text always returns, and what it returns is a well-formed value.  The invariant of the
  parser is that its cursor stands at a character of the text and that the document built so far is
  well-formed; every statement keeps it and consumes input.
\<close>

section \<open>Well-formed values\<close>

definition wf_date :: "local_date \<Rightarrow> bool" where
  "wf_date d \<longleftrightarrow> ld_year d \<le> 9999 \<and> 1 \<le> ld_month d \<and> ld_month d \<le> 12 \<and> 1 \<le> ld_day d \<and>
     ld_day d \<le> days_in_month (ld_year d) (ld_month d)"

definition wf_time :: "local_time \<Rightarrow> bool" where
  "wf_time t \<longleftrightarrow> lt_hour t \<le> 23 \<and> lt_minute t \<le> 59 \<and> lt_second t \<le> 59 \<and> lt_nanosecond t < 1000000000"

definition wf_date_time :: "local_date_time \<Rightarrow> bool" where
  "wf_date_time d \<longleftrightarrow> wf_date (ldt_date d) \<and> wf_time (ldt_time d)"

fun wf_value :: "toml_value \<Rightarrow> bool" where
  "wf_value (Integer _) = True"
| "wf_value (Float _) = True"
| "wf_value (Boolean _) = True"
| "wf_value (String s) = is_valid_utf8 s"
| "wf_value (OffsetDateTime d) = (wf_date_time (to_local d) \<and> \<bar>sint (to_offset_minutes d)\<bar> < 1440)"
| "wf_value (LocalDateTime d) = wf_date_time d"
| "wf_value (LocalDate d) = wf_date d"
| "wf_value (LocalTime t) = wf_time t"
| "wf_value (Array vs) = list_all wf_value vs"
| "wf_value (Table es) = (sorted1 es \<and> list_all (\<lambda>e. is_valid_utf8 (fst e) \<and> wf_value (snd e)) es)"

lemma digit_bound: "is_digit b \<Longrightarrow> unat (b - D0) \<le> 9"
  by (auto simp: is_digit_def word_le_nat_alt unat_sub)

lemma unat_widen8:
  fixes b :: u8
  shows "unat (ucast b :: u16) = unat b" "unat (ucast b :: u32) = unat b"
  using unat_lt_8 [of b] by (simp_all add: unat_ucast_mod)

lemma year_bound:
  assumes "four_loop t is v = Some y" "unat v < 10 ^ k" "k + length is \<le> 4"
  shows "unat y < 10 ^ (k + length is)"
  using assms
proof (induction "is" arbitrary: v k)
  case (Cons i "is")
  have d: "unat (t ! i - D0) \<le> 9" "is_digit (t ! i)" using Cons.prems(1) digit_bound by (auto split: if_splits)
  have k: "10 ^ k \<le> (1000 :: nat)" using power_increasing [of k 3 "10 :: nat"] Cons.prems(3) by simp
  have u: "unat (ucast (t ! i - D0) :: u16) = unat (t ! i - D0)" by (rule unat_widen8(1))
  have "unat (v * 10 + ucast (t ! i - D0)) = unat v * 10 + unat (t ! i - D0)"
    using d(1) k Cons.prems(2) u by (subst unat_word_ariths, subst unat_word_ariths) simp
  then show ?case using Cons.IH [of _ "Suc k"] Cons.prems d by simp
qed simp

lemma date_valid: "parse_date c t i = Ok d \<Longrightarrow> wf_date d"
  using year_bound [of t "[i ..< i + 4]" 0 _ 0]
  by (auto simp: parse_date_def wf_date_def parse_four_def word_le_nat_alt not_less Suc_le_eq unat_gt_0 split: option.splits if_splits)

lemma unat_ten_power: "k \<le> 9 \<Longrightarrow> unat (10 ^ k :: u32) = 10 ^ k"
proof -
  assume "k \<le> 9"
  then have "10 ^ k \<le> (1000000000 :: nat)" using power_increasing [of k 9 "10 :: nat"] by simp
  moreover have "(10 ^ k :: u32) = of_nat (10 ^ k)" by simp
  ultimately show ?thesis by (simp only: unat_of_nat) simp
qed

lemma nano_bound:
  assumes "list_all is_digit ds" "unat v < 10 ^ min n 9"
  shows "nano_loop n v ds < 1000000000"
  using assms
proof (induction n v ds rule: nano_loop.induct)
  case (1 n v)
  have le: "unat v * 10 ^ (9 - n) < 1000000000"
  proof (cases "n \<le> 9")
    case True
    then have "unat v * 10 ^ (9 - n) < 10 ^ n * 10 ^ (9 - n)" using 1 by (simp add: min_def)
    also have "\<dots> = (1000000000 :: nat)" using True by (simp flip: power_add)
    finally show ?thesis .
  qed (use 1 in \<open>simp add: min_def\<close>)
  moreover have "unat (10 ^ (9 - n) :: u32) = 10 ^ (9 - n)" using unat_ten_power [of "9 - n"] by simp
  ultimately show ?case by (simp add: word_less_nat_alt unat_mult_lem [THEN iffD1])
next
  case (2 n v b bs)
  have d: "unat (b - D0) \<le> 9" using 2(2) digit_bound by simp
  have u: "unat (v * 10 + ucast (b - D0)) = unat v * 10 + unat (b - D0)" if "n < 9"
  proof -
    have "10 ^ n \<le> (100000000 :: nat)" using power_increasing [of n 8 "10 :: nat"] that by simp
    then have "unat v < 100000000" using 2(3) that by (simp add: min_def)
    then show ?thesis using d unat_widen8(2) [of "b - D0"] by (subst unat_word_ariths, subst unat_word_ariths) simp
  qed
  have "unat (if n < 9 then v * 10 + ucast (b - D0) else v) < 10 ^ min (n + 1) 9"
    using u d 2(3) by (cases "n < 9") (auto simp: min_def split: if_splits)
  then show ?case using 2(1) 2(2) by simp
qed

lemma nanos_valid: "parse_nanos c t h i = Ok (ns, j) \<Longrightarrow> ns < 1000000000"
  using nano_bound [of _ 0 0] by (auto simp: parse_nanos_def Let_def list_all_iff split: if_splits dest: set_takeWhileD)

lemma time_valid: "parse_time c t i = Ok (tm, j) \<Longrightarrow> wf_time tm"
  by (auto simp: parse_time_def wf_time_def parse_seconds_def and_then_eq_Ok not_less split: option.splits if_splits
      dest: nanos_valid)

lemma minutes_bound:
  fixes h m :: u8
  assumes "h \<le> 23" "m \<le> 59"
  shows "\<bar>sint (ucast h * 60 + ucast m :: 16 word)\<bar> < 1440" "\<bar>sint (- (ucast h * 60 + ucast m) :: 16 word)\<bar> < 1440"
proof -
  let ?n = "int (unat h) * 60 + int (unat m)"
  have b: "unat h \<le> 23" "unat m \<le> 59" using assms by (simp_all add: word_le_nat_alt)
  have e: "(ucast h * 60 + ucast m :: 16 word) = word_of_int ?n" by simp
  have r: "0 \<le> ?n" "?n < 1440" using b by linarith+
  have s: "sint (word_of_int k :: 16 word) = k" if "- 1440 < k" "k < 1440" for k
    unfolding sint_sbintrunc' by (rule signed_take_bit_int_eq_self) (use that in simp_all)
  show "\<bar>sint (ucast h * 60 + ucast m :: 16 word)\<bar> < 1440" unfolding e using s [of ?n] r by linarith
  have "sint (word_of_int (- ?n) :: 16 word) = - ?n" using s [of "- ?n"] r by linarith
  then show "\<bar>sint (- (ucast h * 60 + ucast m) :: 16 word)\<bar> < 1440" unfolding e wi_hom_neg using r by linarith
qed

lemma offset_valid:
  assumes "parse_offset c t d i = Ok v" "wf_date_time d"
  shows "wf_value v"
  using assms
  by (auto simp: parse_offset_def Let_def not_less minutes_bound minutes_bound [simplified] split: option.splits if_splits)

lemma datetime_valid: "parse_datetime c t = Ok v \<Longrightarrow> wf_value v"
  using time_valid [of c t 0]
  by (auto simp: parse_datetime_def and_then_eq_Ok wf_date_time_def split: if_splits sum.splits failure.splits
      dest: date_valid time_valid dest!: offset_valid)

lemma integer_valid: "parse_integer c t = Ok v \<Longrightarrow> wf_value v"
  by (auto simp: parse_integer_def and_then_eq_Ok Let_def split: list.splits if_splits)

lemma float_valid: "parse_float to_f64 c t = Ok v \<Longrightarrow> wf_value v"
  by (auto simp: parse_float_def decimal_float_def and_then_eq_Ok Let_def split: option.splits if_splits sum.splits)

lemma scalar_valid: "parse_scalar to_f64 c = Ok (v, c') \<Longrightarrow> wf_value v"
  by (auto simp: parse_scalar_def scalar_of_token_def and_then_eq_Ok Let_def split: if_splits sum.splits
      dest: datetime_valid integer_valid float_valid)

section \<open>The parser at a character\<close>

abbreviation wf_table :: "toml_table \<Rightarrow> bool" where
  "wf_table t \<equiv> wf_value (Table t)"

lemma wf_table_ins: "wf_table t \<Longrightarrow> is_valid_utf8 k \<Longrightarrow> wf_value v \<Longrightarrow> wf_table (ins k v t)"
  using sorted1_ins [of t k v] by (auto simp: ins_def list_all_iff)

lemma wf_table_of: "wf_table t \<Longrightarrow> map_of t k = Some v \<Longrightarrow> wf_value v"
  by (force simp: list_all_iff dest: map_of_SomeD)

definition follows :: "toml_parser \<Rightarrow> toml_parser \<Rightarrow> bool" where
  "follows p q \<longleftrightarrow> c_moved (p_cursor p) (p_cursor q) \<and> tok (p_cursor q) \<and> p_root q = p_root p \<and>
     p_current_path q = p_current_path p"

definition ahead :: "toml_parser \<Rightarrow> toml_parser \<Rightarrow> bool" where
  "ahead p q \<longleftrightarrow> c_advanced (p_cursor p) (p_cursor q)"

definition p_yields :: "('a \<Rightarrow> toml_parser \<Rightarrow> bool) \<Rightarrow> toml_parser \<Rightarrow> ('a \<times> toml_parser) toml_result \<Rightarrow> bool" where
  "p_yields P p res \<longleftrightarrow> good res \<and> (\<forall>x q. res = Ok (x, q) \<longrightarrow> follows p q \<and> P x q)"

definition p_moves :: "(toml_parser \<Rightarrow> bool) \<Rightarrow> toml_parser \<Rightarrow> toml_parser toml_result \<Rightarrow> bool" where
  "p_moves P p res \<longleftrightarrow> good res \<and> (\<forall>q. res = Ok q \<longrightarrow> follows p q \<and> P q)"

lemma follows_trans: "follows p q \<Longrightarrow> follows q r \<Longrightarrow> follows p r"
  by (auto simp: follows_def intro: c_moved_trans)

lemma follows_refl: "tok (p_cursor p) \<Longrightarrow> follows p p"
  by (simp add: follows_def)

lemma follows_tok: "follows p q \<Longrightarrow> tok (p_cursor q)"
  by (simp add: follows_def)

lemma ahead_trans: "ahead p q \<Longrightarrow> follows q r \<Longrightarrow> ahead p r" "follows p q \<Longrightarrow> ahead q r \<Longrightarrow> ahead p r"
  by (auto simp: ahead_def follows_def intro: c_advanced_trans1 c_advanced_trans2)

lemma follows_bump:
  assumes "tok (p_cursor p)" "\<not> p_eof p" "unat (p_peek p) < 128"
  shows "follows p (p_bump p)" "ahead p (p_bump p)"
  using assms tok_ascii(2) tok_base bump_advanced by (auto simp: follows_def ahead_def)

lemma follows_horizontal: "tok (p_cursor p) \<Longrightarrow> follows p (p_horizontal p)"
  by (simp add: follows_def horizontal_tok)

lemma p_error_good [simp]: "tok (p_cursor p) \<Longrightarrow> good (Err (p_error p k))"
  using tok_base by simp

lemma p_yields_Ok [simp]: "p_yields P p (Ok (x, q)) \<longleftrightarrow> follows p q \<and> P x q"
  by (auto simp: p_yields_def)

lemma p_moves_Ok [simp]: "p_moves P p (Ok q) \<longleftrightarrow> follows p q \<and> P q"
  by (auto simp: p_moves_def)

lemma p_fails [simp]: "tok (p_cursor q) \<Longrightarrow> p_yields P p (Err (p_error q k))" "tok (p_cursor q) \<Longrightarrow> p_moves Q p (Err (p_error q k))"
  by (simp_all add: p_yields_def p_moves_def)

lemma p_yields_then:
  "p_yields Q p res \<Longrightarrow> (\<And>x q. res = Ok (x, q) \<Longrightarrow> follows p q \<Longrightarrow> Q x q \<Longrightarrow> p_yields P p (f (x, q))) \<Longrightarrow> p_yields P p (and_then res f)"
  by (cases res) (auto simp: p_yields_def good_def)

lemma p_moves_then:
  "p_moves Q p res \<Longrightarrow> (\<And>q. res = Ok q \<Longrightarrow> follows p q \<Longrightarrow> Q q \<Longrightarrow> p_yields P p (f q)) \<Longrightarrow> p_yields P p (and_then res f)"
  by (cases res) (auto simp: p_yields_def p_moves_def good_def)

lemma p_yields_from: "follows p q \<Longrightarrow> p_yields P q res \<Longrightarrow> p_yields P p res"
  by (auto simp: p_yields_def intro: follows_trans)

lemma p_moves_from: "follows p q \<Longrightarrow> p_moves P q res \<Longrightarrow> p_moves P p res"
  by (auto simp: p_moves_def intro: follows_trans)

lemma p_yields_mono: "p_yields P p res \<Longrightarrow> (\<And>x q. follows p q \<Longrightarrow> P x q \<Longrightarrow> Q x q) \<Longrightarrow> p_yields Q p res"
  by (auto simp: p_yields_def)

lemma lex_yields: "yields P (p_cursor p) (f (p_cursor p)) \<Longrightarrow> p_yields (\<lambda>x _. P x) p (lex f p)"
  by (cases "f (p_cursor p)") (auto simp: lex_def yields_def p_yields_def follows_def good_def)

lemma lex_unit_moves: "moves (p_cursor p) (f (p_cursor p)) \<Longrightarrow> p_moves (\<lambda>_. True) p (lex_unit f p)"
  by (cases "f (p_cursor p)") (auto simp: lex_unit_def moves_def p_moves_def follows_def good_def)

lemma trivia_ok: "tok (p_cursor p) \<Longrightarrow> p_moves (\<lambda>_. True) p (lex_unit consume_trivia p)"
  by (simp add: lex_unit_moves trivia_moves)

definition good_path :: "key list \<Rightarrow> bool" where
  "good_path path \<longleftrightarrow> path \<noteq> [] \<and> list_all is_valid_utf8 path"

lemma path_ok: "tok (p_cursor p) \<Longrightarrow> p_yields (\<lambda>path _. good_path path) p (lex parse_key_path p)"
  using key_path_yields [of "p_cursor p" "[]"] unfolding good_path_def by (intro lex_yields) (simp add: parse_key_path_def)

section \<open>Paths\<close>

definition rebuilds :: "('a \<Rightarrow> bool) \<Rightarrow> ('a \<times> ('a \<Rightarrow> 'a)) toml_result \<Rightarrow> bool" where
  "rebuilds W res \<longleftrightarrow> good res \<and> (\<forall>found put. res = Ok (found, put) \<longrightarrow> W found \<and> (\<forall>x. W x \<longrightarrow> W (put x)))"

lemma rebuilds_then:
  assumes "rebuilds W res" "\<And>x. W x \<Longrightarrow> W (g x)"
  shows "rebuilds W (and_then res (\<lambda>(found, put). Ok (found, \<lambda>x. g (put x))))"
  using assms by (cases res) (auto simp: rebuilds_def good_def)

lemma resolve_table_ok:
  assumes "tok (p_cursor p)"
  shows "wf_table t \<Longrightarrow> list_all is_valid_utf8 ks \<Longrightarrow> rebuilds wf_table (resolve_table p t ks)"
proof (induction ks arbitrary: t)
  case (Cons k ks)
  define item where "item = (case map_of t k of None \<Rightarrow> Table [] | Some item \<Rightarrow> item)"
  have i: "wf_value item" unfolding item_def using wf_table_of [OF Cons.prems(1)] by (auto split: option.split)
  have k: "is_valid_utf8 k" "list_all is_valid_utf8 ks" using Cons.prems(2) by simp_all
  show ?case
  proof (cases item)
    case (Table t1)
    have r: "rebuilds wf_table (resolve_table p t1 ks)" using Cons.IH i k Table by simp
    have "resolve_table p t (k # ks) = and_then (resolve_table p t1 ks) (\<lambda>(found, put). Ok (found, \<lambda>t'. ins k (Table (put t')) t))"
      using Table by (simp flip: item_def)
    then show ?thesis using rebuilds_then [OF r, of "\<lambda>t'. ins k (Table t') t"] wf_table_ins [OF Cons.prems(1) k(1)] by presburger
  next
    case (Array vs)
    show ?thesis
    proof (cases "vs \<noteq> [] \<and> is_table (last vs)")
      case True
      then obtain t1 where t1: "last vs = Table t1" "vs \<noteq> []" by (cases "last vs") (auto simp: is_table_def)
      have v: "list_all wf_value vs" using i Array by simp
      then have "wf_table t1" using t1 last_in_set by (metis list_all_iff)
      then have r: "rebuilds wf_table (resolve_table p t1 ks)" using Cons.IH k by blast
      have b: "list_all wf_value (butlast vs)" using v by (auto simp: list_all_iff dest: in_set_butlastD)
      have "wf_table (ins k (Array (butlast vs @ [Table t'])) t)" if "wf_table t'" for t'
        using wf_table_ins [OF Cons.prems(1) k(1), of "Array (butlast vs @ [Table t'])"] b that by simp
      moreover have "resolve_table p t (k # ks) = and_then (resolve_table p t1 ks) (\<lambda>(found, put).
          Ok (found, \<lambda>t'. ins k (Array (butlast vs @ [Table (put t')])) t))"
        using Array t1 by (simp flip: item_def)
      ultimately show ?thesis using rebuilds_then [OF r, of "\<lambda>t'. ins k (Array (butlast vs @ [Table t'])) t"] by presburger
    next
      case False
      then show ?thesis using Array assms by (auto simp: rebuilds_def is_table_def simp flip: item_def split: toml_value.split)
    qed
  qed (use assms in \<open>simp_all add: rebuilds_def flip: item_def\<close>)
qed (simp add: rebuilds_def)

lemma resolve_definition_good: "tok (p_cursor p) \<Longrightarrow> good (resolve_definition p d ks missing create)"
  by (induction p d ks missing create rule: resolve_definition.induct) (auto simp: Let_def intro!: good_and_then)

lemma insert_path_ok:
  assumes "tok (p_cursor p)" "wf_table t" "good_path path" "wf_value v"
  shows "good (insert_path p t d path v)" "insert_path p t d path v = Ok (t', d') \<Longrightarrow> wf_table t'"
proof -
  have p: "path \<noteq> []" "list_all is_valid_utf8 (butlast path)" "is_valid_utf8 (last path)"
    using assms(3) by (auto simp: good_path_def list_all_iff dest: in_set_butlastD)
  note r = resolve_table_ok [OF assms(1,2) p(2)]
  show "good (insert_path p t d path v)" unfolding insert_path_def Let_def
    using assms(1) p(1) r resolve_definition_good by (auto simp: rebuilds_def intro!: good_and_then)
  show "wf_table t'" if "insert_path p t d path v = Ok (t', d')"
    using that p wf_table_ins [OF _ p(3) assms(4)] r unfolding insert_path_def Let_def rebuilds_def
    by (auto simp: and_then_eq_Ok simp del: wf_value.simps split: if_splits)
qed

section \<open>Values\<close>

lemma follows_update [simp]:
  "follows p (q\<lparr>p_remaining_depth := n\<rparr>) = follows p q" "ahead p (q\<lparr>p_remaining_depth := n\<rparr>) = ahead p q"
  "follows (p\<lparr>p_remaining_depth := n\<rparr>) q = follows p q" "ahead (p\<lparr>p_remaining_depth := n\<rparr>) q = ahead p q"
  "follows (p\<lparr>p_remaining_values := m\<rparr>) q = follows p q" "ahead (p\<lparr>p_remaining_values := m\<rparr>) q = ahead p q"
  by (simp_all add: follows_def ahead_def)

lemma leave_follows:
  assumes "tok (p_cursor p)" "\<not> p_eof p" "unat (p_peek p) < 128"
  shows "follows p (leave_container p)"
  using follows_bump(1) [OF assms] by (simp add: leave_container_def)

lemma take_one_eq: "\<not> p_eof p \<Longrightarrow> take_one p = Ok (p_bump p)"
  by (simp add: take_one_def take_byte_eq)

lemma trivia_after:
  assumes "tok (p_cursor p)" "\<not> p_eof p" "unat (p_peek p) < 128"
  shows "p_moves (ahead p) p (lex_unit consume_trivia (p_bump p))"
proof -
  note b = follows_bump [OF assms]
  have "p_moves (\<lambda>_. True) (p_bump p) (lex_unit consume_trivia (p_bump p))" using trivia_ok follows_tok [OF b(1)] by blast
  then show ?thesis using b follows_trans ahead_trans(1) by (auto simp: p_moves_def)
qed

lemma enter_ok:
  assumes "tok (p_cursor p)" "\<not> p_eof p" "unat (p_peek p) < 128"
  shows "p_moves (ahead p) p (enter_container p)"
  using trivia_after [of "p\<lparr>p_remaining_depth := p_remaining_depth p - 1\<rparr>"] assms
  by (simp add: enter_container_def take_one_eq p_moves_def)

lemma after_element_ok:
  assumes "tok (p_cursor p)" "unat close < 128"
  shows "p_yields (\<lambda>finished q. finished \<or> ahead p q) p (after_element close p)"
  unfolding after_element_def
proof (rule p_moves_then [OF trivia_ok [OF assms(1)]])
  fix p1 assume f: "follows p p1"
  note t = follows_tok [OF f]
  let ?P = "\<lambda>finished q. finished \<or> ahead p q"
  have c: "p_yields ?P p (and_then (lex_unit consume_trivia (p_bump p1)) (\<lambda>p2.
       if \<not> p_eof p2 \<and> p_peek p2 = close then Ok (True, leave_container p2) else Ok (False, p2)))"
    if "\<not> p_eof p1" "p_peek p1 = COMMA"
  proof (rule p_moves_then [OF p_moves_from [OF f trivia_after]])
    fix p2 assume "follows p p2" "ahead p1 p2"
    then show "p_yields ?P p (if \<not> p_eof p2 \<and> p_peek p2 = close then Ok (True, leave_container p2) else Ok (False, p2))"
      using leave_follows [of p2] follows_tok assms(2) follows_trans ahead_trans(2) [OF f] by auto
  qed (use t that in simp_all)
  show "p_yields ?P p (if p_eof p1 then Err (p_error p1 UnexpectedEnd)
     else if p_peek p1 = close then Ok (True, leave_container p1)
     else if p_peek p1 \<noteq> COMMA then Err (p_error p1 ExpectedCommaOrEnd)
     else and_then (lex_unit consume_trivia (p_bump p1)) (\<lambda>p2.
       if \<not> p_eof p2 \<and> p_peek p2 = close then Ok (True, leave_container p2) else Ok (False, p2)))"
    using c t leave_follows [OF t] assms(2) follows_trans [OF f] by auto
qed

lemma inline_key_ok: "tok (p_cursor p) \<Longrightarrow> p_yields (\<lambda>path _. good_path path) p (inline_key p)"
  unfolding inline_key_def
proof (rule p_yields_then [OF path_ok], assumption, unfold prod.case)
  fix path p1 assume f: "follows p p1" and g: "good_path path"
  show "p_yields (\<lambda>path _. good_path path) p (and_then (lex_unit consume_trivia p1) (\<lambda>p2.
       if p_eof p2 \<or> p_peek p2 \<noteq> EQUALS then Err (p_error p2 ExpectedEquals)
       else and_then (lex_unit consume_trivia (p_bump p2)) (\<lambda>p3. Ok (path, p3))))"
  proof (rule p_moves_then [OF p_moves_from [OF f trivia_ok [OF follows_tok [OF f]]]])
    fix p2 assume f2: "follows p p2"
    note t = follows_tok [OF f2]
    have "p_yields (\<lambda>path _. good_path path) p (and_then (lex_unit consume_trivia (p_bump p2)) (\<lambda>p3. Ok (path, p3)))"
      if "\<not> p_eof p2" "p_peek p2 = EQUALS"
      by (rule p_moves_then [OF p_moves_from [OF f2 trivia_after]]) (use t that g in simp_all)
    then show "p_yields (\<lambda>path _. good_path path) p (if p_eof p2 \<or> p_peek p2 \<noteq> EQUALS then Err (p_error p2 ExpectedEquals)
       else and_then (lex_unit consume_trivia (p_bump p2)) (\<lambda>p3. Ok (path, p3)))" using t by auto
  qed
qed

abbreviation p_left :: "toml_parser \<Rightarrow> nat" where
  "p_left p \<equiv> c_remaining (p_cursor p)"

lemma left_mono: "follows p q \<Longrightarrow> p_left q \<le> p_left p" "ahead p q \<Longrightarrow> p_left q < p_left p"
  using c_moved_props(3) c_advanced_less(1) by (auto simp: follows_def ahead_def)

definition value_yields :: "dec2flt \<Rightarrow> nat \<Rightarrow> bool" where
  "value_yields to_f64 fuel \<longleftrightarrow> (\<forall>p. tok (p_cursor p) \<longrightarrow> 2 * p_left p < fuel \<longrightarrow>
     p_yields (\<lambda>v _. wf_value v) p (parse_value to_f64 fuel p))"

definition array_yields :: "dec2flt \<Rightarrow> nat \<Rightarrow> bool" where
  "array_yields to_f64 fuel \<longleftrightarrow> (\<forall>vals p. tok (p_cursor p) \<longrightarrow> 2 * p_left p + 1 < fuel \<longrightarrow> list_all wf_value vals \<longrightarrow>
     p_yields (\<lambda>v _. wf_value v) p (array_loop to_f64 fuel vals p))"

definition inline_yields :: "dec2flt \<Rightarrow> nat \<Rightarrow> bool" where
  "inline_yields to_f64 fuel \<longleftrightarrow> (\<forall>table def p. tok (p_cursor p) \<longrightarrow> 2 * p_left p + 1 < fuel \<longrightarrow> wf_table table \<longrightarrow>
     p_yields (\<lambda>v _. wf_value v) p (inline_table_loop to_f64 fuel table def p))"

lemma container_ok:
  assumes t: "tok (p_cursor p)" "\<not> p_eof p" "unat (p_peek p) < 128" "unat close < 128"
    and e: "wf_value e0" and loop: "\<And>q. tok (p_cursor q) \<Longrightarrow> ahead p q \<Longrightarrow> p_yields (\<lambda>v _. wf_value v) q (f q)"
  shows "p_yields (\<lambda>v _. wf_value v) p (and_then (enter_container p) (\<lambda>p1.
         if \<not> p_eof p1 \<and> p_peek p1 = close then Ok (e0, leave_container p1) else f p1))"
proof (rule p_moves_then [OF enter_ok [OF t(1-3)]])
  fix p1 assume f: "follows p p1" "ahead p p1"
  show "p_yields (\<lambda>v _. wf_value v) p (if \<not> p_eof p1 \<and> p_peek p1 = close then Ok (e0, leave_container p1) else f p1)"
    using leave_follows [OF follows_tok [OF f(1)]] follows_trans [OF f(1)] t(4) e p_yields_from [OF f(1) loop [OF follows_tok [OF f(1)] f(2)]] by auto
qed

lemma value_step:
  assumes "array_yields to_f64 fuel" "inline_yields to_f64 fuel"
  shows "value_yields to_f64 (Suc fuel)"
  unfolding value_yields_def
proof (intro allI impI)
  fix q assume t: "tok (p_cursor q)" and l: "2 * p_left q < Suc fuel"
  let ?W = "\<lambda>v (_ :: toml_parser). wf_value v"
  define p where "p = q\<lparr>p_remaining_values := p_remaining_values q - 1\<rparr>"
  have p: "tok (p_cursor p)" "p_cursor p = p_cursor q" using t by (simp_all add: p_def)
  have d: "p_yields ?W p (and_then (lex (parse_basic_string True) p) (\<lambda>(s, p1). Ok (String s, p1)))" if "p_peek p = DQUOTE"
    by (rule p_yields_then [OF lex_yields [of is_valid_utf8 p "parse_basic_string True", OF basic_string_yields]]) (use tok_base p that in auto)
  have s: "p_yields ?W p (and_then (lex (parse_literal_string True) p) (\<lambda>(s, p1). Ok (String s, p1)))" if "p_peek p = SQUOTE"
    by (rule p_yields_then [OF lex_yields [of is_valid_utf8 p "parse_literal_string True", OF literal_string_yields]]) (use tok_base p that in auto)
  have n: "2 * p_left r + 1 < fuel" if "ahead p r" for r using left_mono(2) [OF that] l p by simp
  have a: "p_yields ?W p (and_then (enter_container p) (\<lambda>p1.
         if \<not> p_eof p1 \<and> p_peek p1 = RBRACK then Ok (Array [], leave_container p1)
         else array_loop to_f64 fuel [] p1))" if "\<not> p_eof p" "p_peek p = LBRACK"
    by (rule container_ok) (use that p assms(1) n in \<open>simp_all add: array_yields_def\<close>)
  have i: "p_yields ?W p (and_then (enter_container p) (\<lambda>p1.
         if \<not> p_eof p1 \<and> p_peek p1 = RBRACE then Ok (Table [], leave_container p1)
         else inline_table_loop to_f64 fuel [] (new_node InlineTable) p1))" if "\<not> p_eof p" "p_peek p = LBRACE"
    by (rule container_ok) (use that p assms(2) n in \<open>simp_all add: inline_yields_def\<close>)
  have c: "p_yields ?W p (lex (parse_scalar to_f64) p)"
    using scalar_yields [OF p(1), of to_f64] scalar_valid by (intro lex_yields) (auto simp: yields_def)
  have "parse_value to_f64 (Suc fuel) q = (if p_eof q then Err (p_error q ExpectedValue)
     else if p_remaining_values q = 0 then Err (p_error q ResourceLimitExceeded)
     else if p_peek p = DQUOTE then and_then (lex (parse_basic_string True) p) (\<lambda>(s, p1). Ok (String s, p1))
     else if p_peek p = SQUOTE then and_then (lex (parse_literal_string True) p) (\<lambda>(s, p1). Ok (String s, p1))
     else if p_peek p = LBRACK then and_then (enter_container p) (\<lambda>p1.
         if \<not> p_eof p1 \<and> p_peek p1 = RBRACK then Ok (Array [], leave_container p1)
         else array_loop to_f64 fuel [] p1)
     else if p_peek p = LBRACE then and_then (enter_container p) (\<lambda>p1.
         if \<not> p_eof p1 \<and> p_peek p1 = RBRACE then Ok (Table [], leave_container p1)
         else inline_table_loop to_f64 fuel [] (new_node InlineTable) p1)
     else lex (parse_scalar to_f64) p)"
    unfolding parse_value.simps Let_def p_def by (rule refl)
  moreover have "p_yields ?W q r = p_yields ?W p r" for r by (simp add: p_yields_def p_def)
  ultimately show "p_yields ?W q (parse_value to_f64 (Suc fuel) q)"
    using t p(2) d s a i c by (simp split del: if_split) (simp split: if_split)
qed

lemma array_step:
  assumes "value_yields to_f64 fuel" "array_yields to_f64 fuel"
  shows "array_yields to_f64 (Suc fuel)"
  unfolding array_yields_def array_loop.simps
proof (intro allI impI)
  fix vals p assume t: "tok (p_cursor p)" and l: "2 * p_left p + 1 < Suc fuel" and v: "list_all wf_value vals"
  let ?W = "\<lambda>v (_ :: toml_parser). wf_value v"
  let ?next = "\<lambda>v (finished, p2). if finished then Ok (Array (vals @ [v]), p2) else array_loop to_f64 fuel (vals @ [v]) p2"
  have "p_yields ?W p (parse_value to_f64 fuel p)" using assms(1) t l by (simp add: value_yields_def)
  then show "p_yields ?W p (and_then (parse_value to_f64 fuel p) (\<lambda>(v, p1). and_then (after_element RBRACK p1) (?next v)))"
  proof (rule p_yields_then, unfold prod.case)
    fix x p1 assume f: "follows p p1" "wf_value x"
    have c: "unat (RBRACK :: u8) < 128" by simp
    show "p_yields ?W p (and_then (after_element RBRACK p1) (?next x))"
    proof (rule p_yields_then [OF p_yields_from [OF f(1) after_element_ok [OF follows_tok [OF f(1)] c]]], unfold prod.case)
      fix fin p2 assume g: "follows p p2" "fin \<or> ahead p1 p2"
      have w: "list_all wf_value (vals @ [x])" using v f(2) by simp
      have "p_yields ?W p (array_loop to_f64 fuel (vals @ [x]) p2)" if "\<not> fin"
      proof -
        have "2 * p_left p2 + 1 < fuel" using that g(2) left_mono(2) [of p1 p2] left_mono(1) [OF f(1)] l by simp
        then show ?thesis using p_yields_from [OF g(1)] assms(2) follows_tok [OF g(1)] w unfolding array_yields_def by blast
      qed
      then show "p_yields ?W p (if fin then Ok (Array (vals @ [x]), p2) else array_loop to_f64 fuel (vals @ [x]) p2)"
        using g(1) w by simp
    qed
  qed
qed

lemma inline_step:
  assumes "value_yields to_f64 fuel" "inline_yields to_f64 fuel"
  shows "inline_yields to_f64 (Suc fuel)"
  unfolding inline_yields_def inline_table_loop.simps
proof (intro allI impI)
  fix table def p assume t: "tok (p_cursor p)" and l: "2 * p_left p + 1 < Suc fuel" and w: "wf_table table"
  let ?W = "\<lambda>v (_ :: toml_parser). wf_value v"
  let ?next = "\<lambda>table1 def1 (finished, p3). if finished then Ok (Table table1, p3) else inline_table_loop to_f64 fuel table1 def1 p3"
  let ?put = "\<lambda>path (v, p2). and_then (insert_path p2 table def path v) (\<lambda>(table1, def1).
      and_then (after_element RBRACE p2) (?next table1 def1))"
  show "p_yields ?W p (and_then (inline_key p) (\<lambda>(path, p1). and_then (parse_value to_f64 fuel p1) (?put path)))"
  proof (rule p_yields_then [OF inline_key_ok [OF t]], unfold prod.case)
    fix path p1 assume f: "follows p p1" "good_path path"
    have "p_yields ?W p1 (parse_value to_f64 fuel p1)"
      using assms(1) follows_tok [OF f(1)] left_mono(1) [OF f(1)] l by (simp add: value_yields_def)
    then have "p_yields ?W p (parse_value to_f64 fuel p1)" by (rule p_yields_from [OF f(1)])
    then show "p_yields ?W p (and_then (parse_value to_f64 fuel p1) (?put path))"
    proof (rule p_yields_then, unfold prod.case)
      fix v p2 assume g: "follows p p2" "wf_value v"
      note ins = insert_path_ok [OF follows_tok [OF g(1)] w f(2) g(2), of def]
      have n: "p_yields ?W p (and_then (after_element RBRACE p2) (?next t1 d1))" if "wf_table t1" for t1 d1
      proof (rule p_yields_then [OF p_yields_from [OF g(1) after_element_ok [OF follows_tok [OF g(1)]]]], simp, unfold prod.case)
        fix fin p3 assume h: "follows p p3" "fin \<or> ahead p2 p3"
        have "p_yields ?W p (inline_table_loop to_f64 fuel t1 d1 p3)" if "\<not> fin"
        proof -
          have "2 * p_left p3 + 1 < fuel" using that h(2) left_mono(2) [of p2 p3] left_mono(1) [OF g(1)] l by simp
          then show ?thesis using p_yields_from [OF h(1)] assms(2) follows_tok [OF h(1)] \<open>wf_table t1\<close>
            unfolding inline_yields_def by blast
        qed
        then show "p_yields ?W p (if fin then Ok (Table t1, p3) else inline_table_loop to_f64 fuel t1 d1 p3)"
          using h(1) \<open>wf_table t1\<close> by (simp del: wf_value.simps)
      qed
      show "p_yields ?W p (and_then (insert_path p2 table def path v) (\<lambda>(table1, def1).
          and_then (after_element RBRACE p2) (?next table1 def1)))"
      proof (cases "insert_path p2 table def path v")
        case (Inl e)
        then show ?thesis using ins(1) by (simp add: p_yields_def good_def)
      next
        case (Inr r)
        obtain t1 d1 where r: "r = (t1, d1)" by (cases r)
        then show ?thesis using Inr n [OF ins(2)] by simp
      qed
    qed
  qed
qed

lemma values_yield: "value_yields to_f64 fuel \<and> array_yields to_f64 fuel \<and> inline_yields to_f64 fuel"
proof (induction fuel)
  case 0
  then show ?case by (simp add: value_yields_def array_yields_def inline_yields_def)
next
  case (Suc fuel)
  then show ?case using value_step array_step inline_step by blast
qed

lemma value_ok: "tok (p_cursor p) \<Longrightarrow> p_yields (\<lambda>v _. wf_value v) p (parse_value to_f64 (toml_fuel p) p)"
  using values_yield [of to_f64 "toml_fuel p"] by (simp add: value_yields_def toml_fuel_def)

section \<open>Statements\<close>

text \<open>The invariant of the parser between two statements.\<close>

definition p_inv :: "toml_parser \<Rightarrow> bool" where
  "p_inv p \<longleftrightarrow> tok (p_cursor p) \<and> wf_table (p_root p) \<and> list_all is_valid_utf8 (p_current_path p)"

definition steps :: "toml_parser \<Rightarrow> toml_parser toml_result \<Rightarrow> bool" where
  "steps p res \<longleftrightarrow> good res \<and> (\<forall>q. res = Ok q \<longrightarrow> p_inv q \<and> ahead p q)"

lemma inv_follows: "p_inv p \<Longrightarrow> follows p q \<Longrightarrow> p_inv q"
  by (simp add: p_inv_def follows_def)

lemma steps_then:
  "p_yields Q p res \<Longrightarrow> (\<And>x q. res = Ok (x, q) \<Longrightarrow> follows p q \<Longrightarrow> Q x q \<Longrightarrow> steps p (f (x, q))) \<Longrightarrow> steps p (and_then res f)"
  by (cases res) (auto simp: p_yields_def steps_def good_def)

lemma finish_steps:
  assumes "p_inv q" "ahead p q"
  shows "steps p (lex_unit finish_line q)"
proof -
  have "tok (p_cursor q)" using assms(1) by (simp add: p_inv_def)
  then have "p_moves (\<lambda>_. True) q (lex_unit finish_line q)" by (simp add: lex_unit_moves finish_line_moves)
  then show ?thesis using assms inv_follows ahead_trans(1) by (auto simp: p_moves_def steps_def)
qed

lemma steps_bind: "good res \<Longrightarrow> (\<And>x. res = Ok x \<Longrightarrow> steps p (f x)) \<Longrightarrow> steps p (and_then res f)"
  by (cases res) (auto simp: steps_def good_def)

lemma steps_error [simp]: "tok (p_cursor q) \<Longrightarrow> steps p (Err (p_error q k))"
  by (simp add: steps_def)

lemma steps_value:
  assumes "follows p q" "ahead p q" "\<And>v r. follows p r \<Longrightarrow> ahead p r \<Longrightarrow> wf_value v \<Longrightarrow> steps p (f (v, r))"
  shows "steps p (and_then (parse_value to_f64 (toml_fuel q) q) f)"
  using value_ok [OF follows_tok [OF assms(1)], of to_f64] assms(3) follows_trans [OF assms(1)] ahead_trans(1) [OF assms(2)]
  by (intro steps_bind) (auto simp: p_yields_def)

lemma resolve_current_ok: "p_inv p \<Longrightarrow> rebuilds wf_table (resolve_current_table p)"
  unfolding resolve_current_table_def p_inv_def using resolve_table_ok by blast

lemma store_steps:
  assumes inv: "p_inv q" and a: "ahead p q" "good_path path" "wf_value v"
  shows "steps p (and_then (resolve_current_table q) (\<lambda>(current, put).
    and_then (resolve_current_definition q) (\<lambda>(current_def, put_def).
      and_then (insert_path q current current_def path v) (\<lambda>(t, d).
        lex_unit finish_line (q\<lparr>p_root := put t, p_definitions := put_def d\<rparr>)))))"
proof -
  have t: "tok (p_cursor q)" using inv by (simp add: p_inv_def)
  have r: "good (resolve_current_table q)" "\<And>found put. resolve_current_table q = Ok (found, put) \<Longrightarrow> wf_table found \<and> (\<forall>x. wf_table x \<longrightarrow> wf_table (put x))"
    using resolve_current_ok [OF inv] unfolding rebuilds_def by blast+
  have f: "steps p (lex_unit finish_line (q\<lparr>p_root := t, p_definitions := d\<rparr>))" if "wf_table t" for t d
    by (rule finish_steps) (use that inv a(1) in \<open>simp_all add: p_inv_def ahead_def del: wf_value.simps\<close>)
  show ?thesis
  proof (rule steps_bind [OF r(1)], clarify)
    fix current put assume c: "resolve_current_table q = Ok (current, put)"
    note w = r(2) [OF c]
    have "good (resolve_current_definition q)" unfolding resolve_current_definition_def using resolve_definition_good [OF t] .
    then show "steps p (and_then (resolve_current_definition q) (\<lambda>(current_def, put_def).
      and_then (insert_path q current current_def path v) (\<lambda>(t, d).
        lex_unit finish_line (q\<lparr>p_root := put t, p_definitions := put_def d\<rparr>))))"
    proof (rule steps_bind, clarify)
      fix current_def put_def
      note ins = insert_path_ok [OF t w [THEN conjunct1] a(2,3), of current_def]
      show "steps p (and_then (insert_path q current current_def path v) (\<lambda>(t, d).
        lex_unit finish_line (q\<lparr>p_root := put t, p_definitions := put_def d\<rparr>)))"
        using f w ins(2) by (intro steps_bind [OF ins(1)]) (auto simp del: wf_value.simps)
    qed
  qed
qed

lemma assignment_steps:
  assumes inv: "p_inv p"
  shows "steps p (parse_assignment to_f64 p)"
  unfolding parse_assignment_def
proof (rule steps_then [OF path_ok], use inv p_inv_def in blast, unfold prod.case)
  fix path p1 assume f: "follows p p1" "good_path path"
  define p2 where "p2 = p_horizontal p1"
  have f2: "follows p p2" unfolding p2_def using follows_trans [OF f(1) follows_horizontal [OF follows_tok [OF f(1)]]] .
  let ?p3 = "p_horizontal (p_bump p2)"
  let ?put = "\<lambda>(v, p4). and_then (resolve_current_table p4) (\<lambda>(current, put).
           and_then (resolve_current_definition p4) (\<lambda>(current_def, put_def).
             and_then (insert_path p4 current current_def path v) (\<lambda>(t, d).
               lex_unit finish_line (p4\<lparr>p_root := put t, p_definitions := put_def d\<rparr>))))"
  have "steps p (and_then (parse_value to_f64 (toml_fuel ?p3) ?p3) ?put)" if eq: "\<not> p_eof p2" "p_peek p2 = EQUALS"
  proof -
    have b: "follows p2 (p_bump p2)" "ahead p2 (p_bump p2)" using follows_bump [OF follows_tok [OF f2]] eq by simp_all
    note h = follows_horizontal [OF follows_tok [OF b(1)]]
    show ?thesis
      by (rule steps_value [OF follows_trans [OF f2 follows_trans [OF b(1) h]] ahead_trans(2) [OF f2 ahead_trans(1) [OF b(2) h]]])
        (simp add: store_steps inv_follows [OF inv] f(2))
  qed
  then show "steps p (let p2 = p_horizontal p1 in if p_eof p2 \<or> p_peek p2 \<noteq> EQUALS then Err (p_error p2 ExpectedEquals)
     else let p3 = p_horizontal (p_bump p2) in and_then (parse_value to_f64 (toml_fuel p3) p3) ?put)"
    unfolding Let_def p2_def [symmetric] using follows_tok [OF f2] by auto
qed

definition header_close :: "bool \<Rightarrow> key list \<Rightarrow> toml_parser \<Rightarrow> (bool \<times> key list \<times> toml_parser) toml_result" where
  "header_close arr path p4 =
    (if p_eof p4 \<or> p_peek p4 \<noteq> RBRACK then Err (p_error p4 UnexpectedCharacter)
     else
       let p5 = p_bump p4 in
       if arr then
         if p_eof p5 \<or> p_peek p5 \<noteq> RBRACK then Err (p_error p5 UnexpectedCharacter)
         else Ok (True, path, p_bump p5)
       else Ok (False, path, p5))"

lemma header_close_ok:
  assumes "tok (p_cursor p)"
  shows "good (header_close arr path p)" "header_close arr path p = Ok (a, path', q) \<Longrightarrow> follows p q \<and> path' = path"
proof -
  have close: "follows r (p_bump r)" if "tok (p_cursor r)" "\<not> p_eof r" "p_peek r = RBRACK" for r
    using follows_bump(1) [of r] that by simp
  show "good (header_close arr path p)" unfolding header_close_def Let_def
    using base_bump [OF tok_base [OF assms]] assms by simp
  show "follows p q \<and> path' = path" if "header_close arr path p = Ok (a, path', q)"
    using that close [OF assms] close [OF follows_tok [OF close [OF assms]]] follows_trans unfolding header_close_def Let_def
    by (auto split: if_splits simp del: toml_parser.simps)
qed

lemma header_path_ok:
  assumes "p_inv p" "\<not> p_eof p" "p_peek p = LBRACK"
  shows "good (header_path p)" "header_path p = Ok (arr, path, q) \<Longrightarrow> follows p q \<and> ahead p q \<and> good_path path"
proof -
  define p1 where "p1 = p_bump p"
  define arr1 where "arr1 = (\<not> p_eof p1 \<and> p_peek p1 = LBRACK)"
  define p2 where "p2 = p_horizontal (if arr1 then p_bump p1 else p1)"
  have t: "tok (p_cursor p)" using assms(1) by (simp add: p_inv_def)
  have f1: "follows p p1" "ahead p p1" using follows_bump [OF t assms(2)] assms(3) by (simp_all add: p1_def)
  have f2: "follows p p2" "ahead p p2"
  proof -
    have "follows p1 (if arr1 then p_bump p1 else p1)"
      using follows_bump(1) [OF follows_tok [OF f1(1)]] follows_refl [OF follows_tok [OF f1(1)]] by (simp add: arr1_def)
    then have "follows p1 p2" unfolding p2_def using follows_horizontal follows_tok follows_trans by blast
    then show "follows p p2" "ahead p p2" using f1 follows_trans ahead_trans(1) by blast+
  qed
  have e: "header_path p = and_then (lex parse_key_path p2) (\<lambda>(path, p3). header_close arr1 path (p_horizontal p3))"
    by (simp only: header_path_def header_close_def take_one_eq [OF assms(2)] and_then_Ok Let_def p1_def arr1_def p2_def)
  have "p_yields (\<lambda>path _. good_path path) p2 (lex parse_key_path p2)" using path_ok follows_tok [OF f2(1)] by blast
  then have s: "good (lex parse_key_path p2)" "\<And>path p3. lex parse_key_path p2 = Ok (path, p3) \<Longrightarrow> follows p2 (p_horizontal p3) \<and> good_path path"
    using follows_trans follows_horizontal follows_tok unfolding p_yields_def by blast+
  show "good (header_path p)" unfolding e
  proof (rule good_and_then [OF s(1)], clarify)
    fix pa p3 assume "lex parse_key_path p2 = Ok (pa, p3)"
    then show "good (header_close arr1 pa (p_horizontal p3))" using header_close_ok(1) follows_tok s(2) by blast
  qed
  show "follows p q \<and> ahead p q \<and> good_path path" if h: "header_path p = Ok (arr, path, q)"
  proof -
    obtain pa p3 where r: "lex parse_key_path p2 = Ok (pa, p3)" "header_close arr1 pa (p_horizontal p3) = Ok (arr, path, q)"
      using h unfolding e by (auto simp: and_then_eq_Ok)
    have "follows p2 q \<and> path = pa" using header_close_ok(2) [OF _ r(2)] s(2) [OF r(1)] follows_tok follows_trans by blast
    then show ?thesis using f2 follows_trans ahead_trans(1) s(2) [OF r(1)] by blast
  qed
qed

lemma define_ok:
  assumes "tok (p_cursor p)" "wf_table t" "is_valid_utf8 k"
  shows "good (define_array p k t d)" "define_array p k t d = Ok (t', d') \<Longrightarrow> wf_table t'"
    "good (define_table p k t d)" "define_table p k t d = Ok (t', d') \<Longrightarrow> wf_table t'"
proof -
  show "good (define_array p k t d)" using assms(1) by (simp add: define_array_def split: option.split toml_value.split)
  show "good (define_table p k t d)" using assms(1) by (simp add: define_table_def split: option.split)
  have "wf_table (ins k (Array (vs @ [Table []])) t)" if "map_of t k = Some (Array vs)" for vs
    using wf_table_ins [OF assms(2,3), of "Array (vs @ [Table []])"] wf_table_of [OF assms(2) that] by simp
  moreover have "wf_table (ins k (Array [Table []]) t)" "wf_table (ins k (Table []) t)"
    using wf_table_ins [OF assms(2,3), of "Array [Table []]"] wf_table_ins [OF assms(2,3), of "Table []"] by simp_all
  ultimately show "define_array p k t d = Ok (t', d') \<Longrightarrow> wf_table t'" "define_table p k t d = Ok (t', d') \<Longrightarrow> wf_table t'"
    using assms(2) by (auto simp: define_array_def define_table_def simp del: wf_value.simps
      split: option.splits toml_value.splits if_splits)
qed

lemma header_steps:
  assumes inv: "p_inv p" and b: "\<not> p_eof p" "p_peek p = LBRACK"
  shows "steps p (parse_header p)"
  unfolding parse_header_def
proof (rule steps_bind [OF header_path_ok(1) [OF assms]], clarify)
  fix arr path q assume h: "header_path p = Ok (arr, path, q)"
  note f = header_path_ok(2) [OF assms h]
  have q: "p_inv q" "path \<noteq> []" "list_all is_valid_utf8 (butlast path)" "is_valid_utf8 (last path)" "list_all is_valid_utf8 path"
    using inv_follows [OF inv] f by (auto simp: good_path_def list_all_iff dest: in_set_butlastD)
  have t: "tok (p_cursor q)" "wf_table (p_root q)" using q(1) by (simp_all add: p_inv_def)
  have r: "rebuilds wf_table (resolve_table q (p_root q) (butlast path))" using resolve_table_ok t q(3) by blast
  have fin: "steps p (lex_unit finish_line (q\<lparr>p_root := u, p_definitions := d, p_current_path := path\<rparr>))" if "wf_table u" for u d
    by (rule finish_steps) (use that t q f in \<open>simp_all add: p_inv_def ahead_def del: wf_value.simps\<close>)
  let ?def = "(if arr then define_array else define_table) q (last path)"
  have store: "steps p (and_then (resolve_table q (p_root q) (butlast path)) (\<lambda>(parent, put).
         and_then (?def parent parent_def) (\<lambda>(t, d).
           lex_unit finish_line (q\<lparr>p_root := put t, p_definitions := put_def d, p_current_path := path\<rparr>))))" for parent_def put_def
  proof (rule steps_bind, use r rebuilds_def in blast, clarify)
    fix parent put assume "resolve_table q (p_root q) (butlast path) = Ok (parent, put)"
    then have w: "wf_table parent" "\<And>x. wf_table x \<Longrightarrow> wf_table (put x)" using r unfolding rebuilds_def by blast+
    have d: "good (?def parent parent_def)" "\<And>u d. ?def parent parent_def = Ok (u, d) \<Longrightarrow> wf_table u"
      using define_ok [OF t(1) w(1) q(4), of parent_def] by (cases arr; simp del: wf_value.simps)+
    show "steps p (and_then (?def parent parent_def) (\<lambda>(t, d).
           lex_unit finish_line (q\<lparr>p_root := put t, p_definitions := put_def d, p_current_path := path\<rparr>)))"
      using d(2) w(2) fin by (intro steps_bind [OF d(1)]) (auto simp del: wf_value.simps)
  qed
  show "steps p (if path = [] then Err Panics
     else and_then (resolve_definition q (p_definitions q) (butlast path) ImplicitTable True) (\<lambda>(parent_def, put_def).
       and_then (resolve_table q (p_root q) (butlast path)) (\<lambda>(parent, put).
         and_then (?def parent parent_def) (\<lambda>(t, d).
           lex_unit finish_line (q\<lparr>p_root := put t, p_definitions := put_def d, p_current_path := path\<rparr>)))))"
    by (simp only: q(2) if_False) (rule steps_bind [OF resolve_definition_good [OF t(1)]], clarify, rule store)
qed

section \<open>Documents\<close>

lemma document_loop_ok:
  "p_inv p \<Longrightarrow> p_left p < fuel \<Longrightarrow> good (document_loop to_f64 fuel p) \<and>
     (\<forall>q. document_loop to_f64 fuel p = Ok q \<longrightarrow> p_inv q)"
proof (induction fuel arbitrary: p)
  case (Suc fuel)
  have s: "steps p (statement to_f64 p)" if "\<not> p_eof p"
    using that header_steps [OF Suc.prems(1)] assignment_steps [OF Suc.prems(1)] by (simp add: statement_def)
  show ?case
  proof (cases "p_eof p")
    case False
    let ?rest = "\<lambda>p1. and_then (lex_unit consume_trivia p1) (document_loop to_f64 fuel)"
    have r: "good (?rest p1) \<and> (\<forall>q. ?rest p1 = Ok q \<longrightarrow> p_inv q)" if "p_inv p1" "ahead p p1" for p1
    proof -
      have m: "p_moves (\<lambda>_. True) p1 (lex_unit consume_trivia p1)" using trivia_ok that(1) by (simp add: p_inv_def)
      show ?thesis
      proof (cases "lex_unit consume_trivia p1")
        case (Inr p2)
        then have f: "follows p1 p2" using m by (simp add: p_moves_def)
        have "p_left p2 < fuel" using left_mono(1) [OF f] left_mono(2) [OF that(2)] Suc.prems(2) by simp
        then show ?thesis using Suc.IH [OF inv_follows [OF that(1) f]] Inr by simp
      qed (use m in \<open>simp add: p_moves_def good_def\<close>)
    qed
    show ?thesis using False s r by (cases "statement to_f64 p") (auto simp: steps_def good_def)
  qed (use Suc.prems in simp)
qed simp

lemma make_cursor_tok: "is_valid_utf8 inp \<Longrightarrow> tok (make_cursor inp)"
  by (simp add: tok_def base_def c_wf_def make_cursor_def is_char_boundary_def)

lemma parse_ok:
  assumes "is_valid_utf8 inp"
  shows "good (from_str to_f64 inp opts)" "from_str to_f64 inp opts = Ok v \<Longrightarrow> wf_value v"
proof -
  define p where "p = make_parser inp opts"
  have t: "tok (p_cursor p)" and i: "p_inv p" using make_cursor_tok [OF assms] by (simp_all add: p_def make_parser_def p_inv_def)
  have m: "p_moves (\<lambda>_. True) p (lex_unit consume_trivia p)" using trivia_ok t .
  have d: "good (document_loop to_f64 (toml_fuel p) q) \<and> (\<forall>r. document_loop to_f64 (toml_fuel p) q = Ok r \<longrightarrow> p_inv r)" if "follows p q" for q
    using document_loop_ok [OF inv_follows [OF i that], of "toml_fuel p" to_f64] left_mono(1) [OF that] by (simp add: toml_fuel_def)
  have c: "good (check_limits p)" using t by (simp add: check_limits_def)
  show "good (from_str to_f64 inp opts)" unfolding from_str_def parse_def p_def [symmetric]
    using c m d by (auto simp: p_moves_def intro!: good_and_then)
  show "wf_value v" if "from_str to_f64 inp opts = Ok v"
    using that m d unfolding from_str_def parse_def p_def [symmetric]
    by (auto simp: and_then_eq_Ok p_moves_def p_inv_def simp del: wf_value.simps)
qed

section \<open>Theorems\<close>

text \<open>C6. Parsing TOML returns on every input, for every choice of limits: with the model's fuel the parser
  neither runs out of steps, nor reads past the end of the input, nor slices the text inside a
  character; the result is a value or a \<open>TomlError\<close>.\<close>

theorem toml_parse_total:
  "(\<exists>v. Toml_Parser.from_slice to_f64 inp opts = Ok v) \<or> (\<exists>e. Toml_Parser.from_slice to_f64 inp opts = Err (Fails e))"
proof -
  have "good (from_slice to_f64 inp opts)" using parse_ok(1) [of inp to_f64 opts]
    by (auto simp: from_slice_def from_utf8_def validate_utf8_iff invalid_utf8_error_def good_def and_then_eq_Ok split: sum.split)
  then show ?thesis unfolding good_def by (cases "from_slice to_f64 inp opts") (simp_all, metis failure.exhaust)
qed

text \<open>C4. A document that parses is a well-formed value: every string and key is well-formed UTF-8, the
  keys of every table are sorted without repetition, and every date, time and offset is in range.\<close>

theorem toml_value_well_formed:
  assumes "Toml_Parser.from_slice to_f64 inp opts = Ok v"
  shows "wf_value v \<and> is_table v"
  using assms parse_ok(2) [of inp to_f64 opts v]
  by (auto simp: from_slice_def from_utf8_def validate_utf8_iff from_str_def parse_def and_then_eq_Ok is_table_def split: sum.splits)

theorem toml_value_well_formed_witness:
  "Toml_Parser.from_slice (\<lambda>d. Ok 0) (lit ''[a]'' @ [LF] @ lit ''d=1979-05-27'')
     \<lparr>to_max_depth = 8, to_max_input_bytes = 64, to_max_values = 8\<rparr>
   = Ok (Table [(lit ''a'', Table [(lit ''d'', LocalDate \<lparr>ld_year = 1979, ld_month = 5, ld_day = 27\<rparr>)])]) \<and>
   wf_value (Table [(lit ''a'', Table [(lit ''d'', LocalDate \<lparr>ld_year = 1979, ld_month = 5, ld_day = 27\<rparr>)])])"
proof -
  have e: "Toml_Parser.from_slice (\<lambda>d. Ok 0) (lit ''[a]'' @ [LF] @ lit ''d=1979-05-27'')
     \<lparr>to_max_depth = 8, to_max_input_bytes = 64, to_max_values = 8\<rparr>
   = Ok (Table [(lit ''a'', Table [(lit ''d'', LocalDate \<lparr>ld_year = 1979, ld_month = 5, ld_day = 27\<rparr>)])])"
    by code_simp
  show ?thesis using toml_value_well_formed [OF e] e by simp
qed

end
