(* ===== verification/Serde_Token.thy ===== *)
theory Serde_Token
  imports Text_Cursor Dec2flt Ordered_Map "HOL-Library.List_Lexorder"
begin

text \<open>
  The token format of the serialization library: src/serde/src/token.cpp with the templates of
  token.cppm, the errors and data paths of error.cpp, and the implementations of \<open>Serialize\<close> and
  \<open>Deserialize\<close> for the types of containers.cppm and primitives.cppm.  The template parameter \<open>T\<close> of
  the library is a \<open>shape\<close>, its values are the trees of \<open>sdata\<close>.  The token vector and the count of open
  compounds, which the serializers share through pointers, are the state \<open>sink\<close>; the position that
  the deserializers share is passed on.  The deserializers recurse with fuel.
\<close>

section \<open>Data paths and errors\<close>

type_synonym bytes = "u8 list"

datatype serde_value_kind =
    VkNull | VkUnit | VkBoolean | VkSignedInteger | VkUnsignedInteger | VkFloat | VkString | VkBytes
  | VkSequence | VkMap | VkEnum | VkExtension

datatype path_segment_kind = SegField | SegIndex | SegMapKey | SegVariant

record path_segment =
  seg_kind :: path_segment_kind
  seg_name :: "bytes option"
  seg_index :: nat

definition segment_field :: "bytes \<Rightarrow> path_segment" where
  "segment_field name = \<lparr>seg_kind = SegField, seg_name = Some name, seg_index = 0\<rparr>"

definition segment_index :: "nat \<Rightarrow> path_segment" where
  "segment_index v = \<lparr>seg_kind = SegIndex, seg_name = None, seg_index = v\<rparr>"

definition segment_map_key :: "bytes \<Rightarrow> path_segment" where
  "segment_map_key name = \<lparr>seg_kind = SegMapKey, seg_name = Some name, seg_index = 0\<rparr>"

definition segment_variant :: "bytes \<Rightarrow> path_segment" where
  "segment_variant name = \<lparr>seg_kind = SegVariant, seg_name = Some name, seg_index = 0\<rparr>"

type_synonym data_path = "path_segment list"

definition with_field :: "data_path \<Rightarrow> bytes \<Rightarrow> data_path" where
  "with_field path name = path @ [segment_field name]"

definition with_index :: "data_path \<Rightarrow> nat \<Rightarrow> data_path" where
  "with_index path i = path @ [segment_index i]"

definition with_map_key :: "data_path \<Rightarrow> bytes \<Rightarrow> data_path" where
  "with_map_key path name = path @ [segment_map_key name]"

definition with_variant :: "data_path \<Rightarrow> bytes \<Rightarrow> data_path" where
  "with_variant path name = path @ [segment_variant name]"

datatype serde_error_kind =
    TypeMismatch | MissingField | UnknownField | UnknownVariant | DuplicateField | InvalidValue | Invariant
  | Unsupported | UnexpectedEnd

text \<open>Only \<open>invalid_value_with_source\<close> stores a source error; the member is left out.\<close>

record serde_error =
  se_kind :: serde_error_kind
  se_path :: data_path
  se_expected :: "serde_value_kind option"
  se_actual :: "serde_value_kind option"
  se_message :: "bytes option"

definition type_mismatch :: "data_path \<Rightarrow> serde_value_kind \<Rightarrow> serde_value_kind \<Rightarrow> serde_error" where
  "type_mismatch path expected actual =
    \<lparr>se_kind = TypeMismatch, se_path = path, se_expected = Some expected, se_actual = Some actual, se_message = None\<rparr>"

definition missing_field :: "data_path \<Rightarrow> bytes \<Rightarrow> serde_error" where
  "missing_field path field =
    \<lparr>se_kind = MissingField, se_path = with_field path field, se_expected = None, se_actual = None, se_message = Some field\<rparr>"

definition unknown_field :: "data_path \<Rightarrow> bytes \<Rightarrow> serde_error" where
  "unknown_field path field =
    \<lparr>se_kind = UnknownField, se_path = with_field path field, se_expected = None, se_actual = None, se_message = Some field\<rparr>"

definition unknown_variant :: "data_path \<Rightarrow> bytes \<Rightarrow> serde_error" where
  "unknown_variant path variant =
    \<lparr>se_kind = UnknownVariant, se_path = with_variant path variant, se_expected = None, se_actual = None,
     se_message = Some variant\<rparr>"

definition duplicate_field :: "data_path \<Rightarrow> bytes \<Rightarrow> serde_error" where
  "duplicate_field path field =
    \<lparr>se_kind = DuplicateField, se_path = with_field path field, se_expected = None, se_actual = None, se_message = Some field\<rparr>"

definition invalid_value :: "data_path \<Rightarrow> bytes \<Rightarrow> serde_error" where
  "invalid_value path message =
    \<lparr>se_kind = InvalidValue, se_path = path, se_expected = None, se_actual = None, se_message = Some message\<rparr>"

definition invariant :: "data_path \<Rightarrow> bytes \<Rightarrow> serde_error" where
  "invariant path message =
    \<lparr>se_kind = Invariant, se_path = path, se_expected = None, se_actual = None, se_message = Some message\<rparr>"

definition unsupported :: "data_path \<Rightarrow> bytes \<Rightarrow> serde_error" where
  "unsupported path message =
    \<lparr>se_kind = Unsupported, se_path = path, se_expected = None, se_actual = None, se_message = Some message\<rparr>"

definition unexpected_end :: "data_path \<Rightarrow> serde_error" where
  "unexpected_end path =
    \<lparr>se_kind = UnexpectedEnd, se_path = path, se_expected = None, se_actual = None, se_message = None\<rparr>"

definition value_kind_name :: "serde_value_kind \<Rightarrow> string" where
  "value_kind_name kind =
    (case kind of VkNull \<Rightarrow> ''null'' | VkUnit \<Rightarrow> ''unit'' | VkBoolean \<Rightarrow> ''boolean'' | VkSignedInteger \<Rightarrow> ''signed integer''
     | VkUnsignedInteger \<Rightarrow> ''unsigned integer'' | VkFloat \<Rightarrow> ''float'' | VkString \<Rightarrow> ''string'' | VkBytes \<Rightarrow> ''bytes''
     | VkSequence \<Rightarrow> ''sequence'' | VkMap \<Rightarrow> ''map'' | VkEnum \<Rightarrow> ''enum'' | VkExtension \<Rightarrow> ''extension'')"

definition error_text :: "serde_error_kind \<Rightarrow> string" where
  "error_text kind =
    (case kind of TypeMismatch \<Rightarrow> ''serde error'' | MissingField \<Rightarrow> ''missing field'' | UnknownField \<Rightarrow> ''unknown field''
     | UnknownVariant \<Rightarrow> ''unknown variant'' | DuplicateField \<Rightarrow> ''duplicate field'' | InvalidValue \<Rightarrow> ''invalid value''
     | Invariant \<Rightarrow> ''serde protocol invariant failed'' | Unsupported \<Rightarrow> ''unsupported value''
     | UnexpectedEnd \<Rightarrow> ''unexpected end of input'')"

text \<open>
  The display of an error, on a formatter that is a writer \<open>put\<close> with a state: \<open>None\<close> is a failed write,
  at which the display stops.  \<open>show\<close> is the display of a \<open>usize\<close>.
\<close>

definition segment_text :: "(nat \<Rightarrow> bytes) \<Rightarrow> path_segment \<Rightarrow> bytes" where
  "segment_text show seg =
    (case seg_kind seg of
       SegField \<Rightarrow> lit ''.'' @ the (seg_name seg)
     | SegMapKey \<Rightarrow> lit ''.'' @ the (seg_name seg)
     | SegIndex \<Rightarrow> lit ''['' @ show (seg_index seg) @ lit '']''
     | SegVariant \<Rightarrow> lit ''::'' @ the (seg_name seg))"

fun write_all :: "(bytes \<Rightarrow> 'f \<Rightarrow> 'f option) \<Rightarrow> bytes list \<Rightarrow> 'f \<Rightarrow> 'f option" where
  "write_all put [] f = Some f"
| "write_all put (t # ts) f = (case put t f of None \<Rightarrow> None | Some f' \<Rightarrow> write_all put ts f')"

definition error_parts :: "(nat \<Rightarrow> bytes) \<Rightarrow> serde_error \<Rightarrow> bytes list" where
  "error_parts show e =
    (if se_kind e = TypeMismatch then
       [lit ''type mismatch: expected '' @ lit (value_kind_name (the (se_expected e))) @ lit '', found '' @
        lit (value_kind_name (the (se_actual e)))]
     else
       lit (error_text (se_kind e)) #
       (case se_message e of None \<Rightarrow> [] | Some message \<Rightarrow> [lit '': '' @ message])) @
    [lit '' at $''] @ map (segment_text show) (se_path e)"

definition serde_error_fmt :: "(nat \<Rightarrow> bytes) \<Rightarrow> (bytes \<Rightarrow> 'f \<Rightarrow> 'f option) \<Rightarrow> serde_error \<Rightarrow> 'f \<Rightarrow> 'f option" where
  "serde_error_fmt show put e f = write_all put (error_parts show e) f"

section \<open>Tokens\<close>

datatype token_kind =
    TkNull | TkUnit | TkBool | TkI64 | TkU64 | TkF64 | TkString | TkBytes | TkSomeStart | TkSomeEnd
  | TkSequenceStart | TkSequenceEnd | TkMapStart | TkMapEnd | TkEnumStart | TkEnumEnd

record token =
  t_kind :: token_kind
  t_bool :: bool
  t_i64 :: i64
  t_u64 :: u64
  t_f64 :: f64
  t_len :: nat
  t_string :: bytes
  t_bytes :: bytes

definition token_of :: "token_kind \<Rightarrow> token" where
  "token_of kind =
    \<lparr>t_kind = kind, t_bool = False, t_i64 = 0, t_u64 = 0, t_f64 = 0, t_len = 0, t_string = [], t_bytes = []\<rparr>"

definition token_null :: token where "token_null = token_of TkNull"
definition token_boolean :: "bool \<Rightarrow> token" where "token_boolean v = (token_of TkBool)\<lparr>t_bool := v\<rparr>"
definition token_signed_integer :: "i64 \<Rightarrow> token" where "token_signed_integer v = (token_of TkI64)\<lparr>t_i64 := v\<rparr>"
definition token_unsigned_integer :: "u64 \<Rightarrow> token" where "token_unsigned_integer v = (token_of TkU64)\<lparr>t_u64 := v\<rparr>"
definition token_floating :: "f64 \<Rightarrow> token" where "token_floating v = (token_of TkF64)\<lparr>t_f64 := v\<rparr>"
definition token_string :: "bytes \<Rightarrow> token" where "token_string v = (token_of TkString)\<lparr>t_string := v\<rparr>"
definition token_bytes :: "bytes \<Rightarrow> token" where "token_bytes v = (token_of TkBytes)\<lparr>t_bytes := v\<rparr>"
definition token_marker :: "token_kind \<Rightarrow> token" where "token_marker kind = token_of kind"
definition token_container :: "token_kind \<Rightarrow> nat \<Rightarrow> token" where
  "token_container kind n = (token_of kind)\<lparr>t_len := n\<rparr>"

section \<open>Serializers\<close>

type_synonym 'a serde_result = "(serde_error failure, 'a) result"

record sink =
  sk_tokens :: "token list"
  sk_open :: nat

definition new_sink :: sink where "new_sink = \<lparr>sk_tokens = [], sk_open = 0\<rparr>"

definition push_token :: "token \<Rightarrow> sink \<Rightarrow> sink" where
  "push_token t s = s\<lparr>sk_tokens := sk_tokens s @ [t]\<rparr>"

definition is_complete :: "sink \<Rightarrow> bool" where "is_complete s \<longleftrightarrow> sk_open s = 0"

definition serialize_none :: "sink \<Rightarrow> sink serde_result" where "serialize_none s = Ok (push_token token_null s)"
definition serialize_unit :: "sink \<Rightarrow> sink serde_result" where
  "serialize_unit s = Ok (push_token (token_marker TkUnit) s)"
definition serialize_bool :: "bool \<Rightarrow> sink \<Rightarrow> sink serde_result" where
  "serialize_bool v s = Ok (push_token (token_boolean v) s)"
definition serialize_i64 :: "i64 \<Rightarrow> sink \<Rightarrow> sink serde_result" where
  "serialize_i64 v s = Ok (push_token (token_signed_integer v) s)"
definition serialize_u64 :: "u64 \<Rightarrow> sink \<Rightarrow> sink serde_result" where
  "serialize_u64 v s = Ok (push_token (token_unsigned_integer v) s)"
definition serialize_f64 :: "f64 \<Rightarrow> sink \<Rightarrow> sink serde_result" where
  "serialize_f64 v s = Ok (push_token (token_floating v) s)"
definition serialize_string :: "bytes \<Rightarrow> sink \<Rightarrow> sink serde_result" where
  "serialize_string v s = Ok (push_token (token_string v) s)"
definition serialize_bytes :: "bytes \<Rightarrow> sink \<Rightarrow> sink serde_result" where
  "serialize_bytes v s = Ok (push_token (token_bytes v) s)"

definition serialize_some :: "(sink \<Rightarrow> sink serde_result) \<Rightarrow> sink \<Rightarrow> sink serde_result" where
  "serialize_some child s = and_then (child (push_token (token_marker TkSomeStart) s)) (\<lambda>s1.
     Ok (push_token (token_marker TkSomeEnd) s1))"

definition serialize_unit_variant :: "bytes \<Rightarrow> sink \<Rightarrow> sink serde_result" where
  "serialize_unit_variant variant s =
    Ok (push_token (token_marker TkEnumEnd) (push_token (token_marker TkUnit)
      (push_token (token_string variant) (push_token (token_marker TkEnumStart) s))))"

definition serialize_newtype_variant :: "bytes \<Rightarrow> (sink \<Rightarrow> sink serde_result) \<Rightarrow> sink \<Rightarrow> sink serde_result" where
  "serialize_newtype_variant variant child s =
    and_then (child (push_token (token_string variant) (push_token (token_marker TkEnumStart) s))) (\<lambda>s1.
      Ok (push_token (token_marker TkEnumEnd) s1))"

record token_sequence =
  sq_path :: data_path
  sq_index :: nat
  sq_ended :: bool

record token_map =
  tm_path :: data_path
  tm_value_path :: data_path
  tm_pending :: bool
  tm_ended :: bool

definition ser_begin_sequence :: "data_path \<Rightarrow> nat \<Rightarrow> sink \<Rightarrow> (token_sequence \<times> sink) serde_result" where
  "ser_begin_sequence path n s =
    (let s1 = push_token (token_container TkSequenceStart n) s in
     Ok (\<lparr>sq_path = path, sq_index = 0, sq_ended = False\<rparr>, s1\<lparr>sk_open := sk_open s1 + 1\<rparr>))"

definition ser_begin_map :: "data_path \<Rightarrow> nat \<Rightarrow> sink \<Rightarrow> (token_map \<times> sink) serde_result" where
  "ser_begin_map path n s =
    (let s1 = push_token (token_container TkMapStart n) s in
     Ok (\<lparr>tm_path = path, tm_value_path = path, tm_pending = False, tm_ended = False\<rparr>, s1\<lparr>sk_open := sk_open s1 + 1\<rparr>))"

definition sequence_element ::
  "(data_path \<Rightarrow> sink \<Rightarrow> sink serde_result) \<Rightarrow> token_sequence \<Rightarrow> sink \<Rightarrow> (token_sequence \<times> sink) serde_result" where
  "sequence_element child q s =
    (if sq_ended q then Err (Fails (invariant (sq_path q) (lit ''sequence already ended'')))
     else and_then (child (with_index (sq_path q) (sq_index q)) s) (\<lambda>s1. Ok (q\<lparr>sq_index := sq_index q + 1\<rparr>, s1)))"

definition sequence_end :: "token_sequence \<Rightarrow> sink \<Rightarrow> (token_sequence \<times> sink) serde_result" where
  "sequence_end q s =
    (if sq_ended q then Err (Fails (invariant (sq_path q) (lit ''sequence already ended'')))
     else if sk_open s = 0 then Err Panics
     else Ok (q\<lparr>sq_ended := True\<rparr>, push_token (token_marker TkSequenceEnd) (s\<lparr>sk_open := sk_open s - 1\<rparr>)))"

text \<open>\<open>key\<close> for a \<open>String\<close> key, which also names the path of the value.\<close>

definition map_key :: "bytes \<Rightarrow> token_map \<Rightarrow> sink \<Rightarrow> (token_map \<times> sink) serde_result" where
  "map_key k m s =
    (if tm_ended m then Err (Fails (invariant (tm_path m) (lit ''map already ended'')))
     else if tm_pending m then Err (Fails (invariant (tm_path m) (lit ''map value is missing'')))
     else and_then (serialize_string k s) (\<lambda>s1.
       Ok (m\<lparr>tm_value_path := with_map_key (tm_path m) k, tm_pending := True\<rparr>, s1)))"

definition map_value ::
  "(data_path \<Rightarrow> sink \<Rightarrow> sink serde_result) \<Rightarrow> token_map \<Rightarrow> sink \<Rightarrow> (token_map \<times> sink) serde_result" where
  "map_value child m s =
    (if tm_ended m then Err (Fails (invariant (tm_path m) (lit ''map already ended'')))
     else if \<not> tm_pending m then Err (Fails (invariant (tm_path m) (lit ''map key is missing'')))
     else and_then (child (tm_value_path m) s) (\<lambda>s1. Ok (m\<lparr>tm_pending := False\<rparr>, s1)))"

definition map_end :: "token_map \<Rightarrow> sink \<Rightarrow> (token_map \<times> sink) serde_result" where
  "map_end m s =
    (if tm_ended m then Err (Fails (invariant (tm_path m) (lit ''map already ended'')))
     else if tm_pending m then Err (Fails (invariant (tm_path m) (lit ''map value is missing'')))
     else if sk_open s = 0 then Err Panics
     else Ok (m\<lparr>tm_ended := True\<rparr>, push_token (token_marker TkMapEnd) (s\<lparr>sk_open := sk_open s - 1\<rparr>)))"

section \<open>Deserializers\<close>

definition d_peek :: "token list \<Rightarrow> nat \<Rightarrow> token option" where
  "d_peek toks pos = (if pos \<ge> length toks then None else Some (toks ! pos))"

definition actual_kind :: "token_kind \<Rightarrow> serde_value_kind" where
  "actual_kind kind =
    (case kind of TkNull \<Rightarrow> VkNull | TkUnit \<Rightarrow> VkUnit | TkBool \<Rightarrow> VkBoolean | TkI64 \<Rightarrow> VkSignedInteger | TkU64 \<Rightarrow> VkUnsignedInteger
     | TkF64 \<Rightarrow> VkFloat | TkString \<Rightarrow> VkString | TkBytes \<Rightarrow> VkBytes | TkSomeStart \<Rightarrow> VkEnum | TkSomeEnd \<Rightarrow> VkEnum
     | TkSequenceStart \<Rightarrow> VkSequence | TkSequenceEnd \<Rightarrow> VkSequence | TkMapStart \<Rightarrow> VkMap | TkMapEnd \<Rightarrow> VkMap
     | TkEnumStart \<Rightarrow> VkEnum | TkEnumEnd \<Rightarrow> VkEnum)"

definition d_take ::
  "token list \<Rightarrow> data_path \<Rightarrow> token_kind \<Rightarrow> serde_value_kind \<Rightarrow> nat \<Rightarrow> (token \<times> nat) serde_result" where
  "d_take toks path expected expected_kind pos =
    (case d_peek toks pos of
       None \<Rightarrow> Err (Fails (unexpected_end path))
     | Some t \<Rightarrow>
         if t_kind t \<noteq> expected then Err (Fails (type_mismatch path expected_kind (actual_kind (t_kind t))))
         else Ok (t, pos + 1))"

definition deserialize_bool :: "token list \<Rightarrow> data_path \<Rightarrow> nat \<Rightarrow> (bool \<times> nat) serde_result" where
  "deserialize_bool toks path pos = and_then (d_take toks path TkBool VkBoolean pos) (\<lambda>(t, pos1). Ok (t_bool t, pos1))"
definition deserialize_unit :: "token list \<Rightarrow> data_path \<Rightarrow> nat \<Rightarrow> (unit \<times> nat) serde_result" where
  "deserialize_unit toks path pos = and_then (d_take toks path TkUnit VkUnit pos) (\<lambda>(t, pos1). Ok ((), pos1))"
definition deserialize_i64 :: "token list \<Rightarrow> data_path \<Rightarrow> nat \<Rightarrow> (i64 \<times> nat) serde_result" where
  "deserialize_i64 toks path pos = and_then (d_take toks path TkI64 VkSignedInteger pos) (\<lambda>(t, pos1). Ok (t_i64 t, pos1))"
definition deserialize_u64 :: "token list \<Rightarrow> data_path \<Rightarrow> nat \<Rightarrow> (u64 \<times> nat) serde_result" where
  "deserialize_u64 toks path pos = and_then (d_take toks path TkU64 VkUnsignedInteger pos) (\<lambda>(t, pos1). Ok (t_u64 t, pos1))"
definition deserialize_f64 :: "token list \<Rightarrow> data_path \<Rightarrow> nat \<Rightarrow> (f64 \<times> nat) serde_result" where
  "deserialize_f64 toks path pos = and_then (d_take toks path TkF64 VkFloat pos) (\<lambda>(t, pos1). Ok (t_f64 t, pos1))"
definition deserialize_string :: "token list \<Rightarrow> data_path \<Rightarrow> nat \<Rightarrow> (bytes \<times> nat) serde_result" where
  "deserialize_string toks path pos = and_then (d_take toks path TkString VkString pos) (\<lambda>(t, pos1). Ok (t_string t, pos1))"
definition deserialize_bytes :: "token list \<Rightarrow> data_path \<Rightarrow> nat \<Rightarrow> (bytes \<times> nat) serde_result" where
  "deserialize_bytes toks path pos = and_then (d_take toks path TkBytes VkBytes pos) (\<lambda>(t, pos1). Ok (t_bytes t, pos1))"

type_synonym 'a reading = "data_path \<Rightarrow> nat \<Rightarrow> ('a \<times> nat) serde_result"

definition deserialize_option :: "token list \<Rightarrow> 'a reading \<Rightarrow> 'a option reading" where
  "deserialize_option toks child path pos =
    (case d_peek toks pos of
       None \<Rightarrow> Err (Fails (unexpected_end path))
     | Some t \<Rightarrow>
         if t_kind t = TkNull then Ok (None, pos + 1)
         else if t_kind t \<noteq> TkSomeStart then Err (Fails (type_mismatch path VkEnum (actual_kind (t_kind t))))
         else and_then (child path (pos + 1)) (\<lambda>(v, pos1).
           and_then (d_take toks path TkSomeEnd VkEnum pos1) (\<lambda>(_, pos2). Ok (Some v, pos2))))"

record sequence_access =
  qa_path :: data_path
  qa_index :: nat
  qa_ended :: bool

definition begin_sequence :: "token list \<Rightarrow> sequence_access reading" where
  "begin_sequence toks path pos = and_then (d_take toks path TkSequenceStart VkSequence pos) (\<lambda>(_, pos1).
     Ok (\<lparr>qa_path = path, qa_index = 0, qa_ended = False\<rparr>, pos1))"

definition sequence_next ::
  "token list \<Rightarrow> 'a reading \<Rightarrow> sequence_access \<Rightarrow> nat \<Rightarrow> ('a option \<times> sequence_access \<times> nat) serde_result" where
  "sequence_next toks child q pos =
    (if qa_ended q then Err (Fails (invariant (qa_path q) (lit ''sequence already ended'')))
     else if pos \<ge> length toks then Err (Fails (unexpected_end (qa_path q)))
     else if t_kind (toks ! pos) = TkSequenceEnd then Ok (None, q, pos)
     else and_then (child (with_index (qa_path q) (qa_index q)) pos) (\<lambda>(v, pos1).
       Ok (Some v, q\<lparr>qa_index := qa_index q + 1\<rparr>, pos1)))"

definition sequence_access_end :: "token list \<Rightarrow> sequence_access \<Rightarrow> nat \<Rightarrow> (sequence_access \<times> nat) serde_result" where
  "sequence_access_end toks q pos =
    (if qa_ended q then Err (Fails (invariant (qa_path q) (lit ''sequence already ended'')))
     else if pos \<ge> length toks then Err (Fails (unexpected_end (qa_path q)))
     else if t_kind (toks ! pos) \<noteq> TkSequenceEnd then
       Err (Fails (invariant (qa_path q) (lit ''sequence has unread elements'')))
     else Ok (q\<lparr>qa_ended := True\<rparr>, pos + 1))"

record map_access =
  ma_path :: data_path
  ma_value_path :: data_path
  ma_pending :: bool
  ma_ended :: bool

definition begin_map :: "token list \<Rightarrow> map_access reading" where
  "begin_map toks path pos = and_then (d_take toks path TkMapStart VkMap pos) (\<lambda>(_, pos1).
     Ok (\<lparr>ma_path = path, ma_value_path = path, ma_pending = False, ma_ended = False\<rparr>, pos1))"

definition next_key :: "token list \<Rightarrow> map_access \<Rightarrow> nat \<Rightarrow> (bytes option \<times> map_access \<times> nat) serde_result" where
  "next_key toks m pos =
    (if ma_ended m then Err (Fails (invariant (ma_path m) (lit ''map already ended'')))
     else if ma_pending m then Err (Fails (invariant (ma_path m) (lit ''map value is missing'')))
     else if pos \<ge> length toks then Err (Fails (unexpected_end (ma_path m)))
     else if t_kind (toks ! pos) = TkMapEnd then Ok (None, m, pos)
     else and_then (deserialize_string toks (ma_path m) pos) (\<lambda>(k, pos1).
       Ok (Some k, m\<lparr>ma_value_path := with_map_key (ma_path m) k, ma_pending := True\<rparr>, pos1)))"

definition next_value :: "'a reading \<Rightarrow> map_access \<Rightarrow> nat \<Rightarrow> ('a \<times> map_access \<times> nat) serde_result" where
  "next_value child m pos =
    (if ma_ended m then Err (Fails (invariant (ma_path m) (lit ''map already ended'')))
     else if \<not> ma_pending m then Err (Fails (invariant (ma_path m) (lit ''map key is missing'')))
     else and_then (child (ma_value_path m) pos) (\<lambda>(v, pos1). Ok (v, m\<lparr>ma_pending := False\<rparr>, pos1)))"

definition map_access_end :: "token list \<Rightarrow> map_access \<Rightarrow> nat \<Rightarrow> (map_access \<times> nat) serde_result" where
  "map_access_end toks m pos =
    (if ma_ended m then Err (Fails (invariant (ma_path m) (lit ''map already ended'')))
     else if ma_pending m then Err (Fails (invariant (ma_path m) (lit ''map value is missing'')))
     else if pos \<ge> length toks then Err (Fails (unexpected_end (ma_path m)))
     else if t_kind (toks ! pos) \<noteq> TkMapEnd then Err (Fails (invariant (ma_path m) (lit ''map has unread entries'')))
     else Ok (m\<lparr>ma_ended := True\<rparr>, pos + 1))"

record enum_access =
  ea_path :: data_path
  ea_variant :: bytes
  ea_consumed :: bool

definition begin_enum :: "token list \<Rightarrow> enum_access reading" where
  "begin_enum toks path pos = and_then (d_take toks path TkEnumStart VkEnum pos) (\<lambda>(_, pos1).
     and_then (d_take toks path TkString VkString pos1) (\<lambda>(variant, pos2).
       Ok (\<lparr>ea_path = path, ea_variant = t_string variant, ea_consumed = False\<rparr>, pos2)))"

definition enum_finish :: "token list \<Rightarrow> enum_access \<Rightarrow> nat \<Rightarrow> (enum_access \<times> nat) serde_result" where
  "enum_finish toks a pos =
    and_then (d_take toks (with_variant (ea_path a) (ea_variant a)) TkEnumEnd VkEnum pos) (\<lambda>(_, pos1).
      Ok (a\<lparr>ea_consumed := True\<rparr>, pos1))"

definition enum_unit :: "token list \<Rightarrow> enum_access \<Rightarrow> nat \<Rightarrow> (enum_access \<times> nat) serde_result" where
  "enum_unit toks a pos =
    (if ea_consumed a then Err (Fails (invariant (ea_path a) (lit ''enum already consumed'')))
     else and_then (deserialize_unit toks (with_variant (ea_path a) (ea_variant a)) pos) (\<lambda>(_, pos1).
       enum_finish toks a pos1))"

definition enum_value :: "token list \<Rightarrow> 'a reading \<Rightarrow> enum_access \<Rightarrow> nat \<Rightarrow> ('a \<times> enum_access \<times> nat) serde_result" where
  "enum_value toks child a pos =
    (if ea_consumed a then Err (Fails (invariant (ea_path a) (lit ''enum already consumed'')))
     else and_then (child (with_variant (ea_path a) (ea_variant a)) pos) (\<lambda>(v, pos1).
       and_then (enum_finish toks a pos1) (\<lambda>(a1, pos2). Ok (v, a1, pos2))))"

text \<open>\<open>ignore_value\<close>; the loops over the elements of a sequence and the entries of a map recurse beside it.\<close>

fun ignore_value :: "nat \<Rightarrow> token list \<Rightarrow> data_path \<Rightarrow> nat \<Rightarrow> nat serde_result"
  and ignore_elements :: "nat \<Rightarrow> token list \<Rightarrow> data_path \<Rightarrow> nat \<Rightarrow> nat serde_result"
  and ignore_entries :: "nat \<Rightarrow> token list \<Rightarrow> data_path \<Rightarrow> nat \<Rightarrow> nat serde_result" where
  "ignore_value 0 toks path pos = Err Fuel_out"
| "ignore_value (Suc fuel) toks path pos =
    (case d_peek toks pos of
       None \<Rightarrow> Err (Fails (unexpected_end path))
     | Some t \<Rightarrow>
        (if t_kind t \<in> {TkNull, TkUnit, TkBool, TkI64, TkU64, TkF64, TkString, TkBytes} then Ok (pos + 1)
         else if t_kind t = TkSomeStart then
           and_then (ignore_value fuel toks path (pos + 1)) (\<lambda>pos1.
             and_then (d_take toks path TkSomeEnd VkEnum pos1) (\<lambda>(_, pos2). Ok pos2))
         else if t_kind t = TkSequenceStart then
           and_then (ignore_elements fuel toks path (pos + 1)) (\<lambda>pos1.
             and_then (d_take toks path TkSequenceEnd VkSequence pos1) (\<lambda>(_, pos2). Ok pos2))
         else if t_kind t = TkMapStart then
           and_then (ignore_entries fuel toks path (pos + 1)) (\<lambda>pos1.
             and_then (d_take toks path TkMapEnd VkMap pos1) (\<lambda>(_, pos2). Ok pos2))
         else if t_kind t = TkEnumStart then
           and_then (d_take toks path TkString VkString (pos + 1)) (\<lambda>(_, pos1).
             and_then (ignore_value fuel toks path pos1) (\<lambda>pos2.
               and_then (d_take toks path TkEnumEnd VkEnum pos2) (\<lambda>(_, pos3). Ok pos3)))
         else Err (Fails (invariant path (lit ''unexpected compound end token'')))))"
| "ignore_elements 0 toks path pos = Err Fuel_out"
| "ignore_elements (Suc fuel) toks path pos =
    (if pos < length toks \<and> t_kind (toks ! pos) \<noteq> TkSequenceEnd then
       and_then (ignore_value fuel toks path pos) (\<lambda>pos1. ignore_elements fuel toks path pos1)
     else Ok pos)"
| "ignore_entries 0 toks path pos = Err Fuel_out"
| "ignore_entries (Suc fuel) toks path pos =
    (if pos < length toks \<and> t_kind (toks ! pos) \<noteq> TkMapEnd then
       and_then (ignore_value fuel toks path pos) (\<lambda>pos1.
         and_then (ignore_value fuel toks path pos1) (\<lambda>pos2. ignore_entries fuel toks path pos2))
     else Ok pos)"

definition map_ignore_value :: "nat \<Rightarrow> token list \<Rightarrow> map_access \<Rightarrow> nat \<Rightarrow> (map_access \<times> nat) serde_result" where
  "map_ignore_value fuel toks m pos =
    (if ma_ended m then Err (Fails (invariant (ma_path m) (lit ''map already ended'')))
     else if \<not> ma_pending m then Err (Fails (invariant (ma_path m) (lit ''map key is missing'')))
     else and_then (ignore_value fuel toks (ma_value_path m) pos) (\<lambda>pos1. Ok (m\<lparr>ma_pending := False\<rparr>, pos1)))"

section \<open>Serialize and Deserialize\<close>

datatype sdata =
    DUnit | DBool bool | DI64 i64 | DU64 u64 | DF64 f64 | DString bytes
  | DOption "sdata option" | DVec "sdata list" | DMap "(bytes \<times> sdata) list"
  | DOk sdata | DErr sdata | DTagged "sdata option"

datatype shape =
    ShUnit | ShBool | ShI64 | ShU64 | ShF64 | ShString
  | ShOption shape | ShVec shape | ShMap shape | ShResult shape shape | ShTagged shape

fun serialize :: "data_path \<Rightarrow> sdata \<Rightarrow> sink \<Rightarrow> sink serde_result"
  and serialize_elements :: "sdata list \<Rightarrow> token_sequence \<Rightarrow> sink \<Rightarrow> (token_sequence \<times> sink) serde_result"
  and serialize_entries :: "(bytes \<times> sdata) list \<Rightarrow> token_map \<Rightarrow> sink \<Rightarrow> (token_map \<times> sink) serde_result" where
  "serialize path DUnit s = serialize_unit s"
| "serialize path (DBool v) s = serialize_bool v s"
| "serialize path (DI64 v) s = serialize_i64 v s"
| "serialize path (DU64 v) s = serialize_u64 v s"
| "serialize path (DF64 v) s = serialize_f64 v s"
| "serialize path (DString v) s = serialize_string v s"
| "serialize path (DOption None) s = serialize_none s"
| "serialize path (DOption (Some v)) s = serialize_some (\<lambda>s1. serialize path v s1) s"
| "serialize path (DVec vs) s = and_then (ser_begin_sequence path (length vs) s) (\<lambda>(q, s1).
     and_then (serialize_elements vs q s1) (\<lambda>(q1, s2). and_then (sequence_end q1 s2) (\<lambda>(_, s3). Ok s3)))"
| "serialize path (DMap es) s = and_then (ser_begin_map path (length es) s) (\<lambda>(m, s1).
     and_then (serialize_entries es m s1) (\<lambda>(m1, s2). and_then (map_end m1 s2) (\<lambda>(_, s3). Ok s3)))"
| "serialize path (DOk v) s =
     serialize_newtype_variant (lit ''Ok'') (\<lambda>s1. serialize (with_variant path (lit ''Ok'')) v s1) s"
| "serialize path (DErr v) s =
     serialize_newtype_variant (lit ''Err'') (\<lambda>s1. serialize (with_variant path (lit ''Err'')) v s1) s"
| "serialize path (DTagged None) s = serialize_unit_variant (lit ''None'') s"
| "serialize path (DTagged (Some v)) s =
     serialize_newtype_variant (lit ''Some'') (\<lambda>s1. serialize (with_variant path (lit ''Some'')) v s1) s"
| "serialize_elements [] q s = Ok (q, s)"
| "serialize_elements (v # vs) q s =
     and_then (sequence_element (\<lambda>path s1. serialize path v s1) q s) (\<lambda>(q1, s1). serialize_elements vs q1 s1)"
| "serialize_entries [] m s = Ok (m, s)"
| "serialize_entries ((k, v) # es) m s = and_then (map_key k m s) (\<lambda>(m1, s1).
     and_then (map_value (\<lambda>path s2. serialize path v s2) m1 s1) (\<lambda>(m2, s2). serialize_entries es m2 s2))"

definition to_tokens :: "sdata \<Rightarrow> (token list) serde_result" where
  "to_tokens v = and_then (serialize [] v new_sink) (\<lambda>s.
     if \<not> is_complete s then Err (Fails (invariant [] (lit ''serde compound was not ended'')))
     else Ok (sk_tokens s))"

definition map_fst :: "('a \<Rightarrow> 'b) \<Rightarrow> ('a \<times> nat) serde_result \<Rightarrow> ('b \<times> nat) serde_result" where
  "map_fst f r = and_then r (\<lambda>(x, pos). Ok (f x, pos))"

function (sequential) deserialize :: "nat \<Rightarrow> shape \<Rightarrow> token list \<Rightarrow> sdata reading"
  and vec_loop :: "nat \<Rightarrow> shape \<Rightarrow> token list \<Rightarrow> sdata list \<Rightarrow> sequence_access \<Rightarrow> nat \<Rightarrow> (sdata \<times> nat) serde_result"
  and map_loop :: "nat \<Rightarrow> shape \<Rightarrow> token list \<Rightarrow> data_path \<Rightarrow> (bytes \<times> sdata) list \<Rightarrow> map_access \<Rightarrow> nat
    \<Rightarrow> (sdata \<times> nat) serde_result" where
  "deserialize 0 sh toks path pos = Err Fuel_out"
| "deserialize (Suc fuel) sh toks path pos =
    (case sh of
       ShUnit \<Rightarrow> map_fst (\<lambda>_. DUnit) (deserialize_unit toks path pos)
     | ShBool \<Rightarrow> map_fst DBool (deserialize_bool toks path pos)
     | ShI64 \<Rightarrow> map_fst DI64 (deserialize_i64 toks path pos)
     | ShU64 \<Rightarrow> map_fst DU64 (deserialize_u64 toks path pos)
     | ShF64 \<Rightarrow> map_fst DF64 (deserialize_f64 toks path pos)
     | ShString \<Rightarrow> map_fst DString (deserialize_string toks path pos)
     | ShOption t \<Rightarrow> map_fst DOption (deserialize_option toks (deserialize fuel t toks) path pos)
     | ShVec t \<Rightarrow> and_then (begin_sequence toks path pos) (\<lambda>(q, pos1). vec_loop fuel t toks [] q pos1)
     | ShMap t \<Rightarrow> and_then (begin_map toks path pos) (\<lambda>(m, pos1). map_loop fuel t toks path [] m pos1)
     | ShResult t u \<Rightarrow> and_then (begin_enum toks path pos) (\<lambda>(a, pos1).
         if ea_variant a = lit ''Ok'' then
           and_then (enum_value toks (deserialize fuel t toks) a pos1) (\<lambda>(v, _, pos2). Ok (DOk v, pos2))
         else if ea_variant a = lit ''Err'' then
           and_then (enum_value toks (deserialize fuel u toks) a pos1) (\<lambda>(v, _, pos2). Ok (DErr v, pos2))
         else Err (Fails (unknown_variant path (ea_variant a))))
     | ShTagged t \<Rightarrow> and_then (begin_enum toks path pos) (\<lambda>(a, pos1).
         if ea_variant a = lit ''None'' then
           and_then (enum_unit toks a pos1) (\<lambda>(_, pos2). Ok (DTagged None, pos2))
         else if ea_variant a = lit ''Some'' then
           and_then (enum_value toks (deserialize fuel t toks) a pos1) (\<lambda>(v, _, pos2). Ok (DTagged (Some v), pos2))
         else Err (Fails (unknown_variant path (ea_variant a)))))"
| "vec_loop 0 t toks vs q pos = Err Fuel_out"
| "vec_loop (Suc fuel) t toks vs q pos =
     and_then (sequence_next toks (deserialize fuel t toks) q pos) (\<lambda>(elem, q1, pos1).
       case elem of
         Some v \<Rightarrow> vec_loop fuel t toks (vs @ [v]) q1 pos1
       | None \<Rightarrow> and_then (sequence_access_end toks q1 pos1) (\<lambda>(_, pos2). Ok (DVec vs, pos2)))"
| "map_loop 0 t toks path es m pos = Err Fuel_out"
| "map_loop (Suc fuel) t toks path es m pos = and_then (next_key toks m pos) (\<lambda>(key, m1, pos1).
     case key of
       Some k \<Rightarrow> and_then (next_value (deserialize fuel t toks) m1 pos1) (\<lambda>(v, m2, pos2).
         if map_of es k \<noteq> None then Err (Fails (invalid_value path (lit ''map contains a duplicate key'')))
         else map_loop fuel t toks path (ins k v es) m2 pos2)
     | None \<Rightarrow> and_then (map_access_end toks m1 pos1) (\<lambda>(_, pos2). Ok (DMap es, pos2)))"
  by pat_completeness auto
termination
  by (relation "measure (\<lambda>x. case x of Inl (fuel, _) \<Rightarrow> fuel | Inr (Inl (fuel, _)) \<Rightarrow> fuel | Inr (Inr (fuel, _)) \<Rightarrow> fuel)")
     simp_all

definition token_fuel :: "token list \<Rightarrow> nat" where
  "token_fuel toks = 2 * length toks + 1"

definition from_tokens :: "shape \<Rightarrow> token list \<Rightarrow> sdata serde_result" where
  "from_tokens sh toks = and_then (deserialize (token_fuel toks) sh toks [] 0) (\<lambda>(v, pos).
     if pos \<noteq> length toks then Err (Fails (invariant [] (lit ''trailing serde tokens''))) else Ok v)"

end
