(* ===== verification/Serde_Facts.thy ===== *)
theory Serde_Facts
  imports Serde_Token
begin

text \<open>
  Facts about the token format: what the serializers write, that the deserializers read it back, which
  token sequences \<open>ignore_value\<close> accepts, and which paths errors carry.
\<close>

section \<open>The tokens of a value\<close>

fun tokens_of :: "sdata \<Rightarrow> token list" where
  "tokens_of DUnit = [token_marker TkUnit]"
| "tokens_of (DBool v) = [token_boolean v]"
| "tokens_of (DI64 v) = [token_signed_integer v]"
| "tokens_of (DU64 v) = [token_unsigned_integer v]"
| "tokens_of (DF64 v) = [token_floating v]"
| "tokens_of (DString v) = [token_string v]"
| "tokens_of (DOption None) = [token_null]"
| "tokens_of (DOption (Some v)) = token_marker TkSomeStart # tokens_of v @ [token_marker TkSomeEnd]"
| "tokens_of (DVec vs) =
     token_container TkSequenceStart (length vs) # concat (map tokens_of vs) @ [token_marker TkSequenceEnd]"
| "tokens_of (DMap es) =
     token_container TkMapStart (length es) # concat (map (\<lambda>(k, v). token_string k # tokens_of v) es) @
     [token_marker TkMapEnd]"
| "tokens_of (DOk v) = token_marker TkEnumStart # token_string (lit ''Ok'') # tokens_of v @ [token_marker TkEnumEnd]"
| "tokens_of (DErr v) = token_marker TkEnumStart # token_string (lit ''Err'') # tokens_of v @ [token_marker TkEnumEnd]"
| "tokens_of (DTagged None) =
     [token_marker TkEnumStart, token_string (lit ''None''), token_marker TkUnit, token_marker TkEnumEnd]"
| "tokens_of (DTagged (Some v)) =
     token_marker TkEnumStart # token_string (lit ''Some'') # tokens_of v @ [token_marker TkEnumEnd]"

fun has_shape :: "shape \<Rightarrow> sdata \<Rightarrow> bool" where
  "has_shape ShUnit v = (v = DUnit)"
| "has_shape ShBool v = (\<exists>b. v = DBool b)"
| "has_shape ShI64 v = (\<exists>i. v = DI64 i)"
| "has_shape ShU64 v = (\<exists>i. v = DU64 i)"
| "has_shape ShF64 v = (\<exists>f. v = DF64 f)"
| "has_shape ShString v = (\<exists>b. v = DString b)"
| "has_shape (ShOption t) v = (case v of DOption None \<Rightarrow> True | DOption (Some u) \<Rightarrow> has_shape t u | _ \<Rightarrow> False)"
| "has_shape (ShVec t) v = (case v of DVec vs \<Rightarrow> list_all (has_shape t) vs | _ \<Rightarrow> False)"
| "has_shape (ShMap t) v = (case v of DMap es \<Rightarrow> sorted1 es \<and> list_all (\<lambda>e. has_shape t (snd e)) es | _ \<Rightarrow> False)"
| "has_shape (ShResult t u) v = (case v of DOk w \<Rightarrow> has_shape t w | DErr w \<Rightarrow> has_shape u w | _ \<Rightarrow> False)"
| "has_shape (ShTagged t) v = (case v of DTagged None \<Rightarrow> True | DTagged (Some u) \<Rightarrow> has_shape t u | _ \<Rightarrow> False)"

definition emitted :: "token list \<Rightarrow> sink \<Rightarrow> sink" where
  "emitted ts s = s\<lparr>sk_tokens := sk_tokens s @ ts\<rparr>"

lemma push_emitted [simp]: "push_token t s = emitted [t] s" "emitted ts (emitted us s) = emitted (us @ ts) s"
  by (simp_all add: push_token_def emitted_def)

lemma emitted_open [simp]: "sk_open (emitted ts s) = sk_open s" "sk_tokens (emitted ts s) = sk_tokens s @ ts"
  "(emitted ts s)\<lparr>sk_open := n\<rparr> = emitted ts (s\<lparr>sk_open := n\<rparr>)"
  by (simp_all add: emitted_def)

lemmas serializer_defs = serialize_none_def serialize_unit_def serialize_bool_def serialize_i64_def
  serialize_u64_def serialize_f64_def serialize_string_def serialize_some_def serialize_unit_variant_def
  serialize_newtype_variant_def

definition entry_tokens :: "bytes \<times> sdata \<Rightarrow> token list" where
  "entry_tokens e = token_string (fst e) # tokens_of (snd e)"

lemma entry_tokens_eq: "(\<lambda>(k, v). token_string k # tokens_of v) = entry_tokens"
  by (auto simp: entry_tokens_def)

lemma elements_emit:
  assumes "\<And>v path s. v \<in> set vs \<Longrightarrow> serialize path v s = Ok (emitted (tokens_of v) s)" "\<not> sq_ended q"
  shows "\<exists>q'. serialize_elements vs q s = Ok (q', emitted (concat (map tokens_of vs)) s) \<and> \<not> sq_ended q'"
  using assms
proof (induction vs arbitrary: q s)
  case Nil
  then show ?case by (simp add: emitted_def)
next
  case (Cons v vs)
  then obtain q' where "serialize_elements vs (q\<lparr>sq_index := sq_index q + 1\<rparr>) (emitted (tokens_of v) s) =
      Ok (q', emitted (concat (map tokens_of vs)) (emitted (tokens_of v) s))" "\<not> sq_ended q'"
    using Cons.IH [of "q\<lparr>sq_index := sq_index q + 1\<rparr>" "emitted (tokens_of v) s"] by auto
  then show ?case using Cons.prems by (simp add: sequence_element_def)
qed

lemma entries_emit:
  assumes "\<And>e path s. e \<in> set es \<Longrightarrow> serialize path (snd e) s = Ok (emitted (tokens_of (snd e)) s)"
    "\<not> tm_ended m" "\<not> tm_pending m"
  shows "\<exists>m'. serialize_entries es m s = Ok (m', emitted (concat (map entry_tokens es)) s) \<and>
    \<not> tm_ended m' \<and> \<not> tm_pending m'"
  using assms
proof (induction es arbitrary: m s)
  case Nil
  then show ?case by (simp add: emitted_def)
next
  case (Cons e es)
  obtain k v where e: "e = (k, v)" by (cases e)
  have v: "serialize path v s = Ok (emitted (tokens_of v) s)" for path s using Cons.prems(1) [of e] e by simp
  let ?m = "m\<lparr>tm_value_path := with_map_key (tm_path m) k, tm_pending := False\<rparr>"
  obtain m' where "serialize_entries es ?m (emitted (entry_tokens e) s) =
      Ok (m', emitted (concat (map entry_tokens es)) (emitted (entry_tokens e) s))" "\<not> tm_ended m'" "\<not> tm_pending m'"
    using Cons.IH [of ?m "emitted (entry_tokens e) s"] Cons.prems by auto
  then show ?case using Cons.prems(2,3) v e by (simp add: map_key_def map_value_def serializer_defs entry_tokens_def [of "(k, v)"])
qed

lemma serialize_emits: "serialize path v s = Ok (emitted (tokens_of v) s)"
proof (induction v arbitrary: path s rule: tokens_of.induct)
  case (9 vs)
  let ?q = "\<lparr>sq_path = path, sq_index = 0, sq_ended = False\<rparr>"
  let ?s = "emitted [token_container TkSequenceStart (length vs)] (s\<lparr>sk_open := sk_open s + 1\<rparr>)"
  obtain q' where "serialize_elements vs ?q ?s = Ok (q', emitted (concat (map tokens_of vs)) ?s)" "\<not> sq_ended q'"
    using elements_emit [of vs ?q ?s] 9 by auto
  then show ?case by (simp add: ser_begin_sequence_def sequence_end_def Let_def)
next
  case (10 es)
  let ?m = "\<lparr>tm_path = path, tm_value_path = path, tm_pending = False, tm_ended = False\<rparr>"
  let ?s = "emitted [token_container TkMapStart (length es)] (s\<lparr>sk_open := sk_open s + 1\<rparr>)"
  obtain m' where "serialize_entries es ?m ?s = Ok (m', emitted (concat (map entry_tokens es)) ?s)"
    "\<not> tm_ended m'" "\<not> tm_pending m'"
    using entries_emit [of es ?m ?s] 10 by force
  then show ?case by (simp add: ser_begin_map_def map_end_def Let_def entry_tokens_eq)
qed (simp_all add: serializer_defs)

lemma to_tokens_eq: "to_tokens v = Ok (tokens_of v)"
  by (simp add: to_tokens_def serialize_emits is_complete_def new_sink_def emitted_def)

lemma tokens_of_pos: "0 < length (tokens_of v)"
  by (cases v rule: tokens_of.cases) auto

section \<open>Reading back\<close>

lemma drop_step: "drop pos toks = t # ys \<Longrightarrow> pos < length toks \<and> toks ! pos = t \<and> drop (Suc pos) toks = ys"
  by (metis Cons_nth_drop_Suc drop_eq_Nil linorder_not_less list.distinct(1) list.inject)

lemma take_there: "drop pos toks = t # ys \<Longrightarrow> t_kind t = k \<Longrightarrow> d_take toks path k vk pos = Ok (t, Suc pos)"
  using drop_step [of pos toks t ys] by (auto simp: d_take_def d_peek_def)

lemma token_kinds [simp]:
  "t_kind token_null = TkNull" "t_kind (token_boolean b) = TkBool" "t_kind (token_signed_integer i) = TkI64"
  "t_kind (token_unsigned_integer u) = TkU64" "t_kind (token_floating f) = TkF64" "t_kind (token_string s) = TkString"
  "t_kind (token_bytes s) = TkBytes" "t_kind (token_marker k) = k" "t_kind (token_container k n) = k"
  "t_bool (token_boolean b) = b" "t_i64 (token_signed_integer i) = i" "t_u64 (token_unsigned_integer u) = u"
  "t_f64 (token_floating f) = f" "t_string (token_string s) = s" "t_bytes (token_bytes s) = s"
  by (simp_all add: token_null_def token_boolean_def token_signed_integer_def token_unsigned_integer_def
      token_floating_def token_string_def token_bytes_def token_marker_def token_container_def token_of_def)

definition reads :: "nat \<Rightarrow> shape \<Rightarrow> token list \<Rightarrow> sdata \<Rightarrow> bool" where
  "reads fuel t toks v \<longleftrightarrow> (\<forall>path pos ys. drop pos toks = tokens_of v @ ys \<longrightarrow>
     deserialize fuel t toks path pos = Ok (v, pos + length (tokens_of v)))"

lemma first_token: "t_kind (hd (tokens_of v)) \<notin> {TkSequenceEnd, TkMapEnd, TkSomeEnd, TkEnumEnd}"
  by (cases v rule: tokens_of.cases) auto

lemma drop_app: "drop pos toks = xs @ ys \<Longrightarrow> drop (pos + length xs) toks = ys"
  by (metis add.commute append_eq_conv_conj drop_drop)

lemma at_value:
  assumes "drop pos toks = tokens_of v @ ys"
  shows "pos < length toks" "t_kind (toks ! pos) \<notin> {TkSequenceEnd, TkMapEnd, TkSomeEnd, TkEnumEnd}"
    "drop (pos + length (tokens_of v)) toks = ys"
proof -
  obtain t ts where v: "tokens_of v = t # ts" using tokens_of_pos [of v] by (cases "tokens_of v") auto
  then have d: "pos < length toks \<and> toks ! pos = t" using drop_step [of pos toks t "ts @ ys"] assms by simp
  then show "pos < length toks" by simp
  show "t_kind (toks ! pos) \<notin> {TkSequenceEnd, TkMapEnd, TkSomeEnd, TkEnumEnd}" using d v first_token [of v] by simp
  show "drop (pos + length (tokens_of v)) toks = ys" using drop_app [OF assms] .
qed

lemma vec_loop_reads:
  assumes "drop pos toks = concat (map tokens_of us) @ token_marker TkSequenceEnd # ys"
    and "\<not> qa_ended q" and "length (concat (map tokens_of us)) < fuel"
    and "\<And>v n. v \<in> set us \<Longrightarrow> length (tokens_of v) \<le> n \<Longrightarrow> n < fuel \<Longrightarrow> reads n t toks v"
  shows "vec_loop fuel t toks vs q pos = Ok (DVec (vs @ us), Suc (pos + length (concat (map tokens_of us))))"
  using assms
proof (induction us arbitrary: pos vs q fuel)
  case Nil
  then obtain n where "fuel = Suc n" by (cases fuel) auto
  then show ?case using Nil drop_step [of pos toks] by (simp add: sequence_next_def sequence_access_end_def)
next
  case (Cons u us)
  then obtain n where n: "fuel = Suc n" by (cases fuel) auto
  have d: "drop pos toks = tokens_of u @ concat (map tokens_of us) @ token_marker TkSequenceEnd # ys"
    using Cons.prems(1) by simp
  note a = at_value [OF d]
  have "reads n t toks u" using Cons.prems(3,4) n by simp
  then have r: "deserialize n t toks path pos = Ok (u, pos + length (tokens_of u))" for path
    using d by (simp add: reads_def)
  have "vec_loop n t toks (vs @ [u]) (q\<lparr>qa_index := qa_index q + 1\<rparr>) (pos + length (tokens_of u)) =
      Ok (DVec ((vs @ [u]) @ us), Suc (pos + length (tokens_of u) + length (concat (map tokens_of us))))"
    by (rule Cons.IH [OF a(3)]) (use Cons.prems n tokens_of_pos [of u] in \<open>auto simp del: length_greater_0_conv\<close>)
  then show ?case using r a Cons.prems(2) n by (simp add: sequence_next_def add.assoc)
qed

lemma map_loop_reads:
  assumes "drop pos toks = concat (map entry_tokens us) @ token_marker TkMapEnd # ys"
    and "\<not> ma_ended m" "\<not> ma_pending m" and "length (concat (map entry_tokens us)) < fuel"
    and "\<And>e n. e \<in> set us \<Longrightarrow> length (tokens_of (snd e)) \<le> n \<Longrightarrow> n < fuel \<Longrightarrow> reads n t toks (snd e)"
    and "sorted1 (es @ us)"
  shows "map_loop fuel t toks path es m pos = Ok (DMap (es @ us), Suc (pos + length (concat (map entry_tokens us))))"
  using assms
proof (induction us arbitrary: pos es m fuel)
  case Nil
  then obtain n where "fuel = Suc n" by (cases fuel) auto
  then show ?case using Nil drop_step [of pos toks] by (simp add: next_key_def map_access_end_def)
next
  case (Cons u us)
  then obtain n where n: "fuel = Suc n" by (cases fuel) auto
  obtain k v where u: "u = (k, v)" by (cases u)
  have d: "drop pos toks = token_string k # tokens_of v @ concat (map entry_tokens us) @ token_marker TkMapEnd # ys"
    using Cons.prems(1) u by (simp add: entry_tokens_def [of "(k, v)"])
  note d1 = drop_step [OF d]
  have key: "deserialize_string toks (ma_path m) pos = Ok (k, Suc pos)"
    using take_there [OF d] by (simp add: deserialize_string_def)
  have d2: "drop (Suc pos) toks = tokens_of v @ concat (map entry_tokens us) @ token_marker TkMapEnd # ys" using d1 by simp
  have "reads n t toks v" using Cons.prems(4) Cons.prems(5) [of u n] n u by (simp add: entry_tokens_def [of "(k, v)"])
  then have r: "deserialize n t toks path (Suc pos) = Ok (v, Suc pos + length (tokens_of v))" for path
    using d2 unfolding reads_def by blast
  have es: "\<And>e. e \<in> set es \<Longrightarrow> fst e < k" using Cons.prems(6) u by (auto simp: sorted1_simps)
  then have new: "map_of es k = None" by (force simp: map_of_eq_None_iff)
  have ins: "ins k v es = es @ [u]"
    using ins_between [of es k "[]" v "[]"] es u by simp
  let ?m = "m\<lparr>ma_value_path := with_map_key (ma_path m) k, ma_pending := False\<rparr>"
  have l: "length (concat (map entry_tokens us)) < n" "\<And>e j. e \<in> set us \<Longrightarrow> length (tokens_of (snd e)) \<le> j \<Longrightarrow> j < n \<Longrightarrow> reads j t toks (snd e)"
    using Cons.prems(4,5) n u by (auto simp: entry_tokens_def [of "(k, v)"])
  have "map_loop n t toks path (es @ [u]) ?m (Suc pos + length (tokens_of v)) =
      Ok (DMap ((es @ [u]) @ us), Suc (Suc pos + length (tokens_of v) + length (concat (map entry_tokens us))))"
    by (rule Cons.IH [OF drop_app [OF d2] _ _ l]) (use Cons.prems(2,3,6) in auto)
  then show ?case using key r d1 new ins Cons.prems(2,3) n u
    by (simp add: next_key_def next_value_def entry_tokens_def [of "(k, v)"])
qed

lemma some_reads:
  assumes "reads n s toks v"
  shows "reads (Suc n) (ShOption s) toks (DOption (Some v))"
  unfolding reads_def
proof (intro allI impI)
  fix path pos ys
  assume "drop pos toks = tokens_of (DOption (Some v)) @ ys"
  then have d: "drop pos toks = token_marker TkSomeStart # tokens_of v @ token_marker TkSomeEnd # ys" by simp
  note d1 = drop_step [OF d]
  have r: "deserialize n s toks path (Suc pos) = Ok (v, Suc pos + length (tokens_of v))"
    using assms d1 unfolding reads_def by blast
  have "d_take toks path TkSomeEnd VkEnum (Suc pos + length (tokens_of v)) = Ok (token_marker TkSomeEnd, Suc (Suc pos + length (tokens_of v)))"
    by (rule take_there [OF drop_app]) (use d1 in auto)
  then show "deserialize (Suc n) (ShOption s) toks path pos = Ok (DOption (Some v), pos + length (tokens_of (DOption (Some v))))"
    using r d1 by (simp add: map_fst_def deserialize_option_def d_peek_def)
qed

lemma enum_reads:
  assumes "reads n s toks v"
    and d: "drop pos toks = token_marker TkEnumStart # token_string name # tokens_of v @ token_marker TkEnumEnd # ys"
  shows "begin_enum toks path pos = Ok (\<lparr>ea_path = path, ea_variant = name, ea_consumed = False\<rparr>, Suc (Suc pos))"
    "enum_value toks (deserialize n s toks) \<lparr>ea_path = path, ea_variant = name, ea_consumed = False\<rparr> (Suc (Suc pos)) =
       Ok (v, \<lparr>ea_path = path, ea_variant = name, ea_consumed = True\<rparr>, Suc (Suc (Suc pos + length (tokens_of v))))"
proof -
  note d1 = drop_step [OF d]
  have d2: "drop (Suc pos) toks = token_string name # tokens_of v @ token_marker TkEnumEnd # ys" using d1 by simp
  note d3 = drop_step [OF d2]
  show "begin_enum toks path pos = Ok (\<lparr>ea_path = path, ea_variant = name, ea_consumed = False\<rparr>, Suc (Suc pos))"
    using take_there [OF d] take_there [OF d2] by (simp add: begin_enum_def)
  have r: "deserialize n s toks path (Suc (Suc pos)) = Ok (v, Suc (Suc pos) + length (tokens_of v))" for path
    using assms(1) d3 unfolding reads_def by blast
  have "d_take toks path TkEnumEnd VkEnum (Suc (Suc pos) + length (tokens_of v)) =
      Ok (token_marker TkEnumEnd, Suc (Suc (Suc pos) + length (tokens_of v)))" for path
    by (rule take_there [OF drop_app]) (use d3 in auto)
  then show "enum_value toks (deserialize n s toks) \<lparr>ea_path = path, ea_variant = name, ea_consumed = False\<rparr> (Suc (Suc pos)) =
       Ok (v, \<lparr>ea_path = path, ea_variant = name, ea_consumed = True\<rparr>, Suc (Suc (Suc pos + length (tokens_of v))))"
    using r by (simp add: enum_value_def enum_finish_def)
qed

lemma lit_distinct:
  "lit ''Ok'' \<noteq> (lit ''Err'' :: bytes)" "lit ''None'' \<noteq> (lit ''Some'' :: bytes)" "lit ''Err'' \<noteq> (lit ''Ok'' :: bytes)" "lit ''Some'' \<noteq> (lit ''None'' :: bytes)"
  by (simp_all add: lit_def)

lemma variants_read:
  assumes "reads n s toks v"
  shows "reads (Suc n) (ShResult s u) toks (DOk v)" "reads (Suc n) (ShResult u s) toks (DErr v)"
    "reads (Suc n) (ShTagged s) toks (DTagged (Some v))"
  using enum_reads [OF assms] by (auto simp: reads_def lit_distinct)

lemma none_reads: "reads (Suc n) (ShTagged s) toks (DTagged None)"
  unfolding reads_def
proof (intro allI impI)
  fix path pos ys
  assume "drop pos toks = tokens_of (DTagged None) @ ys"
  then have d: "drop pos toks = token_marker TkEnumStart # token_string (lit ''None'') # token_marker TkUnit # token_marker TkEnumEnd # ys" by simp
  have d2: "drop (Suc pos) toks = token_string (lit ''None'') # token_marker TkUnit # token_marker TkEnumEnd # ys" using drop_step [OF d] by simp
  have d3: "drop (Suc (Suc pos)) toks = token_marker TkUnit # token_marker TkEnumEnd # ys" using drop_step [OF d2] by simp
  have d4: "drop (Suc (Suc (Suc pos))) toks = token_marker TkEnumEnd # ys" using drop_step [OF d3] by simp
  show "deserialize (Suc n) (ShTagged s) toks path pos = Ok (DTagged None, pos + length (tokens_of (DTagged None)))"
    using take_there [OF d] take_there [OF d2] take_there [OF d3] take_there [OF d4]
    by (simp add: begin_enum_def enum_unit_def enum_finish_def deserialize_unit_def)
qed

lemma leaf_reads:
  "reads (Suc n) ShUnit toks DUnit" "reads (Suc n) ShBool toks (DBool b)" "reads (Suc n) ShI64 toks (DI64 i)"
  "reads (Suc n) ShU64 toks (DU64 u)" "reads (Suc n) ShF64 toks (DF64 f)" "reads (Suc n) ShString toks (DString x)"
  "reads (Suc n) (ShOption s) toks (DOption None)"
  by (auto simp: reads_def map_fst_def deserialize_unit_def deserialize_bool_def deserialize_i64_def deserialize_u64_def
      deserialize_f64_def deserialize_string_def take_there deserialize_option_def d_peek_def dest!: drop_step)

lemma vec_reads:
  assumes "\<And>v m. v \<in> set vs \<Longrightarrow> length (tokens_of v) \<le> m \<Longrightarrow> reads m s toks v" "length (concat (map tokens_of vs)) < n"
  shows "reads (Suc n) (ShVec s) toks (DVec vs)"
  unfolding reads_def
proof (intro allI impI)
  fix path pos ys
  assume "drop pos toks = tokens_of (DVec vs) @ ys"
  then have d: "drop pos toks = token_container TkSequenceStart (length vs) # concat (map tokens_of vs) @ token_marker TkSequenceEnd # ys" by simp
  have "vec_loop n s toks [] q (Suc pos) = Ok (DVec ([] @ vs), Suc (Suc pos + length (concat (map tokens_of vs))))"
    if "\<not> qa_ended q" for q
    by (rule vec_loop_reads [OF _ that]) (use drop_step [OF d] assms in auto)
  then show "deserialize (Suc n) (ShVec s) toks path pos = Ok (DVec vs, pos + length (tokens_of (DVec vs)))"
    using take_there [OF d] by (simp add: begin_sequence_def)
qed

lemma map_reads:
  assumes "\<And>e m. e \<in> set es \<Longrightarrow> length (tokens_of (snd e)) \<le> m \<Longrightarrow> reads m s toks (snd e)"
    "length (concat (map entry_tokens es)) < n" "sorted1 es"
  shows "reads (Suc n) (ShMap s) toks (DMap es)"
  unfolding reads_def
proof (intro allI impI)
  fix path pos ys
  assume "drop pos toks = tokens_of (DMap es) @ ys"
  then have d: "drop pos toks = token_container TkMapStart (length es) # concat (map entry_tokens es) @ token_marker TkMapEnd # ys"
    by (simp add: entry_tokens_eq)
  have "map_loop n s toks path [] m (Suc pos) = Ok (DMap ([] @ es), Suc (Suc pos + length (concat (map entry_tokens es))))"
    if "\<not> ma_ended m" "\<not> ma_pending m" for m
    by (rule map_loop_reads [OF _ that]) (use drop_step [OF d] assms in auto)
  then show "deserialize (Suc n) (ShMap s) toks path pos = Ok (DMap es, pos + length (tokens_of (DMap es)))"
    using take_there [OF d] by (simp add: begin_map_def entry_tokens_eq)
qed

lemma reads_all: "has_shape t v \<Longrightarrow> length (tokens_of v) \<le> fuel \<Longrightarrow> reads fuel t toks v"
proof (induction v arbitrary: t fuel rule: tokens_of.induct)
  case (9 vs)
  obtain s where s: "t = ShVec s" "list_all (has_shape s) vs" using 9(2) by (cases t) auto
  obtain n where n: "fuel = Suc n" using 9(3) by (cases fuel) auto
  show ?case unfolding s(1) n by (rule vec_reads) (use 9 s n in \<open>auto simp: list_all_iff\<close>)
next
  case (10 es)
  obtain s where s: "t = ShMap s" "sorted1 es" "list_all (\<lambda>e. has_shape s (snd e)) es" using 10(2) by (cases t) auto
  obtain n where n: "fuel = Suc n" using 10(3) by (cases fuel) auto
  have "reads j s toks (snd e)" if "e \<in> set es" "length (tokens_of (snd e)) \<le> j" for e j
    using 10(1) [of e "fst e" "snd e"] that s(3) by (simp add: list_all_iff)
  then show ?case unfolding s(1) n by (rule map_reads) (use 10(3) s(2) n in \<open>auto simp: entry_tokens_eq\<close>)
next
  case (8 v)
  then show ?case by (cases t; cases fuel) (auto intro: some_reads)
next
  case (11 v)
  then show ?case by (cases t; cases fuel) (auto intro: variants_read)
next
  case (12 v)
  then show ?case by (cases t; cases fuel) (auto intro: variants_read)
next
  case (14 v)
  then show ?case by (cases t; cases fuel) (auto intro: variants_read)
next
  case 13
  then show ?case by (cases t; cases fuel) (auto intro: none_reads)
next
  case 7
  then show ?case by (cases t; cases fuel) (auto intro: leaf_reads)
next
  case 1
  then show ?case by (cases t; cases fuel) (auto intro: leaf_reads)
next
  case 2
  then show ?case by (cases t; cases fuel) (auto intro: leaf_reads)
next
  case 3
  then show ?case by (cases t; cases fuel) (auto intro: leaf_reads)
next
  case 4
  then show ?case by (cases t; cases fuel) (auto intro: leaf_reads)
next
  case 5
  then show ?case by (cases t; cases fuel) (auto intro: leaf_reads)
next
  case 6
  then show ?case by (cases t; cases fuel) (auto intro: leaf_reads)
qed

lemma from_tokens_of: "has_shape t v \<Longrightarrow> from_tokens t (tokens_of v) = Ok v"
  using reads_all [of t v "token_fuel (tokens_of v)" "tokens_of v"]
  by (auto simp: from_tokens_def reads_def token_fuel_def)

section \<open>What \<open>ignore_value\<close> skips\<close>

definition leaf_kinds :: "token_kind set" where
  "leaf_kinds = {TkNull, TkUnit, TkBool, TkI64, TkU64, TkF64, TkString, TkBytes}"

inductive token_group :: "token list \<Rightarrow> bool" where
  leaf: "t_kind t \<in> leaf_kinds \<Longrightarrow> token_group [t]"
| some: "t_kind a = TkSomeStart \<Longrightarrow> token_group xs \<Longrightarrow> t_kind b = TkSomeEnd \<Longrightarrow> token_group (a # xs @ [b])"
| seq: "t_kind a = TkSequenceStart \<Longrightarrow> \<forall>xs \<in> set xss. token_group xs \<Longrightarrow> t_kind b = TkSequenceEnd \<Longrightarrow>
    token_group (a # concat xss @ [b])"
| map: "t_kind a = TkMapStart \<Longrightarrow> \<forall>xs \<in> set xss. token_group xs \<Longrightarrow> even (length xss) \<Longrightarrow> t_kind b = TkMapEnd \<Longrightarrow>
    token_group (a # concat xss @ [b])"
| enum: "t_kind a = TkEnumStart \<Longrightarrow> t_kind n = TkString \<Longrightarrow> token_group xs \<Longrightarrow> t_kind b = TkEnumEnd \<Longrightarrow>
    token_group (a # n # xs @ [b])"

definition end_kinds :: "token_kind set" where
  "end_kinds = {TkSequenceEnd, TkMapEnd, TkSomeEnd, TkEnumEnd}"

lemma group_first: "token_group xs \<Longrightarrow> \<exists>t ts. xs = t # ts \<and> t_kind t \<notin> end_kinds"
  by (induction rule: token_group.induct) (auto simp: leaf_kinds_def end_kinds_def)

definition ignores :: "nat \<Rightarrow> token list \<Rightarrow> token list \<Rightarrow> bool" where
  "ignores fuel toks xs \<longleftrightarrow> (\<forall>path pos ys. drop pos toks = xs @ ys \<longrightarrow> ignore_value fuel toks path pos = Ok (pos + length xs))"

lemma ignores_at: "ignores fuel toks xs \<Longrightarrow> drop pos toks = xs @ ys \<Longrightarrow> ignore_value fuel toks path pos = Ok (pos + length xs)"
  by (simp add: ignores_def)

lemma at_group:
  assumes "token_group xs" "drop pos toks = xs @ ys"
  shows "pos < length toks" "t_kind (toks ! pos) \<notin> end_kinds" "1 \<le> length xs"
proof -
  obtain t ts where t: "xs = t # ts" "t_kind t \<notin> end_kinds" using group_first [OF assms(1)] by blast
  then show "pos < length toks" "t_kind (toks ! pos) \<notin> end_kinds" "1 \<le> length xs"
    using drop_step [of pos toks t "ts @ ys"] assms(2) by auto
qed

lemma elements_ignored:
  assumes "drop pos toks = concat xss @ b # ys" "t_kind b = TkSequenceEnd" "length (concat xss) < fuel"
    and "\<And>xs. xs \<in> set xss \<Longrightarrow> token_group xs \<and> (\<forall>n. length xs \<le> n \<longrightarrow> ignores n toks xs)"
  shows "ignore_elements fuel toks path pos = Ok (pos + length (concat xss))"
  using assms
proof (induction xss arbitrary: pos fuel)
  case Nil
  then obtain n where "fuel = Suc n" by (cases fuel) auto
  then show ?case using Nil drop_step [of pos toks] by simp
next
  case (Cons xs xss)
  then obtain n where n: "fuel = Suc n" by (cases fuel) auto
  have d: "drop pos toks = xs @ concat xss @ b # ys" using Cons.prems(1) by simp
  have g: "token_group xs" "ignores n toks xs" using Cons.prems(3,4) n by auto
  note a = at_group [OF g(1) d]
  have "ignore_elements n toks path (pos + length xs) = Ok (pos + length xs + length (concat xss))"
    by (rule Cons.IH [OF drop_app [OF d] Cons.prems(2)]) (use Cons.prems(3,4) n a(3) in auto)
  then show ?case using ignores_at [OF g(2) d] a n by (simp add: end_kinds_def)
qed

lemma entries_ignored:
  assumes "drop pos toks = concat xss @ b # ys" "t_kind b = TkMapEnd" "length (concat xss) < fuel" "even (length xss)"
    and "\<And>xs. xs \<in> set xss \<Longrightarrow> token_group xs \<and> (\<forall>n. length xs \<le> n \<longrightarrow> ignores n toks xs)"
  shows "ignore_entries fuel toks path pos = Ok (pos + length (concat xss))"
  using assms
proof (induction xss arbitrary: pos fuel rule: induct_list012)
  case 1
  then obtain n where "fuel = Suc n" by (cases fuel) auto
  then show ?case using 1 drop_step [of pos toks] by simp
next
  case (3 xs us xss)
  then obtain n where n: "fuel = Suc n" by (cases fuel) auto
  have d: "drop pos toks = xs @ us @ concat xss @ b # ys" using "3.prems"(1) by simp
  have d2: "drop (pos + length xs) toks = us @ concat xss @ b # ys" by (rule drop_app [OF d])
  have g: "token_group xs" "ignores n toks xs" "token_group us" "ignores n toks us" using "3.prems"(3,5) n by auto
  note a = at_group [OF g(1) d]
  have "ignore_entries n toks path (pos + length xs + length us) = Ok (pos + length xs + length us + length (concat xss))"
    by (rule "3.IH"(1) [OF drop_app [OF d2] "3.prems"(2)]) (use "3.prems"(3-5) n a(3) in auto)
  then show ?case using ignores_at [OF g(2) d] ignores_at [OF g(4) d2] a n by (simp add: end_kinds_def)
qed simp

lemma group_ignored: "token_group xs \<Longrightarrow> length xs \<le> fuel \<Longrightarrow> ignores fuel toks xs"
proof (induction arbitrary: fuel rule: token_group.induct)
  case (leaf t)
  then show ?case by (cases fuel) (auto simp: ignores_def leaf_kinds_def d_peek_def dest!: drop_step)
next
  case (some a xs b)
  then obtain n where n: "fuel = Suc n" by (cases fuel) auto
  have ih: "ignores n toks xs" using some n by simp
  show ?case unfolding ignores_def
  proof (intro allI impI)
    fix path pos ys
    assume "drop pos toks = (a # xs @ [b]) @ ys"
    then have d: "drop pos toks = a # xs @ b # ys" by simp
    have d2: "drop (Suc pos) toks = xs @ b # ys" using drop_step [OF d] by simp
    show "ignore_value fuel toks path pos = Ok (pos + length (a # xs @ [b]))"
      using drop_step [OF d] ignores_at [OF ih d2] take_there [OF drop_app [OF d2]] some n by (simp add: d_peek_def)
  qed
next
  case (seq a xss b)
  then obtain n where n: "fuel = Suc n" by (cases fuel) auto
  have ih: "\<And>xs. xs \<in> set xss \<Longrightarrow> token_group xs \<and> (\<forall>n. length xs \<le> n \<longrightarrow> ignores n toks xs)" using seq by blast
  have l: "length (concat xss) < n" using seq n by simp
  show ?case unfolding ignores_def
  proof (intro allI impI)
    fix path pos ys
    assume "drop pos toks = (a # concat xss @ [b]) @ ys"
    then have d: "drop pos toks = a # concat xss @ b # ys" by simp
    have d2: "drop (Suc pos) toks = concat xss @ b # ys" using drop_step [OF d] by simp
    show "ignore_value fuel toks path pos = Ok (pos + length (a # concat xss @ [b]))"
      using drop_step [OF d] elements_ignored [OF d2 seq.hyps(2) l ih, of path] take_there [OF drop_app [OF d2]] seq n by (simp add: d_peek_def)
  qed
next
  case (map a xss b)
  then obtain n where n: "fuel = Suc n" by (cases fuel) auto
  have ih: "\<And>xs. xs \<in> set xss \<Longrightarrow> token_group xs \<and> (\<forall>n. length xs \<le> n \<longrightarrow> ignores n toks xs)" using map by blast
  have l: "length (concat xss) < n" using map n by simp
  show ?case unfolding ignores_def
  proof (intro allI impI)
    fix path pos ys
    assume "drop pos toks = (a # concat xss @ [b]) @ ys"
    then have d: "drop pos toks = a # concat xss @ b # ys" by simp
    have d2: "drop (Suc pos) toks = concat xss @ b # ys" using drop_step [OF d] by simp
    show "ignore_value fuel toks path pos = Ok (pos + length (a # concat xss @ [b]))"
      using drop_step [OF d] entries_ignored [OF d2 map.hyps(3) l map.hyps(2) ih, of path] take_there [OF drop_app [OF d2]] map n by (simp add: d_peek_def)
  qed
next
  case (enum a n xs b)
  then obtain m where m: "fuel = Suc m" by (cases fuel) auto
  have ih: "ignores m toks xs" using enum m by simp
  show ?case unfolding ignores_def
  proof (intro allI impI)
    fix path pos ys
    assume "drop pos toks = (a # n # xs @ [b]) @ ys"
    then have d: "drop pos toks = a # n # xs @ b # ys" by simp
    have d1: "drop (Suc pos) toks = n # xs @ b # ys" using drop_step [OF d] by simp
    have d2: "drop (Suc (Suc pos)) toks = xs @ b # ys" using drop_step [OF d1] by simp
    show "ignore_value fuel toks path pos = Ok (pos + length (a # n # xs @ [b]))"
      using drop_step [OF d] take_there [OF d1] ignores_at [OF ih d2] take_there [OF drop_app [OF d2]] enum m by (simp add: d_peek_def)
  qed
qed

text \<open>The converse: what is skipped is a group, and every skip of a token sequence returns.\<close>

definition skipped_group :: "token list \<Rightarrow> nat \<Rightarrow> nat \<Rightarrow> bool" where
  "skipped_group toks pos pos' \<longleftrightarrow> (\<exists>xs ys. drop pos toks = xs @ ys \<and> token_group xs \<and> pos' = pos + length xs)"

definition skipped_groups :: "token list \<Rightarrow> nat \<Rightarrow> nat \<Rightarrow> nat \<Rightarrow> bool" where
  "skipped_groups toks n pos pos' \<longleftrightarrow> (\<exists>xss ys. drop pos toks = concat xss @ ys \<and> length xss = n \<and>
     (\<forall>xs \<in> set xss. token_group xs) \<and> pos' = pos + length (concat xss))"

lemma skipped_groups_0: "skipped_groups toks 0 pos pos"
  by (auto simp: skipped_groups_def)

lemma skipped_groups_Suc:
  assumes "skipped_group toks pos pos1" "skipped_groups toks n pos1 pos'"
  shows "skipped_groups toks (Suc n) pos pos'"
proof -
  obtain xs ys where x: "drop pos toks = xs @ ys" "token_group xs" "pos1 = pos + length xs"
    using assms(1) by (auto simp: skipped_group_def)
  obtain xss zs where z: "drop pos1 toks = concat xss @ zs" "length xss = n" "\<forall>xs \<in> set xss. token_group xs"
    "pos' = pos1 + length (concat xss)" using assms(2) by (auto simp: skipped_groups_def)
  have "drop pos toks = concat (xs # xss) @ zs" using x(1,3) z(1) drop_app [OF x(1)] by simp
  then show ?thesis unfolding skipped_groups_def using x z by (intro exI [of _ "xs # xss"] exI [of _ zs]) auto
qed

lemma take_Ok: "d_take toks path k vk pos = Ok (t, pos') \<longleftrightarrow> pos < length toks \<and> t = toks ! pos \<and> t_kind t = k \<and> pos' = Suc pos"
  by (auto simp: d_take_def d_peek_def)

lemma compound_group:
  assumes "pos < length toks" "t_kind (toks ! pos) = ka" "skipped_groups toks n (Suc pos) pos1" "pos1 < length toks"
    "\<And>xss b. \<forall>xs \<in> set xss. token_group xs \<Longrightarrow> length xss = n \<Longrightarrow> t_kind b = t_kind (toks ! pos1) \<Longrightarrow>
      token_group (toks ! pos # concat xss @ [b])"
  shows "skipped_group toks pos (Suc pos1)"
proof -
  obtain xss zs where z: "drop (Suc pos) toks = concat xss @ zs" "length xss = n" "\<forall>xs \<in> set xss. token_group xs"
    "pos1 = Suc pos + length (concat xss)" using assms(3) by (auto simp: skipped_groups_def)
  have "drop pos1 toks = zs" using drop_app [OF z(1)] z(4) by simp
  then have "zs = toks ! pos1 # drop (Suc pos1) toks" using assms(4) by (simp add: Cons_nth_drop_Suc)
  then have "drop pos toks = (toks ! pos # concat xss @ [toks ! pos1]) @ drop (Suc pos1) toks"
    using z(1) assms(1) by (simp add: Cons_nth_drop_Suc [symmetric])
  moreover have "token_group (toks ! pos # concat xss @ [toks ! pos1])" by (rule assms(5) [OF z(3,2) refl])
  ultimately show ?thesis unfolding skipped_group_def using z(4) by (intro exI conjI) auto
qed

lemma some_group:
  assumes "pos < length toks" "t_kind (toks ! pos) = TkSomeStart" "skipped_group toks (Suc pos) pos1"
    "pos1 < length toks" "t_kind (toks ! pos1) = TkSomeEnd"
  shows "skipped_group toks pos (Suc pos1)"
proof (rule compound_group [OF assms(1,2) skipped_groups_Suc [OF assms(3) skipped_groups_0] assms(4)])
  fix xss :: "token list list" and b :: token
  assume "\<forall>xs \<in> set xss. token_group xs" "length xss = Suc 0" "t_kind b = t_kind (toks ! pos1)"
  then show "token_group (toks ! pos # concat xss @ [b])"
    using assms(2,5) token_group.some [of "toks ! pos" "hd xss" b] by (cases xss) auto
qed

lemma enum_group:
  assumes "pos < length toks" "t_kind (toks ! pos) = TkEnumStart" "Suc pos < length toks" "t_kind (toks ! Suc pos) = TkString"
    "skipped_group toks (Suc (Suc pos)) pos1" "pos1 < length toks" "t_kind (toks ! pos1) = TkEnumEnd"
  shows "skipped_group toks pos (Suc pos1)"
proof -
  obtain xs ys where x: "drop (Suc (Suc pos)) toks = xs @ ys" "token_group xs" "pos1 = Suc (Suc pos) + length xs"
    using assms(5) by (auto simp: skipped_group_def)
  have "ys = toks ! pos1 # drop (Suc pos1) toks" using drop_app [OF x(1)] x(3) assms(6) by (simp add: Cons_nth_drop_Suc)
  then have "drop pos toks = (toks ! pos # toks ! Suc pos # xs @ [toks ! pos1]) @ drop (Suc pos1) toks"
    using x(1) assms(1,3) by (simp add: Cons_nth_drop_Suc [symmetric])
  moreover have "token_group (toks ! pos # toks ! Suc pos # xs @ [toks ! pos1])" by (rule token_group.enum [OF assms(2,4) x(2) assms(7)])
  ultimately show ?thesis unfolding skipped_group_def using x(3) by (intro exI conjI) auto
qed

lemma leaf_group: "pos < length toks \<Longrightarrow> t_kind (toks ! pos) \<in> leaf_kinds \<Longrightarrow> skipped_group toks pos (Suc pos)"
  unfolding skipped_group_def
  by (intro exI [of _ "[toks ! pos]"] exI [of _ "drop (Suc pos) toks"]) (auto simp: Cons_nth_drop_Suc intro: token_group.leaf)

lemma ignored_group:
  "(\<forall>path pos pos'. ignore_value fuel toks path pos = Ok pos' \<longrightarrow> skipped_group toks pos pos') \<and>
   (\<forall>path pos pos'. ignore_elements fuel toks path pos = Ok pos' \<longrightarrow> (\<exists>n. skipped_groups toks n pos pos')) \<and>
   (\<forall>path pos pos'. ignore_entries fuel toks path pos = Ok pos' \<longrightarrow> (\<exists>n. even n \<and> skipped_groups toks n pos pos'))"
proof (induction fuel)
  case (Suc fuel)
  note val = Suc.IH [THEN conjunct1, rule_format]
    and els = Suc.IH [THEN conjunct2, THEN conjunct1, rule_format]
    and ens = Suc.IH [THEN conjunct2, THEN conjunct2, rule_format]
  have v: "skipped_group toks pos pos'" if r: "ignore_value (Suc fuel) toks path pos = Ok pos'" for path pos pos'
  proof -
    have p: "pos < length toks" using r by (auto simp: d_peek_def split: if_splits)
    consider (leaf) "t_kind (toks ! pos) \<in> leaf_kinds" | (some) "t_kind (toks ! pos) = TkSomeStart" |
      (seq) "t_kind (toks ! pos) = TkSequenceStart" | (map) "t_kind (toks ! pos) = TkMapStart" | (enum) "t_kind (toks ! pos) = TkEnumStart"
      using r p by (auto simp: d_peek_def leaf_kinds_def split: if_splits)
    then show ?thesis
    proof cases
      case leaf
      then show ?thesis using r p leaf_group [OF p leaf] by (auto simp: d_peek_def leaf_kinds_def)
    next
      case some
      then show ?thesis using r p by (auto simp: d_peek_def and_then_eq_Ok take_Ok intro: some_group dest!: val)
    next
      case seq
      then obtain pos1 where "ignore_elements fuel toks path (Suc pos) = Ok pos1" "pos1 < length toks"
        "t_kind (toks ! pos1) = TkSequenceEnd" "pos' = Suc pos1"
        using r p by (auto simp: d_peek_def and_then_eq_Ok take_Ok)
      then show ?thesis using els compound_group [OF p seq] token_group.seq [of "toks ! pos"] seq by metis
    next
      case map
      then obtain pos1 where "ignore_entries fuel toks path (Suc pos) = Ok pos1" "pos1 < length toks"
        "t_kind (toks ! pos1) = TkMapEnd" "pos' = Suc pos1"
        using r p by (auto simp: d_peek_def and_then_eq_Ok take_Ok)
      then show ?thesis using ens compound_group [OF p map] token_group.map [of "toks ! pos"] map by metis
    next
      case enum
      then show ?thesis using r p by (auto simp: d_peek_def and_then_eq_Ok take_Ok intro: enum_group dest!: val)
    qed
  qed
  have e: "\<exists>n. skipped_groups toks n pos pos'" if r: "ignore_elements (Suc fuel) toks path pos = Ok pos'" for path pos pos'
  proof (cases "pos < length toks \<and> t_kind (toks ! pos) \<noteq> TkSequenceEnd")
    case True
    then obtain pos1 where "ignore_value fuel toks path pos = Ok pos1" "ignore_elements fuel toks path pos1 = Ok pos'"
      using r by (auto simp: and_then_eq_Ok)
    then show ?thesis using val els skipped_groups_Suc by blast
  next
    case False
    then have "pos' = pos" using r by auto
    then show ?thesis using skipped_groups_0 by blast
  qed
  have "\<exists>n. even n \<and> skipped_groups toks n pos pos'" if r: "ignore_entries (Suc fuel) toks path pos = Ok pos'" for path pos pos'
  proof (cases "pos < length toks \<and> t_kind (toks ! pos) \<noteq> TkMapEnd")
    case True
    then obtain pos1 pos2 where s: "ignore_value fuel toks path pos = Ok pos1" "ignore_value fuel toks path pos1 = Ok pos2"
      "ignore_entries fuel toks path pos2 = Ok pos'" using r by (auto simp: and_then_eq_Ok)
    obtain n where n: "even n" "skipped_groups toks n pos2 pos'" using ens [OF s(3)] by auto
    have "skipped_groups toks (Suc (Suc n)) pos pos'"
      by (rule skipped_groups_Suc [OF val [OF s(1)] skipped_groups_Suc [OF val [OF s(2)] n(2)]])
    then show ?thesis using n(1) by (intro exI [of _ "Suc (Suc n)"]) auto
  next
    case False
    then have "pos' = pos" using r by auto
    then show ?thesis using skipped_groups_0 by (intro exI [of _ 0]) auto
  qed
  then show ?case using v e by blast
qed simp

lemma skipped_group_less: "skipped_group toks pos pos' \<Longrightarrow> pos < pos' \<and> pos' \<le> length toks"
proof -
  assume "skipped_group toks pos pos'"
  then obtain xs ys where x: "drop pos toks = xs @ ys" "token_group xs" "pos' = pos + length xs"
    by (auto simp: skipped_group_def)
  have "length toks - pos = length xs + length ys" using arg_cong [OF x(1), of length] by simp
  then show ?thesis using at_group(1,3) [OF x(2,1)] x(3) by linarith
qed

lemma ignored_less:
  "ignore_value fuel toks path pos = Ok pos' \<Longrightarrow> pos < pos' \<and> pos' \<le> length toks"
  using ignored_group [of fuel toks] skipped_group_less by blast

lemma good_take: "good (d_take toks path k vk pos)"
  by (auto simp: d_take_def good_def split: option.splits)

lemma good_Fails [simp]: "good (Err (Fails e))"
  by (simp add: good_def)

lemma ignore_returns:
  "(\<forall>path pos. 2 * (length toks - pos) + 1 \<le> fuel \<longrightarrow> good (ignore_value fuel toks path pos)) \<and>
   (\<forall>path pos. 2 * (length toks - pos) + 2 \<le> fuel \<longrightarrow> good (ignore_elements fuel toks path pos)) \<and>
   (\<forall>path pos. 2 * (length toks - pos) + 2 \<le> fuel \<longrightarrow> good (ignore_entries fuel toks path pos))"
proof (induction fuel)
  case (Suc fuel)
  note val = Suc.IH [THEN conjunct1, rule_format]
    and els = Suc.IH [THEN conjunct2, THEN conjunct1, rule_format]
    and ens = Suc.IH [THEN conjunct2, THEN conjunct2, rule_format]
  have "good (ignore_value (Suc fuel) toks path pos)" if f: "2 * (length toks - pos) + 1 \<le> Suc fuel" for path pos
  proof (cases "pos < length toks")
    case True
    have a: "2 * (length toks - Suc pos) + 2 \<le> fuel" and b: "2 * (length toks - Suc (Suc pos)) + 1 \<le> fuel"
      using f True by linarith+
    have c: "2 * (length toks - Suc pos) + 1 \<le> fuel" using a by linarith
    have t: "pos1 = Suc (Suc pos)" if "d_take toks path TkString VkString (Suc pos) = Ok (x, pos1)" for x pos1
      using that by (simp add: take_Ok)
    show ?thesis using True val [OF c, of path] els [OF a, of path] ens [OF a, of path] val [OF b, of path]
      by (auto simp: d_peek_def intro!: good_and_then good_take dest: t)
  qed (simp add: d_peek_def)
  moreover have "good (ignore_elements (Suc fuel) toks path pos)" if f: "2 * (length toks - pos) + 2 \<le> Suc fuel" for path pos
  proof (cases "pos < length toks \<and> t_kind (toks ! pos) \<noteq> TkSequenceEnd")
    case True
    have "2 * (length toks - pos1) + 2 \<le> fuel" if "ignore_value fuel toks path pos = Ok pos1" for pos1
      using ignored_less [OF that] f True by linarith
    then show ?thesis using True val [of pos path] f by (auto intro!: good_and_then els)
  qed auto
  moreover have "good (ignore_entries (Suc fuel) toks path pos)" if f: "2 * (length toks - pos) + 2 \<le> Suc fuel" for path pos
  proof (cases "pos < length toks \<and> t_kind (toks ! pos) \<noteq> TkMapEnd")
    case True
    have "2 * (length toks - pos1) + 1 \<le> fuel" if "ignore_value fuel toks path pos = Ok pos1" for pos1
      using ignored_less [OF that] f True by linarith
    moreover have "2 * (length toks - pos2) + 2 \<le> fuel"
      if "ignore_value fuel toks path pos = Ok pos1" "ignore_value fuel toks path pos1 = Ok pos2" for pos1 pos2
      using ignored_less [OF that(1)] ignored_less [OF that(2)] f True by linarith
    ultimately show ?thesis using True val [of pos path] f by (auto intro!: good_and_then ens val)
  qed auto
  ultimately show ?case by blast
qed simp

lemma group_skips:
  assumes "skipped_group toks pos pos'"
  shows "ignore_value (token_fuel toks) toks path pos = Ok pos'"
proof -
  obtain xs ys where x: "drop pos toks = xs @ ys" "token_group xs" "pos' = pos + length xs"
    using assms by (auto simp: skipped_group_def)
  have "length xs \<le> token_fuel toks" using arg_cong [OF x(1), of length] by (simp add: token_fuel_def)
  then show ?thesis using ignores_at [OF group_ignored [OF x(2)] x(1)] x(3) by simp
qed

text \<open>C3. Serializing a value of a type and deserializing the tokens at that type returns the value: the
  serializer never violates its protocol (compounds are ended, map keys and values alternate), the
  deserializer consumes every token, and neither a panic nor a lack of fuel occurs.\<close>

theorem serde_token_roundtrip:
  assumes "has_shape t v"
  shows "and_then (to_tokens v) (from_tokens t) = Ok v"
  using from_tokens_of [OF assms] by (simp add: to_tokens_eq)

theorem serde_token_roundtrip_witness:
  "and_then (to_tokens (DMap [(lit ''a'', DVec [DI64 1, DI64 2]), (lit ''b'', DVec [])])) (from_tokens (ShMap (ShVec ShI64))) =
    Ok (DMap [(lit ''a'', DVec [DI64 1, DI64 2]), (lit ''b'', DVec [])])"
  by (rule serde_token_roundtrip) (simp add: sorted1_def lit_def less_list_code word_less_nat_alt)

text \<open>C36. \<open>ignore_value\<close> skips exactly one balanced value: it succeeds at a position precisely when the
  tokens from there begin with a well-formed group (a scalar, or a compound with matching end whose
  parts are groups, with as many keys as values in a map), and then stops behind that group; on every
  token sequence it returns, with a position or an error.\<close>

theorem serde_ignore_value_exact:
  "(ignore_value (token_fuel toks) toks path pos = Ok pos' \<longleftrightarrow> skipped_group toks pos pos') \<and>
   ((\<exists>p. ignore_value (token_fuel toks) toks path pos = Ok p) \<or>
    (\<exists>e. ignore_value (token_fuel toks) toks path pos = Err (Fails e)))"
proof (intro conjI iffI)
  show "skipped_group toks pos pos'" if "ignore_value (token_fuel toks) toks path pos = Ok pos'"
    using ignored_group that by blast
  show "ignore_value (token_fuel toks) toks path pos = Ok pos'" if "skipped_group toks pos pos'"
    by (rule group_skips [OF that])
  have "good (ignore_value (token_fuel toks) toks path pos)"
    by (rule ignore_returns [THEN conjunct1, rule_format]) (simp add: token_fuel_def)
  then show "(\<exists>p. ignore_value (token_fuel toks) toks path pos = Ok p) \<or>
      (\<exists>e. ignore_value (token_fuel toks) toks path pos = Err (Fails e))"
    by (cases "ignore_value (token_fuel toks) toks path pos") (auto simp: good_def intro: failure.exhaust)
qed

end
