(* ===== verification/Fmt.thy ===== *)
theory Fmt
  imports Text_Cursor
begin

unbundle bit_operations_syntax

text \<open>
  The formatting engine of src/core/src/lib.cpp with the options of src/core/src/fmt/mod.cppm and the
  decimal output of src/core/src/fmt/integer.cppm.  A formatter is a sink (its \<open>write_str\<close> and the state
  of what it writes to) with the options of the current placeholder; an operation returns whether it
  succeeded and the changed formatter.  A pointer into the format string is the rest of the string.
\<close>

section \<open>Options\<close>

datatype align = AlignNone | AlignLeft | AlignRight | AlignCenter

datatype presentation = Display | Debug | LowerExp | UpperExp | LowerHex | UpperHex | Octal

record fmt_options =
  o_flags :: u32
  o_width :: u16
  o_precision :: u16

definition no_options :: fmt_options where
  "no_options = \<lparr>o_flags = 0x20, o_width = 0, o_precision = 0\<rparr>"

definition FILL_MASK :: u32 where "FILL_MASK = 0x1FFFFF"
definition ALIGN_MASK :: u32 where "ALIGN_MASK = push_bit 21 3"
definition SIGN_PLUS :: u32 where "SIGN_PLUS = push_bit 23 1"
definition SIGN_MINUS :: u32 where "SIGN_MINUS = push_bit 24 1"
definition ALTERNATE :: u32 where "ALTERNATE = push_bit 25 1"
definition ZERO_PAD :: u32 where "ZERO_PAD = push_bit 26 1"
definition DEBUG :: u32 where "DEBUG = push_bit 27 1"
definition HAS_WIDTH :: u32 where "HAS_WIDTH = push_bit 28 1"
definition HAS_PREC :: u32 where "HAS_PREC = push_bit 29 1"
definition LOWER_EXP :: u32 where "LOWER_EXP = push_bit 30 1"
definition UPPER_EXP :: u32 where "UPPER_EXP = push_bit 31 1"
definition PRESENTATION_MASK :: u32 where "PRESENTATION_MASK = DEBUG OR LOWER_EXP OR UPPER_EXP"

definition align_code :: "align \<Rightarrow> u32" where
  "align_code a = (case a of AlignNone \<Rightarrow> 0 | AlignLeft \<Rightarrow> 1 | AlignRight \<Rightarrow> 2 | AlignCenter \<Rightarrow> 3)"

definition o_fill :: "fmt_options \<Rightarrow> u8" where
  "o_fill opts = ucast (o_flags opts AND FILL_MASK)"

definition o_align :: "fmt_options \<Rightarrow> align" where
  "o_align opts =
    (let v = drop_bit 21 (o_flags opts) AND 3 in
     if v = 1 then AlignLeft else if v = 2 then AlignRight else if v = 3 then AlignCenter else AlignNone)"

definition has_flag :: "u32 \<Rightarrow> fmt_options \<Rightarrow> bool" where
  "has_flag m opts \<longleftrightarrow> o_flags opts AND m \<noteq> 0"

definition set_flag :: "u32 \<Rightarrow> fmt_options \<Rightarrow> fmt_options" where
  "set_flag m opts = opts\<lparr>o_flags := o_flags opts OR m\<rparr>"

definition set_fill :: "u8 \<Rightarrow> fmt_options \<Rightarrow> fmt_options" where
  "set_fill b opts = opts\<lparr>o_flags := (o_flags opts AND NOT FILL_MASK) OR ucast b\<rparr>"

definition set_align :: "align \<Rightarrow> fmt_options \<Rightarrow> fmt_options" where
  "set_align a opts = opts\<lparr>o_flags := (o_flags opts AND NOT ALIGN_MASK) OR push_bit 21 (align_code a)\<rparr>"

definition set_width :: "u16 \<Rightarrow> fmt_options \<Rightarrow> fmt_options" where
  "set_width w opts = set_flag HAS_WIDTH (opts\<lparr>o_width := w\<rparr>)"

definition set_precision :: "u16 \<Rightarrow> fmt_options \<Rightarrow> fmt_options" where
  "set_precision p opts = set_flag HAS_PREC (opts\<lparr>o_precision := p\<rparr>)"

definition presentation_code :: "presentation \<Rightarrow> u32" where
  "presentation_code v =
    (case v of Display \<Rightarrow> 0 | Debug \<Rightarrow> DEBUG | LowerExp \<Rightarrow> LOWER_EXP | UpperExp \<Rightarrow> UPPER_EXP
     | LowerHex \<Rightarrow> DEBUG OR LOWER_EXP | UpperHex \<Rightarrow> DEBUG OR UPPER_EXP | Octal \<Rightarrow> LOWER_EXP OR UPPER_EXP)"

definition set_presentation :: "presentation \<Rightarrow> fmt_options \<Rightarrow> fmt_options" where
  "set_presentation v opts =
    opts\<lparr>o_flags := (o_flags opts AND NOT PRESENTATION_MASK) OR presentation_code v\<rparr>"

definition o_presentation :: "fmt_options \<Rightarrow> presentation" where
  "o_presentation opts =
    (let v = o_flags opts AND PRESENTATION_MASK in
     if v = DEBUG then Debug else if v = LOWER_EXP then LowerExp else if v = UPPER_EXP then UpperExp
     else if v = DEBUG OR LOWER_EXP then LowerHex else if v = DEBUG OR UPPER_EXP then UpperHex
     else if v = LOWER_EXP OR UPPER_EXP then Octal else Display)"

section \<open>The parser of format specifications\<close>

definition align_of :: "u8 \<Rightarrow> align" where
  "align_of b = (if b = 0x3C then AlignLeft else if b = 0x3E then AlignRight else if b = 0x5E then AlignCenter else AlignNone)"

text \<open>The number loops: \<open>uint16_t\<close> arithmetic, which wraps around.\<close>

fun number_loop :: "u16 \<Rightarrow> u8 list \<Rightarrow> u16 \<times> u8 list" where
  "number_loop w [] = (w, [])"
| "number_loop w (b # bs) = (if b - D0 < 10 then number_loop (w * 10 + ucast (b - D0)) bs else (w, b # bs))"

definition spec_align :: "fmt_options \<times> u8 list \<Rightarrow> fmt_options \<times> u8 list" where
  "spec_align s = (case s of (opts, bs) \<Rightarrow>
     if 1 < length bs \<and> align_of (bs ! 1) \<noteq> AlignNone then
       (set_align (align_of (bs ! 1)) (set_fill (bs ! 0) opts), drop 2 bs)
     else if bs \<noteq> [] \<and> align_of (hd bs) \<noteq> AlignNone then (set_align (align_of (hd bs)) opts, tl bs)
     else (opts, bs))"

definition spec_flag :: "u8 \<Rightarrow> u32 \<Rightarrow> fmt_options \<times> u8 list \<Rightarrow> fmt_options \<times> u8 list" where
  "spec_flag b m s = (case s of (opts, bs) \<Rightarrow>
     if bs \<noteq> [] \<and> hd bs = b then (set_flag m opts, tl bs) else (opts, bs))"

definition spec_sign :: "fmt_options \<times> u8 list \<Rightarrow> fmt_options \<times> u8 list" where
  "spec_sign s = (case s of (opts, bs) \<Rightarrow>
     if bs \<noteq> [] \<and> hd bs = PLUS then (set_flag SIGN_PLUS opts, tl bs)
     else if bs \<noteq> [] \<and> hd bs = MINUS then (set_flag SIGN_MINUS opts, tl bs)
     else (opts, bs))"

definition spec_width :: "fmt_options \<times> u8 list \<Rightarrow> fmt_options \<times> u8 list" where
  "spec_width s = (case s of (opts, bs) \<Rightarrow>
     if bs \<noteq> [] \<and> 0x31 \<le> hd bs \<and> hd bs \<le> D9 then
       let (w, bs1) = number_loop 0 bs in (set_width w opts, bs1)
     else (opts, bs))"

definition spec_precision :: "fmt_options \<times> u8 list \<Rightarrow> fmt_options \<times> u8 list" where
  "spec_precision s = (case s of (opts, bs) \<Rightarrow>
     if bs \<noteq> [] \<and> hd bs = DOT then
       let (p, bs1) = number_loop 0 (tl bs) in (set_precision p opts, bs1)
     else (opts, bs))"

definition spec_type :: "fmt_options \<times> u8 list \<Rightarrow> fmt_options" where
  "spec_type s = (case s of (opts, bs) \<Rightarrow>
     if bs = [] then opts
     else case map_of [(0x3F, Debug), (0x65, LowerExp), (0x45, UpperExp), (0x78, LowerHex), (0x58, UpperHex), (0x6F, Octal)] (hd bs) of
       None \<Rightarrow> opts | Some v \<Rightarrow> set_presentation v opts)"

definition parse_spec :: "u8 list \<Rightarrow> fmt_options" where
  "parse_spec bs =
    (if bs = [] then no_options
     else spec_type (spec_precision (spec_width (spec_flag D0 ZERO_PAD (spec_flag HASH ALTERNATE
       (spec_sign (spec_align (no_options, bs))))))))"

section \<open>The formatter\<close>

record 's formatter =
  f_write :: "u8 list \<Rightarrow> 's \<Rightarrow> bool \<times> 's"
  f_sink :: 's
  f_options :: fmt_options

definition write_str :: "u8 list \<Rightarrow> 's formatter \<Rightarrow> bool \<times> 's formatter" where
  "write_str bs f = (case f_write f bs (f_sink f) of (ok, s) \<Rightarrow> (ok, f\<lparr>f_sink := s\<rparr>))"

definition write_raw :: "u8 list \<Rightarrow> 's formatter \<Rightarrow> bool \<times> 's formatter" where
  "write_raw bs f = (if \<not> is_valid_utf8 bs then (False, f) else write_str bs f)"

text \<open>\<open>if (! first) return false;\<close> and then the rest.\<close>

definition when_ok :: "bool \<times> 'f \<Rightarrow> ('f \<Rightarrow> bool \<times> 'f) \<Rightarrow> bool \<times> 'f" where
  "when_ok r g = (case r of (ok, f) \<Rightarrow> if ok then g f else (False, f))"

definition write_nonempty :: "u8 list \<Rightarrow> 's formatter \<Rightarrow> bool \<times> 's formatter" where
  "write_nonempty bs f = (if bs \<noteq> [] then write_raw bs f else (True, f))"

function write_repeat :: "u8 \<Rightarrow> nat \<Rightarrow> 's formatter \<Rightarrow> bool \<times> 's formatter" where
  "write_repeat b count f =
    (if count = 0 then (True, f)
     else
       let chunk = (if count < 64 then count else 64) in
       when_ok (write_raw (replicate chunk b) f) (write_repeat b (count - chunk)))"
  by pat_completeness auto
termination by (relation "measure (\<lambda>(b, count, f). count)") auto

declare write_repeat.simps [simp del]

definition write_number :: "u8 list \<Rightarrow> u8 list \<Rightarrow> nat \<Rightarrow> u8 list \<Rightarrow> 's formatter \<Rightarrow> bool \<times> 's formatter" where
  "write_number sign significand zero_count exponent f =
    when_ok (write_nonempty sign f) (\<lambda>f1. when_ok (write_nonempty significand f1) (\<lambda>f2.
      when_ok (write_repeat D0 zero_count f2) (write_nonempty exponent)))"

definition f_width :: "'s formatter \<Rightarrow> nat" where
  "f_width f = (if has_flag HAS_WIDTH (f_options f) then unat (o_width (f_options f)) else 0)"

text \<open>The fill on the left for a padding of \<open>n\<close>, with the alignment used when none is given.\<close>

definition left_fill :: "align \<Rightarrow> align \<Rightarrow> nat \<Rightarrow> nat" where
  "left_fill def a n =
    (case (if a = AlignNone then def else a) of AlignRight \<Rightarrow> n | AlignCenter \<Rightarrow> n div 2 | _ \<Rightarrow> 0)"

definition pad_numeric :: "u8 list \<Rightarrow> u8 list \<Rightarrow> nat \<Rightarrow> u8 list \<Rightarrow> 's formatter \<Rightarrow> bool \<times> 's formatter" where
  "pad_numeric sign significand zero_count exponent f =
    (let len = length sign + length significand + zero_count + length exponent in
     if len \<ge> f_width f then write_number sign significand zero_count exponent f
     else
       let padding = f_width f - len in
       if has_flag ZERO_PAD (f_options f) then
         when_ok (write_nonempty sign f) (\<lambda>f1. when_ok (write_repeat D0 padding f1)
           (write_number [] significand zero_count exponent))
       else
         let left = left_fill AlignRight (o_align (f_options f)) padding;
             fill = o_fill (f_options f) in
         when_ok (write_repeat fill left f) (\<lambda>f1.
           when_ok (write_number sign significand zero_count exponent f1) (write_repeat fill (padding - left))))"

text \<open>The characters of a string up to \<open>maximum\<close>: their number and the rest behind them.\<close>

function chars_loop :: "nat \<Rightarrow> nat \<Rightarrow> u8 list \<Rightarrow> nat \<times> u8 list" where
  "chars_loop maximum chars bs =
    (if chars < maximum \<and> bs \<noteq> [] then chars_loop maximum (chars + 1) (drop (max 1 (snd (decode_utf8 bs))) bs)
     else (chars, bs))"
  by pat_completeness auto
termination by (relation "measure (\<lambda>(maximum, chars, bs). length bs)") auto

declare chars_loop.simps [simp del]

definition pad :: "u8 list \<Rightarrow> 's formatter \<Rightarrow> bool \<times> 's formatter" where
  "pad bs f =
    (let opts = f_options f in
     if \<not> has_flag HAS_WIDTH opts \<and> \<not> has_flag HAS_PREC opts then write_raw bs f
     else
       let maximum = (if has_flag HAS_PREC opts then unat (o_precision opts) else length bs);
           (chars, rest) = chars_loop maximum 0 bs;
           shown = take (length bs - length rest) bs in
       if chars \<ge> f_width f then write_raw shown f
       else
         let padding = f_width f - chars;
             left = left_fill AlignLeft (o_align opts) padding in
         when_ok (write_repeat (o_fill opts) left f) (\<lambda>f1.
           when_ok (write_raw shown f1) (write_repeat (o_fill opts) (padding - left))))"

type_synonym 's argument = "'s formatter \<Rightarrow> bool \<times> 's formatter"

text \<open>A placeholder: the argument identifier and the colon are skipped, the argument runs with the
  options of the specification, and the former options come back.\<close>

definition placeholder :: "u8 list \<Rightarrow> 's argument \<Rightarrow> 's formatter \<Rightarrow> bool \<times> 's formatter" where
  "placeholder inner arg f =
    (let spec = dropWhile (\<lambda>b. b - D0 < 10) inner;
         spec1 = (if spec \<noteq> [] \<and> hd spec = COLON then tl spec else spec);
         (ok, f1) = arg (f\<lparr>f_options := parse_spec spec1\<rparr>) in
     (ok, f1\<lparr>f_options := f_options f\<rparr>))"

text \<open>The loop of \<open>write_fmt\<close>: \<open>pending\<close> is the literal text between \<open>last\<close> and \<open>p\<close>.\<close>

function fmt_loop :: "'s argument list \<Rightarrow> u8 list \<Rightarrow> u8 list \<Rightarrow> 's formatter \<Rightarrow> bool \<times> 's formatter" where
  "fmt_loop args pending bs f =
    (case bs of
       [] \<Rightarrow> write_nonempty pending f
     | b # rest \<Rightarrow>
         if b = LBRACE then
           if rest \<noteq> [] \<and> hd rest = LBRACE then
             when_ok (write_nonempty pending f) (\<lambda>f1. when_ok (write_raw [LBRACE] f1) (fmt_loop args [] (tl rest)))
           else when_ok (write_nonempty pending f) (\<lambda>f1.
             let inner = takeWhile (\<lambda>c. c \<noteq> RBRACE) rest;
                 after = dropWhile (\<lambda>c. c \<noteq> RBRACE) rest in
             if after = [] then (False, f1)
             else case args of
               [] \<Rightarrow> (False, f1)
             | arg # args1 \<Rightarrow> when_ok (placeholder inner arg f1) (fmt_loop args1 [] (tl after)))
         else if b = RBRACE then
           if rest \<noteq> [] \<and> hd rest = RBRACE then
             when_ok (write_nonempty pending f) (\<lambda>f1. when_ok (write_raw [RBRACE] f1) (fmt_loop args [] (tl rest)))
           else (False, f)
         else fmt_loop args (pending @ [b]) rest f)"
  by pat_completeness auto
termination
proof (relation "measure (\<lambda>(args, pending, bs, f). length bs)", simp, goal_cases)
  case (1 args pending bs f b rest f1 x)
  then show ?case by simp
next
  case (2 args pending bs f b rest x inner after arg args1)
  then show ?case using length_dropWhile_le [of "\<lambda>c. c \<noteq> RBRACE" rest] by (cases after) auto
qed auto

declare fmt_loop.simps [simp del]

definition write_fmt :: "u8 list \<Rightarrow> 's argument list \<Rightarrow> 's formatter \<Rightarrow> bool \<times> 's formatter" where
  "write_fmt fmt args f = fmt_loop args [] fmt f"

section \<open>Decimal integers\<close>

definition pairs :: "u8 list" where
  "pairs = lit (''0001020304050607080910111213141516171819'' @ ''2021222324252627282930313233343536373839'' @
    ''4041424344454647484950515253545556575859'' @ ''6061626364656667686970717273747576777879'' @
    ''8081828384858687888990919293949596979899'')"

definition digit_pair :: "u64 \<Rightarrow> u8 list" where
  "digit_pair d = [pairs ! (unat d * 2), pairs ! (unat d * 2 + 1)]"

function decimal_loop :: "u64 \<Rightarrow> u8 list \<Rightarrow> u64 \<times> u8 list" where
  "decimal_loop v acc =
    (if v \<ge> 10000 then
       let quad = v mod 10000 in decimal_loop (v div 10000) (digit_pair (quad div 100) @ digit_pair (quad mod 100) @ acc)
     else (v, acc))"
  by pat_completeness auto
termination
  by (relation "measure (\<lambda>(v, acc). unat v)") (auto simp: unat_div word_le_nat_alt)

declare decimal_loop.simps [simp del]

text \<open>The digits \<open>write_integer_decimal\<close> writes for a value of at most 64 bits.\<close>

definition decimal_digits :: "u64 \<Rightarrow> u8 list" where
  "decimal_digits value1 =
    (let (v, acc) = decimal_loop value1 [];
         (v, acc) = (if v \<ge> 100 then (v div 100, digit_pair (v mod 100) @ acc) else (v, acc)) in
     if v \<ge> 10 then digit_pair v @ acc else (D0 + ucast v) # acc)"

definition write_integer_decimal :: "u64 \<Rightarrow> bool \<Rightarrow> 's formatter \<Rightarrow> bool \<times> 's formatter" where
  "write_integer_decimal v negative f =
    pad_numeric
      (if negative then [MINUS] else if has_flag SIGN_PLUS (f_options f) then [PLUS] else [])
      (decimal_digits v) 0 [] f"

section \<open>Hexadecimal and octal integers\<close>

definition hex_table :: "presentation \<Rightarrow> u8 list" where
  "hex_table v = lit (if v = UpperHex then ''0123456789ABCDEF'' else ''0123456789abcdef'')"

function radix_loop :: "presentation \<Rightarrow> u32 \<Rightarrow> u8 list \<Rightarrow> u8 list" where
  "radix_loop pres v acc =
    (let shift = (if pres = Octal then 3 else 4 :: nat);
         acc1 = (hex_table pres ! unat (v AND (push_bit shift 1 - 1))) # acc;
         v1 = drop_bit shift v in
     if v1 \<noteq> 0 then radix_loop pres v1 acc1 else acc1)"
  by pat_completeness auto
termination
  by (relation "measure (\<lambda>(pres, v, acc). unat v)")
    (auto simp: drop_bit_eq_div unat_div word_less_nat_alt unat_gt_0 intro!: div_less_dividend)

declare radix_loop.simps [simp del]

definition write_integer_radix :: "u32 \<Rightarrow> presentation \<Rightarrow> 's formatter \<Rightarrow> bool \<times> 's formatter" where
  "write_integer_radix v pres f =
    pad_numeric
      ((if has_flag SIGN_PLUS (f_options f) then [PLUS] else []) @
       (if has_flag ALTERNATE (f_options f) then [D0, if pres = Octal then 0x6F else 0x78] else []))
      (radix_loop pres v []) 0 [] f"

text \<open>\<open>Argument::make\<close> of an unsigned integer of at most 32 bits: the placeholder selects the trait.\<close>

definition unsigned_argument :: "u32 \<Rightarrow> 's argument" where
  "unsigned_argument v f =
    (case o_presentation (f_options f) of
       Display \<Rightarrow> write_integer_decimal (ucast v) False f
     | Debug \<Rightarrow> write_integer_decimal (ucast v) False f
     | LowerExp \<Rightarrow> (False, f)
     | UpperExp \<Rightarrow> (False, f)
     | pres \<Rightarrow> write_integer_radix v pres f)"

text \<open>\<open>Argument::make\<close> of a string slice, which has only the two plain presentations.\<close>

definition string_argument :: "u8 list \<Rightarrow> 's argument" where
  "string_argument s f =
    (case o_presentation (f_options f) of
       Display \<Rightarrow> pad s f
     | Debug \<Rightarrow> when_ok (write_raw [DQUOTE] f) (\<lambda>f1. when_ok (write_raw s f1) (write_raw [DQUOTE]))
     | _ \<Rightarrow> (False, f))"

end
