(* ===== verification/Alloc_String.thy ===== *)
theory Alloc_String
  imports Fmt Duration
begin

text \<open>
  The growable string of src/alloc/src/string.cpp and the debug output of durations.  A string is its
  bytes; \<open>None\<close> is a failed assertion or a panic.  Reserving capacity has no effect on the bytes; a failed
  allocation is not modelled.
\<close>

section \<open>Strings\<close>

definition string_make :: "u8 list \<Rightarrow> u8 list" where
  "string_make bs = bs"

definition string_clone :: "u8 list \<Rightarrow> u8 list" where
  "string_clone s = string_make s"

definition string_from_utf8_unchecked :: "u8 list \<Rightarrow> u8 list" where
  "string_from_utf8_unchecked bs = bs"

definition string_from_utf8 :: "u8 list \<Rightarrow> (u8 list \<times> utf8_error, u8 list) result" where
  "string_from_utf8 bs = (case validate_utf8 bs of Err er \<Rightarrow> Err (bs, er) | Ok _ \<Rightarrow> Ok bs)"

definition push_str :: "u8 list \<Rightarrow> u8 list \<Rightarrow> u8 list" where
  "push_str s bs = (if bs = [] then s else s @ bs)"

definition push_ascii :: "u8 list \<Rightarrow> u8 \<Rightarrow> (u8 list) option" where
  "push_ascii s b = (if \<not> b < 0x80 then None else Some (s @ [b]))"

definition char_from_char32 :: "u32 \<Rightarrow> u32 option" where
  "char_from_char32 c = (if \<not> is_scalar c then None else Some c)"

definition push_Char :: "u8 list \<Rightarrow> u32 \<Rightarrow> u8 list" where
  "push_Char s c = s @ fst (encode_utf8_scalar c)"

definition push :: "u8 list \<Rightarrow> u32 \<Rightarrow> (u8 list) option" where
  "push s c = (case char_from_char32 c of None \<Rightarrow> None | Some c1 \<Rightarrow> Some (push_Char s c1))"

text \<open>\<open>Extend\<close> pushes the characters of an iterator one by one.\<close>

definition string_extend :: "u8 list \<Rightarrow> u32 list \<Rightarrow> u8 list" where
  "string_extend s cs = foldl push_Char s cs"

definition string_clear :: "u8 list \<Rightarrow> u8 list" where
  "string_clear s = []"

fun pop_until :: "nat \<Rightarrow> nat \<Rightarrow> u8 list \<Rightarrow> u8 list" where
  "pop_until new_len 0 s = s"
| "pop_until new_len (Suc n) s = (if length s > new_len then pop_until new_len n (butlast s) else s)"

definition truncate_str :: "u8 list \<Rightarrow> nat \<Rightarrow> (u8 list) option" where
  "truncate_str s new_len =
    (if new_len \<ge> length s then Some s
     else if \<not> is_char_boundary s new_len then None
     else Some (pop_until new_len (length s) s))"

definition replace_range :: "u8 list \<Rightarrow> nat \<Rightarrow> nat \<Rightarrow> u8 list \<Rightarrow> (u8 list) option" where
  "replace_range s start stop replacement =
    (if \<not> (start \<le> stop \<and> stop \<le> length s) then None
     else if \<not> is_char_boundary s start then None
     else if \<not> is_char_boundary s stop then None
     else Some ((if start \<noteq> 0 then take start s else []) @ replacement @
       (if stop \<noteq> length s then take (length s - stop) (drop stop s) else [])))"

definition insert_str :: "u8 list \<Rightarrow> nat \<Rightarrow> u8 list \<Rightarrow> (u8 list) option" where
  "insert_str s index bs = replace_range s index index bs"

definition insert_Char :: "u8 list \<Rightarrow> nat \<Rightarrow> u32 \<Rightarrow> (u8 list) option" where
  "insert_Char s index c = insert_str s index (fst (encode_utf8_scalar c))"

definition insert_char :: "u8 list \<Rightarrow> nat \<Rightarrow> u32 \<Rightarrow> (u8 list) option" where
  "insert_char s index c = (case char_from_char32 c of None \<Rightarrow> None | Some c1 \<Rightarrow> insert_Char s index c1)"

text \<open>The \<open>Write\<close> implementation of strings, the sink of \<open>rstd::format\<close>, which always succeeds.\<close>

definition string_write :: "u8 list \<Rightarrow> u8 list \<Rightarrow> bool \<times> u8 list" where
  "string_write bs s = (True, push_str s bs)"

definition string_formatter :: "u8 list \<Rightarrow> (u8 list) formatter" where
  "string_formatter s = \<lparr>f_write = string_write, f_sink = s, f_options = no_options\<rparr>"

definition string_display :: "u8 list \<Rightarrow> 's formatter \<Rightarrow> bool \<times> 's formatter" where
  "string_display s f = pad s f"

definition cstr_display :: "u8 list \<Rightarrow> 's formatter \<Rightarrow> bool \<times> 's formatter" where
  "cstr_display s f = write_raw s f"

definition cstr_debug :: "u8 list \<Rightarrow> 's formatter \<Rightarrow> bool \<times> 's formatter" where
  "cstr_debug s f = (let f1 = snd (write_raw [DQUOTE] f); f2 = snd (cstr_display s f1) in write_raw [DQUOTE] f2)"

definition from_utf8_error_debug :: "'s argument \<Rightarrow> 's formatter \<Rightarrow> bool \<times> 's formatter" where
  "from_utf8_error_debug error_debug f =
    when_ok (write_raw (lit ''FromUtf8Error { error: '') f) (\<lambda>f1. when_ok (error_debug f1) (write_raw (lit '' }'')))"

section \<open>Durations\<close>

text \<open>\<open>rstd::format("{}", v)\<close> of an unsigned integer: the display of the integer on a fresh string.\<close>

definition format_unsigned :: "u64 \<Rightarrow> u8 list" where
  "format_unsigned v = f_sink (snd (write_fmt (lit ''{}'') [write_integer_decimal v False] (string_formatter [])))"

fun fraction_digits :: "nat \<Rightarrow> u32 \<Rightarrow> u8 list \<Rightarrow> u8 list" where
  "fraction_digits 0 remaining acc = acc"
| "fraction_digits (Suc n) remaining acc = fraction_digits n (remaining div 10) ((D0 + ucast (remaining mod 10)) # acc)"

fun trim_zeros :: "u8 list \<Rightarrow> nat \<Rightarrow> nat" where
  "trim_zeros fraction 0 = 0"
| "trim_zeros fraction (Suc n) = (if Suc n > 1 \<and> fraction ! n = D0 then trim_zeros fraction n else Suc n)"

text \<open>An amount of a unit, with a fraction of \<open>places\<close> digits when it is not whole.  Results of writes
  before the last are dropped.\<close>

definition write_amount :: "u64 \<Rightarrow> nat \<Rightarrow> u32 \<Rightarrow> u8 list \<Rightarrow> 's formatter \<Rightarrow> bool \<times> 's formatter" where
  "write_amount whole places remaining unit f =
    (let f1 = snd (write_raw (format_unsigned whole) f);
         f2 = (if remaining \<noteq> 0 then
                 let fraction = fraction_digits places remaining [];
                     len = trim_zeros fraction places in
                 snd (write_raw (take len fraction) (snd (write_raw [DOT] f1)))
               else f1) in
     write_raw unit f2)"

definition duration_debug :: "duration \<Rightarrow> 's formatter \<Rightarrow> bool \<times> 's formatter" where
  "duration_debug d f =
    (let secs = d_secs d; nanos = d_nanos d in
     if secs > 0 then write_amount secs 9 nanos (lit ''s'') f
     else if nanos \<ge> NANOS_PER_MILLI then
       write_amount (ucast (nanos div NANOS_PER_MILLI)) 6 (nanos mod NANOS_PER_MILLI) (lit ''ms'') f
     else if nanos \<ge> NANOS_PER_MICRO then
       write_amount (ucast (nanos div NANOS_PER_MICRO)) 3 (nanos mod NANOS_PER_MICRO) (lit ''us'') f
     else write_amount (ucast nanos) 0 0 (lit ''ns'') f)"

end
