(* ===== verification/Fmt_Facts.thy ===== *)
theory Fmt_Facts
  imports Alloc_String
begin

text \<open>
  The decimal digits the formatter writes are the digits of the number.
\<close>

section \<open>Decimal digits\<close>

lemma lit_app: "lit (s @ t) = lit s @ lit t"
  by (simp add: lit_def)

fun show_nat :: "nat \<Rightarrow> u8 list" where
  "show_nat n = (if n < 10 then [] else show_nat (n div 10)) @ [D0 + of_nat (n mod 10)]"

declare show_nat.simps [simp del]

lemma show_nat_digit: "n < 10 \<Longrightarrow> show_nat n = [D0 + of_nat n]"
  by (subst show_nat.simps) simp

lemma show_nat_step: "0 < q \<Longrightarrow> r < 10 \<Longrightarrow> show_nat (q * 10 + r) = show_nat q @ [D0 + of_nat r]"
  by (subst show_nat.simps) simp

lemma show_nat_pair:
  assumes "0 < q" "r < 100"
  shows "show_nat (q * 100 + r) = show_nat q @ [D0 + of_nat (r div 10), D0 + of_nat (r mod 10)]"
proof -
  have "show_nat (q * 100 + r) = show_nat ((q * 10 + r div 10) * 10 + r mod 10)" by (rule arg_cong) simp
  also have "\<dots> = show_nat (q * 10 + r div 10) @ [D0 + of_nat (r mod 10)]"
    by (rule show_nat_step) (use assms in simp_all)
  also have "show_nat (q * 10 + r div 10) = show_nat q @ [D0 + of_nat (r div 10)]"
    by (rule show_nat_step) (use assms in \<open>simp_all add: less_mult_imp_div_less\<close>)
  finally show ?thesis by simp
qed

lemma show_nat_quad:
  assumes "0 < q" "r < 10000"
  shows "show_nat (q * 10000 + r) = show_nat q @
    [D0 + of_nat (r div 100 div 10), D0 + of_nat (r div 100 mod 10), D0 + of_nat (r mod 100 div 10), D0 + of_nat (r mod 100 mod 10)]"
proof -
  have "show_nat (q * 10000 + r) = show_nat ((q * 100 + r div 100) * 100 + r mod 100)" by (rule arg_cong) simp
  also have "\<dots> = show_nat (q * 100 + r div 100) @ [D0 + of_nat (r mod 100 div 10), D0 + of_nat (r mod 100 mod 10)]"
    by (rule show_nat_pair) (use assms in simp_all)
  also have "show_nat (q * 100 + r div 100) = show_nat q @ [D0 + of_nat (r div 100 div 10), D0 + of_nat (r div 100 mod 10)]"
    by (rule show_nat_pair) (use assms in \<open>simp_all add: less_mult_imp_div_less\<close>)
  finally show ?thesis by simp
qed

definition pair_rows :: "nat \<Rightarrow> nat \<Rightarrow> u8 list" where
  "pair_rows a n = concat (map (\<lambda>d. [D0 + of_nat (d div 10), D0 + of_nat (d mod 10)]) [a..<a + n])"

lemma pair_rows_add: "pair_rows a (m + n) = pair_rows a m @ pair_rows (a + m) n"
  using upt_add_eq_append [of a "a + m" n] by (simp add: pair_rows_def add.assoc)

lemma pairs_rows: "pairs = pair_rows 0 100"
proof -
  have z: "[0..<20] = 0 # 1 # [2..<20]" by (simp add: upt_conv_Cons numeral_2_eq_2)
  have l0: "lit ''0001020304050607080910111213141516171819'' = pair_rows 0 20"
    by (simp add: pair_rows_def lit_def z upt_rec_numeral)
  have l: "lit ''2021222324252627282930313233343536373839'' = pair_rows 20 20"
    "lit ''4041424344454647484950515253545556575859'' = pair_rows 40 20"
    "lit ''6061626364656667686970717273747576777879'' = pair_rows 60 20"
    "lit ''8081828384858687888990919293949596979899'' = pair_rows 80 20"
    by (simp_all add: pair_rows_def lit_def upt_rec_numeral)
  have "pairs = pair_rows 0 20 @ pair_rows 20 20 @ pair_rows 40 20 @ pair_rows 60 20 @ pair_rows 80 20"
    by (simp only: pairs_def lit_app l0 l)
  also have "\<dots> = pair_rows 0 (20 + (20 + (20 + (20 + 20))))" by (simp only: pair_rows_add) simp
  finally show ?thesis by simp
qed

lemma pair_rows_nth:
  "d < n \<Longrightarrow> pair_rows a n ! (d * 2) = D0 + of_nat ((a + d) div 10) \<and> pair_rows a n ! (d * 2 + 1) = D0 + of_nat ((a + d) mod 10)"
proof (induction n arbitrary: a d)
  case (Suc n)
  have r: "pair_rows a (Suc n) = [D0 + of_nat (a div 10), D0 + of_nat (a mod 10)] @ pair_rows (Suc a) n"
    unfolding pair_rows_def by (subst upt_conv_Cons) auto
  show ?case using Suc.IH [of "d - 1" "Suc a"] Suc.prems by (cases d) (simp_all add: r)
qed simp

lemma digit_pair_eq: "unat d < 100 \<Longrightarrow> digit_pair d = [D0 + of_nat (unat d div 10), D0 + of_nat (unat d mod 10)]"
  using pair_rows_nth [of "unat d" 100 0] by (simp add: digit_pair_def pairs_rows)

lemma decimal_loop_eq:
  "decimal_loop v acc = (w, acc') \<Longrightarrow> unat w < 10000 \<and> (0 < unat v \<longrightarrow> 0 < unat w) \<and>
     (0 < unat v \<longrightarrow> show_nat (unat v) @ acc = show_nat (unat w) @ acc') \<and> (unat v = 0 \<longrightarrow> w = v \<and> acc' = acc)"
proof (induction v acc arbitrary: w acc' rule: decimal_loop.induct)
  case (1 v acc)
  show ?case
  proof (cases "v \<ge> 10000")
    case True
    let ?q = "v mod 10000"
    have n: "unat ?q = unat v mod 10000" "unat (v div 10000) = unat v div 10000" "10000 \<le> unat v"
      using True by (simp_all add: unat_mod unat_div word_le_nat_alt)
    have d: "unat (?q div 100) = unat v mod 10000 div 100" "unat (?q mod 100) = unat v mod 10000 mod 100"
      by (simp_all add: unat_div unat_mod)
    have pos: "0 < unat v div 10000" using n(3) by (simp add: div_greater_zero_iff)
    have l: "unat v mod 10000 div 100 < 100" by (simp add: less_mult_imp_div_less)
    have "show_nat (unat v) = show_nat (unat v div 10000) @ digit_pair (?q div 100) @ digit_pair (?q mod 100)"
      using show_nat_quad [OF pos, of "unat v mod 10000"] digit_pair_eq [of "?q div 100"] digit_pair_eq [of "?q mod 100"] d l by simp
    moreover have "decimal_loop (v div 10000) (digit_pair (?q div 100) @ digit_pair (?q mod 100) @ acc) = (w, acc')"
      using "1.prems" True by (subst (asm) decimal_loop.simps) (simp add: Let_def)
    ultimately show ?thesis using "1.IH" [OF True refl] n pos by simp
  next
    case False
    then have "w = v" "acc' = acc" using "1.prems" by (subst (asm) decimal_loop.simps; simp)+
    then show ?thesis using False by (auto simp: word_le_nat_alt)
  qed
qed

lemma decimal_digits_eq: "decimal_digits v = show_nat (unat v)"
proof -
  obtain w acc where l: "decimal_loop v [] = (w, acc)" by force
  note w = decimal_loop_eq [OF l]
  have s: "show_nat (unat v) = show_nat (unat w) @ acc" using w by (cases "unat v = 0") auto
  have c: "unat w mod 100 < 100" "unat w div 100 < 100" using w by (auto simp: less_mult_imp_div_less)
  show ?thesis
  proof (cases "w \<ge> 100")
    case True
    have q: "0 < unat w div 100" using True by (simp add: word_le_nat_alt div_greater_zero_iff)
    have e: "show_nat (unat w) = show_nat (unat w div 100) @ digit_pair (w mod 100)"
      using show_nat_pair [OF q c(1)] digit_pair_eq [of "w mod 100"] c(1) by (simp add: unat_mod)
    have f: "show_nat (unat w div 100) = (if w div 100 \<ge> 10 then digit_pair (w div 100) else [D0 + ucast (w div 100)])"
    proof (cases "w div 100 \<ge> 10")
      case True
      then have "0 < unat w div 100 div 10" by (simp add: word_le_nat_alt unat_div div_greater_zero_iff)
      then show ?thesis using True digit_pair_eq [of "w div 100"] c(2) show_nat_step [of "unat w div 100 div 10" "unat w div 100 mod 10"]
        show_nat_digit [of "unat w div 100 div 10"] by (simp add: unat_div less_mult_imp_div_less)
    next
      case False
      then have "unat w div 100 < 10" by (simp add: word_le_nat_alt unat_div)
      moreover have "(ucast (w div 100) :: u8) = of_nat (unat (w div 100))" by simp
      moreover have "unat (w div 100) = unat w div 100" by (simp add: unat_div)
      ultimately show ?thesis using False by (simp add: show_nat_digit del: of_nat_unat)
    qed
    show ?thesis using l True s e f by (simp add: decimal_digits_def)
  next
    case False
    then have u: "unat w < 100" by (simp add: word_le_nat_alt)
    show ?thesis
    proof (cases "w \<ge> 10")
      case True
      then have "0 < unat w div 10" by (simp add: word_le_nat_alt div_greater_zero_iff)
      then have "show_nat (unat w) = digit_pair w"
        using digit_pair_eq [of w] u show_nat_step [of "unat w div 10" "unat w mod 10"] show_nat_digit [of "unat w div 10"]
        by (simp add: less_mult_imp_div_less)
      then show ?thesis using l False True s by (simp add: decimal_digits_def)
    next
      case F: False
      then have "unat w < 10" by (simp add: word_le_nat_alt)
      then have "show_nat (unat w) = [D0 + ucast w]" by (simp add: show_nat_digit)
      then show ?thesis using l False F s by (simp add: decimal_digits_def)
    qed
  qed
qed

section \<open>Wrap-around of the width\<close>

text \<open>Widths are \<open>uint16_t\<close>: a larger number in a specification wraps around.\<close>

lemma fmt_width_wraps: "o_width (parse_spec (lit ''70000'')) = 4464"
  by code_simp

end
