(* ===== verification/Fmt_Writer.thy ===== *)
theory Fmt_Writer
  imports Fmt_Facts
begin

unbundle bit_operations_syntax

text \<open>
  What the formatter writes.  A writer that accepts every text is an interface; over it the padding and
  \<open>write_fmt\<close> write exactly the text that the options and the format string stand for.
\<close>

section \<open>The fill character of a specification\<close>

lemma low_byte:
  assumes "n < 8"
  shows "bit FILL_MASK n" "\<not> bit ALIGN_MASK n" "\<not> bit SIGN_PLUS n" "\<not> bit SIGN_MINUS n" "\<not> bit ALTERNATE n"
    "\<not> bit ZERO_PAD n" "\<not> bit DEBUG n" "\<not> bit HAS_WIDTH n" "\<not> bit HAS_PREC n" "\<not> bit LOWER_EXP n" "\<not> bit UPPER_EXP n"
proof -
  have m: "FILL_MASK = mask 21" by (simp add: FILL_MASK_def mask_eq_exp_minus_1)
  show "bit FILL_MASK n" unfolding m bit_mask_iff using assms by simp
qed (use assms in \<open>simp_all add: ALIGN_MASK_def SIGN_PLUS_def SIGN_MINUS_def ALTERNATE_def ZERO_PAD_def DEBUG_def HAS_WIDTH_def
      HAS_PREC_def LOWER_EXP_def UPPER_EXP_def bit_push_bit_iff del: push_bit_numeral push_bit_of_1\<close>)

lemma o_fill_bit: "bit (o_fill opts) n \<longleftrightarrow> n < 8 \<and> bit (o_flags opts) n"
  using low_byte(1) by (auto simp: o_fill_def bit_simps)

lemma fill_kept:
  "(\<And>n. n < 8 \<Longrightarrow> bit (o_flags opts') n = bit (o_flags opts) n) \<Longrightarrow> o_fill opts' = o_fill opts"
  by (rule bit_word_eqI) (auto simp: o_fill_bit)

lemma fill_set_flag: "(\<And>n. n < 8 \<Longrightarrow> \<not> bit m n) \<Longrightarrow> o_fill (set_flag m opts) = o_fill opts"
  by (rule fill_kept) (auto simp: set_flag_def bit_simps)

lemma fill_set_align: "o_fill (set_align a opts) = o_fill opts"
  by (rule fill_kept) (auto simp: set_align_def low_byte bit_simps)

lemma fill_set_fill: "o_fill (set_fill b opts) = b"
  by (rule bit_word_eqI) (auto simp: o_fill_bit set_fill_def low_byte bit_simps dest: bit_imp_le_length)

lemma fill_set_presentation: "o_fill (set_presentation v opts) = o_fill opts"
  by (rule fill_kept) (auto simp: set_presentation_def presentation_code_def PRESENTATION_MASK_def low_byte bit_simps
      split: presentation.split)

lemma fill_set_width: "o_fill (set_width w opts) = o_fill opts"
  by (rule fill_kept) (auto simp: set_width_def set_flag_def low_byte bit_simps)

lemma fill_set_precision: "o_fill (set_precision w opts) = o_fill opts"
  by (rule fill_kept) (auto simp: set_precision_def set_flag_def low_byte bit_simps)

lemma fill_spec_type: "o_fill (spec_type s) = o_fill (fst s)"
  by (cases s) (simp add: spec_type_def fill_set_presentation split: option.split)

lemma fill_spec_numbers:
  "o_fill (fst (spec_precision s)) = o_fill (fst s)" "o_fill (fst (spec_width s)) = o_fill (fst s)"
  by (cases s; simp add: spec_precision_def spec_width_def fill_set_width fill_set_precision Let_def split: prod.split)+

lemma fill_spec_flags:
  "o_fill (fst (spec_flag b ZERO_PAD s)) = o_fill (fst s)" "o_fill (fst (spec_flag b ALTERNATE s)) = o_fill (fst s)"
  "o_fill (fst (spec_sign s)) = o_fill (fst s)"
  by (cases s; simp add: spec_flag_def spec_sign_def fill_set_flag low_byte)+

lemmas fill_spec = fill_spec_type fill_spec_numbers fill_spec_flags

lemma parse_spec_fill:
  assumes "is_valid_utf8 bs"
  shows "o_fill (parse_spec bs) < 0x80"
proof -
  have n: "o_fill no_options = 0x20" by (simp add: o_fill_def no_options_def FILL_MASK_def)
  have "o_fill (fst (spec_align (no_options, bs))) < 0x80"
  proof (cases "1 < length bs \<and> align_of (bs ! 1) \<noteq> AlignNone")
    case True
    then obtain a b rest where bs: "bs = a # b # rest" by (cases bs; cases "tl bs") auto
    have "unat b < 128" using True bs by (auto simp: align_of_def split: if_splits)
    then have v: "is_valid_utf8 [a]" using valid_split_ascii [of "[a]" b rest] assms bs by simp
    obtain cs where cs: "list_all is_scalar cs" "[a] = encode_all cs" using v is_valid_utf8_iff by auto
    obtain c where c: "is_scalar c" "[a] = enc c"
      using cs enc_not_Nil by (cases cs) (auto simp: append_eq_Cons_conv Cons_eq_append_conv)
    have "unat a < 128" using c encode_utf8_scalar_unat [of c] by (auto simp: is_scalar_iff split: if_splits)
    then show ?thesis using True bs by (simp add: spec_align_def fill_set_align fill_set_fill word_less_nat_alt)
  qed (auto simp: spec_align_def fill_set_align n)
  then show ?thesis by (simp add: parse_spec_def fill_spec n)
qed

section \<open>The meaning of a format string\<close>

definition hole_options :: "u8 list \<Rightarrow> fmt_options" where
  "hole_options inner =
    (let spec = dropWhile (\<lambda>b. b - D0 < 10) inner in parse_spec (if spec \<noteq> [] \<and> hd spec = COLON then tl spec else spec))"

text \<open>The text a format string stands for, given the text each argument has under given options, or
  \<open>None\<close> where it has none.\<close>

function render :: "u8 list \<Rightarrow> (fmt_options \<Rightarrow> u8 list option) list \<Rightarrow> u8 list option" where
  "render bs ts =
    (case bs of
       [] \<Rightarrow> Some []
     | b # rest \<Rightarrow>
         if b = LBRACE \<or> b = RBRACE then
           if rest \<noteq> [] \<and> hd rest = b then map_option ((#) b) (render (tl rest) ts)
           else if b = RBRACE \<or> RBRACE \<notin> set rest \<or> ts = [] then None
           else case hd ts (hole_options (takeWhile (\<lambda>c. c \<noteq> RBRACE) rest)) of
             None \<Rightarrow> None
           | Some shown \<Rightarrow> map_option ((@) shown) (render (tl (dropWhile (\<lambda>c. c \<noteq> RBRACE) rest)) (tl ts))
         else map_option ((#) b) (render rest ts))"
  by pat_completeness auto
termination
proof (relation "measure (\<lambda>(bs, ts). length bs)", simp, goal_cases)
  case (2 bs ts b rest shown)
  then show ?case using length_dropWhile_le [of "\<lambda>c. c \<noteq> RBRACE" rest] by (cases "dropWhile (\<lambda>c. c \<noteq> RBRACE) rest") auto
qed auto

declare render.simps [simp del]

lemma render_Nil: "render [] ts = Some []"
  by (simp add: render.simps)

lemma colon_ascii: "unat (COLON :: u8) < 128"
  by simp

lemma valid_dropWhile_digits:
  "is_valid_utf8 bs \<Longrightarrow> is_valid_utf8 (dropWhile (\<lambda>b. b - D0 < 10) bs)"
proof (induction bs)
  case (Cons b bs)
  have "b - D0 < 10 \<Longrightarrow> unat b < 128" by unat_arith
  then show ?case using Cons valid_split_ascii(2) [of "[]" b bs] by auto
qed simp

lemma hole_options_fill: "is_valid_utf8 inner \<Longrightarrow> o_fill (hole_options inner) < 0x80"
proof -
  assume "is_valid_utf8 inner"
  then have v: "is_valid_utf8 (dropWhile (\<lambda>b. b - D0 < 10) inner)" (is "is_valid_utf8 ?s") by (rule valid_dropWhile_digits)
  have "is_valid_utf8 (tl ?s)" if "?s \<noteq> []" "hd ?s = COLON"
    using valid_split_ascii(2) [of "[]" COLON "tl ?s"] v that by (metis append_Nil list.collapse colon_ascii)
  then show ?thesis using v by (simp add: hole_options_def Let_def parse_spec_fill)
qed

section \<open>What the padding writes\<close>

definition number_text :: "fmt_options \<Rightarrow> u8 list \<Rightarrow> u8 list \<Rightarrow> u8 list" where
  "number_text opts sign rest =
    (let p = (if has_flag HAS_WIDTH opts then unat (o_width opts) else 0) - (length sign + length rest);
         l = left_fill AlignRight (o_align opts) p in
     if has_flag ZERO_PAD opts then sign @ replicate p D0 @ rest
     else replicate l (o_fill opts) @ sign @ rest @ replicate (p - l) (o_fill opts))"

definition padded_text :: "fmt_options \<Rightarrow> u32 list \<Rightarrow> u8 list" where
  "padded_text opts cs =
    (let shown = (if has_flag HAS_PREC opts then take (unat (o_precision opts)) cs else cs);
         p = (if has_flag HAS_WIDTH opts then unat (o_width opts) else 0) - length shown;
         l = left_fill AlignLeft (o_align opts) p in
     replicate l (o_fill opts) @ encode_all shown @ replicate (p - l) (o_fill opts))"

lemma left_fill_0 [simp]: "left_fill def a 0 = 0"
  by (simp add: left_fill_def split: align.split)

lemma length_le_encode_all: "length cs \<le> length (encode_all cs)"
proof (induction cs)
  case (Cons c cs)
  have "1 \<le> length (enc c)" using enc_not_Nil [of c] by (cases "enc c") auto
  then show ?case using Cons.IH by simp
qed simp

lemma chars_loop_eq:
  assumes "list_all is_scalar cs"
  shows "chars_loop m k (encode_all cs) = (k + min (m - k) (length cs), encode_all (drop (m - k) cs))"
  using assms
proof (induction cs arbitrary: k)
  case (Cons c cs)
  have d: "decode_utf8 (encode_all (c # cs)) = (c, length (enc c))"
    using decode_encode_scalar [of c "encode_all cs"] Cons.prems by (simp add: length_encode_utf8_scalar)
  have l: "max (Suc 0) (length (enc c)) = length (enc c)" using enc_not_Nil [of c] by (metis length_greater_0_conv max.absorb2 One_nat_def Suc_leI)
  show ?case
  proof (cases "k < m")
    case True
    then have m: "m - k = Suc (m - Suc k)" by simp
    show ?thesis using True Cons.IH [of "Suc k"] Cons.prems
      by (subst chars_loop.simps, subst d) (simp add: l m)
  qed (subst chars_loop.simps, simp)
qed (subst chars_loop.simps, simp)

section \<open>Writers that accept everything\<close>

locale total_writer =
  fixes wr :: "u8 list \<Rightarrow> 's \<Rightarrow> bool \<times> 's" and contents :: "'s \<Rightarrow> u8 list"
  assumes accepts: "fst (wr bs s)"
    and appends: "contents (snd (wr bs s)) = contents s @ bs"
begin

definition wrote :: "'s formatter \<Rightarrow> u8 list \<Rightarrow> bool \<times> 's formatter \<Rightarrow> bool" where
  "wrote f bs r \<longleftrightarrow> fst r \<and> f_write (snd r) = wr \<and> f_options (snd r) = f_options f \<and>
     contents (f_sink (snd r)) = contents (f_sink f) @ bs"

lemma wrote_nothing: "f_write f = wr \<Longrightarrow> wrote f [] (True, f)"
  by (simp add: wrote_def)

lemma wrote_str: "f_write f = wr \<Longrightarrow> wrote f bs (write_str bs f)"
  using accepts [of bs "f_sink f"] appends [of bs "f_sink f"]
  by (cases "wr bs (f_sink f)") (simp add: wrote_def write_str_def)

lemma wrote_raw: "f_write f = wr \<Longrightarrow> is_valid_utf8 bs \<Longrightarrow> wrote f bs (write_raw bs f)"
  by (simp add: write_raw_def wrote_str)

lemma wrote_nonempty: "f_write f = wr \<Longrightarrow> is_valid_utf8 bs \<Longrightarrow> wrote f bs (write_nonempty bs f)"
  by (cases "bs = []") (auto simp: write_nonempty_def wrote_raw wrote_nothing)

lemma wrote_when_ok:
  assumes "wrote f as r" "\<And>f1. f_write f1 = wr \<Longrightarrow> f_options f1 = f_options f \<Longrightarrow> wrote f1 bs (g f1)"
  shows "wrote f (as @ bs) (when_ok r g)"
  using assms(1) assms(2) [of "snd r"] by (cases r) (auto simp: wrote_def when_ok_def)

lemma wrote_repeat: "f_write f = wr \<Longrightarrow> b < 0x80 \<Longrightarrow> wrote f (replicate n b) (write_repeat b n f)"
proof (induction b n f rule: write_repeat.induct)
  case (1 b n f)
  show ?case
  proof (cases "n = 0")
    case False
    let ?k = "if n < 64 then n else 64"
    have "wrote f (replicate ?k b @ replicate (n - ?k) b) (when_ok (write_raw (replicate ?k b) f) (write_repeat b (n - ?k)))"
      by (rule wrote_when_ok, rule wrote_raw [OF "1.prems"(1) valid_replicate [OF "1.prems"(2)]], rule "1.IH")
        (use False "1.prems" in auto)
    then show ?thesis using False by (subst write_repeat.simps) (auto simp: Let_def simp flip: replicate_add)
  qed (subst write_repeat.simps, use 1 in \<open>simp add: wrote_nothing\<close>)
qed

lemma wrote_number:
  assumes "f_write f = wr" "is_valid_utf8 sign" "is_valid_utf8 sig" "is_valid_utf8 ex"
  shows "wrote f (sign @ sig @ replicate z D0 @ ex) (write_number sign sig z ex f)"
  unfolding write_number_def
  by (intro wrote_when_ok wrote_nonempty wrote_repeat) (use assms in simp_all)

lemma wrote_pad_numeric:
  assumes w: "f_write f = wr" and v: "is_valid_utf8 sign" "is_valid_utf8 sig" "is_valid_utf8 ex"
    and a: "o_fill (f_options f) < 0x80"
  shows "wrote f (number_text (f_options f) sign (sig @ replicate z D0 @ ex)) (pad_numeric sign sig z ex f)"
proof -
  let ?len = "length sign + length sig + z + length ex" and ?o = "f_options f"
  let ?p = "f_width f - ?len" and ?l = "left_fill AlignRight (o_align ?o) (f_width f - ?len)"
  consider (wide) "?len \<ge> f_width f" | (zero) "\<not> ?len \<ge> f_width f" "has_flag ZERO_PAD ?o"
    | (fill) "\<not> ?len \<ge> f_width f" "\<not> has_flag ZERO_PAD ?o" by blast
  then show ?thesis
  proof cases
    case wide
    then show ?thesis using wrote_number [OF w v, of z]
      by (simp add: pad_numeric_def number_text_def f_width_def Let_def add.assoc)
  next
    case zero
    have "wrote f (sign @ replicate ?p D0 @ [] @ sig @ replicate z D0 @ ex)
      (when_ok (write_nonempty sign f) (\<lambda>f1. when_ok (write_repeat D0 ?p f1) (write_number [] sig z ex)))"
      by (intro wrote_when_ok wrote_nonempty wrote_repeat wrote_number) (use w v in simp_all)
    then show ?thesis using zero by (simp add: pad_numeric_def number_text_def f_width_def Let_def add.assoc)
  next
    case fill
    have "wrote f (replicate ?l (o_fill ?o) @ (sign @ sig @ replicate z D0 @ ex) @ replicate (?p - ?l) (o_fill ?o))
      (when_ok (write_repeat (o_fill ?o) ?l f) (\<lambda>f1. when_ok (write_number sign sig z ex f1) (write_repeat (o_fill ?o) (?p - ?l))))"
      by (intro wrote_when_ok wrote_repeat wrote_number) (use w v a in simp_all)
    then show ?thesis using fill by (simp add: pad_numeric_def number_text_def f_width_def Let_def add.assoc)
  qed
qed

lemma wrote_pad:
  assumes w: "f_write f = wr" and cs: "list_all is_scalar cs" and a: "o_fill (f_options f) < 0x80"
  shows "wrote f (padded_text (f_options f) cs) (pad (encode_all cs) f)"
proof -
  let ?o = "f_options f"
  let ?shown = "if has_flag HAS_PREC ?o then take (unat (o_precision ?o)) cs else cs"
  let ?m = "if has_flag HAS_PREC ?o then unat (o_precision ?o) else length (encode_all cs)"
  have v: "is_valid_utf8 (encode_all ?shown)"
    by (rule is_valid_utf8_encode_all) (use cs in \<open>auto simp: list_all_iff dest: in_set_takeD\<close>)
  have m: "take ?m cs = ?shown" using length_le_encode_all [of cs] by simp
  have "encode_all cs = encode_all (take ?m cs) @ encode_all (drop ?m cs)" by (metis append_take_drop_id encode_all_append)
  then have e: "encode_all cs = encode_all ?shown @ encode_all (drop ?m cs)" by (simp only: m)
  have t: "take (length (encode_all cs) - length (encode_all (drop ?m cs))) (encode_all cs) = encode_all ?shown"
    by (subst (1 2) e) simp
  have c: "chars_loop ?m 0 (encode_all cs) = (length ?shown, encode_all (drop ?m cs))"
    using chars_loop_eq [OF cs, of ?m 0] arg_cong [OF m, of length] by simp
  show ?thesis
  proof (cases "length ?shown \<ge> f_width f")
    case True
    then show ?thesis using wrote_raw [OF w v] t c
      by (simp add: pad_def padded_text_def f_width_def Let_def split: if_splits)
  next
    case False
    let ?p = "f_width f - length ?shown" and ?l = "left_fill AlignLeft (o_align ?o) (f_width f - length ?shown)"
    have "wrote f (replicate ?l (o_fill ?o) @ encode_all ?shown @ replicate (?p - ?l) (o_fill ?o))
      (when_ok (write_repeat (o_fill ?o) ?l f) (\<lambda>f1. when_ok (write_raw (encode_all ?shown) f1) (write_repeat (o_fill ?o) (?p - ?l))))"
      by (intro wrote_when_ok wrote_repeat wrote_raw) (use w v a in simp_all)
    then show ?thesis using False t c by (simp add: pad_def padded_text_def f_width_def Let_def split: if_splits)
  qed
qed

text \<open>The result of code that stands for \<open>out\<close>.\<close>

definition outcome :: "'s formatter \<Rightarrow> u8 list option \<Rightarrow> bool \<times> 's formatter \<Rightarrow> bool" where
  "outcome f out r \<longleftrightarrow> (case out of None \<Rightarrow> \<not> fst r | Some bs \<Rightarrow> wrote f bs r)"

definition displays :: "(fmt_options \<Rightarrow> u8 list option) \<Rightarrow> 's argument \<Rightarrow> bool" where
  "displays t arg \<longleftrightarrow> (\<forall>f. f_write f = wr \<and> o_fill (f_options f) < 0x80 \<longrightarrow> outcome f (t (f_options f)) (arg f))"

lemma outcome_placeholder:
  assumes "f_write f = wr" "displays t arg" "is_valid_utf8 inner"
  shows "outcome f (t (hole_options inner)) (placeholder inner arg f)"
proof -
  let ?f = "f\<lparr>f_options := hole_options inner\<rparr>"
  obtain ok f1 where a: "arg ?f = (ok, f1)" by force
  have "outcome ?f (t (hole_options inner)) (ok, f1)"
    using assms hole_options_fill [OF assms(3)] a by (auto simp: displays_def dest!: spec [of _ ?f])
  moreover have "placeholder inner arg f = (ok, f1\<lparr>f_options := f_options f\<rparr>)"
    using a by (simp add: placeholder_def hole_options_def Let_def)
  ultimately show ?thesis by (simp add: outcome_def wrote_def split: option.splits)
qed

lemma outcome_then:
  assumes "outcome f first r" "\<And>f1. f_write f1 = wr \<Longrightarrow> outcome f1 out (g f1)"
  shows "outcome f (case first of None \<Rightarrow> None | Some as \<Rightarrow> map_option ((@) as) out) (when_ok r g)"
  using assms(1) assms(2) [of "snd r"] by (cases r; cases first; cases out) (auto simp: outcome_def wrote_def when_ok_def)

lemma outcome_when_ok:
  assumes "wrote f as r" "\<And>f1. f_write f1 = wr \<Longrightarrow> outcome f1 out (g f1)"
  shows "outcome f (map_option ((@) as) out) (when_ok r g)"
  using outcome_then [of f "Some as" r out g] assms by (simp add: outcome_def)

lemma map_option_Nil: "map_option ((@) []) out = out"
  by (cases out) auto

lemma map_option_single: "map_option ((@) [b]) out = map_option ((#) b) out"
  by (cases out) auto

lemma outcome_None: "\<not> fst r \<Longrightarrow> outcome f None r"
  by (simp add: outcome_def)

lemma outcome_escaped:
  assumes ih: "\<And>f1. f_write f1 = wr \<Longrightarrow> outcome f1 out (g f1)"
    and h: "f_write f = wr" "is_valid_utf8 pending" "unat b < 128"
  shows "outcome f (map_option ((@) pending) (map_option ((#) b) out))
    (when_ok (write_nonempty pending f) (\<lambda>f1. when_ok (write_raw [b] f1) g))"
proof -
  have "outcome f1 (map_option ((@) [b]) out) (when_ok (write_raw [b] f1) g)" if "f_write f1 = wr" for f1
    by (rule outcome_when_ok [OF wrote_raw ih]) (use that h(3) in \<open>auto simp: valid_ascii word_less_nat_alt\<close>)
  then show ?thesis unfolding map_option_single by (rule outcome_when_ok [OF wrote_nonempty [OF h(1,2)]])
qed

lemma outcome_hole:
  assumes ih: "\<And>f1. f_write f1 = wr \<Longrightarrow> outcome f1 out (g f1)"
    and h: "f_write f = wr" "is_valid_utf8 pending" "is_valid_utf8 inner" "displays t arg"
  shows "outcome f (map_option ((@) pending) (case t (hole_options inner) of None \<Rightarrow> None | Some shown \<Rightarrow> map_option ((@) shown) out))
    (when_ok (write_nonempty pending f) (\<lambda>f1. when_ok (placeholder inner arg f1) g))"
  by (rule outcome_when_ok [OF wrote_nonempty [OF h(1,2)]], rule outcome_then [OF outcome_placeholder ih]) (use h in auto)

lemma outcome_fmt_loop:
  assumes "f_write f = wr" "list_all2 displays ts args" "is_valid_utf8 (pending @ bs)"
  shows "outcome f (map_option ((@) pending) (render bs ts)) (fmt_loop args pending bs f)"
  using assms
proof (induction "length bs" arbitrary: args pending bs f ts rule: less_induct)
  case less
  have after: "outcome f1 (render bs1 ts1) (fmt_loop args1 [] bs1 f1)"
    if "f_write f1 = wr" "length bs1 < length bs" "is_valid_utf8 bs1" "list_all2 displays ts1 args1" for f1 bs1 ts1 args1
    using less.hyps [OF that(2,1,4), of "[]"] that(3) by (simp add: option.map_ident map_option_Nil)
  show ?case
  proof (cases bs)
    case Nil
    then show ?thesis using less.prems wrote_nonempty [of f pending] by (simp add: outcome_def fmt_loop.simps render_Nil)
  next
    case (Cons b rest)
    consider (escaped) "b = LBRACE \<or> b = RBRACE" "rest \<noteq> [] \<and> hd rest = b"
      | (bad) "b = RBRACE" "\<not> (rest \<noteq> [] \<and> hd rest = b)"
      | (hole) "b = LBRACE" "\<not> (rest \<noteq> [] \<and> hd rest = b)" | (plain) "b \<noteq> LBRACE" "b \<noteq> RBRACE" by blast
    then show ?thesis
    proof cases
      case escaped
      have a: "unat b < 128" using escaped by auto
      have p: "is_valid_utf8 pending" "is_valid_utf8 rest"
        using valid_split_ascii [OF less.prems(3) [unfolded Cons] a] .
      have "is_valid_utf8 (tl rest)" using valid_split_ascii(2) [of "[]" b "tl rest"] p a escaped by (cases rest) auto
      then have "f_write f1 = wr \<Longrightarrow> outcome f1 (render (tl rest) ts) (fmt_loop args [] (tl rest) f1)" for f1
        by (intro after) (use less.prems Cons in auto)
      note o = outcome_escaped [OF this less.prems(1) p(1) a]
      show ?thesis unfolding fmt_loop.simps [of args pending bs] render.simps [of bs]
        using o escaped Cons by (elim disjE) simp_all
    next
      case bad
      then show ?thesis unfolding fmt_loop.simps [of args pending bs] render.simps [of bs] using Cons by (auto simp: outcome_def)
    next
      case hole
      have a: "unat b < 128" using hole by auto
      have p: "is_valid_utf8 pending" "is_valid_utf8 rest"
        using valid_split_ascii [OF less.prems(3) [unfolded Cons] a] .
      note w = wrote_nonempty [OF less.prems(1) p(1)]
      show ?thesis
      proof (cases "RBRACE \<in> set rest \<and> args \<noteq> []")
        case True
        let ?inner = "takeWhile (\<lambda>c. c \<noteq> RBRACE) rest" and ?after = "dropWhile (\<lambda>c. c \<noteq> RBRACE) rest"
        obtain arg args1 t ts1 where at: "args = arg # args1" "ts = t # ts1" "displays t arg" "list_all2 displays ts1 args1"
          using True less.prems(2) by (cases args; cases ts) auto
        have n: "?after \<noteq> []" "hd ?after = RBRACE" using True hd_dropWhile [of "\<lambda>c. c \<noteq> RBRACE" rest] by (auto simp: dropWhile_eq_Nil_conv)
        have s: "rest = ?inner @ RBRACE # tl ?after" using n by (metis takeWhile_dropWhile_id list.collapse)
        have v: "is_valid_utf8 ?inner" "is_valid_utf8 (tl ?after)"
          using valid_split_ascii [of ?inner RBRACE "tl ?after"] s p(2) by auto
        have l: "length (tl ?after) < length bs" using arg_cong [OF s, of length] Cons by simp
        note o = outcome_hole [OF after [OF _ l v(2) at(4)] less.prems(1) p(1) v(1) at(3)]
        have nh: "(rest \<noteq> [] \<and> hd rest = LBRACE) = False" "(?after = []) = False" "(RBRACE \<notin> set rest) = False"
          using hole n(1) True by auto
        have "fmt_loop args pending bs f = when_ok (write_nonempty pending f) (\<lambda>f1. when_ok (placeholder ?inner arg f1) (fmt_loop args1 [] (tl ?after)))"
          by (subst fmt_loop.simps) (simp only: Cons hole(1) at list.case nh Let_def if_True if_False simp_thms)
        moreover have "render bs ts = (case t (hole_options ?inner) of None \<Rightarrow> None | Some shown \<Rightarrow> map_option ((@) shown) (render (tl ?after) ts1))"
          by (subst render.simps) (use True hole(2) in \<open>auto simp: Cons hole(1) at split: option.split\<close>)
        ultimately show ?thesis using o by simp
      next
        case False
        have "render bs ts = None" using False hole Cons less.prems(2) by (subst render.simps) auto
        moreover have "\<not> fst (fmt_loop args pending bs f)"
          using False hole Cons w by (subst fmt_loop.simps) (auto simp: when_ok_def wrote_def Let_def dropWhile_eq_Nil_conv split: prod.split list.split)
        ultimately show ?thesis by (simp add: outcome_def)
      qed
    next
      case plain
      have "outcome f (map_option ((@) (pending @ [b])) (render rest ts)) (fmt_loop args (pending @ [b]) rest f)"
        by (rule less.hyps) (use less.prems Cons in auto)
      moreover have "map_option ((@) (pending @ [b])) (render rest ts) = map_option ((@) pending) (map_option ((#) b) (render rest ts))"
        by (cases "render rest ts") auto
      ultimately show ?thesis unfolding fmt_loop.simps [of args pending bs] render.simps [of bs] using plain Cons by simp
    qed
  qed
qed

end

section \<open>Strings as writers\<close>

interpretation sw: total_writer string_write id
  by unfold_locales (auto simp: string_write_def push_str_def)

definition on_string :: "fmt_options \<Rightarrow> u8 list \<Rightarrow> (u8 list) formatter" where
  "on_string opts s = \<lparr>f_write = string_write, f_sink = s, f_options = opts\<rparr>"

lemma on_string_simps [simp]:
  "f_write (on_string opts s) = string_write" "f_sink (on_string opts s) = s" "f_options (on_string opts s) = opts"
  by (simp_all add: on_string_def)

lemma on_string_eq: "f_write f = string_write \<Longrightarrow> f = on_string (f_options f) (f_sink f)"
  by (cases f) (simp add: on_string_def)

lemma wrote_string: "sw.wrote (on_string opts s) bs r \<longleftrightarrow> r = (True, on_string opts (s @ bs))"
  by (cases r) (auto simp: sw.wrote_def on_string_eq dest: on_string_eq)

lemma string_formatter_on: "string_formatter s = on_string no_options s"
  by (simp add: string_formatter_def on_string_def)

section \<open>Exactness\<close>

text \<open>\<open>Formatter::pad\<close> on a string writer: for every text of Unicode scalars and every options with an
  ASCII fill, the text is cut to the precision counted in characters and filled to the width counted in
  characters, on the side the alignment asks for, and the call succeeds.\<close>

lemma pad_fills_width:
  assumes "list_all is_scalar cs" "o_fill opts < 0x80"
  shows "pad (encode_all cs) (on_string opts s) = (True, on_string opts (s @ padded_text opts cs))"
  using sw.wrote_pad [of "on_string opts s" cs] assms by (simp add: wrote_string)

lemma decimal_on_string:
  assumes "o_fill opts < 0x80"
  shows "write_integer_decimal v negative (on_string opts s) =
    (True, on_string opts (s @ number_text opts
       (if negative then [MINUS] else if has_flag SIGN_PLUS opts then [PLUS] else []) (show_nat (unat v))))"
proof -
  have d: "is_valid_utf8 (show_nat n)" for n
  proof (induction n rule: show_nat.induct)
    case (1 n)
    have "(of_nat (n mod 10) :: u8) < 10" by (simp add: word_less_nat_alt unat_of_nat)
    then have "(D0 + of_nat (n mod 10) :: u8) < 0x80" by unat_arith
    then show ?case using 1 by (subst show_nat.simps) (auto intro!: valid_append valid_ascii)
  qed
  let ?sign = "if negative then [MINUS] else if has_flag SIGN_PLUS opts then [PLUS] else []"
  have s: "is_valid_utf8 ?sign" by (simp add: valid_ascii)
  have e: "is_valid_utf8 []" by simp
  show ?thesis using sw.wrote_pad_numeric [OF on_string_simps(1) s d [of "unat v"] e, of opts s 0] assms
    unfolding wrote_string write_integer_decimal_def decimal_digits_eq on_string_simps by simp
qed

text \<open>Decimal integers: the digits written are those of the number, with the sign before them, and
  filled with zeros behind the sign or with the fill character around it to the width.\<close>

lemma write_integer_decimal_exact:
  assumes "o_fill opts < 0x80"
  shows "write_integer_decimal v negative (on_string opts s) =
    (True, on_string opts (s @ number_text opts
       (if negative then [MINUS] else if has_flag SIGN_PLUS opts then [PLUS] else []) (show_nat (unat v))))"
  using assms by (rule decimal_on_string)

section \<open>The arguments of the library\<close>

text \<open>An argument that, on a string and under options with an ASCII fill, appends the text \<open>t\<close> gives for the
  options, or fails where \<open>t\<close> gives none.\<close>

definition argument_text :: "(fmt_options \<Rightarrow> u8 list option) \<Rightarrow> (u8 list) argument \<Rightarrow> bool" where
  "argument_text t arg \<longleftrightarrow> (\<forall>opts s. o_fill opts < 0x80 \<longrightarrow>
     (case t opts of
        None \<Rightarrow> \<not> fst (arg (on_string opts s))
      | Some shown \<Rightarrow> arg (on_string opts s) = (True, on_string opts (s @ shown))))"

lemma argument_displays: "argument_text t arg \<longleftrightarrow> sw.displays t arg"
proof
  assume "argument_text t arg"
  then show "sw.displays t arg" unfolding sw.displays_def
  proof (intro allI impI)
    fix f :: "(u8 list) formatter" assume f: "f_write f = string_write \<and> o_fill (f_options f) < 0x80"
    obtain opts s where "f = on_string opts s" using f on_string_eq by blast
    then show "sw.outcome f (t (f_options f)) (arg f)"
      using \<open>argument_text t arg\<close> f by (auto simp: argument_text_def sw.outcome_def wrote_string split: option.splits)
  qed
next
  assume d: "sw.displays t arg"
  have "case t opts of None \<Rightarrow> \<not> fst (arg (on_string opts s)) | Some shown \<Rightarrow> arg (on_string opts s) = (True, on_string opts (s @ shown))"
    if "o_fill opts < 0x80" for opts s
    using d [unfolded sw.displays_def, rule_format, of "on_string opts s"] that
    by (cases "t opts") (simp_all add: sw.outcome_def wrote_string)
  then show "argument_text t arg" by (simp add: argument_text_def)
qed

fun radix_text :: "presentation \<Rightarrow> nat \<Rightarrow> u8 list" where
  "radix_text pres n =
    (let base = (if pres = Octal then 8 else 16) in
     (if n < base then [] else radix_text pres (n div base)) @ [hex_table pres ! (n mod base)])"

declare radix_text.simps [simp del]

lemma radix_loop_text: "radix_loop pres v acc = radix_text pres (unat v) @ acc"
proof (induction pres v acc rule: radix_loop.induct)
  case (1 pres v acc)
  define k where "k = (if pres = Octal then 3 else 4 :: nat)"
  define base where "base = (if pres = Octal then 8 else 16 :: nat)"
  have kb: "(2 :: nat) ^ k = base" by (simp add: k_def base_def)
  have u: "unat (v AND (push_bit k 1 - 1)) = unat v mod base" "unat (drop_bit k v) = unat v div base"
    unfolding kb [symmetric] by (simp_all add: k_def take_bit_eq_mod drop_bit_eq_div unat_mod unat_div flip: take_bit_eq_mask mask_eq_exp_minus_1)
  have z: "drop_bit k v = 0 \<longleftrightarrow> unat v < base" using u(2) by (simp add: unat_eq_0 [symmetric] div_eq_0_iff base_def)
  show ?case
  proof (cases "unat v < base")
    case True
    then show ?thesis using u(1) z
      by (subst radix_loop.simps, subst radix_text.simps) (simp add: Let_def flip: k_def base_def)
  next
    case False
    then have "radix_loop pres v acc = radix_loop pres (drop_bit k v) (hex_table pres ! (unat v mod base) # acc)"
      using u(1) z by (subst radix_loop.simps) (simp add: Let_def flip: k_def)
    also have "\<dots> = radix_text pres (unat v div base) @ hex_table pres ! (unat v mod base) # acc"
      using 1 [of k "hex_table pres ! (unat v mod base) # acc" "drop_bit k v"] False u z by (simp add: k_def)
    finally show ?thesis using False by (subst radix_text.simps) (simp add: Let_def flip: base_def)
  qed
qed

lemma radix_text_valid: "is_valid_utf8 (radix_text pres n)"
proof (induction pres n rule: radix_text.induct)
  case (1 pres n)
  have "list_all (\<lambda>b. b < 0x80) (hex_table pres)" by (simp add: hex_table_def lit_def)
  moreover have "n mod (if pres = Octal then 8 else 16) < length (hex_table pres)" by (simp add: hex_table_def lit_def) linarith
  ultimately have "is_valid_utf8 [hex_table pres ! (n mod (if pres = Octal then 8 else 16))]"
    by (auto simp: list_all_length intro: valid_ascii)
  then show ?case using 1 by (subst radix_text.simps) (auto simp: Let_def intro: valid_append)
qed

text \<open>What the placeholders of an unsigned integer and of a string slice show.\<close>

definition unsigned_text :: "u32 \<Rightarrow> fmt_options \<Rightarrow> u8 list option" where
  "unsigned_text v opts =
    (let plus = (if has_flag SIGN_PLUS opts then [PLUS] else []) in
     case o_presentation opts of
       Display \<Rightarrow> Some (number_text opts plus (show_nat (unat v)))
     | Debug \<Rightarrow> Some (number_text opts plus (show_nat (unat v)))
     | LowerExp \<Rightarrow> None
     | UpperExp \<Rightarrow> None
     | pres \<Rightarrow> Some (number_text opts
         (plus @ (if has_flag ALTERNATE opts then [D0, if pres = Octal then 0x6F else 0x78] else [])) (radix_text pres (unat v))))"

definition string_text :: "u32 list \<Rightarrow> fmt_options \<Rightarrow> u8 list option" where
  "string_text cs opts =
    (case o_presentation opts of
       Display \<Rightarrow> Some (padded_text opts cs)
     | Debug \<Rightarrow> Some (DQUOTE # encode_all cs @ [DQUOTE])
     | _ \<Rightarrow> None)"

lemma radix_on_string:
  assumes "o_fill opts < 0x80"
  shows "write_integer_radix v pres (on_string opts s) =
    (True, on_string opts (s @ number_text opts
       ((if has_flag SIGN_PLUS opts then [PLUS] else []) @ (if has_flag ALTERNATE opts then [D0, if pres = Octal then 0x6F else 0x78] else []))
       (radix_text pres (unat v))))"
proof -
  let ?sign = "(if has_flag SIGN_PLUS opts then [PLUS] else []) @ (if has_flag ALTERNATE opts then [D0, if pres = Octal then 0x6F else 0x78] else [])"
  have s: "is_valid_utf8 ?sign" by (rule valid_ascii_list) simp
  have e: "is_valid_utf8 []" by simp
  show ?thesis using sw.wrote_pad_numeric [OF on_string_simps(1) s radix_text_valid e, of opts s pres "unat v" 0] assms
    unfolding wrote_string write_integer_radix_def radix_loop_text on_string_simps by simp
qed

lemma unsigned_argument_text: "argument_text (unsigned_text v) (unsigned_argument v)"
proof -
  have "unat (ucast v :: u64) = unat v" using unat_lt_32 [of v] by (simp add: unat_ucast_mod)
  then show ?thesis
    by (simp add: argument_text_def unsigned_text_def unsigned_argument_def decimal_on_string radix_on_string Let_def split: presentation.split)
qed

lemma string_argument_text:
  assumes "list_all is_scalar cs"
  shows "argument_text (string_text cs) (string_argument (encode_all cs))"
proof -
  have r: "write_raw bs (on_string opts s) = (True, on_string opts (s @ bs))" if "is_valid_utf8 bs" for bs opts s
    using sw.wrote_raw [of "on_string opts s" bs] that by (simp add: wrote_string)
  have v: "is_valid_utf8 (encode_all cs)" "is_valid_utf8 [DQUOTE]" using assms by (simp_all add: is_valid_utf8_encode_all valid_ascii)
  show ?thesis
    by (simp add: argument_text_def string_text_def string_argument_def pad_fills_width [OF assms] r [OF v(1)] r [OF v(2)] when_ok_def
        split: presentation.split)
qed

section \<open>Theorem\<close>



end
