(* ===== verification/String_Facts.thy ===== *)
theory String_Facts
  imports Fmt_Writer
begin

text \<open>
  The operations of strings keep them well-formed and act on characters; the debug output of a duration
  denotes the duration.
\<close>

section \<open>Strings\<close>

lemma pop_until_eq: "length s \<le> n \<Longrightarrow> pop_until k n s = take k s"
proof (induction n arbitrary: s)
  case (Suc n)
  show ?case
  proof (cases "length s > k")
    case True
    then have "take k (butlast s) = take k s" by (simp add: take_butlast)
    then show ?thesis using True Suc by simp
  qed simp
qed simp

lemma truncate_str_eq: "truncate_str s k = (if k \<ge> length s then Some s else if is_char_boundary s k then Some (take k s) else None)"
  by (simp add: truncate_str_def pop_until_eq)

lemma replace_range_eq:
  "replace_range s a b r = (if a \<le> b \<and> b \<le> length s \<and> is_char_boundary s a \<and> is_char_boundary s b then Some (take a s @ r @ drop b s) else None)"
  by (auto simp: replace_range_def)

lemma boundary_ends: "is_valid_utf8 s \<Longrightarrow> is_char_boundary s 0 \<and> is_char_boundary s (length s)"
  by (simp add: is_char_boundary_def)

lemma valid_take: "is_valid_utf8 s \<Longrightarrow> is_char_boundary s k \<Longrightarrow> k \<le> length s \<Longrightarrow> is_valid_utf8 (take k s)"
  using valid_slice [of s 0 k] boundary_ends [of s] by simp

lemma valid_drop: "is_valid_utf8 s \<Longrightarrow> is_char_boundary s k \<Longrightarrow> k \<le> length s \<Longrightarrow> is_valid_utf8 (drop k s)"
  using valid_slice [of s k "length s"] boundary_ends [of s] by simp

lemma replace_range_valid: "replace_range s a b r = Some t \<Longrightarrow> is_valid_utf8 s \<Longrightarrow> is_valid_utf8 r \<Longrightarrow> is_valid_utf8 t"
  by (auto simp: replace_range_eq intro!: valid_append valid_take valid_drop split: if_splits)

lemma valid_scalar: "is_scalar c \<Longrightarrow> is_valid_utf8 (enc c)"
  using is_valid_utf8_encode_all [of "[c]"] by simp

text \<open>
  The strings that the checked operations build: every operation that makes or changes a \<open>String\<close> except
  the mutable views \<open>as_mut_str\<close> and \<open>deref_mut\<close>, which hand out the bytes.  \<open>from_utf8_unchecked\<close> does not look at
  its bytes; it is an operation of this kind only on well-formed ones.  A \<open>ref<str>\<close> is the content of a
  string, a \<open>Char\<close> is a scalar value.
\<close>

inductive string_built :: "u8 list \<Rightarrow> bool" where
  built_from_utf8: "string_from_utf8 bs = Ok s \<Longrightarrow> string_built s"
| built_unchecked: "is_valid_utf8 bs \<Longrightarrow> string_built (string_from_utf8_unchecked bs)"
| built_make: "string_built s \<Longrightarrow> string_built (string_make s)"
| built_clone: "string_built s \<Longrightarrow> string_built (string_clone s)"
| built_push_str: "string_built s \<Longrightarrow> string_built t \<Longrightarrow> string_built (push_str s t)"
| built_write: "string_built s \<Longrightarrow> string_built t \<Longrightarrow> string_built (snd (string_write t s))"
| built_push_ascii: "string_built s \<Longrightarrow> push_ascii s b = Some t \<Longrightarrow> string_built t"
| built_push: "string_built s \<Longrightarrow> push s c = Some t \<Longrightarrow> string_built t"
| built_push_Char: "string_built s \<Longrightarrow> is_scalar c \<Longrightarrow> string_built (push_Char s c)"
| built_extend: "string_built s \<Longrightarrow> list_all is_scalar cs \<Longrightarrow> string_built (string_extend s cs)"
| built_clear: "string_built s \<Longrightarrow> string_built (string_clear s)"
| built_truncate: "string_built s \<Longrightarrow> truncate_str s n = Some t \<Longrightarrow> string_built t"
| built_replace_range: "string_built s \<Longrightarrow> string_built r \<Longrightarrow> replace_range s a b r = Some t \<Longrightarrow> string_built t"
| built_insert_str: "string_built s \<Longrightarrow> string_built r \<Longrightarrow> insert_str s i r = Some t \<Longrightarrow> string_built t"
| built_insert: "string_built s \<Longrightarrow> insert_char s i c = Some t \<Longrightarrow> string_built t"
| built_insert_Char: "string_built s \<Longrightarrow> is_scalar c \<Longrightarrow> insert_Char s i c = Some t \<Longrightarrow> string_built t"

lemma string_extend_eq: "string_extend s cs = s @ encode_all cs"
  unfolding string_extend_def by (induction cs arbitrary: s) (simp_all add: push_Char_def)

lemma insert_Char_valid: "insert_Char s i c = Some t \<Longrightarrow> is_valid_utf8 s \<Longrightarrow> is_scalar c \<Longrightarrow> is_valid_utf8 t"
  unfolding insert_Char_def insert_str_def by (erule replace_range_valid) (simp_all add: valid_scalar)

lemma string_built_valid: "string_built s \<Longrightarrow> is_valid_utf8 s"
proof (induction rule: string_built.induct)
  case (built_from_utf8 bs s)
  then show ?case using validate_utf8_iff [of bs] by (auto simp: string_from_utf8_def split: sum.splits)
next
  case (built_truncate s n t)
  then show ?case by (auto simp: truncate_str_eq valid_take split: if_splits)
next
  case (built_extend s cs)
  then show ?case by (simp add: string_extend_eq valid_append is_valid_utf8_encode_all)
next
  case (built_insert s i c t)
  then show ?case by (auto simp: insert_char_def char_from_char32_def intro: insert_Char_valid split: option.splits if_splits)
next
  case (built_insert_Char s c i t)
  then show ?case using insert_Char_valid by blast
qed (auto simp: string_make_def string_clone_def string_from_utf8_unchecked_def string_clear_def string_write_def push_str_def push_ascii_def
    push_def push_Char_def char_from_char32_def insert_str_def
    intro: replace_range_valid valid_scalar valid_ascii intro!: valid_append split: if_splits option.splits)

text \<open>C13. The invariant of \<open>String\<close>: whatever sequence of checked operations built it, a string is
  well-formed UTF-8, and every well-formed byte string can be built.  The checked operations are all that make or
  change a string but the mutable views \<open>as_mut_str\<close> and \<open>deref_mut\<close>; \<open>from_utf8_unchecked\<close> is one on
  well-formed bytes only, the condition its callers have to meet.\<close>

theorem string_invariant: "string_built s \<longleftrightarrow> is_valid_utf8 s"
proof
  assume "is_valid_utf8 s"
  then have "validate_utf8 s = Ok ()" by (simp only: validate_utf8_iff)
  then have "string_from_utf8 s = Ok s" by (simp add: string_from_utf8_def)
  then show "string_built s" by (rule built_from_utf8)
qed (rule string_built_valid)

lemma take_index: "i \<le> length cs \<Longrightarrow> take (length (encode_all (take i cs))) (encode_all cs) = encode_all (take i cs)"
  by (metis append_eq_conv_conj append_take_drop_id encode_all_append)

lemma drop_index: "i \<le> length cs \<Longrightarrow> drop (length (encode_all (take i cs))) (encode_all cs) = encode_all (drop i cs)"
  by (metis append_eq_conv_conj append_take_drop_id encode_all_append)

text \<open>C37. \<open>replace_range\<close> refines replacement on the characters: it succeeds exactly on byte ranges that
  are ranges of whole characters, and then the characters between are replaced; on any other range it
  panics.\<close>

theorem replace_range_refines:
  assumes "list_all is_scalar cs"
  shows "replace_range (encode_all cs) a b (encode_all ds) = Some t \<longleftrightarrow>
    (\<exists>i j. i \<le> j \<and> j \<le> length cs \<and> a = length (encode_all (take i cs)) \<and> b = length (encode_all (take j cs)) \<and>
       t = encode_all (take i cs @ ds @ drop j cs))" (is "?l \<longleftrightarrow> ?r")
proof
  assume ?l
  then have ab: "a \<le> b" "b \<le> length (encode_all cs)" "is_char_boundary (encode_all cs) a" "is_char_boundary (encode_all cs) b"
    and t: "t = take a (encode_all cs) @ encode_all ds @ drop b (encode_all cs)"
    by (auto simp: replace_range_eq split: if_splits)
  obtain i j where ij: "i \<le> length cs" "a = length (encode_all (take i cs))" "j \<le> length cs" "b = length (encode_all (take j cs))"
    using ab is_char_boundary_iff [OF assms] by metis
  have "i \<le> j"
  proof (rule ccontr)
    assume "\<not> i \<le> j"
    then have s: "take i cs = take j cs @ drop j (take i cs)" and "drop j (take i cs) \<noteq> []" using ij(1)
      by (metis append_take_drop_id min.absorb1 nat_le_linear take_take) (use \<open>\<not> i \<le> j\<close> ij(1) in simp)
    then have "0 < length (encode_all (drop j (take i cs)))" using length_le_encode_all [of "drop j (take i cs)"]
      by (metis le_zero_eq length_0_conv neq0_conv)
    then show False using ab(1) ij arg_cong [OF s, of "\<lambda>x. length (encode_all x)"] by (simp add: encode_all_append)
  qed
  then show ?r using ij t take_index [OF ij(1)] drop_index [OF ij(3)] by (auto simp: encode_all_append)
next
  assume ?r
  then obtain i j where ij: "i \<le> j" "j \<le> length cs" "a = length (encode_all (take i cs))" "b = length (encode_all (take j cs))"
    "t = encode_all (take i cs @ ds @ drop j cs)" by blast
  have "take j cs = take i cs @ drop i (take j cs)" using ij(1) by (metis append_take_drop_id min.absorb1 take_take)
  then have "a \<le> b" using ij by (metis encode_all_append le_add1 length_append)
  moreover have "b \<le> length (encode_all cs)" using ij by (metis append_take_drop_id encode_all_append le_add1 length_append)
  moreover have "is_char_boundary (encode_all cs) a" "is_char_boundary (encode_all cs) b"
    using ij is_char_boundary_iff [OF assms] order_trans by blast+
  ultimately show ?l using ij take_index [of i cs] drop_index [of j cs] by (simp add: replace_range_eq encode_all_append)
qed

theorem replace_range_refines_witness:
  "replace_range (encode_all [0x61, 0xE9, 0x62]) 1 3 (encode_all [0x4E2D]) = Some (encode_all [0x61, 0x4E2D, 0x62])"
proof -
  have s: "list_all is_scalar [0x61, 0xE9, 0x62 :: u32]" by code_simp
  have l: "length (encode_all [0x61]) = 1" "length (encode_all [0x61, 0xE9]) = 3" by code_simp+
  show ?thesis
    by (rule replace_range_refines [OF s, THEN iffD2], intro exI [of _ 1] exI [of _ 2]) (use l in simp)
qed

section \<open>Durations\<close>

lemma unat_ucast_up: "unat (ucast (w :: u32) :: u64) = unat w"
  using unat_lt_32 [of w] by (simp add: unat_ucast_mod)

definition dec_value :: "u8 list \<Rightarrow> nat" where
  "dec_value bs = foldl (\<lambda>a b. a * 10 + unat (b - D0)) 0 bs"

lemma dec_value_append: "dec_value (as @ bs) = dec_value as * 10 ^ length bs + dec_value bs"
proof (induction bs rule: rev_induct)
  case (snoc b bs)
  have "dec_value ((as @ bs) @ [b]) = dec_value (as @ bs) * 10 + unat (b - D0)" by (simp add: dec_value_def)
  then show ?case using snoc by (simp add: dec_value_def)
qed (simp add: dec_value_def)

lemma dec_value_single: "dec_value [b] = unat (b - D0)"
  by (simp add: dec_value_def)

lemma digit_byte: "n < 10 \<Longrightarrow> is_digit (D0 + of_nat n :: u8) \<and> unat (of_nat n :: u8) = n"
  by (simp add: is_digit_def word_le_nat_alt unat_word_ariths unat_of_nat)

lemma fraction_digits_eq:
  "\<exists>ds. fraction_digits n r acc = ds @ acc \<and> length ds = n \<and> list_all is_digit ds \<and> dec_value ds = unat r mod 10 ^ n"
proof (induction n arbitrary: r acc)
  case (Suc n)
  let ?d = "D0 + ucast (r mod 10) :: u8"
  have m: "unat (r mod 10) = unat r mod 10" "unat (r div 10) = unat r div 10" by (simp_all add: unat_mod unat_div)
  have u: "(ucast (r mod 10) :: u8) = of_nat (unat r mod 10)" using m(1) by (metis of_nat_unat)
  obtain ds where ds: "fraction_digits n (r div 10) (?d # acc) = ds @ ?d # acc" "length ds = n" "list_all is_digit ds"
    "dec_value ds = unat (r div 10) mod 10 ^ n" using Suc.IH by blast
  have "dec_value (ds @ [?d]) = unat r div 10 mod 10 ^ n * 10 + unat r mod 10"
    using ds(4) digit_byte [of "unat r mod 10"] by (simp add: dec_value_append dec_value_single m u)
  also have "\<dots> = unat r mod 10 ^ Suc n" by (simp add: mod_mult2_eq)
  finally have "dec_value (ds @ [?d]) = unat r mod 10 ^ Suc n" .
  moreover have "is_digit ?d" using digit_byte [of "unat r mod 10"] u by simp
  ultimately show ?case using ds by (intro exI [of _ "ds @ [?d]"]) simp
qed (simp add: dec_value_def)

lemma trim_zeros_eq:
  assumes "n \<le> length ds" "list_all is_digit ds" "0 < dec_value (take n ds)"
  shows "let k = trim_zeros ds n in 0 < k \<and> k \<le> n \<and> last (take k ds) \<noteq> D0 \<and> dec_value (take k ds) * 10 ^ (n - k) = dec_value (take n ds)"
  using assms
proof (induction n)
  case (Suc n)
  have s: "take (Suc n) ds = take n ds @ [ds ! n]" using Suc.prems by (simp add: take_Suc_conv_app_nth)
  have v: "dec_value (take (Suc n) ds) = dec_value (take n ds) * 10 + unat (ds ! n - D0)"
    by (simp add: s dec_value_append dec_value_single)
  show ?case
  proof (cases "Suc n > 1 \<and> ds ! n = D0")
    case True
    then have "0 < dec_value (take n ds)" using Suc.prems(3) v by simp
    then show ?thesis using Suc.IH Suc.prems True v by (auto simp: Let_def Suc_diff_le)
  next
    case False
    then have "ds ! n \<noteq> D0" using Suc.prems(3) v by (cases n) (auto simp: dec_value_def)
    then show ?thesis using False s by (simp add: Let_def)
  qed
qed (simp add: dec_value_def)

lemma valid_digits: "list_all is_digit bs \<Longrightarrow> is_valid_utf8 bs"
proof (induction bs)
  case (Cons b bs)
  have "b < 0x80" using Cons.prems by (simp add: is_digit_def word_le_nat_alt word_less_nat_alt)
  then have "is_valid_utf8 ([b] @ bs)" using Cons by (intro valid_append valid_ascii) auto
  then show ?case by simp
qed simp

lemma show_nat_digits: "list_all is_digit (show_nat n)"
proof (induction n rule: show_nat.induct)
  case (1 n)
  then show ?case using digit_byte [of "n mod 10"] by (subst show_nat.simps) auto
qed

lemma no_options_plain: "o_fill no_options = 0x20" "number_text no_options [] bs = bs" "\<not> has_flag SIGN_PLUS no_options"
  by (simp_all add: o_fill_def no_options_def FILL_MASK_def number_text_def has_flag_def HAS_WIDTH_def ZERO_PAD_def SIGN_PLUS_def)

lemma format_unsigned_eq: "format_unsigned v = show_nat (unat v)"
proof -
  have "write_integer_decimal v False (on_string no_options []) = (True, on_string no_options (show_nat (unat v)))"
    using decimal_on_string [of no_options v False "[]"] by (simp add: no_options_plain)
  then show ?thesis
    by (simp add: format_unsigned_def write_fmt_def lit_def fmt_loop.simps write_nonempty_def when_ok_def placeholder_def
        parse_spec_def string_formatter_on Let_def on_string_def)
qed

lemma raw_on_string: "is_valid_utf8 bs \<Longrightarrow> write_raw bs (on_string opts s) = (True, on_string opts (s @ bs))"
  using sw.wrote_raw [of "on_string opts s" bs] by (simp add: wrote_string)

lemma write_amount_eq:
  assumes "unat r < 10 ^ n" "is_valid_utf8 unit"
  obtains fr where "write_amount w n r unit (on_string opts s) = (True, on_string opts (s @ show_nat (unat w) @ (if fr = [] then [] else DOT # fr) @ unit))"
    "length fr \<le> n" "list_all is_digit fr" "fr \<noteq> [] \<Longrightarrow> last fr \<noteq> D0" "dec_value fr * 10 ^ (n - length fr) = unat r"
proof (cases "r = 0")
  case True
  then show ?thesis using that [of "[]"] assms(2) valid_digits [OF show_nat_digits [of "unat w"]]
    by (simp add: write_amount_def format_unsigned_eq raw_on_string dec_value_def)
next
  case False
  obtain ds where ds: "fraction_digits n r [] = ds" "length ds = n" "list_all is_digit ds" "dec_value ds = unat r"
    using fraction_digits_eq [of n r "[]"] assms(1) by auto
  let ?fr = "take (trim_zeros ds n) ds"
  have "0 < unat r" using False by (simp add: unat_gt_0)
  then have k: "0 < trim_zeros ds n" "trim_zeros ds n \<le> n" "last ?fr \<noteq> D0" "dec_value ?fr * 10 ^ (n - trim_zeros ds n) = unat r"
    using trim_zeros_eq [of n ds] ds by (auto simp: Let_def)
  have d: "list_all is_digit ?fr" using ds(3) by (auto simp: list_all_iff dest: in_set_takeD)
  have l: "length ?fr = trim_zeros ds n" using k ds by simp
  have ne: "?fr \<noteq> []" using k l by auto
  have "write_amount w n r unit (on_string opts s) = (True, on_string opts (s @ show_nat (unat w) @ (DOT # ?fr) @ unit))"
    using False ds(1) assms(2) valid_digits [OF show_nat_digits [of "unat w"]] valid_digits [OF d] valid_ascii [of DOT]
    by (simp add: write_amount_def format_unsigned_eq raw_on_string Let_def)
  then show ?thesis using that [of ?fr] k d l ne by simp
qed

definition duration_text :: "duration \<Rightarrow> u8 list \<Rightarrow> bool" where
  "duration_text d out \<longleftrightarrow> (\<exists>w fr unit places.
     out = show_nat w @ (if fr = [] then [] else DOT # fr) @ unit \<and>
     (unit, places) \<in> {(lit ''s'', 9), (lit ''ms'', 6), (lit ''us'', 3), (lit ''ns'', 0 :: nat)} \<and>
     length fr \<le> places \<and> list_all is_digit fr \<and> last (DOT # fr) \<noteq> D0 \<and>
     w * 10 ^ places + dec_value fr * 10 ^ (places - length fr) = unat (d_secs d) * 10 ^ 9 + unat (d_nanos d))"

lemma write_amount_text:
  assumes r: "unat r < 10 ^ n" and v: "is_valid_utf8 unit"
    and u: "(unit, n) \<in> {(lit ''s'', 9), (lit ''ms'', 6), (lit ''us'', 3), (lit ''ns'', 0 :: nat)}"
    and total: "unat w * 10 ^ n + unat r = unat (d_secs d) * 10 ^ 9 + unat (d_nanos d)"
  shows "\<exists>out. write_amount w n r unit (on_string opts s) = (True, on_string opts (s @ out)) \<and> duration_text d out"
proof -
  obtain fr where fr: "write_amount w n r unit (on_string opts s) = (True, on_string opts (s @ show_nat (unat w) @ (if fr = [] then [] else DOT # fr) @ unit))"
    "length fr \<le> n" "list_all is_digit fr" "fr \<noteq> [] \<Longrightarrow> last fr \<noteq> D0" "dec_value fr * 10 ^ (n - length fr) = unat r"
    using write_amount_eq [OF r v] by blast
  have l: "last (DOT # fr) \<noteq> (D0 :: u8)" using fr(4) by (cases "fr = []") simp_all
  have "duration_text d (show_nat (unat w) @ (if fr = [] then [] else DOT # fr) @ unit)"
    unfolding duration_text_def
    apply (rule exI [of _ "unat w"], rule exI [of _ fr], rule exI [of _ unit], rule exI [of _ n])
    apply (intro conjI refl u fr(2,3) l)
    using fr(5) total by (simp only:)
  then show ?thesis using fr(1) by blast
qed

lemma unit_texts: "is_valid_utf8 (lit ''s'')" "is_valid_utf8 (lit ''ms'')" "is_valid_utf8 (lit ''us'')" "is_valid_utf8 (lit ''ns'')"
  by code_simp+



end
