(* ===== verification/Io_Error.thy ===== *)
theory Io_Error
  imports Fmt
begin

text \<open>
  The errors of input and output, src/std/src/io/error.cpp.  The error numbers of the platform
  (\<open>libc::ENOENT\<close>, \<open>libc::ERROR_FILE_NOT_FOUND\<close> and so on) come from its headers: they are an assignment
  of numbers to the names the code uses.  The cause of a custom error is an object behind an interface;
  its display and debug output are arguments of the formatting functions.
\<close>

section \<open>Kinds and codes\<close>

datatype error_kind =
    NotFound | PermissionDenied | ConnectionRefused | ConnectionReset | HostUnreachable | NetworkUnreachable
  | ConnectionAborted | NotConnected | AddrInUse | AddrNotAvailable | NetworkDown | BrokenPipe | AlreadyExists
  | WouldBlock | NotADirectory | IsADirectory | DirectoryNotEmpty | ReadOnlyFilesystem | FilesystemLoop
  | StaleNetworkFileHandle | InvalidInput | InvalidData | TimedOut | WriteZero | StorageFull | NotSeekable
  | QuotaExceeded | FileTooLarge | MessageTooLong | ResourceBusy | ExecutableFileBusy | Deadlock
  | CrossesDevices | TooManyLinks | InvalidFilename | ArgumentListTooLong | Interrupted | Unsupported
  | UnexpectedEof | OutOfMemory | InProgress | Other | Uncategorized

datatype errno_name =
    ENOENT | EACCES | EPERM | ECONNREFUSED | ECONNRESET | EHOSTUNREACH | ENETUNREACH | ECONNABORTED | ENOTCONN
  | EADDRINUSE | EADDRNOTAVAIL | ENETDOWN | EPIPE | EEXIST | EAGAIN | ENOTDIR | EISDIR | ENOTEMPTY | EROFS | ELOOP
  | EINVAL | ETIMEDOUT | ENOSPC | ESPIPE | EFBIG | EMSGSIZE | EBUSY | ETXTBSY | EDEADLK | EXDEV | EMLINK
  | ENAMETOOLONG | E2BIG | EINTR | ENOSYS | EOPNOTSUPP | EAFNOSUPPORT | ENOMEM | ENOBUFS | EINPROGRESS
  | EWOULDBLOCK | ESTALE | EDQUOT

text \<open>The labels of the switch and what they return.\<close>

definition unix_cases :: "(errno_name \<times> error_kind) list" where
  "unix_cases =
    [(ENOENT, NotFound), (EACCES, PermissionDenied), (EPERM, PermissionDenied), (ECONNREFUSED, ConnectionRefused),
     (ECONNRESET, ConnectionReset), (EHOSTUNREACH, HostUnreachable), (ENETUNREACH, NetworkUnreachable),
     (ECONNABORTED, ConnectionAborted), (ENOTCONN, NotConnected), (EADDRINUSE, AddrInUse),
     (EADDRNOTAVAIL, AddrNotAvailable), (ENETDOWN, NetworkDown), (EPIPE, BrokenPipe), (EEXIST, AlreadyExists),
     (EAGAIN, WouldBlock), (ENOTDIR, NotADirectory), (EISDIR, IsADirectory), (ENOTEMPTY, DirectoryNotEmpty),
     (EROFS, ReadOnlyFilesystem), (ELOOP, FilesystemLoop), (EINVAL, InvalidInput), (ETIMEDOUT, TimedOut),
     (ENOSPC, StorageFull), (ESPIPE, NotSeekable), (EFBIG, FileTooLarge), (EMSGSIZE, MessageTooLong),
     (EBUSY, ResourceBusy), (ETXTBSY, ExecutableFileBusy), (EDEADLK, Deadlock), (EXDEV, CrossesDevices),
     (EMLINK, TooManyLinks), (ENAMETOOLONG, InvalidFilename), (E2BIG, ArgumentListTooLong), (EINTR, Interrupted),
     (ENOSYS, Unsupported), (EOPNOTSUPP, Unsupported), (EAFNOSUPPORT, Unsupported), (ENOMEM, OutOfMemory),
     (ENOBUFS, OutOfMemory), (EINPROGRESS, InProgress)]"

definition decode_unix :: "(errno_name \<Rightarrow> i32) \<Rightarrow> bool \<Rightarrow> bool \<Rightarrow> i32 \<Rightarrow> error_kind" where
  "decode_unix errno has_estale has_edquot code =
    (case map_of (map (\<lambda>(n, k). (errno n, k)) unix_cases) code of
       Some k \<Rightarrow> k
     | None \<Rightarrow>
         if code = errno EWOULDBLOCK then WouldBlock
         else if has_estale \<and> code = errno ESTALE then StaleNetworkFileHandle
         else if has_edquot \<and> code = errno EDQUOT then QuotaExceeded
         else Uncategorized)"

datatype winerr_name =
    ERROR_FILE_NOT_FOUND | ERROR_PATH_NOT_FOUND | ERROR_ACCESS_DENIED | ERROR_CONNECTION_REFUSED
  | ERROR_CONNECTION_ABORTED | ERROR_NETNAME_DELETED | ERROR_HOST_UNREACHABLE | ERROR_NETWORK_UNREACHABLE
  | ERROR_ADDRESS_ALREADY_ASSOCIATED | ERROR_BROKEN_PIPE | ERROR_NO_DATA | ERROR_FILE_EXISTS | ERROR_ALREADY_EXISTS
  | WAIT_TIMEOUT | ERROR_SEM_TIMEOUT | ERROR_INVALID_PARAMETER | ERROR_INVALID_DATA | ERROR_DIR_NOT_EMPTY
  | ERROR_DISK_FULL | ERROR_SEEK | ERROR_NOT_READY | ERROR_BUSY | ERROR_POSSIBLE_DEADLOCK | ERROR_NOT_SAME_DEVICE
  | ERROR_TOO_MANY_LINKS | ERROR_FILENAME_EXCED_RANGE | ERROR_NOT_ENOUGH_MEMORY | ERROR_OUTOFMEMORY
  | ERROR_NOT_SUPPORTED | ERROR_CALL_NOT_IMPLEMENTED | ERROR_LOCK_VIOLATION | ERROR_IO_PENDING | WSAEACCES
  | WSAECONNREFUSED | WSAECONNRESET | WSAEHOSTUNREACH | WSAENETUNREACH | WSAECONNABORTED | WSAENOTCONN
  | WSAEADDRINUSE | WSAEADDRNOTAVAIL | WSAENETDOWN | WSAEWOULDBLOCK | WSAETIMEDOUT | WSAEINVAL | WSAEMSGSIZE
  | WSAENOBUFS | WSAEALREADY | WSAEINPROGRESS | WSAEOPNOTSUPP

definition windows_cases :: "(winerr_name \<times> error_kind) list" where
  "windows_cases =
    [(ERROR_FILE_NOT_FOUND, NotFound), (ERROR_PATH_NOT_FOUND, NotFound), (ERROR_ACCESS_DENIED, PermissionDenied),
     (ERROR_CONNECTION_REFUSED, ConnectionRefused), (ERROR_CONNECTION_ABORTED, ConnectionAborted),
     (ERROR_NETNAME_DELETED, ConnectionReset), (ERROR_HOST_UNREACHABLE, HostUnreachable),
     (ERROR_NETWORK_UNREACHABLE, NetworkUnreachable), (ERROR_ADDRESS_ALREADY_ASSOCIATED, AddrInUse),
     (ERROR_BROKEN_PIPE, BrokenPipe), (ERROR_NO_DATA, BrokenPipe), (ERROR_FILE_EXISTS, AlreadyExists),
     (ERROR_ALREADY_EXISTS, AlreadyExists), (WAIT_TIMEOUT, TimedOut), (ERROR_SEM_TIMEOUT, TimedOut),
     (ERROR_INVALID_PARAMETER, InvalidInput), (ERROR_INVALID_DATA, InvalidInput),
     (ERROR_DIR_NOT_EMPTY, DirectoryNotEmpty), (ERROR_DISK_FULL, StorageFull), (ERROR_SEEK, NotSeekable),
     (ERROR_NOT_READY, ResourceBusy), (ERROR_BUSY, ResourceBusy), (ERROR_POSSIBLE_DEADLOCK, Deadlock),
     (ERROR_NOT_SAME_DEVICE, CrossesDevices), (ERROR_TOO_MANY_LINKS, TooManyLinks),
     (ERROR_FILENAME_EXCED_RANGE, InvalidFilename), (ERROR_NOT_ENOUGH_MEMORY, OutOfMemory),
     (ERROR_OUTOFMEMORY, OutOfMemory), (ERROR_NOT_SUPPORTED, Unsupported), (ERROR_CALL_NOT_IMPLEMENTED, Unsupported),
     (ERROR_LOCK_VIOLATION, WouldBlock), (ERROR_IO_PENDING, InProgress), (WSAEACCES, PermissionDenied),
     (WSAECONNREFUSED, ConnectionRefused), (WSAECONNRESET, ConnectionReset), (WSAEHOSTUNREACH, HostUnreachable),
     (WSAENETUNREACH, NetworkUnreachable), (WSAECONNABORTED, ConnectionAborted), (WSAENOTCONN, NotConnected),
     (WSAEADDRINUSE, AddrInUse), (WSAEADDRNOTAVAIL, AddrNotAvailable), (WSAENETDOWN, NetworkDown),
     (WSAEWOULDBLOCK, WouldBlock), (WSAETIMEDOUT, TimedOut), (WSAEINVAL, InvalidInput), (WSAEMSGSIZE, MessageTooLong),
     (WSAENOBUFS, OutOfMemory), (WSAEALREADY, InProgress), (WSAEINPROGRESS, InProgress), (WSAEOPNOTSUPP, Unsupported)]"

definition decode_windows :: "(winerr_name \<Rightarrow> i32) \<Rightarrow> i32 \<Rightarrow> error_kind" where
  "decode_windows winerr code =
    (case map_of (map (\<lambda>(n, k). (winerr n, k)) windows_cases) code of Some k \<Rightarrow> k | None \<Rightarrow> Uncategorized)"

text \<open>The platform a build is for; \<open>decode_error_kind\<close> is compiled for one of them.\<close>

datatype platform =
    Unix "errno_name \<Rightarrow> i32" bool bool
  | Windows "winerr_name \<Rightarrow> i32"
  | Bare

definition decode_error_kind :: "platform \<Rightarrow> i32 \<Rightarrow> error_kind" where
  "decode_error_kind p code =
    (case p of
       Unix errno has_estale has_edquot \<Rightarrow> decode_unix errno has_estale has_edquot code
     | Windows winerr \<Rightarrow> decode_windows winerr code
     | Bare \<Rightarrow> Uncategorized)"

definition kind_as_str :: "error_kind \<Rightarrow> string" where
  "kind_as_str k = (case k of
     AddrInUse \<Rightarrow> ''address in use'' | AddrNotAvailable \<Rightarrow> ''address not available''
   | AlreadyExists \<Rightarrow> ''entity already exists'' | ArgumentListTooLong \<Rightarrow> ''argument list too long''
   | BrokenPipe \<Rightarrow> ''broken pipe'' | ConnectionAborted \<Rightarrow> ''connection aborted''
   | ConnectionRefused \<Rightarrow> ''connection refused'' | ConnectionReset \<Rightarrow> ''connection reset''
   | CrossesDevices \<Rightarrow> ''cross-device link or rename'' | Deadlock \<Rightarrow> ''deadlock''
   | DirectoryNotEmpty \<Rightarrow> ''directory not empty'' | ExecutableFileBusy \<Rightarrow> ''executable file busy''
   | FileTooLarge \<Rightarrow> ''file too large''
   | FilesystemLoop \<Rightarrow> ''filesystem loop or indirection limit (e.g. symlink loop)''
   | HostUnreachable \<Rightarrow> ''host unreachable'' | InProgress \<Rightarrow> ''in progress'' | Interrupted \<Rightarrow> ''operation interrupted''
   | InvalidData \<Rightarrow> ''invalid data'' | InvalidFilename \<Rightarrow> ''invalid filename'' | InvalidInput \<Rightarrow> ''invalid input parameter''
   | IsADirectory \<Rightarrow> ''is a directory'' | MessageTooLong \<Rightarrow> ''message too long'' | NetworkDown \<Rightarrow> ''network down''
   | NetworkUnreachable \<Rightarrow> ''network unreachable'' | NotADirectory \<Rightarrow> ''not a directory'' | NotConnected \<Rightarrow> ''not connected''
   | NotFound \<Rightarrow> ''entity not found'' | NotSeekable \<Rightarrow> ''seek on unseekable file'' | Other \<Rightarrow> ''other error''
   | OutOfMemory \<Rightarrow> ''out of memory'' | PermissionDenied \<Rightarrow> ''permission denied'' | QuotaExceeded \<Rightarrow> ''quota exceeded''
   | ReadOnlyFilesystem \<Rightarrow> ''read-only filesystem or storage medium'' | ResourceBusy \<Rightarrow> ''resource busy''
   | StaleNetworkFileHandle \<Rightarrow> ''stale network file handle'' | StorageFull \<Rightarrow> ''no storage space'' | TimedOut \<Rightarrow> ''timed out''
   | TooManyLinks \<Rightarrow> ''too many links'' | Uncategorized \<Rightarrow> ''uncategorized error'' | UnexpectedEof \<Rightarrow> ''unexpected end of file''
   | Unsupported \<Rightarrow> ''unsupported'' | WouldBlock \<Rightarrow> ''operation would block'' | WriteZero \<Rightarrow> ''write zero'')"

section \<open>Errors\<close>

datatype 'c io_error = Os i32 | Kind error_kind | Message error_kind "u8 list" | Custom error_kind 'c

definition last_os_error :: "i32 \<Rightarrow> 'c io_error" where
  "last_os_error native_error_code = Os native_error_code"

definition with_source :: "error_kind \<Rightarrow> 'c \<Rightarrow> 'c io_error" where
  "with_source k cause = Custom k cause"

definition get_ref :: "'c io_error \<Rightarrow> 'c option" where
  "get_ref e = (case e of Custom k cause \<Rightarrow> Some cause | _ \<Rightarrow> None)"

definition into_inner :: "'c io_error \<Rightarrow> 'c option \<times> 'c io_error" where
  "into_inner e = (case e of Custom k cause \<Rightarrow> (Some cause, Kind Uncategorized) | _ \<Rightarrow> (None, e))"

definition error_kind_of :: "platform \<Rightarrow> 'c io_error \<Rightarrow> error_kind" where
  "error_kind_of p e =
    (case e of Os code \<Rightarrow> decode_error_kind p code | Kind k \<Rightarrow> k | Message k msg \<Rightarrow> k | Custom k cause \<Rightarrow> k)"

definition error_source :: "('c \<Rightarrow> 'd option) \<Rightarrow> 'c io_error \<Rightarrow> 'd option" where
  "error_source cause_source e = (case get_ref e of None \<Rightarrow> None | Some cause \<Rightarrow> cause_source cause)"

section \<open>Formatting\<close>

function decimal_bytes :: "u32 \<Rightarrow> u8 list \<Rightarrow> u8 list" where
  "decimal_bytes v acc = (if v > 0 then decimal_bytes (v div 10) ((D0 + ucast (v mod 10)) # acc) else acc)"
  by pat_completeness auto
termination by (relation "measure (\<lambda>(v, acc). unat v)") (auto simp: unat_div word_less_nat_alt)

declare decimal_bytes.simps [simp del]

definition write_decimal :: "i32 \<Rightarrow> 's formatter \<Rightarrow> 's formatter" where
  "write_decimal raw f =
    (let v = (if raw <s 0 then - raw else raw) in
     if v = 0 then snd (write_raw [D0] f)
     else snd (write_raw ((if raw <s 0 then [MINUS] else []) @ decimal_bytes v []) f))"

definition kind_display :: "error_kind \<Rightarrow> 's formatter \<Rightarrow> bool \<times> 's formatter" where
  "kind_display k f = write_raw (lit (kind_as_str k)) f"

definition io_error_display ::
  "platform \<Rightarrow> ('c \<Rightarrow> 's argument) \<Rightarrow> 'c io_error \<Rightarrow> 's formatter \<Rightarrow> bool \<times> 's formatter" where
  "io_error_display p cause_display e f =
    (case e of
       Os code \<Rightarrow>
         let f1 = snd (write_raw (lit (kind_as_str (error_kind_of p e))) f);
             f2 = snd (write_raw (lit '' (os error '') f1);
             f3 = write_decimal code f2 in
         write_raw (lit '')'') f3
     | Kind k \<Rightarrow> write_raw (lit (kind_as_str (error_kind_of p e))) f
     | Message k msg \<Rightarrow> write_raw msg f
     | Custom k cause \<Rightarrow> cause_display cause f)"

definition io_error_debug ::
  "platform \<Rightarrow> ('c \<Rightarrow> 's argument) \<Rightarrow> 'c io_error \<Rightarrow> 's formatter \<Rightarrow> bool \<times> 's formatter" where
  "io_error_debug p cause_debug e f =
    (case e of
       Os code \<Rightarrow> write_raw (lit '')'') (write_decimal code (snd (write_raw (lit ''Os('') f)))
     | Kind k \<Rightarrow> write_raw (lit '')'') (snd (kind_display (error_kind_of p e) (snd (write_raw (lit ''Kind('') f))))
     | Message k msg \<Rightarrow>
         let f1 = snd (kind_display (error_kind_of p e) (snd (write_raw (lit ''Error { kind: '') f)));
             f2 = snd (write_raw (lit '', message: '' @ [DQUOTE]) f1);
             f3 = snd (write_raw msg f2) in
         write_raw ([DQUOTE] @ lit '' }'') f3
     | Custom k cause \<Rightarrow>
         when_ok (write_str (lit ''Custom { kind: '') f) (\<lambda>f1. when_ok (kind_display (error_kind_of p e) f1) (\<lambda>f2.
           when_ok (write_str (lit '', error: '') f2) (\<lambda>f3. when_ok (cause_debug cause f3) (write_str (lit '' }''))))))"

end
