(* ===== verification/Io_Error_Facts.thy ===== *)
theory Io_Error_Facts
  imports Io_Error String_Facts
begin

text \<open>
  The display of errors of the operating system and the decoding of their numbers.
\<close>

lemma decimal_bytes_eq: "v > 0 \<Longrightarrow> decimal_bytes v acc = show_nat (unat v) @ acc"
proof (induction v acc rule: decimal_bytes.induct)
  case (1 v acc)
  have m: "unat (v mod 10) = unat v mod 10" "unat (v div 10) = unat v div 10" by (simp_all add: unat_mod unat_div)
  have d: "(ucast (v mod 10) :: u8) = of_nat (unat v mod 10)" using m(1) by (metis of_nat_unat)
  show ?case
  proof (cases "v div 10 > 0")
    case True
    then have q: "0 < unat v div 10" using m(2) by (simp add: word_less_nat_alt)
    have "decimal_bytes v acc = show_nat (unat (v div 10)) @ (D0 + ucast (v mod 10)) # acc"
      using 1 True by (subst decimal_bytes.simps) simp
    then show ?thesis using show_nat_step [OF q, of "unat v mod 10"] by (simp add: m d)
  next
    case False
    then have "unat v < 10" using m(2) by (simp add: word_less_nat_alt)
    moreover have "decimal_bytes (v div 10) acc' = acc'" for acc' using False by (subst decimal_bytes.simps) simp
    moreover have "decimal_bytes v acc = decimal_bytes (v div 10) ((D0 + ucast (v mod 10)) # acc)" using "1.prems" by (subst decimal_bytes.simps) simp
    ultimately show ?thesis by (simp add: show_nat_digit d)
  qed
qed

definition show_int :: "int \<Rightarrow> u8 list" where
  "show_int i = (if i < 0 then [MINUS] else []) @ show_nat (nat \<bar>i\<bar>)"

lemma valid_show_int: "is_valid_utf8 (show_int i)"
  using valid_append [OF valid_ascii [of MINUS] valid_digits [OF show_nat_digits [of "nat \<bar>i\<bar>"]]]
    valid_digits [OF show_nat_digits [of "nat \<bar>i\<bar>"]] by (cases "i < 0") (simp_all add: show_int_def del: abs_of_neg abs_of_nonneg)

lemma magnitude:
  "unat (if raw <s 0 then - raw else raw) = nat \<bar>sint raw\<bar>" for raw :: i32
proof (cases "raw <s 0")
  case True
  then have s: "sint raw < 0" by (simp add: word_sless_alt)
  have "(sint raw + 2 ^ 32) mod 2 ^ 32 = sint raw + 2 ^ 32" using s sint_ge [of raw] by (intro mod_pos_pos_trivial) simp_all
  then have "uint raw = sint raw + 2 ^ 32" using uint_sint [of raw] by (simp add: take_bit_eq_mod)
  moreover have "uint (- raw) = (- uint raw) mod 2 ^ 32" by (simp add: uint_word_ariths)
  ultimately have "uint (- raw) = - sint raw" using s sint_ge [of raw] by simp
  then show ?thesis using True s by (simp flip: nat_uint_eq)
next
  case False
  then have s: "0 \<le> sint raw" by (simp add: word_sless_alt)
  then have "uint raw = sint raw" using uint_sint [of raw] sint_lt [of raw] by (simp add: take_bit_eq_mod)
  then show ?thesis using False s by (simp flip: nat_uint_eq)
qed

lemma write_decimal_eq: "write_decimal raw (on_string opts s) = on_string opts (s @ show_int (sint raw))"
proof -
  let ?v = "if raw <s 0 then - raw else raw"
  have n: "raw <s 0 \<longleftrightarrow> sint raw < 0" by (simp add: word_sless_alt)
  show ?thesis
  proof (cases "?v = 0")
    case True
    then have "raw = 0" by (auto split: if_splits)
    then show ?thesis using valid_ascii [of D0] by (simp add: write_decimal_def raw_on_string show_int_def show_nat_digit)
  next
    case False
    then have "?v > 0" using word_gt_0 [of ?v] by (simp only: not_sym simp_thms)
    then have "decimal_bytes ?v [] = show_nat (nat \<bar>sint raw\<bar>)" using decimal_bytes_eq [of ?v "[]"] magnitude [of raw] by (simp only: append_Nil2)
    then have "(if raw <s 0 then [MINUS] else []) @ decimal_bytes ?v [] = show_int (sint raw)" by (simp add: show_int_def n)
    then have "write_decimal raw (on_string opts s) = snd (write_raw (show_int (sint raw)) (on_string opts s))"
      using False by (simp only: write_decimal_def Let_def if_False)
    then show ?thesis by (simp add: raw_on_string valid_show_int)
  qed
qed

section \<open>Exactness\<close>

lemma kind_text_ascii: "list_all (\<lambda>b. b < 0x80) (lit (kind_as_str k) :: u8 list)"
  by (cases k) (simp_all add: kind_as_str_def lit_def)

text \<open>C39. The display of an error of the operating system is the message of its kind and its number in
  decimal, for every 32-bit number, the smallest included, and the call succeeds.\<close>

theorem io_error_display_os:
  "io_error_display p cause_display (Os code) (on_string opts s) =
    (True, on_string opts (s @ lit (kind_as_str (decode_error_kind p code)) @ lit '' (os error '' @ show_int (sint code) @ lit '')''))"
proof -
  have "is_valid_utf8 (lit '' (os error '')" "is_valid_utf8 (lit '')'')" by (rule valid_ascii_list, simp add: lit_def)+
  then show ?thesis using valid_ascii_list [OF kind_text_ascii [of "decode_error_kind p code"]]
    by (simp add: io_error_display_def error_kind_of_def raw_on_string write_decimal_eq Let_def)
qed

text \<open>On Unix every error number the code names has its kind, when the platform gives the names
  distinct numbers (which the \<open>switch\<close> requires), and a number that none of the names has is
  uncategorized.\<close>

lemma decode_unix_exact:
  assumes "distinct (map (\<lambda>(n, k). errno n) unix_cases)"
  shows "list_all (\<lambda>(n, k). decode_unix errno has_estale has_edquot (errno n) = k) unix_cases \<and>
    decode_unix errno has_estale has_edquot code \<in>
      (if code \<in> range errno then set (map snd unix_cases) \<union> {StaleNetworkFileHandle, QuotaExceeded, Uncategorized} else {Uncategorized})"
proof -
  let ?m = "map (\<lambda>(n, k). (errno n, k)) unix_cases"
  have d: "distinct (map fst ?m)" using assms by (simp add: comp_def case_prod_unfold)
  have "decode_unix errno has_estale has_edquot (errno n) = k" if "(n, k) \<in> set unix_cases" for n k
  proof -
    have "(errno n, k) \<in> set ?m" using that by force
    then have "map_of ?m (errno n) = Some k" using d by simp
    then show ?thesis by (simp add: decode_unix_def)
  qed
  moreover have "map_of ?m code = Some k \<Longrightarrow> k \<in> set (map snd unix_cases) \<and> code \<in> range errno" for k
    by (drule map_of_SomeD) force
  moreover have "WouldBlock \<in> set (map snd unix_cases)" by (simp add: unix_cases_def)
  ultimately show ?thesis by (auto simp: list_all_iff decode_unix_def split: option.split)
qed

end
