(* ===== verification/Str_Search.thy ===== *)
theory Str_Search
  imports Text_Cursor
begin

text \<open>
  The searching methods of \<open>ref<str>\<close> (src/core/src/str/str.cppm and traits.cppm): prefixes, suffixes,
  substrings and the pieces around a pattern.  \<open>get\<close> refuses a range that splits a character; where the
  code unwraps its result, a refusal is \<open>Panics\<close>.
\<close>

section \<open>Methods\<close>

definition starts_with :: "u8 list \<Rightarrow> u8 list \<Rightarrow> bool" where
  "starts_with s pattern =
    (if pattern = [] then True
     else if length pattern > length s then False
     else list_all (\<lambda>i. s ! i = pattern ! i) [0 ..< length pattern])"

definition ends_with :: "u8 list \<Rightarrow> u8 list \<Rightarrow> bool" where
  "ends_with s pattern =
    (if pattern = [] then True
     else if length pattern > length s then False
     else
       let offset = length s - length pattern in
       list_all (\<lambda>i. s ! (offset + i) = pattern ! i) [0 ..< length pattern])"

definition str_contains :: "u8 list \<Rightarrow> u8 list \<Rightarrow> bool" where
  "str_contains s pattern =
    (if pattern = [] then True
     else if length pattern > length s then False
     else
       let limit = length s - length pattern in
       list_ex (\<lambda>i. list_all (\<lambda>j. s ! (i + j) = pattern ! j) [0 ..< length pattern]) [0 ..< limit + 1])"

definition str_find :: "u8 list \<Rightarrow> u8 list \<Rightarrow> nat option" where
  "str_find s pattern =
    (if pattern = [] then Some 0
     else if length pattern > length s then None
     else
       let limit = length s - length pattern in
       List.find (\<lambda>i. starts_with (drop i s) pattern) [0 ..< limit + 1])"

definition str_rfind :: "u8 list \<Rightarrow> u8 list \<Rightarrow> nat option" where
  "str_rfind s pattern =
    (if pattern = [] then Some (length s)
     else if length pattern > length s then None
     else
       let limit = length s - length pattern in
       List.find (\<lambda>i. starts_with (drop i s) pattern) (rev [0 ..< limit + 1]))"

definition str_get :: "u8 list \<Rightarrow> nat \<Rightarrow> nat \<Rightarrow> (u8 list) option" where
  "str_get s start stop =
    (if start > stop \<or> stop > length s then None
     else if \<not> is_char_boundary s start \<or> \<not> is_char_boundary s stop then None
     else Some (take (stop - start) (drop start s)))"

definition strip_prefix :: "u8 list \<Rightarrow> u8 list \<Rightarrow> (u8 list) option" where
  "strip_prefix s pattern = (if \<not> starts_with s pattern then None else str_get s (length pattern) (length s))"

definition strip_suffix :: "u8 list \<Rightarrow> u8 list \<Rightarrow> (u8 list) option" where
  "strip_suffix s pattern = (if \<not> ends_with s pattern then None else str_get s 0 (length s - length pattern))"

definition split_at :: "u8 list \<Rightarrow> u8 list \<Rightarrow> nat option \<Rightarrow> ('e failure, (u8 list \<times> u8 list) option) result" where
  "split_at s pattern offset =
    (case offset of
       None \<Rightarrow> Ok None
     | Some i \<Rightarrow>
        (case (str_get s 0 i, str_get s (i + length pattern) (length s)) of
           (Some left, Some right) \<Rightarrow> Ok (Some (left, right))
         | _ \<Rightarrow> Err Panics))"

definition split_once :: "u8 list \<Rightarrow> u8 list \<Rightarrow> ('e failure, (u8 list \<times> u8 list) option) result" where
  "split_once s pattern = split_at s pattern (str_find s pattern)"

definition rsplit_once :: "u8 list \<Rightarrow> u8 list \<Rightarrow> ('e failure, (u8 list \<times> u8 list) option) result" where
  "rsplit_once s pattern = split_at s pattern (str_rfind s pattern)"

section \<open>What they compute\<close>

lemma starts_with_iff: "starts_with s pattern \<longleftrightarrow> take (length pattern) s = pattern"
proof (cases "length pattern \<le> length s")
  case True
  have "(\<forall>i < length pattern. s ! i = pattern ! i) \<longleftrightarrow> take (length pattern) s = pattern"
    using True by (simp add: list_eq_iff_nth_eq)
  then show ?thesis using True by (auto simp: starts_with_def list_all_iff)
next
  case False
  then show ?thesis by (auto simp: starts_with_def dest: arg_cong [of _ _ length])
qed

lemma ends_with_append: "ends_with (s @ pattern) pattern"
  by (auto simp: ends_with_def list_all_iff nth_append)

definition ascii :: "u8 list \<Rightarrow> bool" where
  "ascii s \<longleftrightarrow> list_all (\<lambda>b. unat b < 128) s"

lemma ascii_boundary: "ascii s \<Longrightarrow> i \<le> length s \<Longrightarrow> is_char_boundary s i"
  by (auto simp: ascii_def is_char_boundary_def list_all_length ascii_unit)

lemma ascii_append [simp]: "ascii (xs @ ys) \<longleftrightarrow> ascii xs \<and> ascii ys"
  by (simp add: ascii_def)

lemma ascii_Cons [simp]: "ascii (x # xs) \<longleftrightarrow> unat x < 128 \<and> ascii xs" "ascii []"
  by (simp_all add: ascii_def)

lemma str_get_ascii: "ascii s \<Longrightarrow> b \<le> e \<Longrightarrow> e \<le> length s \<Longrightarrow> str_get s b e = Some (take (e - b) (drop b s))"
  by (simp add: str_get_def ascii_boundary)

lemma find_upt_None: "(\<And>i. i < n \<Longrightarrow> \<not> P i) \<Longrightarrow> List.find P [0 ..< n] = None"
  by (auto simp: find_None_iff)

lemma find_upt_first: "k < n \<Longrightarrow> P k \<Longrightarrow> (\<And>i. i < k \<Longrightarrow> \<not> P i) \<Longrightarrow> List.find P [0 ..< n] = Some k"
  by (auto simp: find_Some_iff intro!: exI [of _ k])

lemma find_rev_last: "k < n \<Longrightarrow> P k \<Longrightarrow> (\<And>i. k < i \<Longrightarrow> i < n \<Longrightarrow> \<not> P i) \<Longrightarrow> List.find P (rev [0 ..< n]) = Some k"
  by (auto simp: find_Some_iff rev_nth intro!: exI [of _ "n - Suc k"])

text \<open>The first and the last occurrence of a single byte.\<close>

lemma starts_with_single: "starts_with s [b] \<longleftrightarrow> s \<noteq> [] \<and> hd s = b"
  by (cases s) (auto simp: starts_with_iff)

lemma starts_at: "i < length s \<Longrightarrow> starts_with (drop i s) [b] \<longleftrightarrow> s ! i = b"
  by (simp add: starts_with_single hd_drop_conv_nth)

lemma split_once_byte:
  assumes "ascii (left @ b # right)" "b \<notin> set left"
  shows "split_once (left @ b # right) [b] = Ok (Some (left, right))"
proof -
  let ?s = "left @ b # right"
  have "List.find (\<lambda>i. starts_with (drop i ?s) [b]) [0 ..< length ?s] = Some (length left)"
  proof (rule find_upt_first)
    show "\<not> starts_with (drop i ?s) [b]" if "i < length left" for i
      using that assms(2) starts_at [of i ?s b] nth_mem [OF that] by (auto simp: nth_append)
  qed (simp_all add: starts_with_single)
  then have "str_find ?s [b] = Some (length left)" by (simp add: str_find_def del: upt_Suc)
  then show ?thesis using assms(1) by (simp add: split_once_def split_at_def str_get_ascii)
qed

lemma split_once_none: "b \<notin> set s \<Longrightarrow> split_once s [b] = Ok None"
proof -
  assume b: "b \<notin> set s"
  have "List.find (\<lambda>i. starts_with (drop i s) [b]) [0 ..< length s] = None"
    by (rule find_upt_None) (use b starts_at nth_mem in metis)
  then have "str_find s [b] = None" by (cases s) (simp_all add: str_find_def del: upt_Suc)
  then show ?thesis by (simp add: split_once_def split_at_def)
qed

lemma rsplit_once_byte:
  assumes "ascii (left @ b # right)" "b \<notin> set right"
  shows "rsplit_once (left @ b # right) [b] = Ok (Some (left, right))"
proof -
  let ?s = "left @ b # right"
  have "List.find (\<lambda>i. starts_with (drop i ?s) [b]) (rev [0 ..< length ?s]) = Some (length left)"
  proof (rule find_rev_last)
    show "\<not> starts_with (drop i ?s) [b]" if i: "length left < i" "i < length ?s" for i
    proof -
      have "?s ! i = right ! (i - Suc (length left))" using i by (simp add: nth_append nth_Cons')
      moreover have "i - Suc (length left) < length right" using i by simp
      ultimately have "?s ! i \<noteq> b" using assms(2) by (metis nth_mem)
      then show ?thesis using starts_at [OF i(2)] by blast
    qed
  qed (simp_all add: starts_with_single)
  then have "str_rfind ?s [b] = Some (length left)" by (simp add: str_rfind_def del: upt_Suc)
  then show ?thesis using assms(1) by (simp add: rsplit_once_def split_at_def str_get_ascii)
qed

text \<open>The first occurrence of two colons after text without two colons in a row.\<close>

lemma split_once_pair:
  assumes "ascii (left @ [b, b] @ right)" "\<And>i. Suc i < length (left @ [b]) \<Longrightarrow> \<not> ((left @ [b]) ! i = b \<and> (left @ [b]) ! Suc i = b)"
  shows "split_once (left @ [b, b] @ right) [b, b] = Ok (Some (left, right))"
proof -
  let ?s = "left @ [b, b] @ right"
  have d: "starts_with (drop i ?s) [b, b] \<longleftrightarrow> ?s ! i = b \<and> ?s ! Suc i = b" if "Suc i < length ?s" for i
  proof -
    have "drop i ?s = ?s ! i # ?s ! Suc i # drop (Suc (Suc i)) ?s" using that by (simp add: Cons_nth_drop_Suc del: drop_append)
    then show ?thesis by (simp add: starts_with_iff del: drop_append)
  qed
  have "List.find (\<lambda>i. starts_with (drop i ?s) [b, b]) [0 ..< Suc (length left + length right)] = Some (length left)"
  proof (rule find_upt_first)
    show "\<not> starts_with (drop i ?s) [b, b]" if "i < length left" for i
      using that d [of i] assms(2) [of i] by (auto simp: nth_append nth_Cons')
  qed (simp_all add: starts_with_iff)
  then have "str_find ?s [b, b] = Some (length left)" by (simp add: str_find_def del: upt_Suc)
  then show ?thesis using assms(1) by (simp add: split_once_def split_at_def str_get_ascii)
qed

lemma split_once_pair_none:
  assumes "\<And>i. Suc i < length s \<Longrightarrow> \<not> (s ! i = b \<and> s ! Suc i = b)"
  shows "split_once s [b, b] = Ok None"
proof -
  have d: "\<not> starts_with (drop i s) [b, b]" if "Suc i < length s" for i
  proof -
    have "drop i s = s ! i # s ! Suc i # drop (Suc (Suc i)) s" using that by (simp add: Cons_nth_drop_Suc)
    then show ?thesis using assms [OF that] by (simp add: starts_with_iff)
  qed
  have "List.find (\<lambda>i. starts_with (drop i s) [b, b]) [0 ..< length s - 1] = None"
    by (rule find_upt_None) (use d in simp)
  then have "str_find s [b, b] = None"
    by (cases s; cases "tl s") (auto simp: str_find_def simp del: upt_Suc)
  then show ?thesis by (simp add: split_once_def split_at_def)
qed

end
