(* ===== verification/Socket_Addr.thy ===== *)
theory Socket_Addr
  imports Str_Search String_Facts
begin

text \<open>
  Network addresses (src/std/src/net/socket_addr.cppm and socket_addr.cpp): the parsers of IPv4, IPv6 and
  socket addresses and the output of addresses.  An array is a list of its length; a loop that writes into
  an array updates the list.  The parsers return \<open>None\<close> inside \<open>Ok\<close> where the code returns \<open>None()\<close> or false.
\<close>

section \<open>Addresses\<close>

datatype addr_parse_error = InvalidAddr | InvalidIp

record ipv4_addr =
  v4_octets :: "u8 list"

record ipv6_addr =
  v6_octets :: "u8 list"

datatype addr_kind = V4 | V6

record socket_addr =
  sa_kind :: addr_kind
  sa_octets :: "u8 list"
  sa_port :: u16
  sa_flowinfo :: u32
  sa_scope_id :: u32

definition ipv4_make :: "u8 \<Rightarrow> u8 \<Rightarrow> u8 \<Rightarrow> u8 \<Rightarrow> ipv4_addr" where
  "ipv4_make a b c d = \<lparr>v4_octets = [a, b, c, d]\<rparr>"

fun group_octets :: "u16 list \<Rightarrow> u8 list" where
  "group_octets [] = []"
| "group_octets (g # gs) = ucast (drop_bit 8 g) # ucast g # group_octets gs"

definition ipv6_make :: "u16 list \<Rightarrow> ipv6_addr" where
  "ipv6_make parts = \<lparr>v6_octets = group_octets parts\<rparr>"

definition socket_ipv4 :: "ipv4_addr \<Rightarrow> u16 \<Rightarrow> socket_addr" where
  "socket_ipv4 ip port =
    \<lparr>sa_kind = V4, sa_octets = v4_octets ip @ replicate 12 0, sa_port = port, sa_flowinfo = 0, sa_scope_id = 0\<rparr>"

definition socket_ipv6 :: "ipv6_addr \<Rightarrow> u16 \<Rightarrow> u32 \<Rightarrow> u32 \<Rightarrow> socket_addr" where
  "socket_ipv6 ip port flowinfo scope_id =
    \<lparr>sa_kind = V6, sa_octets = v6_octets ip, sa_port = port, sa_flowinfo = flowinfo, sa_scope_id = scope_id\<rparr>"

definition with_port :: "u16 \<Rightarrow> socket_addr \<Rightarrow> socket_addr" where
  "with_port port a = a\<lparr>sa_port := port\<rparr>"

definition is_loopback :: "socket_addr \<Rightarrow> bool" where
  "is_loopback a =
    (if sa_kind a = V4 then sa_octets a ! 0 = 127
     else list_all (\<lambda>i. sa_octets a ! i = 0) [0 ..< 15] \<and> sa_octets a ! 15 = 1)"

definition ipv4_address :: "socket_addr \<Rightarrow> ipv4_addr option" where
  "ipv4_address a =
    (if sa_kind a \<noteq> V4 then None
     else Some (ipv4_make (sa_octets a ! 0) (sa_octets a ! 1) (sa_octets a ! 2) (sa_octets a ! 3)))"

definition octet_word :: "socket_addr \<Rightarrow> nat \<Rightarrow> u16" where
  "octet_word a i = push_bit 8 (ucast (sa_octets a ! i)) OR ucast (sa_octets a ! (i + 1))"

definition ipv6_address :: "socket_addr \<Rightarrow> ipv6_addr option" where
  "ipv6_address a =
    (if sa_kind a \<noteq> V6 then None else Some (ipv6_make (map (octet_word a) [0, 2, 4, 6, 8, 10, 12, 14])))"

section \<open>Parsing\<close>

definition address_digit :: "u8 \<Rightarrow> u32" where
  "address_digit c =
    (if c \<ge> D0 \<and> c \<le> D9 then ucast (c - D0)
     else if c \<ge> 0x61 \<and> c \<le> 0x66 then ucast (c - 0x61) + 10
     else if c \<ge> 0x41 \<and> c \<le> 0x46 then ucast (c - 0x41) + 10
     else 99)"

fun address_number_loop :: "u32 \<Rightarrow> u32 \<Rightarrow> u8 list \<Rightarrow> u32 \<Rightarrow> u32 option" where
  "address_number_loop radix maximum [] number = Some number"
| "address_number_loop radix maximum (c # cs) number =
    (let digit = address_digit c in
     if digit \<ge> radix \<or> number > (maximum - digit) div radix then None
     else address_number_loop radix maximum cs (number * radix + digit))"

definition address_number :: "u8 list \<Rightarrow> u32 \<Rightarrow> u32 \<Rightarrow> u32 option" where
  "address_number txt radix maximum = (if txt = [] then None else address_number_loop radix maximum txt 0)"

type_synonym 'a addr_result = "(addr_parse_error failure, 'a) result"

text \<open>The bytes read so far, for the indices that are left.\<close>

fun address_ipv4_loop :: "nat list \<Rightarrow> u8 list \<Rightarrow> u8 list \<Rightarrow> (u8 list option) addr_result" where
  "address_ipv4_loop [] bytes txt = Ok (Some bytes)"
| "address_ipv4_loop (i # is) bytes txt = and_then (split_once txt [DOT]) (\<lambda>split.
     if (i < 3) \<noteq> (split \<noteq> None) then Ok None
     else
       let part = (case split of Some (left, right) \<Rightarrow> left | None \<Rightarrow> txt) in
       if length part > 1 \<and> starts_with part [D0] then Ok None
       else case address_number part 10 255 of
         None \<Rightarrow> Ok None
       | Some number \<Rightarrow>
           address_ipv4_loop is (bytes[i := ucast number]) (case split of Some (left, right) \<Rightarrow> right | None \<Rightarrow> txt))"

definition address_ipv4 :: "u8 list \<Rightarrow> (u8 list option) addr_result" where
  "address_ipv4 txt = address_ipv4_loop [0, 1, 2, 3] [0, 0, 0, 0] txt"

text \<open>One part of an IPv6 address: the groups and their number behind it.\<close>

definition ipv6_group :: "u8 list \<Rightarrow> bool \<Rightarrow> bool \<Rightarrow> u16 list \<Rightarrow> nat \<Rightarrow> ((u16 list \<times> nat) option) addr_result" where
  "ipv6_group part split ipv4 groups count =
    (if str_contains part [DOT] then
       if \<not> ipv4 \<or> split \<or> count > 6 then Ok None
       else and_then (address_ipv4 part) (\<lambda>b.
         case b of
           None \<Rightarrow> Ok None
         | Some bytes \<Rightarrow>
             Ok (Some (groups[count := ucast (bytes ! 0) * 256 + ucast (bytes ! 1),
                              count + 1 := ucast (bytes ! 2) * 256 + ucast (bytes ! 3)], count + 2)))
     else if length part > 4 \<or> count \<ge> 8 then Ok None
     else case address_number part 16 65535 of
       None \<Rightarrow> Ok None
     | Some number \<Rightarrow> Ok (Some (groups[count := ucast number], count + 1)))"

lemma split_once_shorter: "split_once s [b] = Ok (Some (left, right)) \<Longrightarrow> length right < length s"
  by (auto simp: split_once_def split_at_def str_get_def str_find_def find_Some_iff split: option.splits if_splits)

function ipv6_part_loop :: "u8 list \<Rightarrow> bool \<Rightarrow> u16 list \<Rightarrow> nat \<Rightarrow> ((u16 list \<times> nat) option) addr_result" where
  "ipv6_part_loop txt ipv4 groups count = and_then (split_once txt [COLON]) (\<lambda>split.
     and_then (ipv6_group (case split of Some (left, right) \<Rightarrow> left | None \<Rightarrow> txt) (split \<noteq> None) ipv4 groups count) (\<lambda>r.
       case r of
         None \<Rightarrow> Ok None
       | Some (groups1, count1) \<Rightarrow>
          (case split of
             None \<Rightarrow> Ok (Some (groups1, count1))
           | Some (left, right) \<Rightarrow> if right = [] then Ok None else ipv6_part_loop right ipv4 groups1 count1)))"
  by pat_completeness auto
termination by (relation "measure (\<lambda>(txt, ipv4, groups, count). length txt)") (auto dest: split_once_shorter)

declare ipv6_part_loop.simps [simp del]

definition address_ipv6_part :: "u8 list \<Rightarrow> u16 list \<Rightarrow> nat \<Rightarrow> bool \<Rightarrow> ((u16 list \<times> nat) option) addr_result" where
  "address_ipv6_part txt groups count ipv4 =
    (if txt = [] then Ok (Some (groups, count)) else ipv6_part_loop txt ipv4 groups count)"

definition ipv4_parse :: "u8 list \<Rightarrow> ipv4_addr addr_result" where
  "ipv4_parse txt = and_then (address_ipv4 txt) (\<lambda>b.
     case b of
       None \<Rightarrow> Err (Fails InvalidIp)
     | Some bytes \<Rightarrow> Ok (ipv4_make (bytes ! 0) (bytes ! 1) (bytes ! 2) (bytes ! 3)))"

fun copy_tail :: "nat list \<Rightarrow> nat \<Rightarrow> u16 list \<Rightarrow> u16 list \<Rightarrow> u16 list" where
  "copy_tail [] tail_count tail1 groups = groups"
| "copy_tail (i # is) tail_count tail1 groups =
    copy_tail is tail_count tail1 (groups[8 - tail_count + i := tail1 ! i])"

definition ipv6_parse :: "u8 list \<Rightarrow> ipv6_addr addr_result" where
  "ipv6_parse txt = and_then (split_once txt [COLON, COLON]) (\<lambda>compressed.
     case compressed of
       Some (left, right) \<Rightarrow>
         and_then (address_ipv6_part left (replicate 8 0) 0 False) (\<lambda>h.
           case h of
             None \<Rightarrow> Err (Fails InvalidIp)
           | Some (groups, count) \<Rightarrow> and_then (address_ipv6_part right (replicate 8 0) 0 True) (\<lambda>t.
               case t of
                 None \<Rightarrow> Err (Fails InvalidIp)
               | Some (tail1, tail_count) \<Rightarrow>
                   if count + tail_count \<ge> 8 then Err (Fails InvalidIp)
                   else Ok (ipv6_make (copy_tail [0 ..< tail_count] tail_count tail1 groups))))
     | None \<Rightarrow> and_then (address_ipv6_part txt (replicate 8 0) 0 True) (\<lambda>h.
         case h of
           None \<Rightarrow> Err (Fails InvalidIp)
         | Some (groups, count) \<Rightarrow> if count \<noteq> 8 then Err (Fails InvalidIp) else Ok (ipv6_make groups)))"

text \<open>An error of the address inside is the error of the whole; a panic is not caught.\<close>

definition or_invalid :: "'a addr_result \<Rightarrow> 'a addr_result" where
  "or_invalid r = (case r of Err (Fails e) \<Rightarrow> Err (Fails InvalidAddr) | _ \<Rightarrow> r)"

definition strip_brackets :: "u8 list \<Rightarrow> (u8 list) addr_result" where
  "strip_brackets host =
    (case strip_prefix host [LBRACK] of
       None \<Rightarrow> Err Panics
     | Some h \<Rightarrow> (case strip_suffix h [RBRACK] of None \<Rightarrow> Err Panics | Some h2 \<Rightarrow> Ok h2))"

definition split_scope :: "u8 list \<Rightarrow> (u8 list \<times> u32) addr_result" where
  "split_scope host = and_then (split_once host [0x25]) (\<lambda>split.
     case split of
       None \<Rightarrow> Ok (host, 0)
     | Some (left, right) \<Rightarrow>
        (case address_number right 10 0xFFFFFFFF of
           None \<Rightarrow> Err (Fails InvalidAddr)
         | Some scope \<Rightarrow> Ok (left, scope)))"

definition socket_parse :: "u8 list \<Rightarrow> socket_addr addr_result" where
  "socket_parse txt = and_then (rsplit_once txt [COLON]) (\<lambda>separator.
     case separator of
       None \<Rightarrow> Err (Fails InvalidAddr)
     | Some (host, port_text) \<Rightarrow>
        (case address_number port_text 10 65535 of
           None \<Rightarrow> Err (Fails InvalidAddr)
         | Some port \<Rightarrow>
             if \<not> starts_with host [LBRACK] then
               and_then (or_invalid (ipv4_parse host)) (\<lambda>address. Ok (socket_ipv4 address (ucast port)))
             else if \<not> ends_with host [RBRACK] then Err (Fails InvalidAddr)
             else and_then (strip_brackets host) (\<lambda>inner. and_then (split_scope inner) (\<lambda>(host1, scope).
               and_then (or_invalid (ipv6_parse host1)) (\<lambda>address. Ok (socket_ipv6 address (ucast port) 0 scope))))))"

section \<open>Output\<close>

fun octet_groups :: "u8 list \<Rightarrow> u16 list" where
  "octet_groups (a # b # rest) = (ucast a * 256 + ucast b) # octet_groups rest"
| "octet_groups _ = []"

function zero_run :: "u16 list \<Rightarrow> nat \<Rightarrow> nat" where
  "zero_run groups i = (if i < 8 \<and> groups ! i = 0 then zero_run groups (i + 1) else i)"
  by pat_completeness auto
termination by (relation "measure (\<lambda>(groups, i). 8 - i)") auto

declare zero_run.simps [simp del]

lemma zero_run_le: "i \<le> zero_run groups i"
proof (induction groups i rule: zero_run.induct)
  case (1 groups i)
  then show ?case by (subst zero_run.simps) auto
qed

lemma zero_run_less: "i < 8 \<Longrightarrow> groups ! i = 0 \<Longrightarrow> i < zero_run groups i"
  using zero_run_le [of "i + 1" groups] by (subst zero_run.simps) auto

text \<open>The longest run of zeros of two groups or more, the first one of that length: where it starts and
  its length, or 8 and 0.\<close>

function best_run :: "u16 list \<Rightarrow> nat \<Rightarrow> nat \<Rightarrow> nat \<Rightarrow> nat \<times> nat" where
  "best_run groups i best len =
    (if i < 8 then
       if groups ! i \<noteq> 0 then best_run groups (i + 1) best len
       else
         let stop = zero_run groups i in
         if stop - i > len \<and> stop - i \<ge> 2 then best_run groups stop i (stop - i) else best_run groups stop best len
     else (best, len))"
  by pat_completeness auto
termination
  by (relation "measure (\<lambda>(groups, i, best, len). 8 - i)") (auto dest: zero_run_less intro: diff_less_mono2)

declare best_run.simps [simp del]

text \<open>The loop that writes the groups; a step with an empty run would not end, so the loop has fuel.\<close>

fun groups_loop :: "nat \<Rightarrow> u16 list \<Rightarrow> nat \<Rightarrow> nat \<Rightarrow> nat \<Rightarrow> 's formatter \<Rightarrow> (bool \<times> 's formatter) option" where
  "groups_loop 0 groups best len i f = None"
| "groups_loop (Suc fuel) groups best len i f =
    (if i \<ge> 8 then Some (True, f)
     else if i = best then
       (case write_str (lit ''::'') f of (ok, f1) \<Rightarrow>
          if \<not> ok then Some (False, f1) else groups_loop fuel groups best len (i + len) f1)
     else
       (case (if i \<noteq> 0 \<and> i \<noteq> best + len then write_str (lit '':'') f else (True, f)) of (ok, f1) \<Rightarrow>
          if \<not> ok then Some (False, f1)
          else case write_fmt (lit ''{:x}'') [unsigned_argument (ucast (groups ! i))] f1 of (ok2, f2) \<Rightarrow>
            if \<not> ok2 then Some (False, f2) else groups_loop fuel groups best len (i + 1) f2))"

definition format_ip :: "socket_addr \<Rightarrow> 's formatter \<Rightarrow> (bool \<times> 's formatter) option" where
  "format_ip a f =
    (if sa_kind a = V4 then
       Some (write_fmt (lit ''{}.{}.{}.{}'') (map (\<lambda>b. unsigned_argument (ucast b)) (take 4 (sa_octets a))) f)
     else
       let groups = octet_groups (sa_octets a);
           (best, len) = best_run groups 0 8 0 in
       case groups_loop 9 groups best len 0 f of
         None \<Rightarrow> None
       | Some (ok, f1) \<Rightarrow>
           if \<not> ok then Some (False, f1)
           else if sa_scope_id a \<noteq> 0 then Some (write_fmt (lit ''%{}'') [unsigned_argument (sa_scope_id a)] f1)
           else Some (True, f1))"

definition format_address :: "socket_addr \<Rightarrow> 's formatter \<Rightarrow> (bool \<times> 's formatter) option" where
  "format_address a f =
    (case (if sa_kind a = V6 then write_str (lit ''['') f else (True, f)) of (ok, f1) \<Rightarrow>
       if \<not> ok then Some (False, f1)
       else case format_ip a f1 of
         None \<Rightarrow> None
       | Some (ok2, f2) \<Rightarrow>
           if \<not> ok2 then Some (False, f2)
           else Some (write_fmt (lit (if sa_kind a = V6 then '']:{}'' else '':{}'')) [unsigned_argument (ucast (sa_port a))] f2))"

text \<open>\<open>to_string\<close> of an address.\<close>

definition address_text :: "socket_addr \<Rightarrow> (u8 list) option" where
  "address_text a =
    (case format_address a (string_formatter []) of Some (True, f) \<Rightarrow> Some (f_sink f) | _ \<Rightarrow> None)"

end
