(* ===== verification/Socket_Addr_Facts.thy ===== *)
theory Socket_Addr_Facts
  imports Socket_Addr
begin

text \<open>
  The output of a network address parses back to the address.
\<close>

section \<open>Digits\<close>

definition hex_digit :: "nat \<Rightarrow> u8" where
  "hex_digit k = lit ''0123456789abcdef'' ! k"

fun show_hex :: "nat \<Rightarrow> u8 list" where
  "show_hex n = (if n < 16 then [] else show_hex (n div 16)) @ [hex_digit (n mod 16)]"

declare show_hex.simps [simp del]

lemma less_16: "k < 16 \<longleftrightarrow> k \<in> {0, 1, 2, 3, 4, 5, 6, 7, 8, 9, 10, 11, 12, 13, 14, 15 :: nat}"
  unfolding insert_iff empty_iff by presburger

lemma hex_digit_value: "k < 16 \<Longrightarrow> address_digit (hex_digit k) = of_nat k"
  unfolding less_16 by (auto simp: hex_digit_def lit_def address_digit_def)

lemma decimal_digit_value: "k < 10 \<Longrightarrow> address_digit (D0 + of_nat k) = of_nat k"
  using less_16 [of k] by (auto simp: address_digit_def)

lemma hex_digit_alnum: "k < 16 \<Longrightarrow> is_alnum (hex_digit k)"
  unfolding less_16 by (auto simp: hex_digit_def lit_def is_alnum_def is_alpha_def is_digit_def)

lemma decimal_digit_alnum: "k < 10 \<Longrightarrow> is_alnum (D0 + of_nat k)"
  using less_16 [of k] by (auto simp: is_alnum_def is_alpha_def is_digit_def)

lemma show_hex_alnum: "list_all is_alnum (show_hex n)"
proof (induction n rule: show_hex.induct)
  case (1 n)
  then show ?case by (subst show_hex.simps) (simp add: hex_digit_alnum)
qed

lemma show_nat_alnum: "list_all is_alnum (show_nat n)"
proof (induction n rule: show_nat.induct)
  case (1 n)
  then show ?case by (subst show_nat.simps) (simp add: decimal_digit_alnum)
qed

lemma alnum_ascii: "list_all is_alnum s \<Longrightarrow> ascii s"
  by (auto simp: ascii_def is_alnum_def is_alpha_def is_digit_def word_le_nat_alt list_all_iff)

lemma alnum_not_in:
  assumes "list_all is_alnum s"
  shows "DOT \<notin> set s" "COLON \<notin> set s" "0x25 \<notin> set s" "LBRACK \<notin> set s" "RBRACK \<notin> set s"
  using assms by (auto simp: list_all_iff is_alnum_def is_alpha_def is_digit_def)

lemma show_not_Nil [simp]: "show_hex n \<noteq> []" "show_nat n \<noteq> []"
  by (subst show_hex.simps, simp) (subst show_nat.simps, simp)

lemma radix_text_hex: "radix_text LowerHex n = show_hex n"
proof (induction n rule: show_hex.induct)
  case (1 n)
  then show ?case by (subst radix_text.simps, subst show_hex.simps) (simp add: hex_table_def hex_digit_def)
qed

section \<open>Numbers\<close>

lemma number_loop_append:
  "address_number_loop r m (xs @ ys) v = (case address_number_loop r m xs v of None \<Rightarrow> None | Some w \<Rightarrow> address_number_loop r m ys w)"
  by (induction xs arbitrary: v) (auto simp: Let_def)

lemma number_of_digits:
  assumes S: "\<And>n. S n = (if n < r then [] else S (n div r)) @ [dg (n mod r)]"
    and d: "\<And>k. k < r \<Longrightarrow> address_digit (dg k) = of_nat k" and r: "2 \<le> r" "r \<le> 16"
  shows "n \<le> unat m \<Longrightarrow> r \<le> unat m \<Longrightarrow> address_number_loop (of_nat r) m (S n) 0 = Some (of_nat n)"
proof (induction n rule: less_induct)
  case (less n)
  have u: "unat (of_nat r :: u32) = r" "unat (of_nat (n mod r) :: u32) = n mod r" "unat (of_nat (n div r) :: u32) = n div r"
  proof -
    have "n mod r < r" "n div r \<le> n" using r by simp_all
    then have "n mod r < 2 ^ 32" "n div r < 2 ^ 32" "r < 2 ^ 32" using r less.prems unat_lt_32 [of m] by linarith+
    then show "unat (of_nat r :: u32) = r" "unat (of_nat (n mod r) :: u32) = n mod r" "unat (of_nat (n div r) :: u32) = n div r"
      by (simp_all add: unat_of_nat)
  qed
  have lt: "n mod r < r" using r by simp
  have le: "(of_nat (n mod r) :: u32) \<le> m" using u lt less.prems by (simp add: word_le_nat_alt)
  have q: "\<not> (of_nat (n div r) :: u32) > (m - of_nat (n mod r)) div of_nat r"
  proof -
    have "n div r = (n - n mod r) div r" using r by (simp add: minus_mod_eq_mult_div)
    also have "\<dots> \<le> (unat m - n mod r) div r" by (rule div_le_mono) (use less.prems in simp)
    finally show ?thesis using u le by (simp add: word_less_nat_alt unat_div unat_sub not_less)
  qed
  have last: "address_number_loop (of_nat r) m [dg (n mod r)] (of_nat (n div r)) = Some (of_nat n)"
  proof -
    have "(of_nat (n div r) * of_nat r + of_nat (n mod r) :: u32) = of_nat (n div r * r + n mod r)" by (simp only: of_nat_add of_nat_mult)
    also have "\<dots> = of_nat n" by (simp only: div_mult_mod_eq)
    finally have "(of_nat (n div r) * of_nat r + of_nat (n mod r) :: u32) = of_nat n" .
    then show ?thesis using d [OF lt] u lt q by (simp add: Let_def word_le_nat_alt not_le)
  qed
  show ?case
  proof (cases "n < r")
    case True
    then show ?thesis using last by (subst S) simp
  next
    case False
    have "address_number_loop (of_nat r) m (S (n div r)) 0 = Some (of_nat (n div r))"
      using less.IH [of "n div r"] r less.prems False div_le_dividend [of n r] by (simp add: div_less_dividend)
    then show ?thesis using last False by (subst S) (simp add: number_loop_append)
  qed
qed

lemma number_decimal: "n \<le> unat m \<Longrightarrow> 10 \<le> unat m \<Longrightarrow> address_number (show_nat n) 10 m = Some (of_nat n)"
  using number_of_digits [of show_nat 10 "\<lambda>k. D0 + of_nat k" n m] show_nat.simps decimal_digit_value
  by (simp add: address_number_def)

lemma number_hex: "n \<le> unat m \<Longrightarrow> 16 \<le> unat m \<Longrightarrow> address_number (show_hex n) 16 m = Some (of_nat n)"
  using number_of_digits [of show_hex 16 hex_digit n m] show_hex.simps hex_digit_value by (simp add: address_number_def)

lemma hex_length: "n < 65536 \<Longrightarrow> length (show_hex n) \<le> 4"
  by (subst show_hex.simps, subst show_hex.simps, subst show_hex.simps, subst show_hex.simps)
    (simp add: div_less_iff_less_mult flip: div_mult2_eq)

lemma decimal_first: "0 < n \<Longrightarrow> hd (show_nat n) \<noteq> D0"
proof (induction n rule: show_nat.induct)
  case (1 n)
  show ?case
  proof (cases "n < 10")
    case True
    then show ?thesis using 1(2) less_16 [of n] by (auto simp: show_nat_digit)
  next
    case False
    then show ?thesis using 1 by (subst show_nat.simps) (simp add: div_greater_zero_iff)
  qed
qed

lemma decimal_no_leading: "\<not> (length (show_nat n) > 1 \<and> starts_with (show_nat n) [D0])"
  using decimal_first [of n] by (cases "n = 0") (auto simp: starts_with_single show_nat_digit)

section \<open>Output of numbers\<close>

lemma spec_simps:
  "o_presentation no_options = Display" "o_presentation (parse_spec (lit ''x'')) = LowerHex"
  "o_fill no_options < 0x80" "o_fill (parse_spec (lit ''x'')) < 0x80"
  "number_text no_options sign ds = sign @ ds" "number_text (parse_spec (lit ''x'')) sign ds = sign @ ds"
  "has_flag SIGN_PLUS no_options = False" "has_flag SIGN_PLUS (parse_spec (lit ''x'')) = False"
  "has_flag ALTERNATE (parse_spec (lit ''x'')) = False"
proof -
  show "o_presentation no_options = Display" "o_presentation (parse_spec (lit ''x'')) = LowerHex"
    "o_fill no_options < 0x80" "o_fill (parse_spec (lit ''x'')) < 0x80" "has_flag SIGN_PLUS no_options = False"
    "has_flag SIGN_PLUS (parse_spec (lit ''x'')) = False" "has_flag ALTERNATE (parse_spec (lit ''x'')) = False" by code_simp+
  have "has_flag HAS_WIDTH no_options = False" "has_flag HAS_WIDTH (parse_spec (lit ''x'')) = False"
    "has_flag ZERO_PAD no_options = False" "has_flag ZERO_PAD (parse_spec (lit ''x'')) = False" by code_simp+
  then show "number_text no_options sign ds = sign @ ds" "number_text (parse_spec (lit ''x'')) sign ds = sign @ ds"
    by (simp_all add: number_text_def)
qed

lemma decimal_argument: "unsigned_argument v (on_string no_options s) = (True, on_string no_options (s @ show_nat (unat v)))"
proof -
  have "unat (ucast v :: u64) = unat v" using unat_lt_32 [of v] by (simp add: unat_ucast_mod)
  then show ?thesis using decimal_on_string [OF spec_simps(3), of "ucast v" False s] by (simp add: unsigned_argument_def spec_simps)
qed

lemma hex_argument:
  "unsigned_argument v (on_string (parse_spec (lit ''x'')) s) = (True, on_string (parse_spec (lit ''x'')) (s @ show_hex (unat v)))"
  using radix_on_string [OF spec_simps(4), of v LowerHex s] by (simp add: unsigned_argument_def radix_text_hex spec_simps)

lemma write_str_on: "write_str bs (on_string opts s) = (True, on_string opts (s @ bs))"
  using sw.wrote_str [of "on_string opts s" bs] by (simp add: wrote_string)

lemma lit_ascii_write:
  "ascii bs \<Longrightarrow> write_nonempty bs (on_string opts s) = (True, on_string opts (s @ bs))"
  "ascii bs \<Longrightarrow> write_raw bs (on_string opts s) = (True, on_string opts (s @ bs))"
  using sw.wrote_nonempty [of "on_string opts s" bs] sw.wrote_raw [of "on_string opts s" bs] valid_ascii_list [of bs]
  by (simp_all add: wrote_string ascii_def word_less_nat_alt)

lemma options_on: "(on_string a s)\<lparr>f_options := b\<rparr> = on_string b s"
  by (simp add: on_string_def)

lemma hole_decimal:
  "placeholder [] (unsigned_argument v) (on_string opts s) = (True, on_string opts (s @ show_nat (unat v)))"
  by (simp add: placeholder_def parse_spec_def options_on decimal_argument)

lemma hole_hex:
  "placeholder (lit '':x'') (unsigned_argument v) (on_string opts s) = (True, on_string opts (s @ show_hex (unat v)))"
proof -
  have "dropWhile (\<lambda>b. b - D0 < 10) (lit '':x'') = (lit '':x'' :: u8 list)" by (simp add: lit_def)
  moreover have "tl (lit '':x'') = (lit ''x'' :: u8 list)" "hd (lit '':x'') = (COLON :: u8)" "lit '':x'' \<noteq> ([] :: u8 list)" by (simp_all add: lit_def)
  ultimately show ?thesis unfolding placeholder_def Let_def by (simp only: if_True simp_thms options_on hex_argument prod.case on_string_simps)
qed

lemma loop_open:
  "fmt_loop (arg # args) pending (LBRACE # inner @ RBRACE # rest) f =
     when_ok (write_nonempty pending f) (\<lambda>f1. when_ok (placeholder inner arg f1) (fmt_loop args [] rest))"
  if "RBRACE \<notin> set inner" "inner = [] \<or> hd inner \<noteq> LBRACE"
proof -
  have t: "takeWhile (\<lambda>c. c \<noteq> RBRACE) (inner @ RBRACE # rest) = inner" "dropWhile (\<lambda>c. c \<noteq> RBRACE) (inner @ RBRACE # rest) = RBRACE # rest"
    using that(1) by (auto simp: takeWhile_append dropWhile_append)
  have "hd (inner @ RBRACE # rest) \<noteq> LBRACE" using that(2) by (cases inner) auto
  then show ?thesis by (subst fmt_loop.simps) (simp add: t)
qed

lemma loop_literal: "b \<noteq> LBRACE \<Longrightarrow> b \<noteq> RBRACE \<Longrightarrow> fmt_loop args pending (b # rest) f = fmt_loop args (pending @ [b]) rest f"
  by (subst fmt_loop.simps) simp

lemma loop_end: "fmt_loop args pending [] f = write_nonempty pending f"
  by (subst fmt_loop.simps) simp

lemma when_ok_True [simp]: "when_ok (True, f) g = g f"
  by (simp add: when_ok_def)

lemma fmt_hex: "write_fmt (lit ''{:x}'') [unsigned_argument v] (on_string opts s) = (True, on_string opts (s @ show_hex (unat v)))"
  using loop_open [of "lit '':x''" "unsigned_argument v" "[]" "[]" "[]" "on_string opts s"] hole_hex [of v opts s]
  by (simp add: write_fmt_def lit_def loop_end lit_ascii_write)

lemma fmt_decimal:
  assumes "list_all (\<lambda>b. b \<noteq> LBRACE \<and> b \<noteq> RBRACE) pre" "ascii pre"
  shows "write_fmt (pre @ lit ''{}'') [unsigned_argument v] (on_string opts s) = (True, on_string opts (s @ pre @ show_nat (unat v)))"
proof -
  have p: "fmt_loop args pend (pre @ rest) f = fmt_loop args (pend @ pre) rest f" for args :: "(u8 list) argument list" and pend rest f
    using assms(1) by (induction pre arbitrary: pend) (simp_all add: loop_literal)
  show ?thesis unfolding write_fmt_def p
    using loop_open [of "[]" "unsigned_argument v" "[]" pre "[]" "on_string opts s"] hole_decimal [of v opts "s @ pre"] assms(2)
    by (simp add: lit_def loop_end lit_ascii_write)
qed

lemma fmt_dotted:
  "write_fmt (lit ''{}.{}.{}.{}'') (map unsigned_argument [a, b, c, d]) (on_string opts s) =
    (True, on_string opts (s @ show_nat (unat a) @ DOT # show_nat (unat b) @ DOT # show_nat (unat c) @ DOT # show_nat (unat d)))"
proof -
  have l: "lit ''{}.{}.{}.{}'' = LBRACE # [] @ RBRACE # (DOT # LBRACE # [] @ RBRACE # (DOT # LBRACE # [] @ RBRACE # (DOT # LBRACE # [] @ RBRACE # [])))"
    by (simp add: lit_def)
  show ?thesis unfolding write_fmt_def l list.map
    by (simp add: loop_open [of "[]", simplified] loop_literal hole_decimal loop_end lit_ascii_write)
qed

section \<open>IPv4 addresses\<close>

definition dotted :: "u8 list \<Rightarrow> u8 list" where
  "dotted bs = show_nat (unat (bs ! 0)) @ DOT # show_nat (unat (bs ! 1)) @ DOT # show_nat (unat (bs ! 2)) @ DOT # show_nat (unat (bs ! 3))"

lemma narrow_widen [simp]:
  "(ucast (ucast (b :: u8) :: u32) :: u8) = b" "(ucast (ucast (g :: u16) :: u32) :: u16) = g"
  using unat_lt_8 [of b] unat_lt_16 [of g] by (simp_all add: word_eq_unat unat_ucast_mod)

lemma octet_number: "address_number (show_nat (unat (b :: u8))) 10 255 = Some (ucast b)"
  using number_decimal [of "unat b" 255] unat_lt_8 [of b] by simp

lemmas show_facts = show_nat_alnum show_hex_alnum

lemma show_ascii [simp]: "ascii (show_nat n)" "ascii (show_hex n)"
  using alnum_ascii show_facts by blast+

lemma ipv4_step:
  assumes "i < 3" "ascii rest"
  shows "address_ipv4_loop (i # is) bytes (show_nat (unat (b :: u8)) @ DOT # rest) = address_ipv4_loop is (bytes[i := b]) rest"
proof -
  have "split_once (show_nat (unat b) @ DOT # rest) [DOT] = (Ok (Some (show_nat (unat b), rest)) :: ((u8 list \<times> u8 list) option) addr_result)"
    by (rule split_once_byte) (use assms alnum_not_in [OF show_nat_alnum] in auto)
  then show ?thesis using assms(1) decimal_no_leading [of "unat b"] by (auto simp: octet_number Let_def)
qed

lemma ipv4_last: "address_ipv4_loop [3] bytes (show_nat (unat (b :: u8))) = Ok (Some (bytes[3 := b]))"
proof -
  have "split_once (show_nat (unat b)) [DOT] = (Ok None :: ((u8 list \<times> u8 list) option) addr_result)"
    by (rule split_once_none) (use alnum_not_in [OF show_nat_alnum] in auto)
  then show ?thesis using decimal_no_leading [of "unat b"] by (simp add: octet_number Let_def)
qed

lemma ipv4_parse_dotted: "ipv4_parse (dotted [a, b, c, d]) = Ok (ipv4_make a b c d)"
  by (simp add: ipv4_parse_def address_ipv4_def dotted_def ipv4_step ipv4_last del: address_ipv4_loop.simps)

section \<open>IPv6 addresses\<close>

fun colon_join :: "u16 list \<Rightarrow> u8 list" where
  "colon_join [] = []"
| "colon_join [g] = show_hex (unat g)"
| "colon_join (g # gs) = show_hex (unat g) @ COLON # colon_join gs"

lemma join_ascii [simp]: "ascii (colon_join gs)"
  by (induction gs rule: colon_join.induct) simp_all

lemma join_Nil [simp]: "colon_join gs = [] \<longleftrightarrow> gs = []"
  by (induction gs rule: colon_join.induct) simp_all

lemma join_chars: "b \<in> set (colon_join gs) \<Longrightarrow> b = COLON \<or> is_alnum b"
  by (induction gs rule: colon_join.induct) (use show_hex_alnum in \<open>auto simp: list_all_iff\<close>)

lemma group_number: "address_number (show_hex (unat (g :: u16))) 16 65535 = Some (ucast g)"
  using number_hex [of "unat g" 65535] unat_lt_16 [of g] by simp

lemma contains_byte: "str_contains s [b] \<longleftrightarrow> b \<in> set s"
proof (cases "s = []")
  case False
  have e: "[0 ..< Suc 0] = [0]" by simp
  have "Suc (length s - Suc 0) = length s" using False by simp
  then show ?thesis using False
    by (auto simp: str_contains_def Let_def list_ex_iff in_set_conv_nth e Bex_def Suc_le_eq simp del: upt_Suc)
qed (simp add: str_contains_def)

lemma group_read:
  "count < 8 \<Longrightarrow> ipv6_group (show_hex (unat (g :: u16))) split ipv4 groups count = Ok (Some (groups[count := g], count + 1))"
  using hex_length [of "unat g"] unat_lt_16 [of g] alnum_not_in [OF show_hex_alnum, of "unat g"]
  by (simp add: ipv6_group_def contains_byte group_number)

definition put_groups :: "u16 list \<Rightarrow> nat \<Rightarrow> u16 list \<Rightarrow> u16 list" where
  "put_groups groups count gs = take count groups @ gs @ drop (count + length gs) groups"

lemma put_groups_step:
  "count < length groups \<Longrightarrow> put_groups (groups[count := g]) (count + 1) gs = put_groups groups count (g # gs)"
  by (simp add: put_groups_def take_Suc_conv_app_nth)

lemma part_loop_join:
  "gs \<noteq> [] \<Longrightarrow> count + length gs \<le> 8 \<Longrightarrow> length groups = 8 \<Longrightarrow>
   ipv6_part_loop (colon_join gs) ipv4 groups count = Ok (Some (put_groups groups count gs, count + length gs))"
proof (induction gs arbitrary: groups count rule: colon_join.induct)
  case (2 g)
  have "split_once (show_hex (unat g)) [COLON] = (Ok None :: ((u8 list \<times> u8 list) option) addr_result)"
    by (rule split_once_none) (use alnum_not_in [OF show_hex_alnum] in auto)
  moreover have "groups[count := g] = put_groups groups count [g]"
    using 2 by (simp add: put_groups_def upd_conv_take_nth_drop)
  ultimately show ?case using 2 by (subst ipv6_part_loop.simps) (simp add: group_read)
next
  case (3 g h gs)
  let ?rest = "colon_join (h # gs)"
  have s: "split_once (show_hex (unat g) @ COLON # ?rest) [COLON] =
      (Ok (Some (show_hex (unat g), ?rest)) :: ((u8 list \<times> u8 list) option) addr_result)"
    by (rule split_once_byte) (use alnum_not_in [OF show_hex_alnum] in auto)
  have "ipv6_part_loop (colon_join (g # h # gs)) ipv4 groups count = ipv6_part_loop ?rest ipv4 (groups[count := g]) (count + 1)"
    using s 3(3) by (subst ipv6_part_loop.simps) (simp add: group_read)
  also have "\<dots> = Ok (Some (put_groups (groups[count := g]) (count + 1) (h # gs), count + 1 + length (h # gs)))"
    using 3 by (intro 3(1)) simp_all
  finally show ?case using put_groups_step [of count groups g "h # gs"] 3(3,4) by simp
qed simp

lemma part_join:
  "length gs \<le> 8 \<Longrightarrow> address_ipv6_part (colon_join gs) (replicate 8 0) 0 ipv4 = Ok (Some (gs @ replicate (8 - length gs) 0, length gs))"
  using part_loop_join [of gs 0 "replicate 8 0" ipv4]
  by (cases "gs = []") (simp_all add: address_ipv6_part_def put_groups_def)

text \<open>No two colons stand side by side in the groups, and none at their end.\<close>

definition single :: "u8 list \<Rightarrow> bool" where
  "single s \<longleftrightarrow> (\<forall>i. Suc i < length s \<longrightarrow> \<not> (s ! i = COLON \<and> s ! Suc i = COLON))"

lemma single_Cons: "single (a # b # s) \<longleftrightarrow> \<not> (a = COLON \<and> b = COLON) \<and> single (b # s)"
proof -
  have "(\<forall>i. Suc i < length (a # b # s) \<longrightarrow> P i) \<longleftrightarrow> P 0 \<and> (\<forall>i. Suc i < length (b # s) \<longrightarrow> P (Suc i))" for P
    by (auto simp: less_Suc_eq_0_disj)
  from this [of "\<lambda>i. \<not> ((a # b # s) ! i = COLON \<and> (a # b # s) ! Suc i = COLON)"] show ?thesis unfolding single_def by simp
qed

lemma single_short [simp]: "single []" "single [a]"
  by (simp_all add: single_def)

lemma single_block: "COLON \<notin> set xs \<Longrightarrow> xs \<noteq> [] \<Longrightarrow> single (xs @ ys) \<longleftrightarrow> single ys"
proof (induction xs)
  case (Cons x xs)
  show ?case
  proof (cases xs)
    case Nil
    then show ?thesis using Cons.prems by (cases ys) (auto simp: single_Cons)
  next
    case (Cons y zs)
    then show ?thesis using Cons.IH Cons.prems by (simp add: single_Cons)
  qed
qed simp

lemma single_join: "single (colon_join gs) \<and> single (colon_join gs @ [COLON]) \<and> (gs \<noteq> [] \<longrightarrow> hd (colon_join gs) \<noteq> COLON)"
proof (induction gs rule: colon_join.induct)
  case (2 g)
  note n = alnum_not_in(2) [OF show_hex_alnum, of "unat g"]
  show ?case using n single_block [OF n, of "[]"] single_block [OF n, of "[COLON]"] hd_in_set [OF show_not_Nil(1), of "unat g"] by (auto dest: sym)
next
  case (3 g h gs)
  note n = alnum_not_in(2) [OF show_hex_alnum, of "unat g"]
  obtain b s where b: "colon_join (h # gs) = b # s" by (cases "colon_join (h # gs)") auto
  have h: "hd (show_hex (unat g)) \<noteq> COLON" using n hd_in_set [OF show_not_Nil(1), of "unat g"] by metis
  have "b \<noteq> COLON" using 3 b by simp
  then have "single (COLON # b # s)" "single (COLON # b # s @ [COLON])" using 3 b by (simp_all add: single_Cons)
  then show ?case using n b h single_block [OF n, of "COLON # b # s"] single_block [OF n, of "COLON # b # s @ [COLON]"]
    by (auto simp: hd_append)
qed simp

section \<open>The run of zeros\<close>

lemma zero_run_zeros: "i \<le> 8 \<Longrightarrow> zero_run groups i \<le> 8 \<and> (\<forall>j. i \<le> j \<longrightarrow> j < zero_run groups i \<longrightarrow> groups ! j = 0)"
proof (induction groups i rule: zero_run.induct)
  case (1 groups i)
  show ?case
  proof (cases "i < 8 \<and> groups ! i = 0")
    case True
    then have "zero_run groups i = zero_run groups (i + 1)" by (subst zero_run.simps) simp
    then show ?thesis using 1 True by (auto simp: Suc_le_eq nat_less_le)
  next
    case False
    then show ?thesis using 1(2) by (subst (1 2) zero_run.simps) auto
  qed
qed

definition run_of_zeros :: "u16 list \<Rightarrow> nat \<Rightarrow> nat \<Rightarrow> bool" where
  "run_of_zeros groups best len \<longleftrightarrow> best = 8 \<and> len = 0 \<or>
     2 \<le> len \<and> best + len \<le> 8 \<and> (\<forall>j. best \<le> j \<longrightarrow> j < best + len \<longrightarrow> groups ! j = 0)"

lemma best_run_zeros: "run_of_zeros groups best len \<Longrightarrow> best_run groups i best len = (b, l) \<Longrightarrow> run_of_zeros groups b l"
proof (induction groups i best len rule: best_run.induct)
  case (1 groups i best len)
  let ?stop = "zero_run groups i"
  have z: "run_of_zeros groups i (?stop - i)" if "i < 8" "2 \<le> ?stop - i"
    using that zero_run_zeros [of i groups] by (auto simp: run_of_zeros_def)
  show ?case
  proof (cases "i < 8")
    case False
    then show ?thesis using 1(4,5) by (subst (asm) best_run.simps) simp
  next
    case True
    consider (nonzero) "groups ! i \<noteq> 0" | (better) "groups ! i = 0" "?stop - i > len \<and> ?stop - i \<ge> 2"
      | (other) "groups ! i = 0" "\<not> (?stop - i > len \<and> ?stop - i \<ge> 2)" by blast
    then show ?thesis
    proof cases
      case nonzero
      then have "best_run groups (i + 1) best len = (b, l)" using 1(5) True by (subst (asm) best_run.simps) simp
      then show ?thesis using 1(1) [OF True nonzero 1(4)] by blast
    next
      case better
      then have "best_run groups ?stop i (?stop - i) = (b, l)" using 1(5) True by (subst (asm) best_run.simps) (simp add: Let_def)
      then show ?thesis using 1(2) [OF True _ refl better(2) z] better True by auto
    next
      case other
      then have "best_run groups ?stop best len = (b, l)" using 1(5) True by (subst (asm) best_run.simps) (auto simp: Let_def)
      then show ?thesis using 1(3) [OF True _ refl other(2) 1(4)] other by auto
    qed
  qed
qed

section \<open>The text of an IPv6 address\<close>

definition separator :: "nat \<Rightarrow> nat \<Rightarrow> u8 list" where
  "separator stop i = (if i \<noteq> 0 \<and> i \<noteq> stop then [COLON] else [])"

definition segment :: "u16 list \<Rightarrow> nat \<Rightarrow> nat \<Rightarrow> nat \<Rightarrow> u8 list" where
  "segment groups stop i k = concat (map (\<lambda>j. separator stop j @ show_hex (unat (groups ! j))) [i ..< k])"

lemma write_segment:
  "i \<le> k \<Longrightarrow> k \<le> 8 \<Longrightarrow> (\<And>j. i \<le> j \<Longrightarrow> j < k \<Longrightarrow> j \<noteq> best) \<Longrightarrow>
   groups_loop (fuel + (k - i)) groups best len i (on_string opts s) =
   groups_loop fuel groups best len k (on_string opts (s @ segment groups (best + len) i k))"
proof (induction "k - i" arbitrary: i s)
  case 0
  then show ?case by (simp add: segment_def)
next
  case (Suc n)
  have i: "i < 8" "i < k" "i \<noteq> best" using Suc by auto
  have u: "unat (ucast (groups ! i) :: u32) = unat (groups ! i)" using unat_lt_16 [of "groups ! i"] by (simp add: unat_ucast_mod)
  have w: "(if i \<noteq> 0 \<and> i \<noteq> best + len then write_str (lit '':'') (on_string opts s) else (True, on_string opts s)) =
    (True, on_string opts (s @ separator (best + len) i))" by (simp add: write_str_on separator_def lit_def)
  have f: "fuel + (k - i) = Suc (fuel + (k - Suc i))" using i by simp
  have "groups_loop (fuel + (k - i)) groups best len i (on_string opts s) =
    groups_loop (fuel + (k - Suc i)) groups best len (Suc i)
      (on_string opts (s @ separator (best + len) i @ show_hex (unat (groups ! i))))"
    unfolding f groups_loop.simps w using i by (simp add: fmt_hex u)
  also have "\<dots> = groups_loop fuel groups best len k (on_string opts ((s @ separator (best + len) i @ show_hex (unat (groups ! i))) @ segment groups (best + len) (Suc i) k))"
    by (rule Suc.hyps(1)) (use Suc i in auto)
  finally show ?case using i by (simp add: segment_def upt_conv_Cons)
qed

lemma join_snoc: "xs \<noteq> [] \<Longrightarrow> colon_join (xs @ [g]) = colon_join xs @ COLON # show_hex (unat g)"
  by (induction xs rule: colon_join.induct) simp_all

lemma segment_join:
  assumes "i \<le> k" "i = 0 \<and> k \<le> stop \<or> i = stop \<and> 0 < stop"
  shows "segment groups stop i k = colon_join (map ((!) groups) [i ..< k])"
  using assms
proof (induction "k - i" arbitrary: k)
  case 0
  then show ?case by (simp add: segment_def)
next
  case (Suc n)
  then obtain m where m: "k = Suc m" "i \<le> m" by (cases k) auto
  have "segment groups stop i m = colon_join (map ((!) groups) [i ..< m])" using Suc m by (intro Suc.hyps(1)) auto
  then show ?case using m Suc.prems(2) by (cases "i = m") (auto simp: segment_def separator_def join_snoc)
qed

definition ipv6_text :: "u16 list \<Rightarrow> nat \<Rightarrow> nat \<Rightarrow> u8 list" where
  "ipv6_text groups best len =
    (if best = 8 then colon_join groups
     else colon_join (take best groups) @ [COLON, COLON] @ colon_join (drop (best + len) groups))"

lemma map_nth_range: "length xs = 8 \<Longrightarrow> k \<le> 8 \<Longrightarrow> map ((!) xs) [i ..< k] = drop i (take k xs)"
  by (simp add: list_eq_iff_nth_eq)

lemma groups_written:
  assumes n: "length groups = 8" and r: "run_of_zeros groups best len"
  shows "groups_loop 9 groups best len 0 (on_string opts s) = Some (True, on_string opts (s @ ipv6_text groups best len))"
proof (cases "best = 8")
  case True
  then have l: "len = 0" using r by (auto simp: run_of_zeros_def)
  have "groups_loop (1 + (8 - 0)) groups best len 0 (on_string opts s) =
    groups_loop 1 groups best len 8 (on_string opts (s @ segment groups (best + len) 0 8))"
    by (rule write_segment) (use True in auto)
  then show ?thesis using True l n segment_join [of 0 8 8 groups] map_nth_range [OF n, of 8 0] by (simp add: ipv6_text_def)
next
  case False
  then have l: "2 \<le> len" "best + len \<le> 8" using r by (auto simp: run_of_zeros_def)
  define fuel where "fuel = len + (8 - (best + len))"
  let ?pre = "segment groups (best + len) 0 best" and ?post = "segment groups (best + len) (best + len) 8"
  have f: "9 = Suc fuel + (best - 0)" using l by (simp add: fuel_def)
  have "groups_loop (Suc fuel + (best - 0)) groups best len 0 (on_string opts s) =
    groups_loop (Suc fuel) groups best len best (on_string opts (s @ ?pre))"
    by (rule write_segment) (use l in auto)
  also have "\<dots> = groups_loop (len + (8 - (best + len))) groups best len (best + len) (on_string opts ((s @ ?pre) @ [COLON, COLON]))"
    using l by (simp add: write_str_on lit_def fuel_def)
  also have "\<dots> = groups_loop len groups best len 8 (on_string opts (((s @ ?pre) @ [COLON, COLON]) @ ?post))"
    by (rule write_segment) (use l in auto)
  also have "\<dots> = Some (True, on_string opts (((s @ ?pre) @ [COLON, COLON]) @ ?post))"
    using l by (cases len) auto
  finally have "groups_loop (Suc fuel + (best - 0)) groups best len 0 (on_string opts s) =
    Some (True, on_string opts (((s @ ?pre) @ [COLON, COLON]) @ ?post))" .
  then have "groups_loop 9 groups best len 0 (on_string opts s) = Some (True, on_string opts (((s @ ?pre) @ [COLON, COLON]) @ ?post))"
    unfolding f [symmetric] .
  moreover have "?pre = colon_join (take best groups)"
    using segment_join [of 0 best "best + len" groups] map_nth_range [OF n, of best 0] l by simp
  moreover have "?post = colon_join (drop (best + len) groups)"
    using segment_join [of "best + len" 8 "best + len" groups] map_nth_range [OF n, of 8 "best + len"] l n by simp
  ultimately show ?thesis using False by (simp add: ipv6_text_def)
qed

lemma copy_tail_snoc: "copy_tail (is @ [k]) tc t groups = (copy_tail is tc t groups)[8 - tc + k := t ! k]"
  by (induction "is" arbitrary: groups) simp_all

lemma map_nth_prefix: "map ((!) (xs @ ys)) [0 ..< length xs] = xs"
  by (rule nth_equalityI) (simp_all add: nth_append)

lemma copy_tail_eq:
  assumes "length groups = 8" "k \<le> tc" "tc \<le> 8"
  shows "copy_tail [0 ..< k] tc t groups = take (8 - tc) groups @ map ((!) t) [0 ..< k] @ drop (8 - tc + k) groups"
  using assms(2)
proof (induction k)
  case (Suc k)
  let ?a = "8 - tc"
  have d: "drop (?a + k) groups = groups ! (?a + k) # drop (?a + Suc k) groups"
    using Suc.prems assms by (simp add: Cons_nth_drop_Suc)
  have "copy_tail [0 ..< Suc k] tc t groups = (take ?a groups @ map ((!) t) [0 ..< k] @ drop (?a + k) groups)[?a + k := t ! k]"
    using Suc by (simp add: copy_tail_snoc)
  also have "\<dots> = take ?a groups @ map ((!) t) [0 ..< k] @ t ! k # drop (?a + Suc k) groups"
    using assms(1) unfolding d append.assoc [symmetric] by (subst list_update_append) (simp add: min_def)
  finally show ?case by simp
qed simp

lemma ipv6_parse_text:
  assumes n: "length groups = 8" and r: "run_of_zeros groups best len"
  shows "ipv6_parse (ipv6_text groups best len) = Ok (ipv6_make groups)"
proof (cases "best = 8")
  case True
  have "split_once (colon_join groups) [COLON, COLON] = (Ok None :: ((u8 list \<times> u8 list) option) addr_result)"
    by (rule split_once_pair_none) (use single_join in \<open>auto simp: single_def\<close>)
  then show ?thesis using True part_join [of groups True] n by (simp add: ipv6_parse_def ipv6_text_def)
next
  case False
  then have l: "2 \<le> len" "best + len \<le> 8" and z: "\<And>j. best \<le> j \<Longrightarrow> j < best + len \<Longrightarrow> groups ! j = 0"
    using r by (auto simp: run_of_zeros_def)
  let ?L = "take best groups" and ?R = "drop (best + len) groups"
  have "split_once (colon_join ?L @ [COLON, COLON] @ colon_join ?R) [COLON, COLON] =
      (Ok (Some (colon_join ?L, colon_join ?R)) :: ((u8 list \<times> u8 list) option) addr_result)"
    by (rule split_once_pair) (use single_join [of ?L] in \<open>auto simp: single_def\<close>)
  moreover have "copy_tail [0 ..< length ?R] (length ?R) (?R @ replicate (8 - length ?R) 0) (?L @ replicate (8 - length ?L) 0) = groups"
    (is "?c = _")
  proof -
    have "?c = take (8 - length ?R) (?L @ replicate (8 - length ?L) 0) @ ?R"
      using n l map_nth_prefix [of ?R "replicate (8 - length ?R) 0"] by (subst copy_tail_eq) simp_all
    also have "take (8 - length ?R) (?L @ replicate (8 - length ?L) 0) = ?L @ replicate len 0" using n l by simp
    also have "replicate len 0 = take len (drop best groups)" using n l z by (simp add: list_eq_iff_nth_eq)
    finally show ?thesis by (simp add: append_assoc [symmetric] take_add [symmetric])
  qed
  ultimately show ?thesis using False part_join [of ?L False] part_join [of ?R True] n l
    by (simp add: ipv6_parse_def ipv6_text_def)
qed

section \<open>Socket addresses\<close>

lemma join_octets: "ucast (a :: u8) * 256 + ucast (b :: u8) = (g :: u16) \<longleftrightarrow> a = ucast (drop_bit 8 g) \<and> b = ucast g"
proof -
  have a: "unat (ucast a * 256 + ucast b :: u16) = unat a * 256 + unat b"
    using unat_lt_8 [of a] unat_lt_8 [of b] by (subst unat_word_ariths, subst unat_word_ariths) (simp add: unat_ucast_mod)
  have g: "unat (ucast (drop_bit 8 g) :: u8) = unat g div 256" "unat (ucast g :: u8) = unat g mod 256"
    using unat_lt_16 [of g] by (simp_all add: unat_ucast_mod drop_bit_eq_div unat_div less_mult_imp_div_less)
  have "unat a * 256 + unat b = unat g \<longleftrightarrow> unat a = unat g div 256 \<and> unat b = unat g mod 256"
  proof -
    have "(unat a * 256 + unat b) div 256 = unat a" "(unat a * 256 + unat b) mod 256 = unat b" using unat_lt_8 [of b] by simp_all
    moreover have "unat g div 256 * 256 + unat g mod 256 = unat g" by simp
    ultimately show ?thesis by metis
  qed
  then show ?thesis unfolding word_eq_unat a g .
qed

lemma octets_groups: "even (length os) \<Longrightarrow> group_octets (octet_groups os) = os"
proof (induction os rule: octet_groups.induct)
  case (1 a b rest)
  then show ?case using join_octets [of a b "ucast a * 256 + ucast b"] by simp
qed simp_all

lemma length_octet_groups: "even (length os) \<Longrightarrow> 2 * length (octet_groups os) = length os"
  by (induction os rule: octet_groups.induct) simp_all

text \<open>The addresses that the constructors build.\<close>

definition constructed :: "socket_addr \<Rightarrow> bool" where
  "constructed a \<longleftrightarrow> length (sa_octets a) = 16 \<and>
     (sa_kind a = V4 \<longrightarrow> drop 4 (sa_octets a) = replicate 12 0 \<and> sa_flowinfo a = 0 \<and> sa_scope_id a = 0)"

definition scope_text :: "u32 \<Rightarrow> u8 list" where
  "scope_text scope = (if scope = 0 then [] else 0x25 # show_nat (unat scope))"

definition host_text :: "socket_addr \<Rightarrow> u8 list" where
  "host_text a =
    (if sa_kind a = V4 then dotted (take 4 (sa_octets a))
     else
       let gs = octet_groups (sa_octets a); (b, l) = best_run gs 0 8 0 in
       [LBRACK] @ ipv6_text gs b l @ scope_text (sa_scope_id a) @ [RBRACK])"

lemma port_unat: "unat (ucast (p :: u16) :: u32) = unat p"
  using unat_lt_16 [of p] by (simp add: unat_ucast_mod)

lemma octet_unat: "unat (ucast (p :: u8) :: u32) = unat p"
  using unat_lt_8 [of p] by (simp add: unat_ucast_mod)

lemma four_octets: "length os = 16 \<Longrightarrow> take 4 os = [os ! 0, os ! 1, os ! 2, os ! 3]"
  by (simp add: list_eq_iff_nth_eq less_Suc_eq numeral_eq_Suc)

lemma fmt_decimal_lits:
  "write_fmt (lit ''%{}'') [unsigned_argument v] (on_string opts s) = (True, on_string opts (s @ 0x25 # show_nat (unat v)))"
  "write_fmt (lit '']:{}'') [unsigned_argument v] (on_string opts s) = (True, on_string opts (s @ [RBRACK, COLON] @ show_nat (unat v)))"
  "write_fmt (lit '':{}'') [unsigned_argument v] (on_string opts s) = (True, on_string opts (s @ COLON # show_nat (unat v)))"
  using fmt_decimal [of "[0x25]" v opts s] fmt_decimal [of "[RBRACK, COLON]" v opts s] fmt_decimal [of "[COLON]" v opts s]
  by (simp_all add: lit_def)

lemma address_text_eq:
  assumes "constructed a"
  shows "address_text a = Some (host_text a @ COLON # show_nat (unat (sa_port a)))"
proof (cases "sa_kind a")
  case V4
  have t: "take 4 (sa_octets a) = [sa_octets a ! 0, sa_octets a ! 1, sa_octets a ! 2, sa_octets a ! 3]"
    using four_octets [of "sa_octets a"] assms by (simp add: constructed_def)
  then show ?thesis
    using V4 fmt_dotted [of "ucast (sa_octets a ! 0)" "ucast (sa_octets a ! 1)" "ucast (sa_octets a ! 2)" "ucast (sa_octets a ! 3)" no_options "[]"]
    by (simp add: address_text_def format_address_def format_ip_def string_formatter_on host_text_def dotted_def
        fmt_decimal_lits port_unat octet_unat)
next
  case V6
  let ?g = "octet_groups (sa_octets a)"
  obtain b l where r: "best_run ?g 0 8 0 = (b, l)" by force
  have z: "run_of_zeros ?g b l" using best_run_zeros [OF _ r] by (simp add: run_of_zeros_def)
  have n: "length ?g = 8" using length_octet_groups [of "sa_octets a"] assms by (simp add: constructed_def)
  note w = groups_written [OF n z, of no_options "[LBRACK]"]
  then show ?thesis using V6 r
    by (simp add: address_text_def format_address_def format_ip_def string_formatter_on host_text_def write_str_on
        lit_def [of "''[''"] fmt_decimal_lits port_unat scope_text_def)
qed

lemma ipv6_text_chars: "b \<in> set (ipv6_text gs best len) \<Longrightarrow> b = COLON \<or> is_alnum b"
  using join_chars by (auto simp: ipv6_text_def split: if_splits)

lemma ipv6_text_plain: "ascii (ipv6_text gs best len)" "0x25 \<notin> set (ipv6_text gs best len)"
  using ipv6_text_chars [of "0x25" gs best len] by (auto simp: ipv6_text_def is_alnum_def is_alpha_def is_digit_def)

lemma scope_parsed: "split_scope (ipv6_text gs best len @ scope_text scope) = Ok (ipv6_text gs best len, scope)"
proof (cases "scope = 0")
  case True
  then show ?thesis by (simp add: split_scope_def scope_text_def split_once_none ipv6_text_plain)
next
  case False
  have "address_number (show_nat (unat scope)) 10 0xFFFFFFFF = Some scope"
    using number_decimal [of "unat scope" "0xFFFFFFFF"] unat_lt_32 [of scope] by simp
  then show ?thesis using False ipv6_text_plain [of gs best len]
    by (simp add: split_scope_def scope_text_def split_once_byte)
qed

lemma brackets_stripped:
  assumes "ascii s"
  shows "strip_brackets (LBRACK # s @ [RBRACK]) = Ok s" "ends_with (LBRACK # s @ [RBRACK]) [RBRACK]"
    "starts_with (LBRACK # s @ [RBRACK]) [LBRACK]"
proof -
  have p: "strip_prefix (LBRACK # s @ [RBRACK]) [LBRACK] = Some (s @ [RBRACK])"
    using assms by (simp add: strip_prefix_def starts_with_single str_get_ascii)
  have q: "strip_suffix (s @ [RBRACK]) [RBRACK] = Some s"
    using assms by (simp add: strip_suffix_def ends_with_append str_get_ascii)
  show "strip_brackets (LBRACK # s @ [RBRACK]) = Ok s" using p q by (simp add: strip_brackets_def)
  show "ends_with (LBRACK # s @ [RBRACK]) [RBRACK]" using ends_with_append [of "LBRACK # s" "[RBRACK]"] by simp
qed (simp add: starts_with_single)

lemma port_number: "address_number (show_nat (unat (p :: u16))) 10 65535 = Some (ucast p)"
  using number_decimal [of "unat p" 65535] unat_lt_16 [of p] by simp

lemma scope_ascii: "ascii (scope_text scope)"
  by (simp add: scope_text_def)

lemma host_parsed:
  assumes "constructed a"
  shows "ascii (host_text a)"
    "socket_parse (host_text a @ COLON # show_nat (unat (sa_port a))) = Ok (a\<lparr>sa_flowinfo := 0\<rparr>)"
proof -
  let ?port = "show_nat (unat (sa_port a))"
  have sep: "rsplit_once (h @ COLON # ?port) [COLON] = (Ok (Some (h, ?port)) :: ((u8 list \<times> u8 list) option) addr_result)" if "ascii h" for h
    by (rule rsplit_once_byte) (use that alnum_not_in [OF show_nat_alnum] in auto)
  have "ascii (host_text a) \<and> socket_parse (host_text a @ COLON # ?port) = Ok (a\<lparr>sa_flowinfo := 0\<rparr>)"
  proof (cases "sa_kind a")
    case V4
    let ?o = "sa_octets a"
    have t: "take 4 ?o = [?o ! 0, ?o ! 1, ?o ! 2, ?o ! 3]" using four_octets [of ?o] assms by (simp add: constructed_def)
    have asc: "ascii (host_text a)" using V4 by (simp add: host_text_def dotted_def)
    have nb: "\<not> starts_with (host_text a) [LBRACK]"
      using V4 alnum_not_in(4) [OF show_nat_alnum, of "unat (?o ! 0)"] hd_in_set [OF show_not_Nil(2), of "unat (?o ! 0)"]
      by (auto simp: host_text_def dotted_def starts_with_single hd_append dest: sym)
    have "v4_octets (ipv4_make (?o ! 0) (?o ! 1) (?o ! 2) (?o ! 3)) @ replicate 12 0 = ?o"
      using assms V4 t append_take_drop_id [of 4 ?o] by (simp add: constructed_def ipv4_make_def)
    then have "socket_ipv4 (ipv4_make (?o ! 0) (?o ! 1) (?o ! 2) (?o ! 3)) (sa_port a) = a\<lparr>sa_flowinfo := 0\<rparr>"
      using assms V4 by (simp add: socket_ipv4_def constructed_def)
    then show ?thesis using asc nb sep [OF asc] ipv4_parse_dotted [of "?o ! 0" "?o ! 1" "?o ! 2" "?o ! 3"] V4 t
      by (simp add: socket_parse_def port_number or_invalid_def host_text_def)
  next
    case V6
    let ?g = "octet_groups (sa_octets a)"
    obtain b l where r: "best_run ?g 0 8 0 = (b, l)" by force
    have z: "run_of_zeros ?g b l" using best_run_zeros [OF _ r] by (simp add: run_of_zeros_def)
    have n: "length ?g = 8" "group_octets ?g = sa_octets a"
      using length_octet_groups [of "sa_octets a"] octets_groups [of "sa_octets a"] assms by (simp_all add: constructed_def)
    let ?t = "ipv6_text ?g b l" and ?s = "scope_text (sa_scope_id a)"
    have h: "host_text a = LBRACK # (?t @ ?s) @ [RBRACK]" using V6 r by (simp add: host_text_def)
    have i: "ascii (?t @ ?s)" using ipv6_text_plain(1) scope_ascii by simp
    then have asc: "ascii (host_text a)" unfolding h by simp
    have "socket_ipv6 (ipv6_make ?g) (sa_port a) 0 (sa_scope_id a) = a\<lparr>sa_flowinfo := 0\<rparr>"
      using V6 n(2) by (simp add: socket_ipv6_def ipv6_make_def)
    then show ?thesis using asc sep [OF asc] brackets_stripped [OF i] scope_parsed [of ?g b l "sa_scope_id a"] ipv6_parse_text [OF n(1) z]
      unfolding h by (simp add: socket_parse_def port_number or_invalid_def)
  qed
  then show "ascii (host_text a)" "socket_parse (host_text a @ COLON # ?port) = Ok (a\<lparr>sa_flowinfo := 0\<rparr>)" by simp_all
qed

section \<open>Theorem\<close>

text \<open>C17. Printing a socket address and parsing the text gives the address back, for every address the
  constructors build; only the flow information, which the text does not carry, is lost.  The runs of zero
  groups the output shortens are restored, and neither direction panics or runs forever.\<close>

theorem socket_addr_roundtrip:
  assumes "constructed a"
  shows "\<exists>txt. address_text a = Some txt \<and> socket_parse txt = Ok (a\<lparr>sa_flowinfo := 0\<rparr>)"
  using address_text_eq [OF assms] host_parsed(2) [OF assms] by simp

theorem socket_addr_roundtrip_witness:
  "\<exists>txt. address_text (socket_ipv6 (ipv6_make [0xfe80, 0, 0, 0, 0x1, 0, 0, 0xab]) 443 0 7) = Some txt \<and>
     socket_parse txt = Ok ((socket_ipv6 (ipv6_make [0xfe80, 0, 0, 0, 0x1, 0, 0, 0xab]) 443 0 7)\<lparr>sa_flowinfo := 0\<rparr>)"
  by (rule socket_addr_roundtrip) code_simp

end
