(* ===== verification/Socket_Addr_Total.thy ===== *)
theory Socket_Addr_Total
  imports Socket_Addr_Facts
begin

text \<open>
  The parser of socket addresses (src/std/src/net/socket_addr.cpp) on any well-formed text: a well-formed
  pattern is only found between characters, so the pieces of \<open>split_once\<close> are well-formed and none of the
  unwraps panics; what the parser accepts is an address that prints and parses back.
\<close>

section \<open>Splitting well-formed text\<close>

lemma valid_suffix:
  assumes "is_valid_utf8 p" "is_valid_utf8 (p @ s)"
  shows "is_valid_utf8 s"
proof -
  obtain cs where cs: "list_all is_scalar cs" "p = encode_all cs" using assms(1) by (auto simp: is_valid_utf8_iff)
  have "is_valid_utf8 (encode_all cs @ s) = is_valid_utf8 s" using cs(1)
    by (induction cs) (simp_all add: is_valid_utf8_encode_step)
  then show ?thesis using cs(2) assms(2) by simp
qed

lemma valid_hd: "is_valid_utf8 s \<Longrightarrow> s \<noteq> [] \<Longrightarrow> \<not> is_continuation (hd s)"
proof -
  assume a: "is_valid_utf8 s" "s \<noteq> []"
  then obtain cs where "list_all is_scalar cs" "s = encode_all cs" by (auto simp: is_valid_utf8_iff)
  then show ?thesis using boundary_in_encode_all [of cs 0] a(2) by (auto simp: hd_conv_nth intro: exI [of _ 0])
qed

text \<open>A well-formed pattern occurs in well-formed text only between characters.\<close>

lemma occurrence_valid:
  assumes s: "is_valid_utf8 s" and p: "is_valid_utf8 p" "p \<noteq> []" and at: "starts_with (drop i s) p"
  shows "is_char_boundary s i" "is_char_boundary s (i + length p)"
    "is_valid_utf8 (take i s)" "is_valid_utf8 (drop (i + length p) s)"
proof -
  have t: "take (length p) (drop i s) = p" using at by (simp add: starts_with_iff)
  then have l: "i + length p \<le> length s" using p(2) by (metis Nat.le_diff_conv2 add.commute drop_eq_Nil length_drop length_take linorder_linear min.cobounded1 min_def take_eq_Nil)
  have d: "drop i s = p @ drop (i + length p) s" using t append_take_drop_id [of "length p" "drop i s"] by (simp add: add.commute)
  have "\<not> is_continuation (s ! i)" using valid_hd [OF p] d p(2) l hd_drop_conv_nth [of i s] by (cases p) auto
  then show b: "is_char_boundary s i" using l p(2) by (cases p) (auto simp: is_char_boundary_def)
  have v: "is_valid_utf8 (drop i s)" using valid_drop [OF s b] l by simp
  show r: "is_valid_utf8 (drop (i + length p) s)" by (rule valid_suffix [OF p(1)]) (use v d in simp)
  show "is_valid_utf8 (take i s)" using valid_take [OF s b] l by simp
  have "\<not> is_continuation (s ! (i + length p))" if "i + length p < length s"
    using valid_hd [OF r] that by (simp add: hd_drop_conv_nth)
  then show "is_char_boundary s (i + length p)" using l by (auto simp: is_char_boundary_def)
qed

lemma find_SomeD: "List.find P xs = Some x \<Longrightarrow> P x \<and> x \<in> set xs"
  by (auto simp: find_Some_iff)

lemma str_find_occurs:
  assumes "p \<noteq> []"
  shows "str_find s p = Some i \<Longrightarrow> starts_with (drop i s) p \<and> i + length p \<le> length s"
    "str_rfind s p = Some i \<Longrightarrow> starts_with (drop i s) p \<and> i + length p \<le> length s"
  using assms
  by (auto simp: str_find_def str_rfind_def Let_def simp del: upt_Suc dest!: find_SomeD split: if_splits)

lemma split_at_valid:
  assumes "is_valid_utf8 s" "is_valid_utf8 p" "p \<noteq> []" "starts_with (drop i s) p \<and> i + length p \<le> length s"
  shows "split_at s p (Some i) = Ok (Some (take i s, drop (i + length p) s))"
  using occurrence_valid [OF assms(1-3), of i] assms(4) boundary_ends [OF assms(1)]
  by (auto simp: split_at_def str_get_def)

section \<open>Results that are not panics\<close>

definition settles :: "('e \<Rightarrow> bool) \<Rightarrow> ('a \<Rightarrow> bool) \<Rightarrow> ('e failure, 'a) result \<Rightarrow> bool" where
  "settles E P r = (case r of Ok x \<Rightarrow> P x | Err (Fails e) \<Rightarrow> E e | Err _ \<Rightarrow> False)"

lemma settles_simps [simp]: "settles E P (Ok x) = P x" "settles E P (Err (Fails e)) = E e"
  by (simp_all add: settles_def)

lemma settles_and_then: "settles E P r \<Longrightarrow> (\<And>x. r = Ok x \<Longrightarrow> P x \<Longrightarrow> settles E Q (f x)) \<Longrightarrow> settles E Q (and_then r f)"
  by (cases r) (auto simp: settles_def split: failure.splits)

text \<open>So \<open>split_once\<close> and \<open>rsplit_once\<close> never panic on well-formed text, and their pieces are well-formed.\<close>

abbreviation pieces :: "(u8 list \<times> u8 list) option \<Rightarrow> bool" where
  "pieces \<equiv> pred_option (\<lambda>(left, right). is_valid_utf8 left \<and> is_valid_utf8 right)"

lemma split_settles:
  assumes "is_valid_utf8 s" "is_valid_utf8 p" "p \<noteq> []"
  shows "settles E pieces (split_once s p)" "settles E pieces (rsplit_once s p)"
proof -
  have "settles E pieces (split_at s p offset)"
    if "\<And>i. offset = Some i \<Longrightarrow> starts_with (drop i s) p \<and> i + length p \<le> length s" for offset
  proof (cases offset)
    case (Some i)
    then show ?thesis using occurrence_valid(3,4) [OF assms] that by (simp add: split_at_valid [OF assms])
  qed (simp add: split_at_def)
  then show "settles E pieces (split_once s p)" "settles E pieces (rsplit_once s p)"
    using str_find_occurs [OF assms(3)] by (simp_all add: split_once_def rsplit_once_def)
qed

lemma split_ascii_settles:
  assumes "is_valid_utf8 s" "list_all (\<lambda>b. b < 0x80) p" "p \<noteq> []"
  shows "settles E pieces (split_once s p)" "settles E pieces (rsplit_once s p)"
  using split_settles [OF assms(1) valid_ascii_list [OF assms(2)] assms(3)] by blast+

section \<open>The parsers\<close>

lemma ipv4_loop_settles:
  "is_valid_utf8 s \<Longrightarrow> length bytes = 4 \<Longrightarrow> settles E (pred_option (\<lambda>b. length b = 4)) (address_ipv4_loop ks bytes s)"
proof (induction ks arbitrary: bytes s)
  case (Cons i ks)
  have "settles E pieces (split_once s [DOT] :: (_ option) addr_result)" by (rule split_ascii_settles) (simp_all add: Cons.prems)
  then show ?case unfolding address_ipv4_loop.simps
    by (rule settles_and_then) (use Cons in \<open>auto simp: Let_def split: option.splits\<close>)
qed simp

lemma ipv4_settles: "is_valid_utf8 s \<Longrightarrow> settles E (pred_option (\<lambda>b. length b = 4)) (address_ipv4 s)"
  unfolding address_ipv4_def by (rule ipv4_loop_settles) simp_all

lemma ipv6_group_settles:
  assumes "is_valid_utf8 part" "length groups = 8"
  shows "settles E (pred_option (\<lambda>(g, c). length g = 8)) (ipv6_group part split ipv4 groups count)"
proof -
  have *: "settles E (pred_option (\<lambda>(g, c). length g = 8)) (and_then (address_ipv4 part) f)"
    if "\<And>b. settles E (pred_option (\<lambda>(g, c). length g = 8)) (f b)" for f
    by (rule settles_and_then [OF ipv4_settles]) (use assms that in auto)
  show ?thesis unfolding ipv6_group_def using assms(2) by (auto split: option.splits intro!: *)
qed

lemma ipv6_part_loop_settles:
  "is_valid_utf8 s \<Longrightarrow> length groups = 8 \<Longrightarrow>
     settles E (pred_option (\<lambda>(g, c). length g = 8)) (ipv6_part_loop s ipv4 groups count)"
proof (induction s arbitrary: groups count rule: length_induct)
  case (1 s)
  have "settles E pieces (split_once s [COLON] :: (_ option) addr_result)" by (rule split_ascii_settles) (simp_all add: "1.prems")
  then show ?case unfolding ipv6_part_loop.simps [of s]
  proof (rule settles_and_then)
    fix split :: "(u8 list \<times> u8 list) option"
    assume eq: "split_once s [COLON] = (Ok split :: (_ option) addr_result)" and p: "pieces split"
    let ?part = "case split of Some (left, right) \<Rightarrow> left | None \<Rightarrow> s"
    have "settles E (pred_option (\<lambda>(g, c). length g = 8)) (ipv6_group ?part (split \<noteq> None) ipv4 groups count)"
      by (rule ipv6_group_settles) (use p "1.prems" in \<open>auto split: option.splits\<close>)
    then show "settles E (pred_option (\<lambda>(g, c). length g = 8)) (and_then (ipv6_group ?part (split \<noteq> None) ipv4 groups count) (\<lambda>r.
       case r of
         None \<Rightarrow> Ok None
       | Some (groups1, count1) \<Rightarrow>
          (case split of
             None \<Rightarrow> Ok (Some (groups1, count1))
           | Some (left, right) \<Rightarrow> if right = [] then Ok None else ipv6_part_loop right ipv4 groups1 count1)))"
      by (rule settles_and_then) (use p eq 1 in \<open>auto split: option.splits dest: split_once_shorter\<close>)
  qed
qed

lemma ipv6_part_settles:
  "is_valid_utf8 s \<Longrightarrow> length groups = 8 \<Longrightarrow>
     settles E (pred_option (\<lambda>(g, c). length g = 8)) (address_ipv6_part s groups count ipv4)"
  by (simp add: address_ipv6_part_def ipv6_part_loop_settles)

lemma length_copy_tail [simp]: "length (copy_tail ks tc t groups) = length groups"
  by (induction ks tc t groups rule: copy_tail.induct) simp_all

lemma length_group_octets [simp]: "length (group_octets gs) = 2 * length gs"
  by (induction gs) simp_all

lemma ipv6_parse_settles:
  assumes "is_valid_utf8 s"
  shows "settles (\<lambda>e. True) (\<lambda>a. length (v6_octets a) = 16) (ipv6_parse s)"
proof -
  note part = ipv6_part_settles [where groups = "replicate 8 0" and E = "\<lambda>e. True", simplified]
  have "settles (\<lambda>e. True) pieces (split_once s [COLON, COLON] :: (_ option) addr_result)"
    by (rule split_ascii_settles) (simp_all add: assms)
  then show ?thesis unfolding ipv6_parse_def
  proof (rule settles_and_then)
    fix compressed assume "split_once s [COLON, COLON] = (Ok compressed :: (_ option) addr_result)" and p: "pieces compressed"
    show "settles (\<lambda>e. True) (\<lambda>a. length (v6_octets a) = 16) (case compressed of
       Some (left, right) \<Rightarrow>
         and_then (address_ipv6_part left (replicate 8 0) 0 False) (\<lambda>h.
           case h of
             None \<Rightarrow> Err (Fails InvalidIp)
           | Some (groups, count) \<Rightarrow> and_then (address_ipv6_part right (replicate 8 0) 0 True) (\<lambda>t.
               case t of
                 None \<Rightarrow> Err (Fails InvalidIp)
               | Some (tail1, tail_count) \<Rightarrow>
                   if count + tail_count \<ge> 8 then Err (Fails InvalidIp)
                   else Ok (ipv6_make (copy_tail [0 ..< tail_count] tail_count tail1 groups))))
     | None \<Rightarrow> and_then (address_ipv6_part s (replicate 8 0) 0 True) (\<lambda>h.
         case h of
           None \<Rightarrow> Err (Fails InvalidIp)
         | Some (groups, count) \<Rightarrow> if count \<noteq> 8 then Err (Fails InvalidIp) else Ok (ipv6_make groups)))"
      using p assms
      by (auto simp: ipv6_make_def split: option.splits intro!: settles_and_then [OF part])
  qed
qed
lemma ipv4_parse_settles:
  assumes "is_valid_utf8 s"
  shows "settles (\<lambda>e. True) (\<lambda>a. length (v4_octets a) = 4) (ipv4_parse s)"
  unfolding ipv4_parse_def
  by (rule settles_and_then [OF ipv4_settles [OF assms]]) (auto simp: ipv4_make_def split: option.splits)

lemma or_invalid_settles: "settles (\<lambda>e. True) P r \<Longrightarrow> settles (\<lambda>e. e = InvalidAddr) P (or_invalid r)"
  by (auto simp: settles_def or_invalid_def split: sum.splits failure.splits)

text \<open>A host that starts with one bracket and ends with the other has both, so \<open>unwrap\<close> succeeds.\<close>

lemma ends_with_single: "ends_with s [b] \<longleftrightarrow> s \<noteq> [] \<and> last s = b"
  by (cases s rule: rev_cases) (auto simp: ends_with_def)

lemma strip_brackets_settles:
  assumes "is_valid_utf8 host" "starts_with host [LBRACK]" "ends_with host [RBRACK]"
  shows "settles E is_valid_utf8 (strip_brackets host)"
proof -
  obtain inner where h: "host = LBRACK # inner @ [RBRACK]"
  proof -
    obtain t where t: "host = LBRACK # t" using assms(2) by (cases host) (auto simp: starts_with_single)
    then have "t \<noteq> []" "last t = RBRACK" using assms(3) by (auto simp: ends_with_single split: if_splits)
    then show ?thesis using that t by (cases t rule: rev_cases) auto
  qed
  have t: "is_valid_utf8 (inner @ [RBRACK])" using valid_split_ascii(2) [of "[]" LBRACK "inner @ [RBRACK]"] assms(1) h by simp
  then have i: "is_valid_utf8 inner" using valid_split_ascii(1) [of inner RBRACK "[]"] by simp
  have "is_char_boundary (inner @ [RBRACK]) (length inner)" "is_char_boundary host 1"
    using occurrence_valid(1) [of "inner @ [RBRACK]" "[RBRACK]" "length inner"] occurrence_valid(2) [OF assms(1), of "[LBRACK]" 0]
      valid_ascii t assms(2) by (auto simp: starts_with_single)
  then show ?thesis using i assms h boundary_ends [OF assms(1)] boundary_ends [OF t]
    by (simp add: strip_brackets_def strip_prefix_def strip_suffix_def str_get_def ends_with_append)
qed

lemma split_scope_settles:
  assumes "is_valid_utf8 s"
  shows "settles (\<lambda>e. e = InvalidAddr) (\<lambda>(host, scope). is_valid_utf8 host) (split_scope s)"
proof -
  have "settles (\<lambda>e. e = InvalidAddr) pieces (split_once s [0x25] :: (_ option) addr_result)"
    by (rule split_ascii_settles) (simp_all add: assms)
  then show ?thesis unfolding split_scope_def by (rule settles_and_then) (use assms in \<open>auto split: option.splits\<close>)
qed

lemma constructed_ctors:
  "length (v4_octets ip) = 4 \<Longrightarrow> constructed (socket_ipv4 ip port)"
  "length (v6_octets ip6) = 16 \<Longrightarrow> constructed (socket_ipv6 ip6 port flow scope)"
  by (simp_all add: constructed_def socket_ipv4_def socket_ipv6_def)

lemma socket_parse_settles:
  assumes "is_valid_utf8 s"
  shows "settles (\<lambda>e. e = InvalidAddr) (\<lambda>a. constructed a \<and> sa_flowinfo a = 0) (socket_parse s)"
proof -
  let ?P = "\<lambda>a. constructed a \<and> sa_flowinfo a = 0" and ?E = "\<lambda>e. e = InvalidAddr"
  have v4: "settles ?E ?P (and_then (or_invalid (ipv4_parse host)) (\<lambda>address. Ok (socket_ipv4 address port)))"
    if "is_valid_utf8 host" for host port
    by (rule settles_and_then [OF or_invalid_settles [OF ipv4_parse_settles [OF that]]])
      (simp add: constructed_ctors, simp add: socket_ipv4_def)
  have v6: "settles ?E ?P (and_then (or_invalid (ipv6_parse host)) (\<lambda>address. Ok (socket_ipv6 address port 0 scope)))"
    if "is_valid_utf8 host" for host port scope
    by (rule settles_and_then [OF or_invalid_settles [OF ipv6_parse_settles [OF that]]])
      (simp add: constructed_ctors, simp add: socket_ipv6_def)
  have b: "settles ?E ?P (and_then (strip_brackets host) (\<lambda>inner. and_then (split_scope inner) (\<lambda>(host1, scope).
       and_then (or_invalid (ipv6_parse host1)) (\<lambda>address. Ok (socket_ipv6 address port 0 scope)))))"
    if "is_valid_utf8 host" "starts_with host [LBRACK]" "ends_with host [RBRACK]" for host port
    by (rule settles_and_then [OF strip_brackets_settles [OF that]], rule settles_and_then [OF split_scope_settles])
      (auto intro: v6)
  have "settles ?E pieces (rsplit_once s [COLON] :: (_ option) addr_result)"
    by (rule split_ascii_settles) (simp_all add: assms)
  then show ?thesis unfolding socket_parse_def
    by (rule settles_and_then) (auto split: option.splits intro!: v4 b)
qed

lemma octet_word_groups:
  assumes "length (sa_octets a) = 16"
  shows "map (octet_word a) [0, 2, 4, 6, 8, 10, 12, 14] = octet_groups (sa_octets a)"
proof -
  have w: "push_bit 8 (ucast x) OR ucast y = (ucast x * 256 + ucast y :: u16)" for x y :: u8
  proof -
    have "push_bit 8 (ucast x :: u16) AND ucast y = 0"
      by (rule bit_eqI) (auto simp: bit_simps dest: bit_imp_le_length)
    then have "push_bit 8 (ucast x :: u16) OR ucast y = push_bit 8 (ucast x) + ucast y"
      by (simp add: disjunctive_add_eq_or)
    then show ?thesis by (simp add: push_bit_eq_mult mult.commute)
  qed
  obtain o0 o1 o2 o3 o4 o5 o6 o7 o8 o9 o10 o11 o12 o13 o14 o15 where
    "sa_octets a = [o0, o1, o2, o3, o4, o5, o6, o7, o8, o9, o10, o11, o12, o13, o14, o15]"
    using assms by (auto simp: numeral_eq_Suc length_Suc_conv)
  then show ?thesis by (simp add: octet_word_def w)
qed

lemma address_accessors:
  assumes "constructed a"
  shows "ipv4_address a = Some ip \<Longrightarrow> a = socket_ipv4 ip (sa_port a)"
    "ipv6_address a = Some ip6 \<Longrightarrow> a = socket_ipv6 ip6 (sa_port a) (sa_flowinfo a) (sa_scope_id a)"
    "constructed (with_port p a) \<and> address_text (with_port p a) = Some (host_text a @ COLON # show_nat (unat p))"
proof -
  show "a = socket_ipv4 ip (sa_port a)" if "ipv4_address a = Some ip"
    using that assms four_octets [of "sa_octets a"] append_take_drop_id [of 4 "sa_octets a"]
    by (auto simp: ipv4_address_def ipv4_make_def socket_ipv4_def constructed_def split: if_splits)
  show "a = socket_ipv6 ip6 (sa_port a) (sa_flowinfo a) (sa_scope_id a)" if "ipv6_address a = Some ip6"
  proof (cases "sa_kind a")
    case V6
    have "group_octets (map (octet_word a) [0, 2, 4, 6, 8, 10, 12, 14]) = sa_octets a"
      using octet_word_groups [of a] octets_groups [of "sa_octets a"] assms unfolding constructed_def by fastforce
    then have "ip6 = \<lparr>v6_octets = sa_octets a\<rparr>" using that V6 by (simp only: ipv6_address_def ipv6_make_def) simp
    then show ?thesis using V6 by (simp add: socket_ipv6_def)
  qed (use that in \<open>simp add: ipv6_address_def\<close>)
  have "constructed (with_port p a)" using assms by (simp add: constructed_def with_port_def)
  moreover have "host_text (with_port p a) = host_text a" by (simp add: host_text_def with_port_def)
  ultimately show "constructed (with_port p a) \<and> address_text (with_port p a) = Some (host_text a @ COLON # show_nat (unat p))"
    using address_text_eq [of "with_port p a"] by (simp add: with_port_def)
qed

section \<open>Theorem\<close>

text \<open>C19. Parsing a socket address returns for every well-formed text: an address that the constructors
  build, whose text parses back to it, or the error \<open>Invalid\<close>.  No \<open>unwrap\<close> in the parser or in
  \<open>split_once\<close> panics.\<close>

theorem socket_parse_total:
  assumes "is_valid_utf8 s"
  shows "case socket_parse s of
      Ok a \<Rightarrow> constructed a \<and> (\<exists>t. address_text a = Some t \<and> socket_parse t = Ok a)
    | Err e \<Rightarrow> e = Fails InvalidAddr"
proof (cases "socket_parse s")
  case (Inr a)
  then have a: "constructed a" "sa_flowinfo a = 0" using socket_parse_settles [OF assms] by simp_all
  then have "a\<lparr>sa_flowinfo := 0\<rparr> = a" by simp
  then show ?thesis using Inr a address_text_eq [OF a(1)] host_parsed(2) [OF a(1)] by simp
next
  case (Inl e)
  then show ?thesis using socket_parse_settles [OF assms] by (cases e) (auto simp: settles_def)
qed

theorem socket_parse_total_witness:
  "\<exists>a t. socket_parse (lit ''[fe80:0::1:0:10.0.0.1%3]:80'') = Ok a \<and> address_text a = Some t \<and> socket_parse t = Ok a"
proof -
  have v: "is_valid_utf8 (lit ''[fe80:0::1:0:10.0.0.1%3]:80'')" by code_simp
  have "socket_parse (lit ''[fe80:0::1:0:10.0.0.1%3]:80'') =
    Ok (socket_ipv6 (ipv6_make [0xfe80, 0, 0, 0, 1, 0, 0xa00, 1]) 80 0 3)" by code_simp
  then show ?thesis using socket_parse_total [OF v] by auto
qed

end
