(* ===== verification/Debug_Protocol.thy ===== *)
theory Debug_Protocol
  imports Alloc_String
begin

text \<open>
  The text protocol of the runtime's debug server (src/std/src/async/debug/protocol.cppm and
  protocol.cpp), with the names of the enumerations and the record types of src/std/src/async/debug.
  Requests are lines of at most five tokens; a response is a line of JSON that is built in a buffer with a
  limit, which drops everything once something did not fit.  What the session asks of the runtime
  (\<open>Handle::status\<close>, \<open>snapshot\<close>, \<open>task_snapshot\<close>, \<open>events\<close>) and of the clock are arguments.  Sizes are
  natural numbers where they count bytes of a buffer.
\<close>

section \<open>Types\<close>

datatype debug_kind = KRuntime | KTask | KBlockingJob | KWorker | KOperation | KResource | KWait

datatype debug_state =
    SCreated | SQueued | SRunning | SWaiting | SFacilityQueued | SFacilityRunning | STerminal | SCleaned
  | SPublished | SSubmitted | SReady | SConsumed | SReleaseRequested | SReleased | SCancelled | SRemoved
  | SParked | SStopping | SClosed

datatype debug_error = EBusy | ENotFound | EEvicted | EHistoryGap | EInvalidCursor | ECapacity | EClosed

datatype debug_outcome = OUnknown | OSuccess | OAborted | OError

record runtime_info =
  ri_multi_thread :: bool
  ri_io_enabled :: bool
  ri_time_enabled :: bool
  ri_workers :: u64
  ri_max_blocking_threads :: u64

record debug_record =
  dr_id :: u64
  dr_parent :: u64
  dr_target :: u64
  dr_kind :: debug_kind
  dr_state :: debug_state
  dr_version :: u64
  dr_changed_ns :: u64
  dr_worker :: u64
  dr_external :: bool
  dr_cancel_requested :: bool
  dr_cancel_rejected :: bool
  dr_terminal :: bool
  dr_truncated :: bool
  dr_scheduler_terminal :: bool
  dr_frame_cleaned :: bool
  dr_result_published :: bool
  dr_backend_terminal :: bool
  dr_outcome :: debug_outcome
  dr_name :: "u8 list"
  dr_file :: "u8 list"
  dr_line :: u32

record debug_event =
  ev_sequence :: u64
  ev_record :: debug_record

record debug_status =
  st_session :: u64
  st_cursor :: u64
  st_closed :: bool
  st_incomplete :: bool
  st_exhausted :: bool
  st_omitted :: u64
  st_dropped_events :: u64
  st_runtime :: runtime_info

record debug_snapshot =
  sn_status :: debug_status
  sn_observed_ns :: u64
  sn_records :: "debug_record list"

record debug_events =
  es_status :: debug_status
  es_events :: "debug_event list"

definition kind_name :: "debug_kind \<Rightarrow> string" where
  "kind_name v =
    (case v of KRuntime \<Rightarrow> ''runtime'' | KTask \<Rightarrow> ''task'' | KBlockingJob \<Rightarrow> ''blocking_job'' | KWorker \<Rightarrow> ''worker''
     | KOperation \<Rightarrow> ''operation'' | KResource \<Rightarrow> ''resource'' | KWait \<Rightarrow> ''wait'')"

definition state_name :: "debug_state \<Rightarrow> string" where
  "state_name v =
    (case v of SCreated \<Rightarrow> ''created'' | SQueued \<Rightarrow> ''queued'' | SRunning \<Rightarrow> ''running'' | SWaiting \<Rightarrow> ''waiting''
     | SFacilityQueued \<Rightarrow> ''facility_queued'' | SFacilityRunning \<Rightarrow> ''facility_running'' | STerminal \<Rightarrow> ''terminal''
     | SCleaned \<Rightarrow> ''cleaned'' | SPublished \<Rightarrow> ''published'' | SSubmitted \<Rightarrow> ''submitted'' | SReady \<Rightarrow> ''ready''
     | SConsumed \<Rightarrow> ''consumed'' | SReleaseRequested \<Rightarrow> ''release_requested'' | SReleased \<Rightarrow> ''released''
     | SCancelled \<Rightarrow> ''cancelled'' | SRemoved \<Rightarrow> ''removed'' | SParked \<Rightarrow> ''parked'' | SStopping \<Rightarrow> ''stopping''
     | SClosed \<Rightarrow> ''closed'')"

definition outcome_name :: "debug_outcome \<Rightarrow> string" where
  "outcome_name v =
    (case v of OUnknown \<Rightarrow> ''unknown'' | OSuccess \<Rightarrow> ''success'' | OAborted \<Rightarrow> ''aborted'' | OError \<Rightarrow> ''error'')"

definition error_name :: "debug_error \<Rightarrow> string" where
  "error_name v =
    (case v of EBusy \<Rightarrow> ''busy'' | ENotFound \<Rightarrow> ''not_found'' | EEvicted \<Rightarrow> ''evicted'' | EHistoryGap \<Rightarrow> ''history_gap''
     | ECapacity \<Rightarrow> ''snapshot_too_large'' | EInvalidCursor \<Rightarrow> ''invalid_cursor'' | EClosed \<Rightarrow> ''runtime_closed'')"

definition coverage :: string where
  "coverage = ''tasks,blocking_jobs,workers,timers,join,owned_io,source_release; '' @
     ''unknown:mutex,notify,oneshot,readiness,third_party; await target=0 means unknown; no native stacks''"

section \<open>Requests\<close>

definition VERSION :: u64 where "VERSION = 2"

datatype command = Hello | Snapshot | SnapshotPage | Task | Events

record request =
  rq_id :: u64
  rq_command :: command
  rq_argument :: u64
  rq_limit :: "u64 option"

record request_error =
  re_message :: string
  re_request_id :: "u64 option"

type_synonym 'a request_result = "(request_error failure, 'a) result"

definition request_fail :: "u64 option \<Rightarrow> string \<Rightarrow> 'a request_result" where
  "request_fail ident message = Err (Fails \<lparr>re_message = message, re_request_id = ident\<rparr>)"

fun number_digits :: "u8 list \<Rightarrow> u64 \<Rightarrow> u64 option" where
  "number_digits [] v = Some v"
| "number_digits (c # cs) v =
    (if c < D0 \<or> c > D9 \<or> v > (NOT 0 - ucast (c - D0)) div 10 then None
     else number_digits cs (v * 10 + ucast c - 0x30))"

definition number :: "u8 list \<Rightarrow> u64 option" where
  "number token = (if token = [] then None else number_digits token 0)"

text \<open>The end of a token at a space or at the end of the line: the tokens and the request identifier.\<close>

definition end_token :: "u8 list \<Rightarrow> u8 list list \<Rightarrow> u64 option \<Rightarrow> (u8 list list \<times> u64 option) request_result" where
  "end_token pending tokens ident =
    (if pending = [] \<or> length tokens = 5 then request_fail ident ''invalid_request''
     else
       let tokens1 = tokens @ [pending] in
       if length tokens1 = 2 then
         (case number pending of
            None \<Rightarrow> request_fail None ''invalid_request''
          | Some v \<Rightarrow> if v = 0 then request_fail None ''invalid_request'' else Ok (tokens1, Some v))
       else Ok (tokens1, ident))"

fun token_loop :: "u8 list \<Rightarrow> u8 list list \<Rightarrow> u64 option \<Rightarrow> u8 list \<Rightarrow> (u8 list list \<times> u64 option) request_result" where
  "token_loop pending tokens ident [] = end_token pending tokens ident"
| "token_loop pending tokens ident (c # cs) =
    (if c \<noteq> SP then
       if c < 0x21 \<or> c > 0x7e then request_fail ident ''invalid_request''
       else token_loop (pending @ [c]) tokens ident cs
     else and_then (end_token pending tokens ident) (\<lambda>(tokens1, ident1). token_loop [] tokens1 ident1 cs))"

definition request_of :: "u8 list list \<Rightarrow> u64 option \<Rightarrow> request request_result" where
  "request_of tokens ident =
    (case ident of
       None \<Rightarrow> Err Panics
     | Some v \<Rightarrow> if \<not> is_valid_utf8 (tokens ! 2) then Err Panics
     else
       let name = tokens ! 2; count = length tokens in
       if name = lit ''hello'' \<or> name = lit ''snapshot'' then
         if count \<noteq> 3 then request_fail ident ''invalid_request''
         else Ok \<lparr>rq_id = v, rq_command = (if name = lit ''hello'' then Hello else Snapshot), rq_argument = 0, rq_limit = None\<rparr>
       else if name = lit ''snapshot_page'' \<or> name = lit ''task'' \<or> name = lit ''events'' then
         if count < 4 \<or> (name \<noteq> lit ''events'' \<and> count \<noteq> 4) then request_fail ident ''invalid_request''
         else case number (tokens ! 3) of
           None \<Rightarrow> request_fail ident (if name = lit ''events'' then ''invalid_cursor'' else ''invalid_request'')
         | Some argument \<Rightarrow>
             let cmd = (if name = lit ''snapshot_page'' then SnapshotPage else if name = lit ''task'' then Task else Events) in
             if count = 5 then
               (case number (tokens ! 4) of
                  None \<Rightarrow> request_fail ident ''invalid_request''
                | Some limit \<Rightarrow>
                    if limit = 0 then request_fail ident ''invalid_request''
                    else Ok \<lparr>rq_id = v, rq_command = cmd, rq_argument = argument, rq_limit = Some limit\<rparr>)
             else Ok \<lparr>rq_id = v, rq_command = cmd, rq_argument = argument, rq_limit = None\<rparr>
       else request_fail ident ''invalid_request'')"

definition parse_request :: "u8 list \<Rightarrow> request request_result" where
  "parse_request line =
    (if line = [] then request_fail None ''invalid_request''
     else and_then (token_loop [] [] None line) (\<lambda>(tokens, ident).
       if length tokens < 3 then request_fail ident ''invalid_request''
       else case number (tokens ! 0) of
         None \<Rightarrow> request_fail ident ''invalid_request''
       | Some version \<Rightarrow>
           if version \<noteq> VERSION then request_fail ident ''unsupported_version'' else request_of tokens ident))"

section \<open>Responses\<close>

record response =
  rs_text :: "u8 list"
  rs_limit :: nat
  rs_failed :: bool

definition response_make :: "nat \<Rightarrow> response" where
  "response_make limit = \<lparr>rs_text = [], rs_limit = limit, rs_failed = False\<rparr>"

definition fits :: "nat \<Rightarrow> nat \<Rightarrow> response \<Rightarrow> bool" where
  "fits bytes reserved r \<longleftrightarrow> \<not> rs_failed r \<and> bytes \<le> rs_limit r - length (rs_text r) \<and>
     reserved \<le> rs_limit r - length (rs_text r) - bytes"

definition raw :: "u8 list \<Rightarrow> response \<Rightarrow> response" where
  "raw txt r = (if \<not> fits (length txt) 0 r then r\<lparr>rs_failed := True\<rparr> else r\<lparr>rs_text := push_str (rs_text r) txt\<rparr>)"

definition ascii_char :: "u8 \<Rightarrow> response \<Rightarrow> response" where
  "ascii_char c r = (if \<not> fits 1 0 r then r\<lparr>rs_failed := True\<rparr> else r\<lparr>rs_text := rs_text r @ [c]\<rparr>)"

definition escape_char :: "u8 \<Rightarrow> response \<Rightarrow> response" where
  "escape_char c r =
    (if c = DQUOTE then raw [BSLASH, DQUOTE] r
     else if c = BSLASH then raw [BSLASH, BSLASH] r
     else
       let digits = lit ''0123456789abcdef'' in
       ascii_char (digits ! unat (c AND 15)) (ascii_char (digits ! unat (drop_bit 4 c)) (raw (BSLASH # lit ''u00'') r)))"

text \<open>The loop of \<open>quoted\<close>; \<open>pending\<close> is the text between \<open>begin\<close> and \<open>offset\<close>.\<close>

fun quoted_loop :: "u8 list \<Rightarrow> u8 list \<Rightarrow> response \<Rightarrow> response" where
  "quoted_loop pending [] r = raw pending r"
| "quoted_loop pending (c # cs) r =
    (if c \<ge> 0x20 \<and> c \<noteq> DQUOTE \<and> c \<noteq> BSLASH then quoted_loop (pending @ [c]) cs r
     else quoted_loop [] cs (escape_char c (raw pending r)))"

definition quoted :: "u8 list \<Rightarrow> response \<Rightarrow> response" where
  "quoted v r = raw [DQUOTE] (quoted_loop [] v (raw [DQUOTE] r))"

definition key_field :: "string \<Rightarrow> response \<Rightarrow> response" where
  "key_field k r = raw [COLON] (quoted (lit k) (raw [COMMA] r))"

definition text_field :: "string \<Rightarrow> u8 list \<Rightarrow> response \<Rightarrow> response" where
  "text_field k v r = quoted v (key_field k r)"

definition integer :: "u64 \<Rightarrow> response \<Rightarrow> response" where
  "integer v r = raw (format_unsigned v) r"

definition number_field :: "string \<Rightarrow> u64 \<Rightarrow> response \<Rightarrow> response" where
  "number_field k v r = integer v (key_field k r)"

definition id_field :: "string \<Rightarrow> u64 \<Rightarrow> response \<Rightarrow> response" where
  "id_field k v r = raw [DQUOTE] (integer v (raw [DQUOTE] (key_field k r)))"

definition flag_field :: "string \<Rightarrow> bool \<Rightarrow> response \<Rightarrow> response" where
  "flag_field k v r = raw (lit (if v then ''true'' else ''false'')) (key_field k r)"

definition response_finish :: "response \<Rightarrow> (u8 list) option" where
  "response_finish r = (if rs_failed r then None else Some (rs_text r))"

definition envelope :: "u64 option \<Rightarrow> nat \<Rightarrow> response" where
  "envelope ident bytes =
    (let r = raw (lit '',\"request_id\":\"'') (integer VERSION (raw (lit ''{\"version\":'') (response_make (if bytes \<noteq> 0 then bytes - 1 else 0)))) in
     raw [DQUOTE] (case ident of None \<Rightarrow> r | Some v \<Rightarrow> integer v r))"

definition error_response :: "request_error \<Rightarrow> nat \<Rightarrow> u8 list" where
  "error_response e max_message_bytes =
    (let r = text_field ''error'' (lit (re_message e)) (envelope (re_request_id e) max_message_bytes);
         r1 = (if re_message e = ''history_gap'' then flag_field ''resync_required'' True r else r) in
     case response_finish (raw (lit ''}'') r1) of None \<Rightarrow> [] | Some txt \<Rightarrow> txt)"

definition status_fields :: "debug_status \<Rightarrow> response \<Rightarrow> response" where
  "status_fields s r =
    id_field ''dropped_events'' (st_dropped_events s) (id_field ''omitted'' (st_omitted s)
      (flag_field ''incomplete'' (st_incomplete s) (flag_field ''exhausted'' (st_exhausted s)
        (flag_field ''closed'' (st_closed s) (id_field ''session'' (st_session s) r)))))"

definition encode_record :: "debug_record \<Rightarrow> nat \<Rightarrow> (u8 list) option" where
  "encode_record rec maximum =
    (let r0 = raw [DQUOTE] (integer (dr_id rec) (raw (lit ''{\"id\":\"'') (response_make maximum)));
         r1 = id_field ''target'' (dr_target rec) (id_field ''parent'' (dr_parent rec) r0);
         r2 = text_field ''state'' (lit (state_name (dr_state rec))) (text_field ''kind'' (lit (kind_name (dr_kind rec))) r1);
         r3 = id_field ''changed_ns'' (dr_changed_ns rec) (id_field ''version'' (dr_version rec) r2);
         r4 = text_field ''file'' (dr_file rec) (text_field ''name'' (dr_name rec) r3);
         r5 = number_field ''worker'' (dr_worker rec) (number_field ''line'' (ucast (dr_line rec)) r4);
         r6 = flag_field ''cancel_requested'' (dr_cancel_requested rec) (flag_field ''external'' (dr_external rec) r5);
         r7 = flag_field ''scheduler_terminal'' (dr_scheduler_terminal rec) (flag_field ''cancel_rejected'' (dr_cancel_rejected rec) r6);
         r8 = flag_field ''result_published'' (dr_result_published rec) (flag_field ''frame_cleaned'' (dr_frame_cleaned rec) r7);
         r9 = text_field ''outcome'' (lit (outcome_name (dr_outcome rec))) (flag_field ''backend_terminal'' (dr_backend_terminal rec) r8);
         r10 = flag_field ''truncated'' (dr_truncated rec) (flag_field ''terminal'' (dr_terminal rec) r9) in
     response_finish (raw (lit ''}'') r10))"

section \<open>Sessions\<close>

record protocol_options =
  po_max_message_bytes :: u64
  po_max_snapshot_bytes :: u64
  po_page_records :: u64
  po_snapshot_lifetime :: duration

record debug_handle =
  h_status :: "(debug_error, debug_status) result"
  h_snapshot :: "u64 \<Rightarrow> (debug_error, debug_snapshot) result"
  h_task_snapshot :: "u64 \<Rightarrow> u64 \<Rightarrow> (debug_error, debug_snapshot) result"
  h_events :: "u64 \<Rightarrow> u64 \<Rightarrow> (debug_error, debug_events) result"

record session =
  se_options :: protocol_options
  se_snapshot :: "debug_snapshot option"
  se_snapshot_id :: u64
  se_page :: nat
  se_hello :: bool

definition session_make :: "protocol_options \<Rightarrow> session" where
  "session_make opts = \<lparr>se_options = opts, se_snapshot = None, se_snapshot_id = 0, se_page = 0, se_hello = False\<rparr>"

abbreviation message_bytes :: "session \<Rightarrow> nat" where
  "message_bytes s \<equiv> unat (po_max_message_bytes (se_options s))"

definition session_fail :: "session \<Rightarrow> u64 \<Rightarrow> string \<Rightarrow> u8 list" where
  "session_fail s ident message = error_response \<lparr>re_message = message, re_request_id = Some ident\<rparr> (message_bytes s)"

text \<open>
  The loop that adds encoded entries to a response while they fit, with room for \<open>reserved\<close> bytes: the
  number of entries added and the response, or \<open>None\<close> when the first entry does not fit.
\<close>

fun entries_loop :: "nat \<Rightarrow> (u8 list) option list \<Rightarrow> nat \<Rightarrow> response \<Rightarrow> (nat \<times> response) option" where
  "entries_loop reserved [] count r = Some (count, r)"
| "entries_loop reserved (e # es) count r =
    (case e of
       None \<Rightarrow> if count = 0 then None else Some (count, r)
     | Some txt \<Rightarrow>
         if \<not> fits (length txt + (if count \<noteq> 0 then 1 else 0)) reserved r then if count = 0 then None else Some (count, r)
         else entries_loop reserved es (count + 1) (raw txt (if count \<noteq> 0 then raw [COMMA] r else r)))"

definition page_response :: "session \<Rightarrow> debug_snapshot \<Rightarrow> u64 \<Rightarrow> u8 list \<times> session" where
  "page_response s snap ident =
    (let r = envelope (Some ident) (message_bytes s);
         r1 = id_field ''observed_ns'' (sn_observed_ns snap) (id_field ''cursor'' (st_cursor (sn_status snap))
           (id_field ''snapshot_id'' (se_snapshot_id s) (status_fields (sn_status snap) r)));
         r2 = raw (lit '',\"records\":['') r1;
         shown = take (unat (po_page_records (se_options s))) (drop (se_page s) (sn_records snap)) in
     case entries_loop 15 (map (\<lambda>rec. encode_record rec (message_bytes s)) shown) 0 r2 of
       None \<Rightarrow> (session_fail s ident ''record_too_large'', s)
     | Some (count, r3) \<Rightarrow>
         let s1 = s\<lparr>se_page := se_page s + count\<rparr>;
             r4 = flag_field ''more'' (se_page s1 < length (sn_records snap)) (raw (lit '']'') r3) in
         (case response_finish (raw (lit ''}'') r4) of
            None \<Rightarrow> (session_fail s ident ''record_too_large'', s1)
          | Some txt \<Rightarrow> (txt, s1)))"

definition hello_response :: "debug_handle \<Rightarrow> session \<Rightarrow> u64 \<Rightarrow> u8 list \<times> session" where
  "hello_response h s ident =
    (case h_status h of
       Err e \<Rightarrow> (session_fail s ident (error_name e), s)
     | Ok v \<Rightarrow>
         let opts = se_options s; rt = st_runtime v;
             r = status_fields v (envelope (Some ident) (message_bytes s));
             r1 = number_field ''page_records'' (po_page_records opts)
               (number_field ''max_snapshot_bytes'' (po_max_snapshot_bytes opts)
                 (number_field ''max_message_bytes'' (po_max_message_bytes opts) r));
             r2 = raw (lit (if ri_multi_thread rt then ''true'' else ''false'')) (raw (lit '',\"runtime\":{\"multi_thread\":'') r1);
             r3 = number_field ''max_blocking_threads'' (ri_max_blocking_threads rt) (number_field ''workers'' (ri_workers rt) r2);
             r4 = raw (lit ''}'') (flag_field ''time_enabled'' (ri_time_enabled rt) (flag_field ''io_enabled'' (ri_io_enabled rt) r3)) in
         (case response_finish (raw (lit ''}'') (text_field ''coverage'' (lit coverage) r4)) of
            None \<Rightarrow> (session_fail s ident ''record_too_large'', s)
          | Some txt \<Rightarrow> (txt, s\<lparr>se_hello := True\<rparr>)))"

definition encode_event :: "nat \<Rightarrow> debug_event \<Rightarrow> (u8 list) option" where
  "encode_event maximum ev =
    (let rec = encode_record (ev_record ev) maximum;
         r = raw (lit ''\",\"record\":'') (integer (ev_sequence ev) (raw (lit ''{\"sequence\":\"'') (response_make maximum)));
         r1 = (case rec of None \<Rightarrow> r | Some txt \<Rightarrow> raw txt r) in
     case rec of None \<Rightarrow> None | Some _ \<Rightarrow> response_finish (raw (lit ''}'') r1))"

definition events_response :: "debug_handle \<Rightarrow> session \<Rightarrow> request \<Rightarrow> u8 list" where
  "events_response h s rq =
    (let limit = (case rq_limit rq of Some n \<Rightarrow> n | None \<Rightarrow> po_page_records (se_options s)) in
     if limit = 0 \<or> limit > po_page_records (se_options s) then session_fail s (rq_id rq) ''invalid_request''
     else case h_events h (rq_argument rq) limit of
       Err e \<Rightarrow> session_fail s (rq_id rq) (error_name e)
     | Ok evs \<Rightarrow>
         let r = raw (lit '',\"events\":['') (status_fields (es_status evs) (envelope (Some (rq_id rq)) (message_bytes s))) in
         (case entries_loop 39 (map (encode_event (message_bytes s)) (es_events evs)) 0 r of
            None \<Rightarrow> session_fail s (rq_id rq) ''record_too_large''
          | Some (count, r1) \<Rightarrow>
              let cursor = (if count = 0 then rq_argument rq else ev_sequence (es_events evs ! (count - 1)));
                  r2 = id_field ''next_cursor'' cursor (raw (lit '']'') r1) in
              (case response_finish (raw (lit ''}'') r2) of
                 None \<Rightarrow> session_fail s (rq_id rq) ''record_too_large''
               | Some txt \<Rightarrow> txt)))"

definition take_snapshot :: "debug_handle \<Rightarrow> session \<Rightarrow> request \<Rightarrow> u8 list \<times> session" where
  "take_snapshot h s0 rq =
    (let s = s0\<lparr>se_snapshot := None\<rparr>;
         limit = po_max_snapshot_bytes (se_options s) in
     case (if rq_command rq = Snapshot then h_snapshot h limit else h_task_snapshot h (rq_argument rq) limit) of
       Err e \<Rightarrow> (session_fail s (rq_id rq) (error_name e), s)
     | Ok view \<Rightarrow>
         if se_snapshot_id s = NOT 0 then (session_fail s (rq_id rq) ''snapshot_expired'', s)
         else page_response (s\<lparr>se_snapshot_id := se_snapshot_id s + 1, se_page := 0, se_snapshot := Some view\<rparr>) view (rq_id rq))"

text \<open>\<open>elapsed\<close> is what \<open>captured_.elapsed()\<close> returns.\<close>

definition respond :: "debug_handle \<Rightarrow> duration \<Rightarrow> session \<Rightarrow> request \<Rightarrow> u8 list \<times> session" where
  "respond h elapsed s0 rq =
    (let s = (if se_snapshot s0 \<noteq> None \<and> \<not> duration_less elapsed (po_snapshot_lifetime (se_options s0))
              then s0\<lparr>se_snapshot := None\<rparr> else s0) in
     if rq_command rq = Hello then hello_response h s (rq_id rq)
     else if \<not> se_hello s then (session_fail s (rq_id rq) ''hello_required'', s)
     else if rq_command rq = Snapshot \<or> rq_command rq = Task then take_snapshot h s rq
     else if rq_command rq = SnapshotPage then
       (case se_snapshot s of
          None \<Rightarrow> (session_fail s (rq_id rq) ''snapshot_expired'', s)
        | Some snap \<Rightarrow>
            if rq_argument rq \<noteq> se_snapshot_id s then (session_fail s (rq_id rq) ''snapshot_expired'', s)
            else page_response s snap (rq_id rq))
     else (events_response h s rq, s))"

end
