(* ===== verification/Debug_Protocol_Facts.thy ===== *)
theory Debug_Protocol_Facts
  imports Debug_Protocol String_Facts
begin

text \<open>
  Requests are read as they are written, responses stay within the limit of a message, and pages carry
  the records of a snapshot in order without loss.
\<close>

section \<open>What a response contains\<close>

text \<open>A buffer of limit \<open>L\<close> into which \<open>t\<close> was written.\<close>

definition built :: "nat \<Rightarrow> u8 list \<Rightarrow> response \<Rightarrow> bool" where
  "built L t r \<longleftrightarrow> rs_limit r = L \<and> length (rs_text r) \<le> L \<and> rs_failed r = (L < length t) \<and> (\<not> rs_failed r \<longrightarrow> rs_text r = t)"

lemma built_make: "built L [] (response_make L)"
  by (simp add: built_def response_make_def)

lemma built_fits: "built L t r \<Longrightarrow> fits n m r \<longleftrightarrow> length t + n + m \<le> L"
  by (auto simp: built_def fits_def)

lemma built_raw: "built L t r \<Longrightarrow> built L (t @ x) (raw x r)"
  by (auto simp: built_def raw_def fits_def push_str_def)

lemma built_char: "built L t r \<Longrightarrow> built L (t @ [c]) (ascii_char c r)"
  by (auto simp: built_def ascii_char_def fits_def)

lemma built_finish: "built L t r \<Longrightarrow> response_finish r = (if length t \<le> L then Some t else None)"
  by (auto simp: built_def response_finish_def)

definition escaped :: "u8 \<Rightarrow> u8 list" where
  "escaped c =
    (if c = DQUOTE then [BSLASH, DQUOTE] else if c = BSLASH then [BSLASH, BSLASH]
     else if c \<ge> 0x20 then [c]
     else BSLASH # lit ''u00'' @ [lit ''0123456789abcdef'' ! unat (drop_bit 4 c), lit ''0123456789abcdef'' ! unat (c AND 15)])"

definition quote_text :: "u8 list \<Rightarrow> u8 list" where
  "quote_text v = DQUOTE # concat (map escaped v) @ [DQUOTE]"

lemma built_escape:
  assumes "built L t r" "\<not> (c \<ge> 0x20 \<and> c \<noteq> DQUOTE \<and> c \<noteq> BSLASH)"
  shows "built L (t @ escaped c) (escape_char c r)"
proof -
  have "built L (((t @ (BSLASH # lit ''u00'')) @ [h]) @ [l]) (ascii_char l (ascii_char h (raw (BSLASH # lit ''u00'') r)))" for h l
    using built_char [OF built_char [OF built_raw [OF assms(1)]]] .
  then show ?thesis using built_raw [OF assms(1)] assms(2) by (auto simp: escape_char_def escaped_def Let_def)
qed

lemma built_quoted_loop: "built L t r \<Longrightarrow> built L (t @ pending @ concat (map escaped v)) (quoted_loop pending v r)"
proof (induction v arbitrary: t r pending)
  case Nil
  then show ?case using built_raw by simp
next
  case (Cons c v)
  show ?case
  proof (cases "c \<ge> 0x20 \<and> c \<noteq> DQUOTE \<and> c \<noteq> BSLASH")
    case True
    then have "escaped c = [c]" by (simp add: escaped_def)
    then show ?thesis using Cons.IH [OF Cons.prems, of "pending @ [c]"] True by simp
  next
    case False
    have "built L (((t @ pending) @ escaped c) @ [] @ concat (map escaped v)) (quoted_loop [] v (escape_char c (raw pending r)))"
      by (rule Cons.IH [OF built_escape [OF built_raw [OF Cons.prems] False]])
    then show ?thesis using False by auto
  qed
qed

lemma built_quoted: "built L t r \<Longrightarrow> built L (t @ quote_text v) (quoted v r)"
  using built_raw [OF built_quoted_loop [OF built_raw [of L t r "[DQUOTE]"], of "[]" v], of "[DQUOTE]"]
  by (simp add: quoted_def quote_text_def)

definition key_text :: "string \<Rightarrow> u8 list" where
  "key_text k = COMMA # quote_text (lit k) @ [COLON]"

definition digits_text :: "u64 \<Rightarrow> u8 list" where
  "digits_text v = show_nat (unat v)"

definition id_text :: "string \<Rightarrow> u64 \<Rightarrow> u8 list" where
  "id_text k v = key_text k @ DQUOTE # digits_text v @ [DQUOTE]"

definition flag_text :: "string \<Rightarrow> bool \<Rightarrow> u8 list" where
  "flag_text k v = key_text k @ lit (if v then ''true'' else ''false'')"

lemma built_key: "built L t r \<Longrightarrow> built L (t @ key_text k) (key_field k r)"
  using built_raw [OF built_quoted [OF built_raw [of L t r "[COMMA]"]], of "lit k" "[COLON]"] by (simp add: key_field_def key_text_def)

lemma built_text: "built L t r \<Longrightarrow> built L (t @ key_text k @ quote_text v) (text_field k v r)"
  using built_quoted [OF built_key] by (simp add: text_field_def)

lemma built_integer: "built L t r \<Longrightarrow> built L (t @ digits_text v) (integer v r)"
  using built_raw by (simp add: integer_def digits_text_def format_unsigned_eq)

lemma built_number: "built L t r \<Longrightarrow> built L (t @ key_text k @ digits_text v) (number_field k v r)"
  using built_integer [OF built_key] by (simp add: number_field_def)

lemma built_id: "built L t r \<Longrightarrow> built L (t @ id_text k v) (id_field k v r)"
  using built_raw [OF built_integer [OF built_raw [OF built_key [of L t r k], of "[DQUOTE]"], of v], of "[DQUOTE]"]
  by (simp add: id_field_def id_text_def)

lemma built_flag: "built L t r \<Longrightarrow> built L (t @ flag_text k v) (flag_field k v r)"
  using built_raw [OF built_key] by (simp add: flag_field_def flag_text_def)

lemmas built_ops = built_make built_raw built_text built_integer built_number built_id built_flag

lemma built_eq: "built L t r \<Longrightarrow> t = t' \<Longrightarrow> built L t' r"
  by simp

definition envelope_text :: "u64 option \<Rightarrow> u8 list" where
  "envelope_text ident = lit ''{\"version\":2,\"request_id\":\"'' @ (case ident of None \<Rightarrow> [] | Some v \<Rightarrow> digits_text v) @ [DQUOTE]"

lemma built_envelope: "built (n - 1) (envelope_text ident) (envelope ident n)"
proof -
  have v: "digits_text VERSION = lit ''2''" by (simp add: digits_text_def VERSION_def show_nat_digit lit_def)
  have e: "(if n \<noteq> 0 then n - 1 else 0) = n - 1" by simp
  have "built (n - 1) ([] @ lit ''{\"version\":'' @ digits_text VERSION @ lit '',\"request_id\":\"'')
    (raw (lit '',\"request_id\":\"'') (integer VERSION (raw (lit ''{\"version\":'') (response_make (n - 1)))))"
    by (rule built_eq, (rule built_ops)+) simp
  then have "built (n - 1) (lit ''{\"version\":2,\"request_id\":\"'')
    (raw (lit '',\"request_id\":\"'') (integer VERSION (raw (lit ''{\"version\":'') (response_make (n - 1)))))"
    by (simp add: v lit_def)
  then show ?thesis unfolding envelope_def e Let_def
    using built_raw built_raw [OF built_integer] by (auto simp: envelope_text_def split: option.split)
qed

definition status_text :: "debug_status \<Rightarrow> u8 list" where
  "status_text s = id_text ''session'' (st_session s) @ flag_text ''closed'' (st_closed s) @ flag_text ''exhausted'' (st_exhausted s) @
     flag_text ''incomplete'' (st_incomplete s) @ id_text ''omitted'' (st_omitted s) @ id_text ''dropped_events'' (st_dropped_events s)"

lemma built_status: "built L t r \<Longrightarrow> built L (t @ status_text s) (status_fields s r)"
  unfolding status_fields_def by (rule built_eq, (rule built_ops)+, assumption) (simp add: status_text_def)

definition record_text :: "debug_record \<Rightarrow> u8 list" where
  "record_text rec = lit ''{\"id\":\"'' @ digits_text (dr_id rec) @ [DQUOTE] @ id_text ''parent'' (dr_parent rec) @
     id_text ''target'' (dr_target rec) @ key_text ''kind'' @ quote_text (lit (kind_name (dr_kind rec))) @
     key_text ''state'' @ quote_text (lit (state_name (dr_state rec))) @ id_text ''version'' (dr_version rec) @
     id_text ''changed_ns'' (dr_changed_ns rec) @ key_text ''name'' @ quote_text (dr_name rec) @
     key_text ''file'' @ quote_text (dr_file rec) @ key_text ''line'' @ digits_text (ucast (dr_line rec)) @
     key_text ''worker'' @ digits_text (dr_worker rec) @ flag_text ''external'' (dr_external rec) @
     flag_text ''cancel_requested'' (dr_cancel_requested rec) @ flag_text ''cancel_rejected'' (dr_cancel_rejected rec) @
     flag_text ''scheduler_terminal'' (dr_scheduler_terminal rec) @ flag_text ''frame_cleaned'' (dr_frame_cleaned rec) @
     flag_text ''result_published'' (dr_result_published rec) @ flag_text ''backend_terminal'' (dr_backend_terminal rec) @
     key_text ''outcome'' @ quote_text (lit (outcome_name (dr_outcome rec))) @ flag_text ''terminal'' (dr_terminal rec) @
     flag_text ''truncated'' (dr_truncated rec) @ lit ''}''"

lemma encode_record_eq: "encode_record rec n = (if length (record_text rec) \<le> n then Some (record_text rec) else None)"
  unfolding encode_record_def Let_def
  by (rule built_finish, rule built_eq, (rule built_ops)+) (simp add: record_text_def)

section \<open>Entries\<close>

fun comma_join :: "u8 list list \<Rightarrow> u8 list" where
  "comma_join [] = []"
| "comma_join [x] = x"
| "comma_join (x # xs) = x @ COMMA # comma_join xs"

lemma comma_join_Cons: "xs \<noteq> [] \<Longrightarrow> comma_join (x # xs) = x @ COMMA # comma_join xs"
  by (cases xs) simp_all

definition joined :: "nat \<Rightarrow> u8 list list \<Rightarrow> u8 list" where
  "joined count xs = (if count \<noteq> 0 \<and> xs \<noteq> [] then COMMA # comma_join xs else comma_join xs)"

lemma joined_Cons: "joined count (x # xs) = (if count \<noteq> 0 then [COMMA] else []) @ x @ joined (count + 1) xs"
  by (cases xs) (simp_all add: joined_def)

definition no_room :: "nat \<Rightarrow> u8 list \<Rightarrow> (u8 list) option \<Rightarrow> bool" where
  "no_room L t e \<longleftrightarrow> (case e of None \<Rightarrow> True | Some x \<Rightarrow> L < length t + length x)"

text \<open>The loop stops at the end of the entries or before one that has no room.\<close>

lemma entries_written:
  assumes "built L t r" "0 < count \<longrightarrow> length t + reserved \<le> L"
    and "entries_loop reserved es count r = Some (n, r')"
  shows "\<exists>xs. n = count + length xs \<and> length xs \<le> length es \<and> map Some xs = take (length xs) es \<and>
    built L (t @ joined count xs) r' \<and> (0 < n \<longrightarrow> length (t @ joined count xs) + reserved \<le> L) \<and> (n = 0 \<longrightarrow> es = []) \<and>
    (length xs = length es \<or> no_room L (t @ joined count xs @ replicate (reserved + 1) COMMA) (es ! length xs))"
  using assms
proof (induction es arbitrary: count t r)
  case Nil
  then show ?case by (auto simp: joined_def)
next
  case (Cons e es)
  have stop: ?case if "n = count" "r' = r" "count \<noteq> 0" "no_room L (t @ replicate (reserved + 1) COMMA) e"
    using that Cons.prems by (intro exI [of _ "[]"]) (simp add: joined_def)
  show ?case
  proof (cases e)
    case None
    then show ?thesis using stop Cons.prems(3) by (auto simp: no_room_def split: if_splits)
  next
    case (Some x)
    let ?c = "if count \<noteq> 0 then [COMMA] else []"
    show ?thesis
    proof (cases "fits (length x + (if count \<noteq> 0 then 1 else 0)) reserved r")
      case False
      then show ?thesis using Some stop Cons.prems(3) built_fits [OF Cons.prems(1)] by (auto simp: no_room_def split: if_splits)
    next
      case True
      then have f: "length (t @ ?c @ x) + reserved \<le> L" using built_fits [OF Cons.prems(1)] by (auto split: if_splits)
      have b: "built L (t @ ?c @ x) (raw x (if count \<noteq> 0 then raw [COMMA] r else r))"
        using built_raw [OF built_raw [OF Cons.prems(1), of "[COMMA]"], of x] built_raw [OF Cons.prems(1), of x] by simp
      have "entries_loop reserved es (count + 1) (raw x (if count \<noteq> 0 then raw [COMMA] r else r)) = Some (n, r')"
        using Cons.prems(3) Some True by simp
      from Cons.IH [OF b _ this] f obtain xs where xs: "n = count + 1 + length xs" "length xs \<le> length es" "map Some xs = take (length xs) es"
        "built L ((t @ ?c @ x) @ joined (count + 1) xs) r'" "length ((t @ ?c @ x) @ joined (count + 1) xs) + reserved \<le> L"
        "length xs = length es \<or> no_room L ((t @ ?c @ x) @ joined (count + 1) xs @ replicate (reserved + 1) COMMA) (es ! length xs)" by auto
      then show ?thesis using Some by (intro exI [of _ "x # xs"]) (simp add: joined_Cons)
    qed
  qed
qed

lemma entries_refused: "entries_loop reserved es count r = None \<Longrightarrow> built L t r \<Longrightarrow>
    count = 0 \<and> es \<noteq> [] \<and> no_room L (t @ replicate reserved COMMA) (hd es)"
proof (induction es arbitrary: count t r)
  case (Cons e es)
  have "\<exists>t'. built L t' (raw x (if count \<noteq> 0 then raw [COMMA] r else r))" for x
    using built_raw [OF built_raw [OF Cons.prems(2)]] built_raw [OF Cons.prems(2)] by auto
  then have "\<not> (entries_loop reserved es (count + 1) (raw x (if count \<noteq> 0 then raw [COMMA] r else r)) = None)" for x
    using Cons.IH by fastforce
  then show ?case using Cons.prems built_fits [OF Cons.prems(2)] by (auto simp: no_room_def simp del: not_None_eq split: option.splits if_splits)
qed simp

section \<open>Pages\<close>

definition page_header :: "session \<Rightarrow> debug_snapshot \<Rightarrow> u64 \<Rightarrow> u8 list" where
  "page_header s snap ident = envelope_text (Some ident) @ status_text (sn_status snap) @ id_text ''snapshot_id'' (se_snapshot_id s) @
     id_text ''cursor'' (st_cursor (sn_status snap)) @ id_text ''observed_ns'' (sn_observed_ns snap) @ lit '',\"records\":[''"

definition page_text :: "session \<Rightarrow> debug_snapshot \<Rightarrow> u64 \<Rightarrow> debug_record list \<Rightarrow> bool \<Rightarrow> u8 list" where
  "page_text s snap ident recs rest =
    page_header s snap ident @ comma_join (map record_text recs) @ lit '']'' @ flag_text ''more'' rest @ lit ''}''"

lemma reserved_page: "length (lit '']'' @ flag_text ''more'' rest @ lit ''}'' :: u8 list) \<le> 15"
  by (simp add: flag_text_def key_text_def quote_text_def lit_def escaped_def)

lemma map_record_text:
  assumes "map Some xs = take (length xs) (map (\<lambda>rec. encode_record rec n) recs)" "length xs \<le> length recs"
  shows "xs = map record_text (take (length xs) recs)"
proof (rule nth_equalityI)
  show "length xs = length (map record_text (take (length xs) recs))" using assms(2) by simp
  fix i assume i: "i < length xs"
  have "Some (xs ! i) = encode_record (recs ! i) n" using arg_cong [OF assms(1), of "\<lambda>l. l ! i"] i assms(2) by simp
  then show "xs ! i = map record_text (take (length xs) recs) ! i" using i assms(2) by (simp add: encode_record_eq split: if_splits)
qed

text \<open>The bytes a page with these records takes, with room for its end.\<close>

definition page_size :: "session \<Rightarrow> debug_snapshot \<Rightarrow> u64 \<Rightarrow> debug_record list \<Rightarrow> nat" where
  "page_size s snap ident recs = length (page_header s snap ident @ comma_join (map record_text recs)) + 15"

lemma no_room_record:
  "no_room (message_bytes s - 1) t (encode_record rec (message_bytes s)) \<Longrightarrow> message_bytes s - 1 < length t + length (record_text rec)"
  by (auto simp: no_room_def encode_record_eq split: if_splits)

lemma comma_join_snoc: "length (comma_join (xs @ [x])) = length (comma_join xs) + (if xs = [] then 0 else 1) + length x"
proof (induction xs)
  case (Cons y xs)
  then show ?case by (cases xs) (simp_all add: comma_join_Cons)
qed simp

lemma page_size_mono: "0 < n \<Longrightarrow> page_size s snap ident (take 1 recs) \<le> page_size s snap ident (take n recs)"
proof (cases recs)
  case (Cons x xs)
  assume "0 < n"
  then show ?thesis using Cons by (cases n; cases "take (n - 1) xs") (auto simp: page_size_def)
qed simp

lemma page_cases:
  fixes s snap ident
  defines "shown \<equiv> take (unat (po_page_records (se_options s))) (drop (se_page s) (sn_records snap))"
  assumes "page_response s snap ident = (out, s')"
  obtains (sent) n where "n \<le> length shown" "0 < n \<longrightarrow> page_size s snap ident (take n shown) \<le> message_bytes s - 1" "n = 0 \<longrightarrow> shown = []"
      "n = length shown \<or> message_bytes s - 1 < page_size s snap ident (take (n + 1) shown)"
      "out = page_text s snap ident (take n shown) (se_page s + n < length (sn_records snap))"
      "s' = s\<lparr>se_page := se_page s + n\<rparr>" "length out \<le> message_bytes s - 1"
  | (failed) "out = session_fail s ident ''record_too_large''" "s' = s"
      "if shown = [] then message_bytes s - 1 < length (page_text s snap ident [] (se_page s < length (sn_records snap)))
       else message_bytes s - 1 < page_size s snap ident (take 1 shown)"
proof -
  let ?L = "message_bytes s - 1" and ?h = "page_header s snap ident"
  define es where "es = map (\<lambda>rec. encode_record rec (message_bytes s)) shown"
  define r2 where "r2 = raw (lit '',\"records\":['') (id_field ''observed_ns'' (sn_observed_ns snap) (id_field ''cursor'' (st_cursor (sn_status snap))
           (id_field ''snapshot_id'' (se_snapshot_id s) (status_fields (sn_status snap) (envelope (Some ident) (message_bytes s))))))"
  have b: "built ?L ?h r2" unfolding r2_def
    by (rule built_eq, (rule built_ops built_status built_envelope)+) (simp add: page_header_def)
  have u: "se_page (s\<lparr>se_page := k\<rparr>) = k" for k by simp
  define fin where "fin = (\<lambda>(n, r3). raw (lit ''}'') (flag_field ''more'' (se_page s + n < length (sn_records snap)) (raw (lit '']'') r3)))"
  have pr: "page_response s snap ident = (case entries_loop 15 es 0 r2 of
      None \<Rightarrow> (session_fail s ident ''record_too_large'', s)
    | Some (n, r3) \<Rightarrow> (case response_finish (fin (n, r3)) of
        None \<Rightarrow> (session_fail s ident ''record_too_large'', s\<lparr>se_page := se_page s + n\<rparr>)
      | Some txt \<Rightarrow> (txt, s\<lparr>se_page := se_page s + n\<rparr>)))"
    unfolding page_response_def Let_def es_def r2_def shown_def fin_def prod.case u by (rule refl)
  show thesis
  proof (cases "entries_loop 15 es 0 r2")
    case None
    from entries_refused [OF this b] have "shown \<noteq> []" "no_room ?L (?h @ replicate 15 COMMA) (encode_record (hd shown) (message_bytes s))"
      by (auto simp: es_def hd_map)
    then have "shown \<noteq> [] \<and> message_bytes s - 1 < page_size s snap ident (take 1 shown)"
      using no_room_record [of s "?h @ replicate 15 COMMA" "hd shown"] by (cases shown) (simp_all add: page_size_def)
    then show thesis by (intro failed) (use assms(2) None pr in auto)
  next
    case (Some nr)
    obtain n r3 where nr: "nr = (n, r3)" by force
    from entries_written [OF b _ Some [unfolded nr]] obtain xs where xs: "n = length xs" "length xs \<le> length es"
      "map Some xs = take (length xs) es" "built ?L (?h @ joined 0 xs) r3" "0 < n \<longrightarrow> length (?h @ joined 0 xs) + 15 \<le> ?L" "n = 0 \<longrightarrow> es = []"
      "n = length es \<or> no_room ?L (?h @ joined 0 xs @ replicate (15 + 1) COMMA) (es ! n)" by auto
    have l: "n \<le> length shown" using xs(1,2) by (simp add: es_def)
    have x: "xs = map record_text (take n shown)"
      using map_record_text [of xs "message_bytes s" shown] xs(1-3) by (simp add: es_def)
    let ?more = "se_page s + n < length (sn_records snap)" and ?t = "take n shown"
    have f: "built ?L (page_text s snap ident ?t ?more) (fin (n, r3))" unfolding fin_def prod.case
      by (rule built_eq, rule built_raw, rule built_flag, rule built_raw, rule xs(4)) (simp add: page_text_def x joined_def)
    have e: "n = 0 \<longrightarrow> shown = []" using xs(6) by (simp add: es_def)
    have fit: "0 < n \<longrightarrow> page_size s snap ident ?t \<le> message_bytes s - 1" using xs(5) by (simp add: page_size_def x joined_def)
    have max: "n = length shown \<or> message_bytes s - 1 < page_size s snap ident (take (n + 1) shown)"
      using l e xs(7) no_room_record [of s "?h @ joined 0 xs @ replicate (15 + 1) COMMA" "shown ! n"] comma_join_snoc [of xs "record_text (shown ! n)"]
      by (cases "n = length shown") (auto simp: es_def page_size_def take_Suc_conv_app_nth x joined_def)
    show thesis
    proof (cases "length (page_text s snap ident ?t ?more) \<le> ?L")
      case True
      have "page_response s snap ident = (page_text s snap ident ?t ?more, s\<lparr>se_page := se_page s + n\<rparr>)"
        unfolding pr Some nr option.case prod.case built_finish [OF f] using True by simp
      then show thesis using sent [OF l fit e max] assms(2) True by simp
    next
      case False
      have "n = 0" using fit False reserved_page [of ?more] by (cases n) (auto simp: page_text_def page_size_def)
      moreover have "page_response s snap ident = (session_fail s ident ''record_too_large'', s\<lparr>se_page := se_page s + n\<rparr>)"
        unfolding pr Some nr option.case prod.case built_finish [OF f] using False by simp
      ultimately show thesis using failed assms(2) e False by simp
    qed
  qed
qed

section \<open>The limit of a message\<close>

lemma built_within: "built L t r \<Longrightarrow> response_finish r = Some x \<Longrightarrow> length x \<le> L"
  by (auto simp: built_finish split: if_splits)

lemma error_within: "length (error_response e n) \<le> n - 1"
proof -
  define r1 where "r1 = text_field ''error'' (lit (re_message e)) (envelope (re_request_id e) n)"
  have b: "built (n - 1) (envelope_text (re_request_id e) @ key_text ''error'' @ quote_text (lit (re_message e))) r1"
    unfolding r1_def by (rule built_text [OF built_envelope])
  have "\<exists>t. built (n - 1) t (if re_message e = ''history_gap'' then flag_field ''resync_required'' True r1 else r1)"
    using b built_flag [OF b] by auto
  then obtain t where "built (n - 1) t (if re_message e = ''history_gap'' then flag_field ''resync_required'' True r1 else r1)" ..
  note f = built_within [OF built_raw [OF this, of "lit ''}''"]]
  show ?thesis unfolding error_response_def Let_def r1_def [symmetric] using f by (simp split: option.split)
qed

lemma fail_within: "length (session_fail s ident m) \<le> message_bytes s - 1"
  unfolding session_fail_def by (rule error_within)

lemma page_within: "length (fst (page_response s snap ident)) \<le> message_bytes s - 1"
proof -
  obtain out s' where p: "page_response s snap ident = (out, s')" by force
  then show ?thesis by (cases rule: page_cases) (use p fail_within [of s ident] in simp_all)
qed

lemma hello_within: "length (fst (hello_response h s ident)) \<le> message_bytes s - 1"
proof (cases "h_status h")
  case (Inl e)
  then show ?thesis using fail_within [of s ident] by (simp add: hello_response_def)
next
  case (Inr v)
  define L where "L = message_bytes s - 1"
  have b: "built L (envelope_text (Some ident)) (envelope (Some ident) (message_bytes s))"
    unfolding L_def by (rule built_envelope)
  show ?thesis unfolding hello_response_def Inr sum.case Let_def L_def [symmetric]
    using built_within [OF built_raw [OF built_text [OF built_raw [OF built_flag [OF built_flag [OF built_number [OF built_number
      [OF built_raw [OF built_raw [OF built_number [OF built_number [OF built_number [OF built_status [OF b]]]]]]]]]]]]]]
      fail_within [of s ident "''record_too_large''", folded L_def]
    by (auto split: option.split)
qed

lemma entries_built:
  assumes "built L t r" "entries_loop reserved es count r = Some (n, r')"
  shows "\<exists>t'. built L t' r'"
  using assms
proof (induction es arbitrary: count t r)
  case (Cons e es)
  have "\<exists>t'. built L t' (raw x (if count \<noteq> 0 then raw [COMMA] r else r))" for x
    using built_raw [OF built_raw [OF Cons.prems(1)]] built_raw [OF Cons.prems(1)] by auto
  then show ?case using Cons.prems Cons.IH by (auto split: option.splits if_splits; blast)
qed auto

lemma events_within: "length (events_response h s rq) \<le> message_bytes s - 1"
proof -
  define L where "L = message_bytes s - 1"
  note f = fail_within [of s "rq_id rq", folded L_def]
  have b: "built L (envelope_text (Some (rq_id rq))) (envelope (Some (rq_id rq)) (message_bytes s))"
    unfolding L_def by (rule built_envelope)
  have "length x \<le> L" if a: "built L t r" "entries_loop 39 es 0 r = Some (n, r1)"
    "response_finish (raw (lit ''}'') (id_field ''next_cursor'' c (raw (lit '']'') r1))) = Some x" for t r es n r1 c x
  proof -
    obtain t' where "built L t' r1" using entries_built [OF a(1,2)] by blast
    from built_within [OF built_raw [OF built_id [OF built_raw [OF this]]] a(3)] show ?thesis .
  qed
  note e = this [OF built_raw [OF built_status [OF b]]]
  show ?thesis unfolding events_response_def Let_def L_def [symmetric] using f e
    by (auto split: option.split sum.split if_splits)
qed

section \<open>Requests\<close>

definition command_name :: "command \<Rightarrow> string" where
  "command_name c =
    (case c of Hello \<Rightarrow> ''hello'' | Snapshot \<Rightarrow> ''snapshot'' | SnapshotPage \<Rightarrow> ''snapshot_page'' | Task \<Rightarrow> ''task'' | Events \<Rightarrow> ''events'')"

definition request_tokens :: "request \<Rightarrow> u8 list list" where
  "request_tokens rq =
    [show_nat (unat VERSION), show_nat (unat (rq_id rq)), lit (command_name (rq_command rq))] @
    (if rq_command rq = Hello \<or> rq_command rq = Snapshot then [] else
       show_nat (unat (rq_argument rq)) # (case rq_limit rq of None \<Rightarrow> [] | Some n \<Rightarrow> [show_nat (unat n)]))"

fun space_join :: "u8 list list \<Rightarrow> u8 list" where
  "space_join [] = []"
| "space_join [t] = t"
| "space_join (t # ts) = t @ SP # space_join ts"

definition valid_request :: "request \<Rightarrow> bool" where
  "valid_request rq \<longleftrightarrow> rq_id rq \<noteq> 0 \<and> rq_limit rq \<noteq> Some 0 \<and>
     (rq_command rq \<noteq> Events \<longrightarrow> rq_limit rq = None) \<and>
     (rq_command rq = Hello \<or> rq_command rq = Snapshot \<longrightarrow> rq_argument rq = 0)"

definition printable :: "u8 list \<Rightarrow> bool" where
  "printable t \<longleftrightarrow> t \<noteq> [] \<and> list_all (\<lambda>c. 0x21 \<le> c \<and> c \<le> 0x7e) t"

lemma digit_unat: "k < 10 \<Longrightarrow> unat (D0 + of_nat k :: u8) = 48 + k"
  by (subst unat_word_ariths) (simp add: unat_of_nat)

lemma show_nat_range: "list_all (\<lambda>c. D0 \<le> c \<and> c \<le> D9) (show_nat n)" "show_nat n \<noteq> []"
proof (induction n rule: show_nat.induct)
  case (1 n)
  {
    case 1
    have "D0 \<le> (D0 + of_nat (n mod 10) :: u8) \<and> (D0 + of_nat (n mod 10) :: u8) \<le> D9"
      using digit_unat [of "n mod 10"] by (simp add: word_le_nat_alt)
    then show ?case using "1.IH" by (subst show_nat.simps) simp
  next
    case 2
    then show ?case by (subst show_nat.simps) simp
  }
qed

lemma show_nat_printable: "printable (show_nat n)"
  using show_nat_range [of n] by (force simp: printable_def list_all_iff word_le_nat_alt)

lemma number_digits_append: "number_digits (xs @ ys) v = (case number_digits xs v of None \<Rightarrow> None | Some w \<Rightarrow> number_digits ys w)"
  by (induction xs arbitrary: v) auto

lemma unat_max: "unat (- 1 :: u64) = 2 ^ 64 - 1"
  by (simp add: unsigned_minus_1_eq_mask mask_eq_exp_minus_1)

lemma number_digits_show: "n < 2 ^ 64 \<Longrightarrow> number_digits (show_nat n) 0 = Some (of_nat n)"
proof (induction n rule: show_nat.induct)
  case (1 n)
  let ?q = "of_nat (n div 10) :: u64" and ?d = "of_nat (n mod 10) :: u8"
  have u: "unat ?q = n div 10" "unat ?d = n mod 10" using 1(2) by (simp_all add: unat_of_nat)
  have t: "unat (D0 + ?d) = 48 + n mod 10" using digit_unat [of "n mod 10"] by simp
  then have d: "D0 \<le> D0 + ?d" "D0 + ?d \<le> D9" by (simp_all add: word_le_nat_alt)
  have c: "unat (ucast ?d :: u64) = n mod 10" using u(2) by (simp add: unat_ucast_mod)
  have m: "unat (NOT 0 - ucast ?d :: u64) = 2 ^ 64 - 1 - n mod 10"
    using c unat_max by (subst unat_sub) (simp_all add: word_le_nat_alt)
  have "n div 10 = (n - n mod 10) div 10" by (simp add: minus_mod_eq_mult_div)
  also have "\<dots> \<le> (2 ^ 64 - 1 - n mod 10) div 10" by (rule div_le_mono) (use 1(2) in simp)
  finally have g: "\<not> ?q > (NOT 0 - ucast ?d) div 10" using u m by (simp add: word_less_nat_alt unat_div)
  have "(ucast (D0 + ?d) :: u64) = of_nat (unat (D0 + ?d))" by (rule of_nat_unat [symmetric])
  also note t
  finally have "(ucast (D0 + ?d) :: u64) = of_nat (48 + n mod 10)" .
  then have "?q * 10 + ucast (D0 + ?d) - 0x30 = of_nat (n div 10) * of_nat 10 + of_nat (n mod 10)" by simp
  also have "\<dots> = (of_nat (n div 10 * 10 + n mod 10) :: u64)" by (simp only: of_nat_add of_nat_mult)
  finally have s: "?q * 10 + ucast (D0 + ?d) - 0x30 = (of_nat n :: u64)" by (simp only: div_mult_mod_eq)
  have last: "number_digits [D0 + ?d] ?q = Some (of_nat n)"
    using d g s by (auto simp: not_less not_le)
  show ?case
  proof (cases "n < 10")
    case True
    then show ?thesis using last by (subst show_nat.simps) simp
  next
    case False
    then show ?thesis using 1 last by (subst show_nat.simps) (simp add: number_digits_append)
  qed
qed

lemma number_show: "number (show_nat (unat v)) = Some v"
  using number_digits_show [of "unat v"] unat_lt_64 [of v] show_nat_range(2) [of "unat v"] by (simp add: number_def)

lemma token_loop_word: "list_all (\<lambda>c. 0x21 \<le> c \<and> c \<le> 0x7e) t \<Longrightarrow> token_loop pending tokens ident (t @ rest) = token_loop (pending @ t) tokens ident rest"
proof (induction t arbitrary: pending)
  case (Cons c t)
  then have "c \<noteq> SP" "\<not> c < 0x21" "\<not> c > 0x7e" by (auto simp: word_le_nat_alt word_less_nat_alt)
  then show ?case using Cons by simp
qed simp

lemma token_steps:
  assumes "printable t"
  shows "token_loop [] tokens ident t = end_token t tokens ident"
    "token_loop [] tokens ident (t @ SP # rest) = and_then (end_token t tokens ident) (\<lambda>(tokens1, ident1). token_loop [] tokens1 ident1 rest)"
  using assms token_loop_word [of t "[]" tokens ident "[]"] token_loop_word [of t "[]" tokens ident "SP # rest"]
  by (simp_all add: printable_def)

lemma end_token_eq:
  assumes "t \<noteq> []" "length tokens < 5"
  shows "length tokens \<noteq> 1 \<Longrightarrow> end_token t tokens ident = Ok (tokens @ [t], ident)"
    "length tokens = 1 \<Longrightarrow> number t = Some v \<Longrightarrow> v \<noteq> 0 \<Longrightarrow> end_token t tokens ident = Ok (tokens @ [t], Some v)"
  using assms by (simp_all add: end_token_def)

lemma tokens_read:
  assumes "list_all printable ts" "length tokens + length ts \<le> 5" "2 \<le> length tokens" "ts \<noteq> []"
  shows "token_loop [] tokens ident (space_join ts) = Ok (tokens @ ts, ident)"
  using assms
proof (induction ts arbitrary: tokens rule: space_join.induct)
  case (2 t)
  then show ?case using end_token_eq(1) [of t tokens ident] by (simp add: token_steps printable_def)
next
  case (3 t u ts)
  have "token_loop [] tokens ident (space_join (t # u # ts)) = token_loop [] (tokens @ [t]) ident (space_join (u # ts))"
    using 3 end_token_eq(1) [of t tokens ident] by (simp add: token_steps printable_def)
  then show ?case using 3 by simp
qed simp

lemma line_read:
  assumes "printable v" "printable i" "number i = Some n" "n \<noteq> 0" "list_all printable ts" "ts \<noteq> []" "length ts \<le> 3"
  shows "token_loop [] [] None (space_join (v # i # ts)) = Ok (v # i # ts, Some n)"
proof -
  have j: "space_join (v # i # ts) = v @ SP # i @ SP # space_join ts" using assms(6) by (cases ts) simp_all
  have e: "end_token v [] None = Ok ([v], None)" "end_token i [v] None = Ok ([v, i], Some n)"
    using assms end_token_eq(1) [of v "[]" None] end_token_eq(2) [of i "[v]" n None] by (simp_all add: printable_def)
  show ?thesis unfolding j using assms e tokens_read [of ts "[v, i]" "Some n"] by (simp add: token_steps)
qed

lemma command_printable: "printable (lit (command_name c))" "is_valid_utf8 (lit (command_name c))"
  by (cases c; simp add: command_name_def printable_def lit_def; rule valid_ascii_list; simp)+

lemma command_names [simp]:
  "lit (command_name c) = lit ''hello'' \<longleftrightarrow> c = Hello" "lit (command_name c) = lit ''snapshot'' \<longleftrightarrow> c = Snapshot"
  "lit (command_name c) = lit ''snapshot_page'' \<longleftrightarrow> c = SnapshotPage" "lit (command_name c) = lit ''task'' \<longleftrightarrow> c = Task"
  "lit (command_name c) = (lit ''events'' :: u8 list) \<longleftrightarrow> c = Events"
  by (cases c; simp add: command_name_def lit_def)+

lemma request_read:
  assumes "valid_request rq"
  shows "parse_request (space_join (request_tokens rq)) = Ok rq"
proof -
  define ts where "ts = drop 2 (request_tokens rq)"
  have t: "request_tokens rq = show_nat (unat VERSION) # show_nat (unat (rq_id rq)) # ts" by (simp add: ts_def request_tokens_def)
  have p: "list_all printable ts" "ts \<noteq> []" "length ts \<le> 3"
    by (auto simp: ts_def request_tokens_def show_nat_printable command_printable split: option.split)
  have i: "rq_id rq \<noteq> 0" using assms by (simp add: valid_request_def)
  have "space_join (request_tokens rq) \<noteq> []" using show_nat_range(2) by (simp add: t p(2) space_join.simps)
  then have "parse_request (space_join (request_tokens rq)) = request_of (request_tokens rq) (Some (rq_id rq))"
    unfolding t parse_request_def line_read [OF show_nat_printable show_nat_printable number_show i p(1,2,3)]
    using p(2) by (cases ts) (simp_all add: number_show)
  also have "\<dots> = Ok rq"
    using assms command_printable(2) [of "rq_command rq"]
    by (cases rq, cases "rq_command rq"; cases "rq_limit rq")
      (auto simp: request_of_def request_tokens_def Let_def number_show valid_request_def)
  finally show ?thesis .
qed

lemma request_fail_neq [simp]: "request_fail a b \<noteq> Ok r"
  by (simp add: request_fail_def)

lemma end_token_ident: "end_token pending tokens ident = Ok (tokens', ident') \<Longrightarrow> ident \<noteq> Some 0 \<Longrightarrow> ident' \<noteq> Some 0"
  by (auto simp: end_token_def Let_def split: if_splits option.splits)

lemma token_loop_ident: "token_loop pending tokens ident line = Ok (tokens', ident') \<Longrightarrow> ident \<noteq> Some 0 \<Longrightarrow> ident' \<noteq> Some 0"
proof (induction line arbitrary: pending tokens ident)
  case (Cons c cs)
  then show ?case using end_token_ident [of pending tokens ident] by (auto simp: and_then_eq_Ok split: if_splits)
qed (simp add: end_token_ident)

lemma events_name: "(lit ''events'' :: u8 list) \<noteq> lit ''snapshot_page''" "(lit ''events'' :: u8 list) \<noteq> lit ''task''"
  by (simp_all add: lit_def)

lemma request_of_valid: "request_of tokens ident = Ok rq \<Longrightarrow> ident \<noteq> Some 0 \<Longrightarrow> valid_request rq"
  using events_name by (auto simp: request_of_def valid_request_def Let_def split: option.splits if_splits)

lemma parsed_valid: "parse_request line = Ok rq \<Longrightarrow> valid_request rq"
  by (auto simp: parse_request_def and_then_eq_Ok split: if_splits option.splits dest!: token_loop_ident request_of_valid)

section \<open>Theorems\<close>

text \<open>C20. No message of the debug protocol is longer than the configured limit: whatever the runtime answers
  and whatever state the session is in, the response has room for the line feed that ends it, and with a
  limit of zero it is empty.\<close>

theorem protocol_response_bounded:
  "length (fst (respond h elapsed s rq)) \<le> unat (po_max_message_bytes (se_options s)) - 1"
proof -
  have t: "length (fst (take_snapshot h s1 rq)) \<le> message_bytes s1 - 1" for s1
    using page_within [of "s1\<lparr>se_snapshot_id := se_snapshot_id s1 + 1, se_page := 0, se_snapshot := Some view\<rparr>" view "rq_id rq" for view]
      fail_within [of "s1\<lparr>se_snapshot := None\<rparr>" "rq_id rq"]
    by (auto simp: take_snapshot_def Let_def split: sum.split)
  define s1 where "s1 = (if se_snapshot s \<noteq> None \<and> \<not> duration_less elapsed (po_snapshot_lifetime (se_options s))
    then s\<lparr>se_snapshot := None\<rparr> else s)"
  have o: "message_bytes s1 = message_bytes s" by (simp add: s1_def)
  show ?thesis unfolding respond_def Let_def s1_def [symmetric] o [symmetric]
    using hello_within [of h s1 "rq_id rq"] t [of s1] fail_within [of s1 "rq_id rq"] page_within [of s1 _ "rq_id rq"] events_within [of h s1 rq]
    by (auto split: option.split)
qed

text \<open>C18. Pages: a request for the next page of a snapshot sends a prefix of the records that were not sent
  yet, complete and in order, with the flag that says whether more are left, and remembers how many were
  sent.  It sends as many as the page size and the message limit allow, and at least one unless none is
  to be sent.  It reports that a record is too large, and leaves the session as it was, exactly when not even
  the first record, or the empty page, fits the limit.\<close>

theorem protocol_page_exact:
  "let shown = take (unat (po_page_records (se_options s))) (drop (se_page s) (sn_records snap));
       room = message_bytes s - 1 in
   if (if shown = [] then length (page_text s snap ident [] (se_page s < length (sn_records snap))) \<le> room
       else page_size s snap ident (take 1 shown) \<le> room)
   then \<exists>n \<le> length shown. (n = 0 \<longleftrightarrow> shown = []) \<and> (n = length shown \<or> room < page_size s snap ident (take (n + 1) shown)) \<and>
      length (page_text s snap ident (take n shown) (se_page s + n < length (sn_records snap))) \<le> room \<and>
      page_response s snap ident =
        (page_text s snap ident (take n shown) (se_page s + n < length (sn_records snap)), s\<lparr>se_page := se_page s + n\<rparr>)
   else page_response s snap ident = (session_fail s ident ''record_too_large'', s)"
proof -
  obtain out s' where p: "page_response s snap ident = (out, s')" by force
  then show ?thesis
  proof (cases rule: page_cases)
    case (sent n)
    define shown where "shown = take (unat (po_page_records (se_options s))) (drop (se_page s) (sn_records snap))"
    define room where "room = message_bytes s - 1"
    define rest where "rest \<longleftrightarrow> se_page s + n < length (sn_records snap)"
    note f = sent [folded shown_def room_def rest_def]
    have ok: "if shown = [] then length (page_text s snap ident [] (se_page s < length (sn_records snap))) \<le> room
       else page_size s snap ident (take 1 shown) \<le> room"
    proof (cases "shown = []")
      case True
      then show ?thesis using f(1,5,7) by (simp add: rest_def)
    next
      case False
      then have "0 < n" using f(3) by blast
      then show ?thesis using page_size_mono [of n s snap ident shown] f(2) False by (meson order_trans)
    qed
    have "n \<le> length shown \<and> (n = 0 \<longleftrightarrow> shown = []) \<and> (n = length shown \<or> room < page_size s snap ident (take (n + 1) shown)) \<and>
      length (page_text s snap ident (take n shown) rest) \<le> room \<and>
      page_response s snap ident = (page_text s snap ident (take n shown) rest, s\<lparr>se_page := se_page s + n\<rparr>)"
      using f(1,3,4,7) p unfolding f(5) f(6) by (intro conjI) (assumption | fastforce)+
    then show ?thesis unfolding Let_def shown_def [symmetric] room_def [symmetric] if_P [OF ok] rest_def by blast
  next
    case failed
    define shown where "shown = take (unat (po_page_records (se_options s))) (drop (se_page s) (sn_records snap))"
    have no: "\<not> (if shown = [] then length (page_text s snap ident [] (se_page s < length (sn_records snap))) \<le> message_bytes s - 1
       else page_size s snap ident (take 1 shown) \<le> message_bytes s - 1)"
      using failed(3) [folded shown_def] by (cases "shown = []") (simp_all only: if_True if_False not_le simp_thms)
    show ?thesis unfolding Let_def shown_def [symmetric] if_not_P [OF no] p failed(1,2) by (rule refl)
  qed
qed

text \<open>C21. The requests the protocol accepts are exactly the valid ones: a valid request (a nonzero identifier, a
  limit only for events and never zero, an argument only where the command takes one) written as a line of
  tokens is read back as it was, and every line that is accepted gives a valid request.\<close>

theorem protocol_request_roundtrip:
  "(valid_request rq \<longleftrightarrow> (\<exists>line. parse_request line = Ok rq)) \<and>
   (valid_request rq \<longrightarrow> parse_request (space_join (request_tokens rq)) = Ok rq)"
  using request_read parsed_valid by blast

theorem protocol_request_roundtrip_witness:
  "parse_request (space_join (request_tokens \<lparr>rq_id = 42, rq_command = Events, rq_argument = 1000, rq_limit = Some 16\<rparr>))
   = Ok \<lparr>rq_id = 42, rq_command = Events, rq_argument = 1000, rq_limit = Some 16\<rparr>"
proof -
  have "valid_request \<lparr>rq_id = 42, rq_command = Events, rq_argument = 1000, rq_limit = Some 16\<rparr>" by (simp add: valid_request_def)
  then show ?thesis using protocol_request_roundtrip by blast
qed

end
