(* ===== verification/Unix_Time.thy ===== *)
theory Unix_Time
  imports Duration
begin

text \<open>
  The clocks of src/std/src/sys/pal/unix/time.cpp: a point in time as seconds (\<open>i64\<close>) and nanoseconds
  (\<open>u32\<close>).  The 128-bit intermediate values are integers; a reading of a clock of the system is an
  argument.  The lemmas show that every operation is exact on the number of nanoseconds and fails exactly
  when the result is no \<open>i64\<close> of seconds.
\<close>

section \<open>The code\<close>

record timespec =
  tv_sec :: i64
  tv_nsec :: u32

abbreviation Ts :: "i64 \<Rightarrow> u32 \<Rightarrow> timespec" where
  "Ts s n \<equiv> \<lparr>tv_sec = s, tv_nsec = n\<rparr>"

definition checked_seconds :: "int \<Rightarrow> i64 option" where
  "checked_seconds v =
    (if v < sint (INT_MIN True :: i64) \<or> v > sint (INT_MAX True :: i64) then None else Some (word_of_int v))"

definition timespec_ge :: "timespec \<Rightarrow> timespec \<Rightarrow> bool" where
  "timespec_ge a b \<longleftrightarrow>
    (if tv_sec b <s tv_sec a then True else if tv_sec a <s tv_sec b then False else tv_nsec a \<ge> tv_nsec b)"

definition timespec_eq :: "timespec \<Rightarrow> timespec \<Rightarrow> bool" where
  "timespec_eq a b \<longleftrightarrow> tv_sec a = tv_sec b \<and> tv_nsec a = tv_nsec b"

text \<open>The three-way comparison, as the sign of its result.\<close>

definition timespec_cmp :: "timespec \<Rightarrow> timespec \<Rightarrow> int" where
  "timespec_cmp a b =
    (let cmp = (if tv_sec a <s tv_sec b then - 1 else if tv_sec b <s tv_sec a then 1 else 0) in
     if cmp \<noteq> 0 then cmp
     else if tv_nsec a < tv_nsec b then - 1 else if tv_nsec b < tv_nsec a then 1 else 0)"

definition sub_timespec :: "bool \<Rightarrow> timespec \<Rightarrow> timespec \<Rightarrow> (panic, duration) result" where
  "sub_timespec chk t other =
    (if timespec_cmp t other < 0 then Ok (from_secs 0)
     else
       let secs = word_of_int (sint (tv_sec t) - sint (tv_sec other)) :: u64 in
       if tv_nsec t \<ge> tv_nsec other then
         and_then (op_sub chk False (tv_nsec t) (tv_nsec other)) (\<lambda>nanos. duration_new chk secs nanos)
       else
         and_then (op_add chk False (tv_nsec t) NANOS_PER_SEC) (\<lambda>n.
         and_then (op_sub chk False n (tv_nsec other)) (\<lambda>nanos.
         and_then (op_sub chk False secs 1) (\<lambda>secs1. duration_new chk secs1 nanos))))"

definition timespec_checked_add :: "bool \<Rightarrow> timespec \<Rightarrow> duration \<Rightarrow> (panic, timespec option) result" where
  "timespec_checked_add chk t dur =
    (case checked_seconds (sint (tv_sec t) + uint (d_secs dur)) of
       None \<Rightarrow> Ok None
     | Some secs \<Rightarrow>
         and_then (op_add chk False (tv_nsec t) (d_nanos dur)) (\<lambda>nanos.
         if nanos \<ge> NANOS_PER_SEC then
           and_then (op_sub chk False nanos NANOS_PER_SEC) (\<lambda>nanos1.
             case checked_add True secs 1 of
               None \<Rightarrow> Ok None
             | Some secs1 \<Rightarrow> Ok (Some (Ts secs1 nanos1)))
         else Ok (Some (Ts secs nanos))))"

definition timespec_checked_sub :: "bool \<Rightarrow> timespec \<Rightarrow> duration \<Rightarrow> (panic, timespec option) result" where
  "timespec_checked_sub chk t dur =
    (case checked_seconds (sint (tv_sec t) - uint (d_secs dur)) of
       None \<Rightarrow> Ok None
     | Some secs \<Rightarrow>
         if tv_nsec t \<ge> d_nanos dur then
           and_then (op_sub chk False (tv_nsec t) (d_nanos dur)) (\<lambda>nanos. Ok (Some (Ts secs nanos)))
         else
           and_then (op_add chk False (tv_nsec t) NANOS_PER_SEC) (\<lambda>n.
           and_then (op_sub chk False n (d_nanos dur)) (\<lambda>nanos.
             case checked_sub True secs 1 of
               None \<Rightarrow> Ok None
             | Some secs1 \<Rightarrow> Ok (Some (Ts secs1 nanos)))))"

text \<open>\<open>Instant\<close> and \<open>SystemTime\<close> hold a \<open>Timespec\<close>; \<open>now\<close> is the reading of the clock.\<close>

record instant =
  i_t :: timespec

definition instant_elapsed :: "bool \<Rightarrow> instant \<Rightarrow> instant \<Rightarrow> (panic, duration) result" where
  "instant_elapsed chk now i = sub_timespec chk (i_t now) (i_t i)"

definition instant_duration_since :: "bool \<Rightarrow> instant \<Rightarrow> instant \<Rightarrow> (panic, duration) result" where
  "instant_duration_since chk i other = sub_timespec chk (i_t i) (i_t other)"

definition instant_checked_add :: "bool \<Rightarrow> instant \<Rightarrow> duration \<Rightarrow> (panic, instant option) result" where
  "instant_checked_add chk i dur =
    and_then (timespec_checked_add chk (i_t i) dur) (\<lambda>r. Ok (map_option (\<lambda>ts. \<lparr>i_t = ts\<rparr>) r))"

definition instant_checked_sub :: "bool \<Rightarrow> instant \<Rightarrow> duration \<Rightarrow> (panic, instant option) result" where
  "instant_checked_sub chk i dur =
    and_then (timespec_checked_sub chk (i_t i) dur) (\<lambda>r. Ok (map_option (\<lambda>ts. \<lparr>i_t = ts\<rparr>) r))"

definition instant_eq :: "instant \<Rightarrow> instant \<Rightarrow> bool" where
  "instant_eq a b \<longleftrightarrow> timespec_eq (i_t a) (i_t b)"

definition instant_cmp :: "instant \<Rightarrow> instant \<Rightarrow> int" where
  "instant_cmp a b = timespec_cmp (i_t a) (i_t b)"

record system_time =
  s_t :: timespec

definition unix_epoch :: system_time where
  "unix_epoch = \<lparr>s_t = Ts 0 0\<rparr>"

definition from_unix_time :: "i64 \<Rightarrow> u32 \<Rightarrow> system_time option" where
  "from_unix_time seconds nanoseconds =
    (if nanoseconds \<ge> NANOS_PER_SEC then None else Some \<lparr>s_t = Ts seconds nanoseconds\<rparr>)"

definition as_unix_time :: "system_time \<Rightarrow> i64 \<times> u32" where
  "as_unix_time s = (tv_sec (s_t s), tv_nsec (s_t s))"

definition sub_time :: "bool \<Rightarrow> system_time \<Rightarrow> system_time \<Rightarrow> (panic, (duration, duration) result) result" where
  "sub_time chk s other =
    (if timespec_ge (s_t s) (s_t other) then and_then (sub_timespec chk (s_t s) (s_t other)) (\<lambda>d. Ok (Ok d))
     else and_then (sub_timespec chk (s_t other) (s_t s)) (\<lambda>d. Ok (Err d)))"

definition system_checked_add :: "bool \<Rightarrow> system_time \<Rightarrow> duration \<Rightarrow> (panic, system_time option) result" where
  "system_checked_add chk s dur =
    and_then (timespec_checked_add chk (s_t s) dur) (\<lambda>r. Ok (map_option (\<lambda>ts. \<lparr>s_t = ts\<rparr>) r))"

definition system_checked_sub :: "bool \<Rightarrow> system_time \<Rightarrow> duration \<Rightarrow> (panic, system_time option) result" where
  "system_checked_sub chk s dur =
    and_then (timespec_checked_sub chk (s_t s) dur) (\<lambda>r. Ok (map_option (\<lambda>ts. \<lparr>s_t = ts\<rparr>) r))"

definition system_eq :: "system_time \<Rightarrow> system_time \<Rightarrow> bool" where
  "system_eq a b \<longleftrightarrow> timespec_eq (s_t a) (s_t b)"

definition system_cmp :: "system_time \<Rightarrow> system_time \<Rightarrow> int" where
  "system_cmp a b = timespec_cmp (s_t a) (s_t b)"

section \<open>Specification\<close>

definition ts_total :: "timespec \<Rightarrow> int" where
  "ts_total t = sint (tv_sec t) * 1000000000 + uint (tv_nsec t)"

definition valid_timespec :: "timespec \<Rightarrow> bool" where
  "valid_timespec t \<longleftrightarrow> unat (tv_nsec t) < 1000000000"

definition ts_of :: "int \<Rightarrow> timespec option" where
  "ts_of n =
    (if - (2 ^ 63) \<le> n div 1000000000 \<and> n div 1000000000 < 2 ^ 63
     then Some (Ts (word_of_int (n div 1000000000)) (word_of_int (n mod 1000000000))) else None)"

section \<open>Exactness\<close>

lemma int_bounds: "sint (INT_MIN True :: i64) = - (2 ^ 63)" "sint (INT_MAX True :: i64) = 2 ^ 63 - 1"
  using val_INT_MIN [of True, where 'a = 64] val_INT_MAX [of True, where 'a = 64] by (simp_all add: val_def)

lemma checked_seconds_eq: "checked_seconds v = (if - (2 ^ 63) \<le> v \<and> v < 2 ^ 63 then Some (word_of_int v) else None)"
  by (auto simp: checked_seconds_def int_bounds)

lemma sint_of_seconds: "- (2 ^ 63) \<le> v \<Longrightarrow> v < 2 ^ 63 \<Longrightarrow> sint (word_of_int v :: i64) = v"
  using sint_word_of_int_small [of v, where 'a = 64] by simp

lemma ts_of_split: "0 \<le> r \<Longrightarrow> r < 1000000000 \<Longrightarrow> ts_of (s * 1000000000 + r) =
    (if - (2 ^ 63) \<le> s \<and> s < 2 ^ 63 then Some (Ts (word_of_int s) (word_of_int r)) else None)"
  by (simp add: ts_of_def)

lemma checked_step:
  "- (2 ^ 63) \<le> v \<Longrightarrow> v < 2 ^ 63 \<Longrightarrow> checked_add True (word_of_int v :: i64) 1 = (if v + 1 < 2 ^ 63 then Some (word_of_int (v + 1)) else None)"
  "- (2 ^ 63) \<le> v \<Longrightarrow> v < 2 ^ 63 \<Longrightarrow> checked_sub True (word_of_int v :: i64) 1 = (if - (2 ^ 63) \<le> v - 1 then Some (word_of_int (v - 1)) else None)"
  using sint_of_seconds [of v] by (simp_all add: checked_ops_val fits_iff val_def)

lemma uint_nat_total: "int (total_nanos d) = uint (d_secs d) * 1000000000 + uint (d_nanos d)"
  by (simp add: total_nanos_def)

lemma seconds_range: "- (2 ^ 63) \<le> sint (s :: i64)" "sint (s :: i64) < 2 ^ 63"
  using sint_ge [of s] sint_lt [of s] by simp_all

lemma words_of_differences:
  "word_of_int (uint a + uint b - 1000000000) = a + b - NANOS_PER_SEC" "word_of_int (uint a + uint b) = a + b"
  "word_of_int (uint a + 1000000000 - uint b) = a + NANOS_PER_SEC - b" "word_of_int (uint a - uint b) = a - b" for a b :: u32
  by (simp_all add: NANOS_PER_SEC_def wi_hom_syms)

lemma nanos_small: "valid_timespec t \<Longrightarrow> uint (tv_nsec t) < 1000000000" "valid_duration d \<Longrightarrow> uint (d_nanos d) < 1000000000"
  unfolding valid_timespec_def valid_duration_def by (metis of_nat_less_iff of_nat_numeral of_nat_unat)+

lemma timespec_add_exact:
  assumes "valid_timespec t" "valid_duration d"
  shows "timespec_checked_add chk t d = Ok (ts_of (ts_total t + int (total_nanos d)))"
proof -
  define s where "s = sint (tv_sec t) + uint (d_secs d)"
  let ?n = "tv_nsec t + d_nanos d"
  let ?a = "uint (tv_nsec t)" and ?b = "uint (d_nanos d)"
  note v = nanos_small(1) [OF assms(1)] nanos_small(2) [OF assms(2)]
  have p: "0 \<le> ?a" "0 \<le> ?b" by simp_all
  have un: "unat (tv_nsec t) < 1000000000" "unat (d_nanos d) < 1000000000" using assms by (auto simp: valid_timespec_def valid_duration_def)
  have add: "op_add chk False (tv_nsec t) (d_nanos d) = Ok ?n" using un by (intro op_add_fits) simp
  have ge: "?n \<ge> NANOS_PER_SEC \<longleftrightarrow> 1000000000 \<le> unat (tv_nsec t) + unat (d_nanos d)" using un by (simp add: word_le_nat_alt unat_word_ariths)
  then have ge: "?n \<ge> NANOS_PER_SEC \<longleftrightarrow> 1000000000 \<le> ?a + ?b" by (simp only: uint_nat) linarith
  have lo: "- (2 ^ 63) \<le> s" using seconds_range(1) [of "tv_sec t"] uint_ge_0 [of "d_secs d"] s_def by linarith
  have tot: "ts_total t + int (total_nanos d) = s * 1000000000 + (?a + ?b)" "s * 1000000000 + (?a + ?b) = (s + 1) * 1000000000 + (?a + ?b - 1000000000)"
    unfolding ts_total_def uint_nat_total s_def by (simp_all add: distrib_right)
  show ?thesis
  proof (cases "?n \<ge> NANOS_PER_SEC")
    case True
    have "ts_of (ts_total t + int (total_nanos d)) = (if s + 1 < 2 ^ 63 then Some (Ts (word_of_int (s + 1)) (?n - NANOS_PER_SEC)) else None)"
      unfolding tot by (subst ts_of_split) (use True ge v lo in \<open>auto simp: words_of_differences NANOS_PER_SEC_def\<close>)
    then show ?thesis using True lo by (auto simp: timespec_checked_add_def s_def [symmetric] checked_seconds_eq add op_sub_fits checked_step)
  next
    case False
    have "ts_of (ts_total t + int (total_nanos d)) = (if s < 2 ^ 63 then Some (Ts (word_of_int s) ?n) else None)"
      unfolding tot(1) by (subst ts_of_split) (use False ge p lo in \<open>auto simp: words_of_differences\<close>)
    then show ?thesis using False lo by (simp add: timespec_checked_add_def s_def [symmetric] checked_seconds_eq add)
  qed
qed

lemma timespec_sub_exact:
  assumes "valid_timespec t" "valid_duration d"
  shows "timespec_checked_sub chk t d = Ok (ts_of (ts_total t - int (total_nanos d)))"
proof -
  define s where "s = sint (tv_sec t) - uint (d_secs d)"
  let ?n = "tv_nsec t + NANOS_PER_SEC - d_nanos d"
  let ?a = "uint (tv_nsec t)" and ?b = "uint (d_nanos d)"
  note v = nanos_small(1) [OF assms(1)] nanos_small(2) [OF assms(2)]
  have p: "0 \<le> ?a" "0 \<le> ?b" by simp_all
  have un: "unat (tv_nsec t) < 1000000000" "unat (d_nanos d) < 1000000000" using assms by (auto simp: valid_timespec_def valid_duration_def)
  have hi: "s < 2 ^ 63" using seconds_range(2) [of "tv_sec t"] uint_ge_0 [of "d_secs d"] s_def by linarith
  have tot: "ts_total t - int (total_nanos d) = s * 1000000000 + (?a - ?b)" "s * 1000000000 + (?a - ?b) = (s - 1) * 1000000000 + (?a + 1000000000 - ?b)"
    unfolding ts_total_def uint_nat_total s_def by (simp_all add: left_diff_distrib)
  show ?thesis
  proof (cases "tv_nsec t \<ge> d_nanos d")
    case True
    have le: "?a - ?b < 1000000000" using v p by linarith
    have "ts_of (ts_total t - int (total_nanos d)) = (if - (2 ^ 63) \<le> s then Some (Ts (word_of_int s) (tv_nsec t - d_nanos d)) else None)"
      unfolding tot(1) by (subst ts_of_split) (use True le hi in \<open>auto simp: words_of_differences word_le_def\<close>)
    then show ?thesis using True hi by (simp add: timespec_checked_sub_def s_def [symmetric] checked_seconds_eq op_sub_fits)
  next
    case False
    then have l: "?a < ?b" by (simp add: word_le_def)
    have le: "0 \<le> ?a + 1000000000 - ?b" using v p by linarith
    have add: "op_add chk False (tv_nsec t) NANOS_PER_SEC = Ok (tv_nsec t + NANOS_PER_SEC)" using un by (intro op_add_fits) simp
    have "unat (tv_nsec t + NANOS_PER_SEC) = unat (tv_nsec t) + 1000000000" using un by (simp add: unat_word_ariths)
    then have sub: "op_sub chk False (tv_nsec t + NANOS_PER_SEC) (d_nanos d) = Ok ?n" using un by (intro op_sub_fits) (simp add: word_le_nat_alt)
    have "ts_of (ts_total t - int (total_nanos d)) = (if - (2 ^ 63) \<le> s - 1 then Some (Ts (word_of_int (s - 1)) ?n) else None)"
      unfolding tot by (subst ts_of_split) (use l le hi in \<open>auto simp: words_of_differences NANOS_PER_SEC_def\<close>)
    then show ?thesis using False hi checked_step(2) [of "- (2 ^ 63)"]
      by (auto simp: timespec_checked_sub_def s_def [symmetric] checked_seconds_eq add sub checked_step)
  qed
qed

lemma lex_less:
  fixes s1 s2 n1 n2 :: int
  assumes "0 \<le> n1" "n1 < 1000000000" "0 \<le> n2" "n2 < 1000000000"
  shows "s1 * 1000000000 + n1 < s2 * 1000000000 + n2 \<longleftrightarrow> s1 < s2 \<or> s1 = s2 \<and> n1 < n2"
  using assms by (cases s1 s2 rule: linorder_cases) auto

lemma timespec_order:
  assumes "valid_timespec a" "valid_timespec b"
  shows "timespec_cmp a b < 0 \<longleftrightarrow> ts_total a < ts_total b" "timespec_cmp a b = 0 \<longleftrightarrow> ts_total a = ts_total b"
    "timespec_ge a b \<longleftrightarrow> ts_total b \<le> ts_total a"
proof -
  have n: "uint (tv_nsec a) < 1000000000" "uint (tv_nsec b) < 1000000000" "0 \<le> uint (tv_nsec a)" "0 \<le> uint (tv_nsec b)"
    using nanos_small assms by simp_all
  have w: "tv_sec a <s tv_sec b \<longleftrightarrow> sint (tv_sec a) < sint (tv_sec b)" "tv_sec b <s tv_sec a \<longleftrightarrow> sint (tv_sec b) < sint (tv_sec a)"
    by (simp_all add: word_sless_alt)
  note lex = lex_less [OF n(3,1,4,2)] lex_less [OF n(4,2,3,1)]
  have lt: "ts_total a < ts_total b \<longleftrightarrow> tv_sec a <s tv_sec b \<or> tv_sec a = tv_sec b \<and> tv_nsec a < tv_nsec b"
    "ts_total b < ts_total a \<longleftrightarrow> tv_sec b <s tv_sec a \<or> tv_sec a = tv_sec b \<and> tv_nsec b < tv_nsec a"
    unfolding ts_total_def lex w word_less_def by (auto intro: signed_word_eqI simp: eq_commute)
  have x: "tv_sec a <s tv_sec b \<or> tv_sec b <s tv_sec a \<or> tv_sec a = tv_sec b" "\<not> (tv_sec a <s tv_sec b \<and> tv_sec b <s tv_sec a)"
    "\<not> tv_sec a <s tv_sec a" unfolding w using val_inject [of True "tv_sec a" "tv_sec b"] by (auto simp: word_sless_alt val_def)
  show "timespec_cmp a b < 0 \<longleftrightarrow> ts_total a < ts_total b" unfolding lt timespec_cmp_def Let_def using x by auto
  have "ts_total a = ts_total b \<longleftrightarrow> \<not> ts_total a < ts_total b \<and> \<not> ts_total b < ts_total a" by linarith
  then show "timespec_cmp a b = 0 \<longleftrightarrow> ts_total a = ts_total b" unfolding lt timespec_cmp_def Let_def using x by auto
  have "ts_total b \<le> ts_total a \<longleftrightarrow> \<not> ts_total a < ts_total b" by linarith
  then show "timespec_ge a b \<longleftrightarrow> ts_total b \<le> ts_total a" unfolding lt timespec_ge_def using x by auto
qed

lemma total_of_dur: "int (total_nanos (Dur s n)) = uint s * 1000000000 + uint n"
  by (simp add: total_nanos_def)

lemma duration_new_valid: "uint n < 1000000000 \<Longrightarrow> duration_new chk s n = Ok (Dur s n)"
proof -
  assume "uint n < 1000000000"
  then have u: "unat n < 1000000000" by (metis of_nat_less_iff of_nat_numeral of_nat_unat)
  then have "n div NANOS_PER_SEC = 0" "n mod NANOS_PER_SEC = n" by (simp_all add: word_arith_nat_div word_arith_nat_mod)
  moreover have "NANOS_PER_SEC \<noteq> 0" by (simp add: NANOS_PER_SEC_def)
  moreover have "op_add chk False s 0 = Ok s" using op_add_fits [of s 0 chk] unat_lt_64 [of s] by simp
  ultimately show ?thesis by (simp add: duration_new_def op_div_rem_unsigned)
qed

lemma dur_of_total:
  assumes "uint n < 1000000000" "uint s * 1000000000 + uint n = z"
  shows "Dur s n = of_total (nat z)"
proof (rule of_total_eqI)
  show "valid_duration (Dur s n)" using assms(1) by (simp add: valid_duration_def) (metis of_nat_less_iff of_nat_numeral of_nat_unat)
  show "total_nanos (Dur s n) = nat z" using total_of_dur [of s n] assms(2) by linarith
qed

lemma sub_timespec_exact:
  assumes "valid_timespec a" "valid_timespec b"
  shows "sub_timespec chk a b = Ok (of_total (nat (ts_total a - ts_total b)))"
proof (cases "ts_total a < ts_total b")
  case True
  then show ?thesis using timespec_order [OF assms] by (simp add: sub_timespec_def from_secs_def of_total_def)
next
  case False
  let ?x = "uint (tv_nsec a)" and ?y = "uint (tv_nsec b)"
  define s where "s = sint (tv_sec a) - sint (tv_sec b)"
  have n: "?x < 1000000000" "?y < 1000000000" "0 \<le> ?x" "0 \<le> ?y" using nanos_small assms by simp_all
  have un: "unat (tv_nsec a) < 1000000000" "unat (tv_nsec b) < 1000000000" using assms by (auto simp: valid_timespec_def)
  have t: "ts_total a - ts_total b = s * 1000000000 + (?x - ?y)" by (simp add: ts_total_def s_def left_diff_distrib)
  have "(2 :: int) ^ 64 = 2 ^ 63 + 2 ^ 63" by simp
  then have s: "0 \<le> s" "s < 2 ^ 64" using False t n seconds_range [of "tv_sec a"] seconds_range [of "tv_sec b"] s_def by linarith+
  have us: "uint (word_of_int s :: u64) = s" using s by (simp add: uint_word_of_int_small)
  have c: "\<not> timespec_cmp a b < 0" using False timespec_order [OF assms] by simp
  show ?thesis
  proof (cases "tv_nsec a \<ge> tv_nsec b")
    case True
    let ?d = "Dur (word_of_int s) (tv_nsec a - tv_nsec b)"
    have ud: "uint (tv_nsec a - tv_nsec b) = ?x - ?y" using True by (simp add: uint_sub_lem word_le_def)
    have "uint (tv_nsec a - tv_nsec b) < 1000000000" using ud n by linarith
    then have "sub_timespec chk a b = Ok ?d" using c True
      by (simp add: sub_timespec_def s_def [symmetric] op_sub_fits duration_new_valid)
    moreover have "?d = of_total (nat (ts_total a - ts_total b))" by (rule dur_of_total) (use ud n us t in linarith)+
    ultimately show ?thesis by simp
  next
    case F: False
    then have l: "?x < ?y" by (simp add: word_le_def)
    let ?n = "tv_nsec a + NANOS_PER_SEC - tv_nsec b"
    let ?d = "Dur (word_of_int s - 1) ?n"
    have s1: "1 \<le> s" using False t l by linarith
    have add: "op_add chk False (tv_nsec a) NANOS_PER_SEC = Ok (tv_nsec a + NANOS_PER_SEC)" using un by (intro op_add_fits) simp
    have ua: "unat (tv_nsec a + NANOS_PER_SEC) = unat (tv_nsec a) + 1000000000" using un by (simp add: unat_word_ariths)
    then have le: "tv_nsec b \<le> tv_nsec a + NANOS_PER_SEC" using un by (simp add: word_le_nat_alt)
    have "uint (tv_nsec a + NANOS_PER_SEC) = ?x + 1000000000" using arg_cong [OF ua, of int] by simp
    then have ud: "uint ?n = ?x + 1000000000 - ?y" using le uint_sub_lem [of "tv_nsec b" "tv_nsec a + NANOS_PER_SEC"] by (simp add: word_le_def)
    have w1: "(1 :: u64) \<le> word_of_int s" using us s1 by (simp add: word_le_def)
    then have u1: "uint (word_of_int s - 1 :: u64) = s - 1" using us uint_sub_lem [of 1 "word_of_int s :: u64"] by (simp add: word_le_def)
    have "uint ?n < 1000000000" using ud l by linarith
    then have "sub_timespec chk a b = Ok ?d" using c F w1
      by (simp add: sub_timespec_def s_def [symmetric] op_sub_fits add le duration_new_valid)
    moreover have "?d = of_total (nat (ts_total a - ts_total b))" by (rule dur_of_total) (use ud n u1 t l in linarith)+
    ultimately show ?thesis by simp
  qed
qed

lemma ts_of_total: "valid_timespec t \<Longrightarrow> ts_of (ts_total t) = Some t"
proof -
  assume "valid_timespec t"
  then have "uint (tv_nsec t) < 1000000000" by (rule nanos_small)
  then show ?thesis using seconds_range [of "tv_sec t"] unfolding ts_total_def by (subst ts_of_split) auto
qed

lemma ts_of_Some: "ts_of z = Some t \<Longrightarrow> valid_timespec t \<and> ts_total t = z"
proof -
  assume z: "ts_of z = Some t"
  then have r: "- (2 ^ 63) \<le> z div 1000000000" "z div 1000000000 < 2 ^ 63"
    and t: "t = Ts (word_of_int (z div 1000000000)) (word_of_int (z mod 1000000000))" by (auto simp: ts_of_def split: if_splits)
  have m: "0 \<le> z mod 1000000000" "z mod 1000000000 < 1000000000" by simp_all
  then have "uint (word_of_int (z mod 1000000000) :: u32) = z mod 1000000000" by (intro uint_word_of_int_small) simp_all
  moreover have "sint (word_of_int (z div 1000000000) :: i64) = z div 1000000000" using r by (rule sint_of_seconds)
  ultimately show ?thesis using t m unfolding valid_timespec_def ts_total_def
    by (simp add: nat_less_iff flip: nat_uint_eq)
qed

text \<open>C14. Arithmetic on points in time is exact: adding or subtracting a duration gives the point that
  many nanoseconds away, and \<open>None\<close> exactly when it is outside the range of the clock; then the duration
  between the two points is the duration added, and subtracting it returns to the first point.  No
  operator overflows.\<close>

theorem instant_arithmetic:
  assumes "valid_timespec (i_t i)" "valid_duration d"
  shows "case ts_of (ts_total (i_t i) + int (total_nanos d)) of
      None \<Rightarrow> instant_checked_add chk i d = Ok None
    | Some ts \<Rightarrow> instant_checked_add chk i d = Ok (Some \<lparr>i_t = ts\<rparr>) \<and> instant_duration_since chk \<lparr>i_t = ts\<rparr> i = Ok d \<and>
        instant_checked_sub chk \<lparr>i_t = ts\<rparr> d = Ok (Some i)"
proof (cases "ts_of (ts_total (i_t i) + int (total_nanos d))")
  case None
  then show ?thesis by (simp add: instant_checked_add_def timespec_add_exact [OF assms])
next
  case (Some ts)
  note ts = ts_of_Some [OF Some]
  have "instant_duration_since chk \<lparr>i_t = ts\<rparr> i = Ok d"
    using sub_timespec_exact [of ts "i_t i" chk] ts assms of_total_total [OF assms(2)] by (simp add: instant_duration_since_def)
  moreover have "instant_checked_sub chk \<lparr>i_t = ts\<rparr> d = Ok (Some i)"
    using timespec_sub_exact [of ts d chk] ts assms ts_of_total [OF assms(1)] by (cases i) (simp add: instant_checked_sub_def)
  ultimately show ?thesis using Some by (simp add: instant_checked_add_def timespec_add_exact [OF assms])
qed

theorem instant_arithmetic_witness:
  "case ts_of (ts_total (Ts (- 2) 700000000) + int (total_nanos (Dur 5 600000000))) of
      None \<Rightarrow> instant_checked_add True \<lparr>i_t = Ts (- 2) 700000000\<rparr> (Dur 5 600000000) = Ok None
    | Some ts \<Rightarrow> instant_checked_add True \<lparr>i_t = Ts (- 2) 700000000\<rparr> (Dur 5 600000000) = Ok (Some \<lparr>i_t = ts\<rparr>) \<and>
        instant_duration_since True \<lparr>i_t = ts\<rparr> \<lparr>i_t = Ts (- 2) 700000000\<rparr> = Ok (Dur 5 600000000) \<and>
        instant_checked_sub True \<lparr>i_t = ts\<rparr> (Dur 5 600000000) = Ok (Some \<lparr>i_t = Ts (- 2) 700000000\<rparr>)"
  using instant_arithmetic [of "\<lparr>i_t = Ts (- 2) 700000000\<rparr>" "Dur 5 600000000" True]
  by (simp add: valid_timespec_def valid_duration_def del: split_paired_All)

end
