(* ===== verification/Futex.thy ===== *)
theory Futex
  imports Duration
begin

text \<open>
  The futex of src/std/src/sys/pal/unix/futex.cpp, on which the locks are built, and what the proofs about
  the locks share.  A thread inside \<open>futex_wait\<close> is about to load the word (\<open>Check\<close>), about to enter the
  kernel (\<open>Syscall\<close>) or asleep in it; the kernel compares the word again before it puts the thread to
  sleep.  The model interleaves the atomic accesses of the threads; weaker memory orders are not
  modelled, nor are errors of the system call that its documentation excludes for valid arguments.
\<close>

section \<open>Waiting\<close>

datatype wait_pc = Check | Syscall | Asleep | Returned bool

datatype wake_reason = Woken | Interrupted | TimedOut

definition wait_check :: "u32 \<Rightarrow> u32 \<Rightarrow> wait_pc" where
  "wait_check w expected = (if w \<noteq> expected then Returned True else Syscall)"

text \<open>The system call on a word that changed fails with \<open>EAGAIN\<close>, the default case.\<close>

definition wait_syscall :: "u32 \<Rightarrow> u32 \<Rightarrow> wait_pc" where
  "wait_syscall w expected = (if w \<noteq> expected then Returned True else Asleep)"

definition wait_resume :: "wake_reason \<Rightarrow> wait_pc" where
  "wait_resume r = (case r of Woken \<Rightarrow> Check | Interrupted \<Rightarrow> Check | TimedOut \<Rightarrow> Returned False)"

text \<open>A step of a waiting thread that no other thread causes; only a wait with a timeout times out.\<close>

inductive futex_wait_step :: "bool \<Rightarrow> u32 \<Rightarrow> u32 \<Rightarrow> wait_pc \<Rightarrow> wait_pc \<Rightarrow> bool" for timed w expected where
  step_check: "futex_wait_step timed w expected Check (wait_check w expected)"
| step_syscall: "futex_wait_step timed w expected Syscall (wait_syscall w expected)"
| step_interrupted: "futex_wait_step timed w expected Asleep (wait_resume Interrupted)"
| step_timed_out: "timed \<Longrightarrow> futex_wait_step timed w expected Asleep (wait_resume TimedOut)"

inductive_cases futex_wait_stepE: "futex_wait_step timed w expected p q"

lemma futex_awake_step: "p \<noteq> Asleep \<Longrightarrow> (\<And>b. p \<noteq> Returned b) \<Longrightarrow> \<exists>q. futex_wait_step timed w expected p q"
  by (cases p) (auto intro: futex_wait_step.intros)

text \<open>The absolute deadline of a wait: the clock and the timeout as \<open>long\<close>; \<open>None\<close> is an overflow, which
  the language leaves undefined.\<close>

definition long_add :: "int \<Rightarrow> int \<Rightarrow> int option" where
  "long_add a b = (if - (2 ^ 63) \<le> a + b \<and> a + b < 2 ^ 63 then Some (a + b) else None)"

definition futex_deadline :: "int \<times> int \<Rightarrow> duration \<Rightarrow> (int \<times> int) option" where
  "futex_deadline now timeout =
    (case now of (sec, nsec) \<Rightarrow>
     case long_add sec (sint (d_secs timeout)) of
       None \<Rightarrow> None
     | Some sec1 \<Rightarrow>
         (case long_add nsec (uint (d_nanos timeout)) of
            None \<Rightarrow> None
          | Some nsec1 \<Rightarrow>
              if nsec1 \<ge> uint NANOS_PER_SEC then map_option (\<lambda>sec2. (sec2, nsec1 - uint NANOS_PER_SEC)) (long_add sec1 1)
              else Some (sec1, nsec1)))"

section \<open>Systems of steps\<close>

inductive reachable :: "('s \<Rightarrow> bool) \<Rightarrow> ('s \<Rightarrow> 's \<Rightarrow> bool) \<Rightarrow> 's \<Rightarrow> bool" for init step where
  reach_init: "init s \<Longrightarrow> reachable init step s"
| reach_step: "reachable init step s \<Longrightarrow> step s t \<Longrightarrow> reachable init step t"

locale inductive_invariant =
  fixes init :: "'s \<Rightarrow> bool" and step :: "'s \<Rightarrow> 's \<Rightarrow> bool" and inv :: "'s \<Rightarrow> bool"
  assumes base: "init s \<Longrightarrow> inv s"
    and preserved: "inv s \<Longrightarrow> step s t \<Longrightarrow> inv t"
begin

lemma reachable_inv: "reachable init step s \<Longrightarrow> inv s"
  by (induction rule: reachable.induct) (auto intro: base preserved)

lemma reachable_implies: "reachable init step s \<Longrightarrow> (\<And>s. inv s \<Longrightarrow> P s) \<Longrightarrow> P s"
  using reachable_inv by blast

end

section \<open>The deadline\<close>

lemma futex_deadline_exact:
  assumes "0 \<le> sec" "0 \<le> nsec" "nsec < 1000000000" "valid_duration d" "sec + uint (d_secs d) + 1 < 2 ^ 63"
  obtains sec1 nsec1 where "futex_deadline (sec, nsec) d = Some (sec1, nsec1)" "0 \<le> nsec1" "nsec1 < 1000000000"
    "sec1 * 1000000000 + nsec1 = sec * 1000000000 + nsec + int (total_nanos d)"
proof -
  let ?u = "uint (d_secs d)" and ?n = "uint (d_nanos d)"
  have u: "0 \<le> ?u" "?u < 2 ^ 63" "0 \<le> ?n" "?n < 1000000000"
    using assms uint_ge_0 [of "d_secs d"] by (auto simp: valid_duration_def) (metis of_nat_less_iff of_nat_numeral of_nat_unat)
  have s: "sint (d_secs d) = ?u" using u uint_of_sint [of "d_secs d"] sint_range [of "d_secs d"] by (simp split: if_splits)
  have p: "- 9223372036854775808 \<le> sec + ?u" "- 9223372036854775808 \<le> nsec + ?n" "nsec + ?n < 9223372036854775808"
    using assms u by linarith+
  have "uint NANOS_PER_SEC = 1000000000" by (simp add: NANOS_PER_SEC_def)
  then have f: "futex_deadline (sec, nsec) d =
    Some (if nsec + ?n \<ge> 1000000000 then (sec + ?u + 1, nsec + ?n - 1000000000) else (sec + ?u, nsec + ?n))"
    using assms u s p by (auto simp: futex_deadline_def long_add_def)
  have t: "int (total_nanos d) = ?u * 1000000000 + ?n" by (simp add: total_nanos_def)
  show ?thesis
  proof (cases "nsec + ?n \<ge> 1000000000")
    case True
    then show ?thesis using that [of "sec + ?u + 1" "nsec + ?n - 1000000000"] f u assms t by (simp add: algebra_simps)
  next
    case False
    then show ?thesis using that [of "sec + ?u" "nsec + ?n"] f u assms t by (simp add: algebra_simps)
  qed
qed

text \<open>A timeout of more than \<open>2 ^ 63\<close> seconds wraps to a negative number: the longest duration gives a
  deadline a second ago.\<close>

lemma futex_deadline_wraps: "futex_deadline (100, 0) Duration_MAX = Some (99, 999999999)"
proof -
  have "(INT_MAX False :: u64) = - 1" by (simp add: INT_MAX_def mask_eq_exp_minus_1)
  then show ?thesis by (simp add: futex_deadline_def long_add_def Duration_MAX_def NANOS_PER_SEC_def)
qed

end
