(* ===== verification/Sync_Mutex.thy ===== *)
theory Sync_Mutex
  imports Futex
begin

text \<open>
  The futex mutex of src/std/src/sys/sync/mutex/futex.cpp.  Every thread has a position in the code; each
  definition below is one atomic access to the word and the branch after it, and returns the new word and
  position.  The theorems: at most one thread holds the lock, and no wakeup is lost.
\<close>

section \<open>The code\<close>

definition UNLOCKED :: u32 where "UNLOCKED = 0"
definition LOCKED :: u32 where "LOCKED = 1"
definition CONTENDED :: u32 where "CONTENDED = 2"

text \<open>\<open>Spin first n\<close>: inside \<open>spin\<close>, with \<open>n\<close> rounds left, in the first call or in the loop; \<open>Contend\<close>:
  at the top of the loop with its local \<open>state\<close>.\<close>

datatype mutex_pc =
    Outside | Spin bool nat | TryAgain | Reload | Contend u32 | Waiting wait_pc | Holding | Waking

definition try_lock :: "u32 \<Rightarrow> u32 \<times> mutex_pc" where
  "try_lock w = (if w = UNLOCKED then (LOCKED, Holding) else (w, Outside))"

definition lock :: "u32 \<Rightarrow> u32 \<times> mutex_pc" where
  "lock w = (if w = UNLOCKED then (LOCKED, Holding) else (w, Spin True 100))"

definition unlock :: "u32 \<Rightarrow> u32 \<times> mutex_pc" where
  "unlock w = (UNLOCKED, if w = CONTENDED then Waking else Outside)"

definition spin :: "bool \<Rightarrow> nat \<Rightarrow> u32 \<Rightarrow> u32 \<times> mutex_pc" where
  "spin first spin_count w =
    (w, if w \<noteq> LOCKED \<or> spin_count = 0 then (if first \<and> w = UNLOCKED then TryAgain else Contend w)
        else Spin first (spin_count - 1))"

definition try_again :: "u32 \<Rightarrow> u32 \<times> mutex_pc" where
  "try_again w = (if w = UNLOCKED then (LOCKED, Holding) else (w, Reload))"

definition reload :: "u32 \<Rightarrow> u32 \<times> mutex_pc" where
  "reload w = (w, Contend w)"

definition contend :: "u32 \<Rightarrow> u32 \<Rightarrow> u32 \<times> mutex_pc" where
  "contend state w =
    (if state \<noteq> CONTENDED then (CONTENDED, if w = UNLOCKED then Holding else Waiting Check)
     else (w, Waiting Check))"

text \<open>Behind \<open>futex_wait\<close> the loop spins again.\<close>

definition after_wait :: "wait_pc \<Rightarrow> mutex_pc" where
  "after_wait p = (case p of Returned b \<Rightarrow> Spin False 100 | _ \<Rightarrow> Waiting p)"

record 't mutex =
  m_futex :: u32
  m_pc :: "'t \<Rightarrow> mutex_pc"

definition mutex_make :: "'t mutex" where
  "mutex_make = \<lparr>m_futex = UNLOCKED, m_pc = (\<lambda>t. Outside)\<rparr>"

definition goto :: "'t \<Rightarrow> u32 \<times> mutex_pc \<Rightarrow> 't mutex \<Rightarrow> 't mutex" where
  "goto t r s = s\<lparr>m_futex := fst r, m_pc := (m_pc s)(t := snd r)\<rparr>"

text \<open>The steps of one thread.  \<open>futex_wake\<close> wakes one thread that sleeps, if there is one.\<close>

inductive mutex_step :: "'t \<Rightarrow> 't mutex \<Rightarrow> 't mutex \<Rightarrow> bool" for t where
  m_try_lock: "m_pc s t = Outside \<Longrightarrow> mutex_step t s (goto t (try_lock (m_futex s)) s)"
| m_lock: "m_pc s t = Outside \<Longrightarrow> mutex_step t s (goto t (lock (m_futex s)) s)"
| m_spin: "m_pc s t = Spin first n \<Longrightarrow> mutex_step t s (goto t (spin first n (m_futex s)) s)"
| m_try_again: "m_pc s t = TryAgain \<Longrightarrow> mutex_step t s (goto t (try_again (m_futex s)) s)"
| m_reload: "m_pc s t = Reload \<Longrightarrow> mutex_step t s (goto t (reload (m_futex s)) s)"
| m_contend: "m_pc s t = Contend st \<Longrightarrow> mutex_step t s (goto t (contend st (m_futex s)) s)"
| m_wait: "m_pc s t = Waiting p \<Longrightarrow> futex_wait_step False (m_futex s) CONTENDED p q \<Longrightarrow>
    mutex_step t s (goto t (m_futex s, after_wait q) s)"
| m_unlock: "m_pc s t = Holding \<Longrightarrow> mutex_step t s (goto t (unlock (m_futex s)) s)"
| m_wake: "m_pc s t = Waking \<Longrightarrow> m_pc s u = Waiting Asleep \<Longrightarrow>
    mutex_step t s (goto t (m_futex s, Outside) (goto u (m_futex s, after_wait (wait_resume Woken)) s))"
| m_wake_none: "m_pc s t = Waking \<Longrightarrow> (\<forall>u. m_pc s u \<noteq> Waiting Asleep) \<Longrightarrow> mutex_step t s (goto t (m_futex s, Outside) s)"

definition mutex_reachable :: "'t mutex \<Rightarrow> bool" where
  "mutex_reachable = reachable (\<lambda>s. s = mutex_make) (\<lambda>s s'. \<exists>t. mutex_step t s s')"

section \<open>The invariant\<close>

definition exclusive :: "'t mutex \<Rightarrow> bool" where
  "exclusive s \<longleftrightarrow> (\<forall>t u. m_pc s t = Holding \<and> m_pc s u = Holding \<longrightarrow> t = u) \<and>
     (m_futex s = UNLOCKED \<longleftrightarrow> (\<forall>t. m_pc s t \<noteq> Holding))"

text \<open>The positions from which a thread is bound to wake a sleeper or to mark the lock contended again.\<close>

fun alert :: "mutex_pc \<Rightarrow> bool" where
  "alert Waking = True"
| "alert (Contend st) = True"
| "alert (Spin first n) = (\<not> first)"
| "alert (Waiting p) = (p \<noteq> Asleep)"
| "alert _ = False"

definition none_lost :: "'t mutex \<Rightarrow> bool" where
  "none_lost s \<longleftrightarrow> (\<exists>t. m_pc s t = Waiting Asleep) \<longrightarrow> m_futex s = CONTENDED \<or> (\<exists>t. alert (m_pc s t))"

definition mutex_inv :: "'t mutex \<Rightarrow> bool" where
  "mutex_inv s \<longleftrightarrow> exclusive s \<and> none_lost s \<and> (\<forall>t b. m_pc s t \<noteq> Waiting (Returned b))"

lemma goto_simps [simp]: "m_futex (goto t r s) = fst r" "m_pc (goto t r s) = (m_pc s)(t := snd r)"
  by (simp_all add: goto_def)

lemmas mutex_words = UNLOCKED_def LOCKED_def CONTENDED_def

lemma exclusive_other:
  "exclusive s \<Longrightarrow> m_pc s t \<noteq> Holding \<Longrightarrow> snd r \<noteq> Holding \<Longrightarrow> (fst r = UNLOCKED \<longleftrightarrow> m_futex s = UNLOCKED) \<Longrightarrow> exclusive (goto t r s)"
  unfolding exclusive_def by (auto split: if_splits)

lemma exclusive_acquire:
  "exclusive s \<Longrightarrow> m_futex s = UNLOCKED \<Longrightarrow> snd r = Holding \<Longrightarrow> fst r \<noteq> UNLOCKED \<Longrightarrow> exclusive (goto t r s)"
  unfolding exclusive_def by auto

lemma exclusive_release:
  "exclusive s \<Longrightarrow> m_pc s t = Holding \<Longrightarrow> snd r \<noteq> Holding \<Longrightarrow> fst r = UNLOCKED \<Longrightarrow> exclusive (goto t r s)"
  unfolding exclusive_def by auto

lemma exclusive_step: "mutex_step t s s' \<Longrightarrow> exclusive s \<Longrightarrow> exclusive s'"
proof (induction rule: mutex_step.induct)
  case (m_try_lock s)
  then show ?case by (cases "m_futex s = UNLOCKED")
    (auto simp: try_lock_def mutex_words intro: exclusive_other exclusive_acquire)
next
  case (m_lock s)
  then show ?case by (cases "m_futex s = UNLOCKED")
    (auto simp: lock_def mutex_words intro: exclusive_other exclusive_acquire)
next
  case (m_try_again s)
  then show ?case by (cases "m_futex s = UNLOCKED")
    (auto simp: try_again_def mutex_words intro: exclusive_other exclusive_acquire)
next
  case (m_contend s st)
  then show ?case by (cases "m_futex s = UNLOCKED")
    (auto simp: contend_def mutex_words intro: exclusive_other exclusive_acquire)
next
  case (m_unlock s)
  then show ?case by (intro exclusive_release) (auto simp: unlock_def)
next
  case (m_wake s u)
  have "exclusive (goto u (m_futex s, after_wait (wait_resume Woken)) s)"
    using m_wake by (intro exclusive_other) (auto simp: after_wait_def wait_resume_def)
  then show ?case using m_wake by (intro exclusive_other) (auto simp: after_wait_def wait_resume_def split: if_splits)
qed (rule exclusive_other; auto simp: spin_def reload_def after_wait_def split: wait_pc.split)+

lemma none_lost_alert: "alert (snd r) \<Longrightarrow> none_lost (goto t r s)"
  unfolding none_lost_def by auto

lemma none_lost_contended: "fst r = CONTENDED \<Longrightarrow> none_lost (goto t r s)"
  unfolding none_lost_def by auto

lemma none_lost_other:
  "none_lost s \<Longrightarrow> \<not> alert (m_pc s t) \<Longrightarrow> snd r \<noteq> Waiting Asleep \<Longrightarrow> (m_futex s = CONTENDED \<Longrightarrow> fst r = CONTENDED) \<Longrightarrow> none_lost (goto t r s)"
  unfolding none_lost_def by (auto split: if_splits) metis

lemma none_lost_step: "mutex_step t s s' \<Longrightarrow> none_lost s \<Longrightarrow> none_lost s'"
proof (induction rule: mutex_step.induct)
  case (m_spin s first n)
  then show ?case
    by (cases first) (auto simp: spin_def intro: none_lost_alert none_lost_other)
next
  case (m_contend s st)
  then show ?case by (cases "st = CONTENDED") (auto simp: contend_def intro: none_lost_alert none_lost_contended)
next
  case (m_wait s p q)
  from m_wait(2) show ?case
    by cases (auto simp: wait_check_def wait_syscall_def wait_resume_def after_wait_def intro: none_lost_alert none_lost_contended)
next
  case (m_unlock s)
  then show ?case by (cases "m_futex s = CONTENDED") (auto simp: unlock_def intro: none_lost_alert none_lost_other)
next
  case (m_wake s u)
  then have "alert (m_pc (goto t (m_futex s, Outside) (goto u (m_futex s, after_wait (wait_resume Woken)) s)) u)"
    by (auto simp: after_wait_def wait_resume_def)
  then show ?case unfolding none_lost_def by blast
next
  case (m_wake_none s)
  then show ?case unfolding none_lost_def by auto
qed (rule none_lost_other; auto simp: try_lock_def lock_def try_again_def mutex_words | auto simp: reload_def intro: none_lost_alert)+

lemma after_wait_not_returned: "after_wait p \<noteq> Waiting (Returned b)"
  by (cases p) (simp_all add: after_wait_def)

lemma not_returned_step:
  "mutex_step t s s' \<Longrightarrow> \<forall>u b. m_pc s u \<noteq> Waiting (Returned b) \<Longrightarrow> m_pc s' u \<noteq> Waiting (Returned b)"
  by (induction rule: mutex_step.induct)
    (auto simp: try_lock_def lock_def spin_def try_again_def reload_def contend_def unlock_def after_wait_not_returned split: if_splits)

interpretation mutex_system: inductive_invariant "\<lambda>s. s = mutex_make" "\<lambda>s s'. \<exists>t. mutex_step t s s'" mutex_inv
proof
  show "mutex_inv s" if "s = mutex_make" for s :: "'a mutex"
    using that by (simp add: mutex_inv_def exclusive_def none_lost_def mutex_make_def)
  show "mutex_inv s'" if "mutex_inv s" "\<exists>t. mutex_step t s s'" for s s' :: "'a mutex"
    using that exclusive_step none_lost_step not_returned_step [of _ s s'] unfolding mutex_inv_def by metis
qed

section \<open>Exclusion and wakeups\<close>

text \<open>C7. Mutual exclusion: in every state the threads can reach by any interleaving of \<open>try_lock\<close>, \<open>lock\<close>
  and \<open>unlock\<close>, at most one thread holds the lock, and the word says unlocked exactly when none does.\<close>

theorem mutex_exclusive: "mutex_reachable s \<Longrightarrow> exclusive s"
  unfolding mutex_reachable_def using mutex_system.reachable_inv by (auto simp: mutex_inv_def)

lemma mutex_make_reachable: "mutex_reachable mutex_make"
  unfolding mutex_reachable_def by (rule reach_init) simp

lemma mutex_reachable_step: "mutex_reachable s \<Longrightarrow> mutex_step t s s' \<Longrightarrow> mutex_reachable s'"
  unfolding mutex_reachable_def by (rule reach_step) auto

theorem mutex_exclusive_witness:
  "exclusive (goto (1 :: nat) (lock LOCKED) (goto 0 (lock UNLOCKED) mutex_make))"
proof (rule mutex_exclusive)
  have "mutex_step (0 :: nat) mutex_make (goto 0 (lock UNLOCKED) mutex_make)"
    using m_lock [of mutex_make "0 :: nat"] by (simp add: mutex_make_def)
  then have r: "mutex_reachable (goto (0 :: nat) (lock UNLOCKED) mutex_make)" by (rule mutex_reachable_step [OF mutex_make_reachable])
  have "mutex_step 1 (goto (0 :: nat) (lock UNLOCKED) mutex_make) (goto 1 (lock LOCKED) (goto 0 (lock UNLOCKED) mutex_make))"
    using m_lock [of "goto (0 :: nat) (lock UNLOCKED) mutex_make" 1] by (simp add: lock_def mutex_make_def)
  then show "mutex_reachable (goto (1 :: nat) (lock LOCKED) (goto 0 (lock UNLOCKED) mutex_make))" by (rule mutex_reachable_step [OF r])
qed

text \<open>C8. No deadlock inside the mutex: whenever some thread is in \<open>lock\<close> or \<open>unlock\<close> or holds the lock,
  some thread is awake there and can take a step; it is never so that all of them sleep.\<close>

theorem mutex_not_stuck:
  assumes "mutex_reachable s" "m_pc s t \<noteq> Outside"
  shows "\<exists>u s'. m_pc s u \<notin> {Outside, Waiting Asleep} \<and> mutex_step u s s'"
proof -
  have inv: "exclusive s" "none_lost s" "\<And>t b. m_pc s t \<noteq> Waiting (Returned b)"
    using assms(1) mutex_system.reachable_inv by (auto simp: mutex_reachable_def mutex_inv_def)
  have "\<exists>u. m_pc s u \<notin> {Outside, Waiting Asleep}"
  proof (rule ccontr)
    assume n: "\<nexists>u. m_pc s u \<notin> {Outside, Waiting Asleep}"
    then have "m_pc s t = Waiting Asleep" using assms(2) by blast
    moreover have "\<not> alert (m_pc s u)" for u using n by (cases "m_pc s u = Outside") auto
    ultimately have "m_futex s = CONTENDED" using inv(2) unfolding none_lost_def by blast
    then obtain u where "m_pc s u = Holding" using inv(1) by (auto simp: exclusive_def mutex_words)
    moreover have "m_pc s u \<in> {Outside, Waiting Asleep}" using n by blast
    ultimately show False by simp
  qed
  then obtain u where u: "m_pc s u \<notin> {Outside, Waiting Asleep}" by blast
  have "\<exists>s'. mutex_step u s s'"
  proof (cases "m_pc s u")
    case (Waiting p)
    have "\<exists>q. futex_wait_step False (m_futex s) CONTENDED p q"
      by (rule futex_awake_step) (use u inv(3) [of u] Waiting in auto)
    then show ?thesis using m_wait [OF Waiting] by (elim exE) (rule exI)
  next
    case Waking
    then show ?thesis using m_wake [OF Waking] m_wake_none [OF Waking] by (cases "\<forall>v. m_pc s v \<noteq> Waiting Asleep") auto
  qed (use u in \<open>auto intro: mutex_step.intros\<close>)
  then show ?thesis using u by blast
qed

theorem mutex_not_stuck_witness:
  "\<exists>u s'. m_pc (goto (0 :: nat) (lock UNLOCKED) mutex_make) u \<notin> {Outside, Waiting Asleep} \<and>
     mutex_step u (goto (0 :: nat) (lock UNLOCKED) mutex_make) s'"
proof (rule mutex_not_stuck)
  have "mutex_step (0 :: nat) mutex_make (goto 0 (lock UNLOCKED) mutex_make)"
    using m_lock [of mutex_make "0 :: nat"] by (simp add: mutex_make_def)
  then show "mutex_reachable (goto (0 :: nat) (lock UNLOCKED) mutex_make)" by (rule mutex_reachable_step [OF mutex_make_reachable])
  show "m_pc (goto (0 :: nat) (lock UNLOCKED) mutex_make) 0 \<noteq> Outside" by (simp add: lock_def)
qed

end
