(* ===== verification/Sync_Once.thy ===== *)
theory Sync_Once
  imports Futex
begin

unbundle bit_operations_syntax

text \<open>
  The futex \<open>Once\<close> of src/std/src/sys/sync/once/futex.cpp.  A thread is in \<open>call\<close> or in \<open>wait\<close>; each
  definition is one atomic access and the branch after it.  \<open>runs\<close> counts the executions of the callback,
  which the code does not store.  The callback returns; a callback that never returns leaves its thread
  where it is.
\<close>

section \<open>The code\<close>

definition COMPLETE :: u32 where "COMPLETE = 0"
definition RUNNING :: u32 where "RUNNING = 1"
definition INCOMPLETE :: u32 where "INCOMPLETE = 3"
definition QUEUED :: u32 where "QUEUED = 4"
definition STATE_MASK :: u32 where "STATE_MASK = 3"

text \<open>\<open>Loop call v\<close>: at the top of the loop of \<open>call\<close> or \<open>wait\<close> with the local \<open>state_and_queued\<close>; \<open>Claim\<close>
  and \<open>Mark\<close>: before the exchanges that start the callback and that set the queued bit.\<close>

datatype once_pc =
    Outside | Loop bool u32 | Claim u32 | Mark bool u32 | Waiting bool u32 wait_pc | Reload bool
  | Running | Finish | WakeAll | Done

definition is_completed :: "u32 \<Rightarrow> bool" where
  "is_completed w \<longleftrightarrow> w = COMPLETE"

definition once_load :: "bool \<Rightarrow> u32 \<Rightarrow> u32 \<times> once_pc" where
  "once_load is_call w = (w, Loop is_call w)"

definition once_branch :: "bool \<Rightarrow> u32 \<Rightarrow> once_pc" where
  "once_branch is_call v =
    (let state = v AND STATE_MASK; queued = v AND QUEUED \<noteq> 0 in
     if state = COMPLETE then Done
     else if is_call \<and> state = INCOMPLETE then Claim v
     else if \<not> queued then Mark is_call v
     else Waiting is_call v Check)"

text \<open>\<open>compare_exchange_weak\<close> may fail although the word is the expected one (\<open>spurious\<close>).\<close>

definition once_claim :: "bool \<Rightarrow> u32 \<Rightarrow> u32 \<Rightarrow> u32 \<times> once_pc" where
  "once_claim spurious v w =
    (if w = v \<and> \<not> spurious then (RUNNING OR (if v AND QUEUED \<noteq> 0 then QUEUED else 0), Running)
     else (w, Loop True w))"

definition once_mark :: "bool \<Rightarrow> bool \<Rightarrow> u32 \<Rightarrow> u32 \<Rightarrow> u32 \<times> once_pc" where
  "once_mark spurious is_call v w =
    (if w = v \<and> \<not> spurious then (v OR QUEUED, Waiting is_call (v OR QUEUED) Check) else (w, Loop is_call w))"

definition once_finish :: "u32 \<Rightarrow> u32 \<times> once_pc" where
  "once_finish w = (COMPLETE, if w AND QUEUED \<noteq> 0 then WakeAll else Done)"

definition once_after_wait :: "bool \<Rightarrow> u32 \<Rightarrow> wait_pc \<Rightarrow> once_pc" where
  "once_after_wait is_call v p = (case p of Returned b \<Rightarrow> Reload is_call | _ \<Rightarrow> Waiting is_call v p)"

text \<open>The exclusive view of the object: no other thread uses it.\<close>

datatype exclusive_state = Incomplete | Complete

definition once_state :: "u32 \<Rightarrow> exclusive_state" where
  "once_state w = (if w = COMPLETE then Complete else Incomplete)"

definition once_set_state :: "exclusive_state \<Rightarrow> u32" where
  "once_set_state st = (if st = Complete then COMPLETE else INCOMPLETE)"

record 't once =
  o_word :: u32
  o_pc :: "'t \<Rightarrow> once_pc"
  o_runs :: nat

definition once_make :: "'t once" where
  "once_make = \<lparr>o_word = INCOMPLETE, o_pc = (\<lambda>t. Outside), o_runs = 0\<rparr>"

definition go :: "'t \<Rightarrow> u32 \<times> once_pc \<Rightarrow> 't once \<Rightarrow> 't once" where
  "go t r s = s\<lparr>o_word := fst r, o_pc := (o_pc s)(t := snd r)\<rparr>"

text \<open>\<open>futex_wake_all\<close>: every thread that sleeps goes on.\<close>

definition wake_all :: "'t once \<Rightarrow> 't once" where
  "wake_all s = s\<lparr>o_pc := (\<lambda>u. case o_pc s u of
      Waiting is_call v Asleep \<Rightarrow> once_after_wait is_call v (wait_resume Woken) | p \<Rightarrow> p)\<rparr>"

inductive once_step :: "'t \<Rightarrow> 't once \<Rightarrow> 't once \<Rightarrow> bool" for t where
  o_enter: "o_pc s t = Outside \<Longrightarrow> once_step t s (go t (once_load is_call (o_word s)) s)"
| o_branch: "o_pc s t = Loop is_call v \<Longrightarrow> once_step t s (go t (o_word s, once_branch is_call v) s)"
| o_claim: "o_pc s t = Claim v \<Longrightarrow> once_step t s (go t (once_claim spurious v (o_word s)) s)"
| o_mark: "o_pc s t = Mark is_call v \<Longrightarrow> once_step t s (go t (once_mark spurious is_call v (o_word s)) s)"
| o_wait: "o_pc s t = Waiting is_call v p \<Longrightarrow> futex_wait_step False (o_word s) v p q \<Longrightarrow>
    once_step t s (go t (o_word s, once_after_wait is_call v q) s)"
| o_reload: "o_pc s t = Reload is_call \<Longrightarrow> once_step t s (go t (once_load is_call (o_word s)) s)"
| o_callback: "o_pc s t = Running \<Longrightarrow> once_step t s ((go t (o_word s, Finish) s)\<lparr>o_runs := o_runs s + 1\<rparr>)"
| o_finish: "o_pc s t = Finish \<Longrightarrow> once_step t s (go t (once_finish (o_word s)) s)"
| o_wake_all: "o_pc s t = WakeAll \<Longrightarrow> once_step t s (go t (o_word s, Done) (wake_all s))"
| o_again: "o_pc s t = Done \<Longrightarrow> once_step t s (go t (o_word s, Outside) s)"

definition once_reachable :: "'t once \<Rightarrow> bool" where
  "once_reachable = reachable (\<lambda>s. s = once_make) (\<lambda>s s'. \<exists>t. once_step t s s')"

section \<open>The invariant\<close>

lemmas once_words = COMPLETE_def RUNNING_def INCOMPLETE_def QUEUED_def STATE_MASK_def

definition once_values :: "u32 set" where
  "once_values = {0, 1, 3, 5, 7}"

text \<open>What a position says about the word and the callback.\<close>

fun once_place :: "u32 \<Rightarrow> nat \<Rightarrow> once_pc \<Rightarrow> bool" where
  "once_place w n (Loop c v) = (v \<in> once_values \<and> (v = 0 \<longrightarrow> w = 0))"
| "once_place w n (Claim v) = (v \<in> {3, 7})"
| "once_place w n (Mark c v) = (v \<in> {1, 3})"
| "once_place w n (Waiting c v p) = (v \<in> {5, 7} \<and> (p = Asleep \<or> p = Check \<or> p = Syscall))"
| "once_place w n Running = (w \<in> {1, 5} \<and> n = 0)"
| "once_place w n Finish = (w \<in> {1, 5} \<and> n = 1)"
| "once_place w n WakeAll = (w = 0)"
| "once_place w n Done = (w = 0)"
| "once_place w n _ = True"

definition active :: "once_pc \<Rightarrow> bool" where
  "active p \<longleftrightarrow> p = Running \<or> p = Finish"

definition sleeps :: "once_pc \<Rightarrow> bool" where
  "sleeps p \<longleftrightarrow> (\<exists>c v. p = Waiting c v Asleep)"

definition once_inv :: "'t once \<Rightarrow> bool" where
  "once_inv s \<longleftrightarrow> o_word s \<in> once_values \<and> (\<forall>t. once_place (o_word s) (o_runs s) (o_pc s t)) \<and>
     (\<forall>t u. active (o_pc s t) \<and> active (o_pc s u) \<longrightarrow> t = u) \<and>
     (o_word s \<in> {1, 5} \<longrightarrow> (\<exists>t. active (o_pc s t))) \<and>
     (o_word s = 0 \<longrightarrow> o_runs s = 1) \<and> (o_word s \<in> {3, 7} \<longrightarrow> o_runs s = 0) \<and>
     ((\<exists>t. sleeps (o_pc s t)) \<longrightarrow> o_word s \<in> {5, 7} \<or> (\<exists>t. o_pc s t = WakeAll))"

lemma go_simps [simp]: "o_word (go t r s) = fst r" "o_pc (go t r s) = (o_pc s)(t := snd r)" "o_runs (go t r s) = o_runs s"
  by (simp_all add: go_def)

lemma once_invI:
  assumes "o_word s \<in> once_values" "\<And>t. once_place (o_word s) (o_runs s) (o_pc s t)"
    "\<And>t u. active (o_pc s t) \<Longrightarrow> active (o_pc s u) \<Longrightarrow> t = u" "o_word s \<in> {1, 5} \<Longrightarrow> \<exists>t. active (o_pc s t)"
    "o_word s = 0 \<Longrightarrow> o_runs s = 1" "o_word s \<in> {3, 7} \<Longrightarrow> o_runs s = 0"
    "\<And>t. sleeps (o_pc s t) \<Longrightarrow> o_word s \<in> {5, 7} \<or> (\<exists>t. o_pc s t = WakeAll)"
  shows "once_inv s"
  unfolding once_inv_def using assms by blast

lemma once_invD:
  assumes "once_inv s"
  shows "o_word s \<in> once_values" "once_place (o_word s) (o_runs s) (o_pc s t)"
    "active (o_pc s t) \<Longrightarrow> active (o_pc s u) \<Longrightarrow> t = u" "o_word s \<in> {1, 5} \<Longrightarrow> \<exists>t. active (o_pc s t)"
    "o_word s = 0 \<Longrightarrow> o_runs s = 1" "o_word s \<in> {3, 7} \<Longrightarrow> o_runs s = 0"
    "sleeps (o_pc s t) \<Longrightarrow> o_word s \<in> {5, 7} \<or> (\<exists>t. o_pc s t = WakeAll)"
  using assms unfolding once_inv_def by blast+

lemma place_kept: "once_place w n p \<Longrightarrow> w \<noteq> 0 \<Longrightarrow> \<not> active p \<Longrightarrow> once_place w' n' p"
  by (cases p) (auto simp: active_def)

lemma place_active: "once_place w n p \<Longrightarrow> active p \<Longrightarrow> w \<in> {1, 5}"
  by (cases p) (auto simp: active_def)

lemma once_inv_same:
  assumes i: "once_inv s" and p: "once_place (o_word s) (o_runs s) p" "active p = active (o_pc s t)" "sleeps p \<Longrightarrow> o_word s \<in> {5, 7}"
    "o_pc s t \<noteq> WakeAll"
  shows "once_inv (go t (o_word s, p) s)"
proof (rule once_invI)
  note d = once_invD [OF i]
  let ?s = "go t (o_word s, p) s"
  show "o_word ?s \<in> once_values" "o_word ?s = 0 \<Longrightarrow> o_runs ?s = 1" "o_word ?s \<in> {3, 7} \<Longrightarrow> o_runs ?s = 0" using d by auto
  show "once_place (o_word ?s) (o_runs ?s) (o_pc ?s u)" for u using d(2) [of u] p(1) by simp
  show "u = v" if "active (o_pc ?s u)" "active (o_pc ?s v)" for u v using that p(2) d(3) [of u v] by (auto split: if_splits)
  show "\<exists>u. active (o_pc ?s u)" if "o_word ?s \<in> {1, 5}" using that d(4) p(2) by (metis fst_conv fun_upd_apply go_simps(1,2) snd_conv)
  show "o_word ?s \<in> {5, 7} \<or> (\<exists>u. o_pc ?s u = WakeAll)" if "sleeps (o_pc ?s u)" for u
    using that d(7) [of u] p(3,4) by (cases "u = t") (auto, metis)
qed

text \<open>The three changes of the word.\<close>

lemma once_inv_mark:
  assumes i: "once_inv s" and w: "o_word s \<in> {1, 3}" and p: "o_pc s t = Mark c v"
  shows "once_inv (go t (o_word s OR QUEUED, Waiting c (o_word s OR QUEUED) Check) s)" (is "once_inv ?s")
proof (rule once_invI)
  note d = once_invD [OF i]
  have q: "o_word s OR QUEUED = (if o_word s = 1 then 5 else 7)" using w by (auto simp: QUEUED_def)
  have a: "active (o_pc ?s u) = active (o_pc s u)" for u using p by (simp add: active_def)
  show "o_word ?s \<in> once_values" using q by (auto simp: once_values_def)
  show "o_word ?s = 0 \<Longrightarrow> o_runs ?s = 1" "o_word ?s \<in> {3, 7} \<Longrightarrow> o_runs ?s = 0" using d(6) w q by (auto split: if_splits)
  show "once_place (o_word ?s) (o_runs ?s) (o_pc ?s u)" for u
  proof (cases "u = t")
    case True
    then show ?thesis using q by simp
  next
    case False
    show ?thesis
    proof (cases "active (o_pc s u)")
      case True
      then show ?thesis using False d(2) [of u] q w by (auto simp: active_def)
    next
      case F: False
      then show ?thesis using False place_kept [OF d(2) [of u] _ F] w by auto
    qed
  qed
  show "u = v" if "active (o_pc ?s u)" "active (o_pc ?s v)" for u v using that d(3) a by blast
  show "\<exists>u. active (o_pc ?s u)" if "o_word ?s \<in> {1, 5}" using that d(4) a q w by (auto split: if_splits)
  show "o_word ?s \<in> {5, 7} \<or> (\<exists>u. o_pc ?s u = WakeAll)" for u using q by simp
qed

lemma once_inv_claim:
  assumes i: "once_inv s" and w: "o_word s \<in> {3, 7}"
  shows "once_inv (go t (RUNNING OR (if o_word s AND QUEUED \<noteq> 0 then QUEUED else 0), Running) s)" (is "once_inv ?s")
proof (rule once_invI)
  note d = once_invD [OF i]
  have q: "RUNNING OR (if o_word s AND QUEUED \<noteq> 0 then QUEUED else 0) = (if o_word s = 7 then 5 else 1)"
    using w by (auto simp: RUNNING_def QUEUED_def)
  have a: "\<not> active (o_pc s u)" for u using place_active [OF d(2) [of u]] w by auto
  have n: "o_runs s = 0" using d(6) w by simp
  have z: "o_pc s u \<noteq> WakeAll" for u using d(2) [of u] w by auto
  show "o_word ?s \<in> once_values" using q by (auto simp: once_values_def)
  show "o_word ?s = 0 \<Longrightarrow> o_runs ?s = 1" "o_word ?s \<in> {3, 7} \<Longrightarrow> o_runs ?s = 0" using n q by (auto split: if_splits)
  show "once_place (o_word ?s) (o_runs ?s) (o_pc ?s u)" for u
    using place_kept [OF d(2) [of u] _ a [of u]] w q n by (cases "u = t") auto
  show "u = v" if "active (o_pc ?s u)" "active (o_pc ?s v)" for u v using that a by (auto split: if_splits)
  show "\<exists>u. active (o_pc ?s u)" by (auto simp: active_def)
  show "o_word ?s \<in> {5, 7} \<or> (\<exists>u. o_pc ?s u = WakeAll)" if "sleeps (o_pc ?s u)" for u
    using that d(7) [of u] z w q by (cases "u = t") (auto simp: sleeps_def)
qed

lemma once_inv_finish:
  assumes i: "once_inv s" and p: "o_pc s t = Finish"
  shows "once_inv (go t (once_finish (o_word s)) s)" (is "once_inv ?s")
proof (rule once_invI)
  note d = once_invD [OF i]
  have w: "o_word s \<in> {1, 5}" "o_runs s = 1" using d(2) [of t] p by auto
  have q: "once_finish (o_word s) = (0, if o_word s = 5 then WakeAll else Done)"
    using w by (auto simp: once_finish_def QUEUED_def COMPLETE_def)
  have a: "\<not> active (o_pc s u)" if "u \<noteq> t" for u using d(3) [of t u] p that by (auto simp: active_def)
  have z: "o_pc s u \<noteq> WakeAll" for u using d(2) [of u] w by auto
  have o: "\<not> active (o_pc ?s u)" for u using a q by (auto simp: active_def)
  show "o_word ?s \<in> once_values" using q by (simp add: once_values_def)
  show "o_word ?s = 0 \<Longrightarrow> o_runs ?s = 1" "o_word ?s \<in> {3, 7} \<Longrightarrow> o_runs ?s = 0" using w q by auto
  show "once_place (o_word ?s) (o_runs ?s) (o_pc ?s u)" for u
    using place_kept [OF d(2) [of u] _ a [of u]] w q by (cases "u = t") auto
  show "u = v" if "active (o_pc ?s u)" for u v using that o by blast
  show "\<exists>u. active (o_pc ?s u)" if "o_word ?s \<in> {1, 5}" using that q by simp
  show "o_word ?s \<in> {5, 7} \<or> (\<exists>u. o_pc ?s u = WakeAll)" if "sleeps (o_pc ?s u)" for u
    using that d(7) [of u] z w q by (cases "u = t") (auto simp: sleeps_def)
qed

lemma once_inv_callback:
  assumes i: "once_inv s" and p: "o_pc s t = Running"
  shows "once_inv ((go t (o_word s, Finish) s)\<lparr>o_runs := o_runs s + 1\<rparr>)" (is "once_inv ?s")
proof (rule once_invI)
  note d = once_invD [OF i]
  have w: "o_word s \<in> {1, 5}" "o_runs s = 0" using d(2) [of t] p by auto
  have a: "\<not> active (o_pc s u)" if "u \<noteq> t" for u using d(3) [of t u] p that by (auto simp: active_def)
  have z: "o_pc s u \<noteq> WakeAll" for u using d(2) [of u] w by auto
  show "o_word ?s \<in> once_values" using d(1) by simp
  show "o_word ?s = 0 \<Longrightarrow> o_runs ?s = 1" "o_word ?s \<in> {3, 7} \<Longrightarrow> o_runs ?s = 0" using w by auto
  show "once_place (o_word ?s) (o_runs ?s) (o_pc ?s u)" for u
    using place_kept [OF d(2) [of u] _ a [of u]] w by (cases "u = t") auto
  show "u = v" if "active (o_pc ?s u)" "active (o_pc ?s v)" for u v using that a by (auto split: if_splits)
  show "\<exists>u. active (o_pc ?s u)" by (auto simp: active_def)
  show "o_word ?s \<in> {5, 7} \<or> (\<exists>u. o_pc ?s u = WakeAll)" if "sleeps (o_pc ?s u)" for u
    using that d(7) [of u] z w by (cases "u = t") (auto simp: sleeps_def)
qed

lemma wake_all_pc: "o_pc (wake_all s) u = (case o_pc s u of Waiting c v Asleep \<Rightarrow> Waiting c v Check | p \<Rightarrow> p)"
  by (auto simp: wake_all_def once_after_wait_def wait_resume_def split: once_pc.split wait_pc.split)

lemma wake_all_cases:
  obtains c v where "o_pc s u = Waiting c v Asleep" "o_pc (wake_all s) u = Waiting c v Check"
  | "\<not> sleeps (o_pc s u)" "o_pc (wake_all s) u = o_pc s u"
proof (cases "o_pc s u")
  case (Waiting c v p)
  then show thesis using that by (cases p) (auto simp: wake_all_pc sleeps_def)
qed (use that in \<open>auto simp: wake_all_pc sleeps_def\<close>)

lemma once_inv_wake_all:
  assumes i: "once_inv s" and p: "o_pc s t = WakeAll"
  shows "once_inv (go t (o_word s, Done) (wake_all s))" (is "once_inv ?s")
proof (rule once_invI)
  note d = once_invD [OF i]
  have w: "o_word s = 0" using d(2) [of t] p by simp
  have n: "o_runs (wake_all s) = o_runs s" by (simp add: wake_all_def)
  have o: "\<not> active (o_pc ?s u)" for u
    using place_active [OF d(2) [of u]] w by (cases s u rule: wake_all_cases) (auto simp: active_def)
  show "o_word ?s \<in> once_values" "o_word ?s = 0 \<Longrightarrow> o_runs ?s = 1" "o_word ?s \<in> {3, 7} \<Longrightarrow> o_runs ?s = 0" using d n by auto
  show "once_place (o_word ?s) (o_runs ?s) (o_pc ?s u)" for u
    using d(2) [of u] w n by (cases s u rule: wake_all_cases) auto
  show "u = v" if "active (o_pc ?s u)" for u v using that o by blast
  show "\<exists>u. active (o_pc ?s u)" if "o_word ?s \<in> {1, 5}" using that w by simp
  show "o_word ?s \<in> {5, 7} \<or> (\<exists>u. o_pc ?s u = WakeAll)" if "sleeps (o_pc ?s u)" for u
    using that by (cases s u rule: wake_all_cases) (auto simp: sleeps_def split: if_splits)
qed

lemma once_branch_place:
  assumes "v \<in> once_values" "v = 0 \<longrightarrow> w = 0"
  shows "once_place w n (once_branch c v) \<and> \<not> active (once_branch c v) \<and> \<not> sleeps (once_branch c v)"
  using assms by (auto simp: once_values_def once_branch_def once_words Let_def active_def sleeps_def)

lemma once_wait_place:
  assumes "futex_wait_step False w v p q" "v \<in> {5, 7}"
  shows "once_place w n (once_after_wait c v q) \<and> \<not> active (once_after_wait c v q) \<and> (sleeps (once_after_wait c v q) \<longrightarrow> w = v)"
  using assms(1) by cases (use assms(2) in \<open>auto simp: wait_check_def wait_syscall_def wait_resume_def once_after_wait_def active_def sleeps_def\<close>)

lemma once_inv_step: "once_step t s s' \<Longrightarrow> once_inv s \<Longrightarrow> once_inv s'"
proof (induction rule: once_step.induct)
  case (o_enter s is_call)
  then show ?case using once_invD(1) by (auto simp: once_load_def active_def sleeps_def intro!: once_inv_same)
next
  case (o_branch s is_call v)
  have "v \<in> once_values" "v = 0 \<longrightarrow> o_word s = 0" using once_invD(2) [OF o_branch(2), of t] o_branch(1) by auto
  note b = once_branch_place [OF this]
  then show ?case using o_branch by (intro once_inv_same) (auto simp: active_def)
next
  case (o_claim s v spurious)
  show ?case
  proof (cases "o_word s = v \<and> \<not> spurious")
    case True
    then have "o_word s \<in> {3, 7}" using once_invD(2) [OF o_claim(2), of t] o_claim(1) by auto
    then show ?thesis using once_inv_claim [OF o_claim(2)] True by (simp add: once_claim_def)
  next
    case False
    then show ?thesis using o_claim once_invD(1) by (auto simp: once_claim_def active_def sleeps_def intro!: once_inv_same)
  qed
next
  case (o_mark s is_call v spurious)
  show ?case
  proof (cases "o_word s = v \<and> \<not> spurious")
    case True
    then have "o_word s \<in> {1, 3}" using once_invD(2) [OF o_mark(2), of t] o_mark(1) by auto
    then show ?thesis using once_inv_mark [OF o_mark(2) _ o_mark(1)] True by (simp add: once_mark_def)
  next
    case False
    then show ?thesis using o_mark once_invD(1) by (auto simp: once_mark_def active_def sleeps_def intro!: once_inv_same)
  qed
next
  case (o_wait s is_call v p q)
  have v: "v \<in> {5, 7}" using once_invD(2) [OF o_wait(3), of t] o_wait(1) by auto
  from once_wait_place [OF o_wait(2) v] o_wait(1,3) v show ?case by (intro once_inv_same) (auto simp: active_def)
next
  case (o_reload s is_call)
  then show ?case using once_invD(1) by (auto simp: once_load_def active_def sleeps_def intro!: once_inv_same)
next
  case (o_again s)
  then show ?case by (intro once_inv_same) (auto simp: active_def sleeps_def)
qed (erule (1) once_inv_callback [rotated] once_inv_finish [rotated] once_inv_wake_all [rotated])+

interpretation once_system: inductive_invariant "\<lambda>s. s = once_make" "\<lambda>s s'. \<exists>t. once_step t s s'" once_inv
proof
  show "once_inv s" if "s = once_make" for s :: "'a once"
    unfolding that by (rule once_invI) (simp_all add: once_make_def once_values_def once_words active_def sleeps_def)
  show "once_inv s'" if "once_inv s" "\<exists>t. once_step t s s'" for s s' :: "'a once"
    using that(2,1) by (elim exE) (rule once_inv_step)
qed

section \<open>Once\<close>

definition once_correct :: "'t once \<Rightarrow> bool" where
  "once_correct s \<longleftrightarrow> o_runs s \<le> 1 \<and> (is_completed (o_word s) \<longleftrightarrow> o_runs s = 1 \<and> (\<forall>t. o_pc s t \<noteq> Finish)) \<and>
     (\<forall>t. o_pc s t = Done \<longrightarrow> o_runs s = 1) \<and>
     (\<forall>t u. active (o_pc s t) \<and> active (o_pc s u) \<longrightarrow> t = u) \<and>
     (is_completed (o_word s) \<and> (\<exists>t. sleeps (o_pc s t)) \<longrightarrow> (\<exists>t. o_pc s t = WakeAll))"

text \<open>C9. \<open>Once\<close>: in every reachable state the callback has run at most once and in one thread, the object
  is complete exactly when it has run and its thread has published it, a \<open>call\<close> or \<open>wait\<close> that returns does so behind the
  callback, and when the object is complete a thread still asleep is about to be woken.\<close>

theorem once_runs_once: "once_reachable s \<Longrightarrow> once_correct s"
proof -
  assume "once_reachable s"
  then have "once_inv s" unfolding once_reachable_def by (rule once_system.reachable_inv)
  note d = once_invD [OF this]
  have dn: "o_pc s t = Done \<Longrightarrow> o_word s = 0" for t using d(2) [of t] by simp
  have fin: "o_pc s t = Finish \<Longrightarrow> o_word s \<noteq> 0" for t using d(2) [of t] by auto
  have act: "active (o_pc s t) \<Longrightarrow> o_pc s t = Running \<and> o_runs s = 0 \<or> o_pc s t = Finish \<and> o_runs s = 1" for t
    using d(2) [of t] by (auto simp: active_def)
  have le: "o_runs s \<le> 1" using d(1,4,5,6) act by (fastforce simp: once_values_def)
  have one: "o_word s = 0 \<longleftrightarrow> o_runs s = 1 \<and> (\<forall>t. o_pc s t \<noteq> Finish)"
  proof
    assume r: "o_runs s = 1 \<and> (\<forall>t. o_pc s t \<noteq> Finish)"
    then have "\<not> active (o_pc s t)" for t using act [of t] by auto
    then show "o_word s = 0" using d(1,4,6) r by (auto simp: once_values_def)
  qed (use d(5) fin in auto)
  show ?thesis unfolding once_correct_def is_completed_def COMPLETE_def using le one dn d(3,5,7) by auto
qed

lemma once_make_reachable: "once_reachable once_make"
  unfolding once_reachable_def by (rule reach_init) simp

lemma once_reachable_step: "once_reachable s \<Longrightarrow> once_step t s s' \<Longrightarrow> once_reachable s'"
  unfolding once_reachable_def by (rule reach_step) auto

theorem once_runs_once_witness:
  "once_correct (go (0 :: nat) (once_claim False 3 3) (go 0 (3, once_branch True 3) (go 0 (once_load True 3) once_make)))"
proof (rule once_runs_once)
  let ?a = "go (0 :: nat) (once_load True 3) once_make"
  let ?b = "go (0 :: nat) (3, once_branch True 3) ?a"
  have "once_step 0 once_make ?a" using o_enter [of once_make "0 :: nat" True] by (simp add: once_make_def INCOMPLETE_def)
  then have a: "once_reachable ?a" by (rule once_reachable_step [OF once_make_reachable])
  have "once_step 0 ?a ?b" using o_branch [of ?a "0 :: nat" True 3] by (simp add: once_load_def)
  then have b: "once_reachable ?b" by (rule once_reachable_step [OF a])
  have "once_branch True 3 = Claim 3" by (simp add: once_branch_def once_words Let_def)
  then have "once_step 0 ?b (go 0 (once_claim False 3 3) ?b)" using o_claim [of ?b "0 :: nat" 3 False] by simp
  then show "once_reachable (go 0 (once_claim False 3 3) ?b)" by (rule once_reachable_step [OF b])
qed

end
