(* ===== verification/Sync_Parker.thy ===== *)
theory Sync_Parker
  imports Futex
begin

text \<open>
  The futex parker of src/std/src/sys/sync/thread_parking/futex.cpp: the owner parks, any thread unparks.
  The word is \<open>EMPTY\<close>, \<open>NOTIFIED\<close> or \<open>PARKED\<close>, the largest value, which subtracting \<open>NOTIFIED\<close> from
  \<open>EMPTY\<close> gives.
\<close>

section \<open>The code\<close>

definition PARKED :: u32 where "PARKED = - 1"
definition EMPTY :: u32 where "EMPTY = 0"
definition NOTIFIED :: u32 where "NOTIFIED = 1"

datatype park_pc = Unparked | Parking bool wait_pc | Consume | Reset

definition park_enter :: "bool \<Rightarrow> u32 \<Rightarrow> u32 \<times> park_pc" where
  "park_enter timed w = (w - NOTIFIED, if w = NOTIFIED then Unparked else Parking timed Check)"

text \<open>Behind \<open>futex_wait\<close>: \<open>park\<close> tries to take the notification, \<open>park_timeout\<close> resets the word.\<close>

definition park_after_wait :: "bool \<Rightarrow> wait_pc \<Rightarrow> park_pc" where
  "park_after_wait timed p = (case p of Returned b \<Rightarrow> if timed then Reset else Consume | _ \<Rightarrow> Parking timed p)"

definition park_consume :: "u32 \<Rightarrow> u32 \<times> park_pc" where
  "park_consume w = (if w = NOTIFIED then (EMPTY, Unparked) else (w, Parking False Check))"

definition park_reset :: "u32 \<Rightarrow> u32 \<times> park_pc" where
  "park_reset w = (EMPTY, Unparked)"

text \<open>\<open>unpark\<close>: the new word and whether a wake follows.\<close>

definition unpark :: "u32 \<Rightarrow> u32 \<times> bool" where
  "unpark w = (NOTIFIED, w = PARKED)"

record 't parker =
  p_state :: u32
  p_owner :: park_pc
  p_waking :: "'t \<Rightarrow> bool"

definition parker_make :: "'t parker" where
  "parker_make = \<lparr>p_state = EMPTY, p_owner = Unparked, p_waking = (\<lambda>t. False)\<rparr>"

inductive parker_step :: "'t parker \<Rightarrow> 't parker \<Rightarrow> bool" where
  p_enter: "p_owner s = Unparked \<Longrightarrow> park_enter timed (p_state s) = (w, p) \<Longrightarrow>
    parker_step s (s\<lparr>p_state := w, p_owner := p\<rparr>)"
| p_wait: "p_owner s = Parking timed p \<Longrightarrow> futex_wait_step timed (p_state s) PARKED p q \<Longrightarrow>
    parker_step s (s\<lparr>p_owner := park_after_wait timed q\<rparr>)"
| p_consume: "p_owner s = Consume \<Longrightarrow> park_consume (p_state s) = (w, p) \<Longrightarrow>
    parker_step s (s\<lparr>p_state := w, p_owner := p\<rparr>)"
| p_reset: "p_owner s = Reset \<Longrightarrow> park_reset (p_state s) = (w, p) \<Longrightarrow>
    parker_step s (s\<lparr>p_state := w, p_owner := p\<rparr>)"
| p_unpark: "\<not> p_waking s t \<Longrightarrow> unpark (p_state s) = (w, b) \<Longrightarrow>
    parker_step s (s\<lparr>p_state := w, p_waking := (p_waking s)(t := b)\<rparr>)"
| p_wake: "p_waking s t \<Longrightarrow>
    parker_step s (s\<lparr>p_waking := (p_waking s)(t := False),
      p_owner := (case p_owner s of Parking timed Asleep \<Rightarrow> park_after_wait timed (wait_resume Woken) | p \<Rightarrow> p)\<rparr>)"

definition parker_reachable :: "'t parker \<Rightarrow> bool" where
  "parker_reachable = reachable (\<lambda>s. s = parker_make) parker_step"

section \<open>The invariant\<close>

lemmas parker_words = PARKED_def EMPTY_def NOTIFIED_def

definition parker_inv :: "'t parker \<Rightarrow> bool" where
  "parker_inv s \<longleftrightarrow>
    (p_owner s = Unparked \<longrightarrow> p_state s \<in> {EMPTY, NOTIFIED}) \<and>
    (p_owner s \<noteq> Unparked \<longrightarrow> p_state s \<in> {PARKED, NOTIFIED}) \<and>
    (p_owner s = Consume \<longrightarrow> p_state s = NOTIFIED) \<and>
    ((\<exists>timed. p_owner s = Parking timed Asleep) \<longrightarrow> p_state s = PARKED \<or> (\<exists>t. p_waking s t)) \<and>
    (\<forall>timed b. p_owner s \<noteq> Parking timed (Returned b))"

lemma parker_inv_step: "parker_step s s' \<Longrightarrow> parker_inv s \<Longrightarrow> parker_inv s'"
proof (induction rule: parker_step.induct)
  case (p_enter s timed w p)
  then show ?case by (auto simp: parker_inv_def park_enter_def parker_words split: if_splits)
next
  case (p_wait s timed p q)
  from p_wait(2) show ?case
    by cases (use p_wait(1,3) in \<open>auto simp: parker_inv_def park_after_wait_def wait_check_def wait_syscall_def wait_resume_def\<close>)
next
  case (p_consume s w p)
  then show ?case by (auto simp: parker_inv_def park_consume_def parker_words)
next
  case (p_reset s w p)
  then show ?case by (auto simp: parker_inv_def park_reset_def parker_words)
next
  case (p_unpark s t w b)
  then show ?case by (auto simp: parker_inv_def unpark_def)
next
  case (p_wake s t)
  then show ?case
    by (cases "p_owner s") (auto simp: parker_inv_def park_after_wait_def wait_resume_def split: wait_pc.split)
qed

interpretation parker_system: inductive_invariant "\<lambda>s. s = parker_make" parker_step parker_inv
proof
  show "parker_inv s" if "s = parker_make" for s :: "'a parker" using that by (simp add: parker_inv_def parker_make_def)
qed (rule parker_inv_step)

section \<open>Notifications\<close>

definition parker_correct :: "'t parker \<Rightarrow> bool" where
  "parker_correct s \<longleftrightarrow> p_state s \<in> {EMPTY, NOTIFIED, PARKED} \<and>
     (p_owner s = Consume \<longrightarrow> p_state s = NOTIFIED) \<and>
     (p_state s = NOTIFIED \<and> (\<exists>timed. p_owner s = Parking timed Asleep) \<longrightarrow> (\<exists>t. p_waking s t))"

text \<open>C40. The parker loses no notification: the word is always one of its three values (the subtraction
  in \<open>park\<close> gives no other), \<open>park\<close> leaves its wait only with a notification to take, and an owner asleep
  while a notification is there is about to be woken.\<close>

theorem parker_no_lost_unpark: "parker_reachable s \<Longrightarrow> parker_correct s"
  unfolding parker_reachable_def
  by (drule parker_system.reachable_inv) (auto simp: parker_inv_def parker_correct_def parker_words)

theorem parker_no_lost_unpark_witness:
  "parker_correct \<lparr>p_state = NOTIFIED, p_owner = Parking False Check, p_waking = (\<lambda>t :: nat. False)(0 := True)\<rparr>"
proof (rule parker_no_lost_unpark)
  let ?a = "\<lparr>p_state = PARKED, p_owner = Parking False Check, p_waking = (\<lambda>t :: nat. False)\<rparr>"
  have "parker_reachable (parker_make :: nat parker)" unfolding parker_reachable_def by (rule reach_init) simp
  moreover have "parker_step parker_make ?a"
    using p_enter [of "parker_make :: nat parker" False PARKED "Parking False Check"] by (simp add: parker_make_def park_enter_def parker_words)
  ultimately have "parker_reachable ?a" unfolding parker_reachable_def by (rule reach_step)
  moreover have "parker_step ?a \<lparr>p_state = NOTIFIED, p_owner = Parking False Check, p_waking = (\<lambda>t :: nat. False)(0 := True)\<rparr>"
    using p_unpark [of ?a 0 NOTIFIED True] by (simp add: unpark_def)
  ultimately show "parker_reachable \<lparr>p_state = NOTIFIED, p_owner = Parking False Check, p_waking = (\<lambda>t :: nat. False)(0 := True)\<rparr>"
    unfolding parker_reachable_def by (rule reach_step)
qed

end
