(* ===== verification/Spec2Isabelle.thy ===== *)
theory Spec2Isabelle
  imports
    Rstd_Prelude Utf8 Integers Integer_Bits Duration Calendar
    Ordered_Map BTree BTree_Iter
    Text_Cursor Dec2flt Json_Reader Json_Progress Json_Parser
    Toml_Lexer Toml_Parser Toml_Lexer_Facts Toml_Total
    Serde_Token Serde_Facts
    Fmt Fmt_Facts Fmt_Writer Alloc_String String_Facts Io_Error Io_Error_Facts
    Str_Search Socket_Addr Socket_Addr_Facts Socket_Addr_Total
    Debug_Protocol Debug_Protocol_Facts
    Unix_Time Futex Sync_Mutex Sync_Once Sync_Parker
begin

text \<open>
  A verification development of rstd, a C++ library in the manner of the standard library of Rust: its
  integers, text and time types, collections, text formats, formatting engine and futex locks.

  \<^bold>\<open>How the code is modelled.\<close>  A class is a record, an enumeration or tagged union a datatype, an integer of
  \<open>w\<close> bits a word of that length, with the overflow of the C++ expression written out; a byte slice or
  string is its list of bytes, a pointer and a length the list of the bytes that are left.  \<open>Result<T, E>\<close> is
  the sum of \<open>Rstd_Prelude\<close> (\<open>Err\<close> on the left), \<open>Option\<close> is \<open>option\<close>.  A failed assertion, an \<open>unwrap\<close> of
  nothing or an index out of range is a value of its own (\<open>Panics\<close> of \<open>failure\<close>, \<open>panic\<close>, or \<open>None\<close>), so
  that absence of panics is a theorem.  A loop is a recursive function with a termination proof, or has
  fuel where it is nested recursion over input.  Locks are step relations in which every atomic access to
  the shared word is one step of one thread.

  \<^bold>\<open>Theories and sources\<close> (paths under src/).

  \<^item> \<open>Rstd_Prelude\<close>: results, integer types, facts on lists and words; the collection \<open>result_simps\<close>.
  \<^item> \<open>Utf8\<close>: core/src/char/utf8.cppm.  Decoding inverts encoding, accepts only canonical forms, and the
    validator accepts exactly the encoded texts; character boundaries are the ends of characters.
  \<^item> \<open>Integers\<close> and \<open>Integer_Bits\<close>: core/src/num/types.cppm and integer_methods.cppm.  Checked, wrapping,
    saturating and mixed-sign operations against integer arithmetic; powers without spurious overflow; byte
    orders; shifts, leading and trailing bits and the next power of two.
  \<^item> \<open>Duration\<close>: core/src/time.cppm.  Exact arithmetic on nanoseconds.  \<open>Calendar\<close>: std/src/time/calendar.cppm.
    Day numbers, dates, times and offsets: round trips, and the closed formula against counting days.
  \<^item> \<open>Ordered_Map\<close>: the specification of ordered maps as sorted association lists, and the locale
    \<open>ordered_map\<close>.  \<open>BTree\<close> and \<open>BTree_Iter\<close>: alloc/src/collections/btree_node.cppm and btree_map.cppm.  The
    interpretation \<open>btm\<close> discharges the laws for insertion with splitting and removal with borrowing and
    merging; the locale \<open>double_ended\<close> and its interpretation \<open>bti\<close> do so for the iterator.
  \<^item> \<open>Text_Cursor\<close>: parse/src/core/source.cppm, core/src/ascii.cppm and \<open>validate_utf8\<close> of
    core/src/str/traits.cppm, which the text parsers share.
  \<^item> \<open>Json_Reader\<close>, \<open>Json_Progress\<close>, \<open>Json_Parser\<close>: json/src/reader.cpp and parser.cpp on UTF-8 and UTF-16.
    Parsing returns for every input; values are well-formed and nest at most as deep as the option says;
    skipping a value follows parsing it, but does not look for repeated keys.
  \<^item> \<open>Toml_Lexer\<close>, \<open>Toml_Parser\<close>: toml/src/parser.cpp.  \<open>Toml_Lexer_Facts\<close> and \<open>Toml_Total\<close> show that parsing
    returns for every input and that the value is well-formed: keys sorted and distinct, strings UTF-8, dates
    and times in range.
  \<^item> \<open>Serde_Token\<close>, \<open>Serde_Facts\<close>: serde/src/token.cpp, token.cppm, containers.cppm and error.cpp.  What is
    serialized is read back; skipping follows the grammar of tokens; errors carry the path to the value.
  \<^item> \<open>Fmt\<close>, \<open>Fmt_Facts\<close>, \<open>Fmt_Writer\<close>: core/src/lib.cpp and core/src/fmt.  The locale \<open>total_writer\<close> is a
    sink that never fails, interpreted as \<open>sw\<close> on strings: \<open>write_fmt\<close> renders the format string, and fails
    when an argument refuses its placeholder.
  \<^item> \<open>Alloc_String\<close>, \<open>String_Facts\<close>: alloc/src/string.cpp.  Every checked operation keeps strings well-formed
    (the mutable views of the bytes are not among them).
    \<open>Io_Error\<close>, \<open>Io_Error_Facts\<close>: std/src/io/error.cpp, the kinds of errors and their output.
  \<^item> \<open>Str_Search\<close>: the searching methods of core/src/str.  \<open>Socket_Addr\<close>: std/src/net/socket_addr.cpp.
    \<open>Socket_Addr_Facts\<close> shows that printed addresses parse back, \<open>Socket_Addr_Total\<close> that parsing never
    panics and accepts only addresses that print and parse back.
  \<^item> \<open>Debug_Protocol\<close>, \<open>Debug_Protocol_Facts\<close>: std/src/async/debug/protocol.cpp, the line protocol of the
    runtime's debug server.  Requests round trip, responses stay within the limit, pages lose no record.
  \<^item> \<open>Unix_Time\<close>: std/src/sys/pal/unix/time.cpp, exact arithmetic of points in time.
  \<^item> \<open>Futex\<close>: std/src/sys/pal/unix/futex.cpp and the locale \<open>inductive_invariant\<close> of step relations, which
    \<open>Sync_Mutex\<close>, \<open>Sync_Once\<close> and \<open>Sync_Parker\<close> (std/src/sys/sync) interpret on their steps: mutual exclusion
    and no lost wakeup of the mutex, a callback that runs at most once, no lost notification of the parker.

  \<^bold>\<open>How the parts interact.\<close>  The JSON and TOML parsers read through the cursors of \<open>Text_Cursor\<close> and use the
  checked integers; their validity facts rest on \<open>Utf8\<close>.  TOML tables are the ordered maps that \<open>BTree\<close>
  implements.  The formatter writes into the strings of \<open>Alloc_String\<close>; errors, addresses and protocol
  responses are written with it.  Addresses are parsed with \<open>Str_Search\<close>.  Points in time and the debug
  session use \<open>Duration\<close>.  The locks wait in \<open>Futex\<close>.

  \<^bold>\<open>Bounds and fuel.\<close>  \<open>parse_fuel\<close> of JSON and \<open>toml_fuel\<close> are twice the remaining input plus one,
  because every second call consumes input; \<open>token_fuel\<close> of serde is twice the number of tokens plus one; the
  output of an IPv6 address has nine rounds for eight groups.  That each is enough is part of the
  theorems: \<open>json_parse_total\<close>, \<open>toml_parse_total\<close>, \<open>serde_token_roundtrip\<close> and \<open>socket_addr_roundtrip\<close> exclude
  running out of fuel.  Widths are those of a 64-bit platform.

  \<^bold>\<open>Parameters.\<close>  The conversion of decimal literals to doubles (\<open>Dec2flt\<close>), the error numbers of the
  platform, the readings of clocks and the answers of the runtime to the debug protocol are arguments of
  the definitions.  The kernel's futex is modelled by its documented behaviour: the comparison and the
  sleep are one step, and a sleeper may be woken, interrupted or timed out.

  \<^bold>\<open>Not modelled.\<close>  Calls of the operating system (files, sockets, processes, signals, threads, standard
  streams); the async runtime and the collection of debug records, whose correctness is about coroutine
  frames and shared ownership; the channels, which rest on the memory orders of C++ (the locks are modelled
  with interleaved atomic steps); the versions of locks and clocks for other platforms; vectors, hash tables
  and allocators, which are raw memory; floating point conversion and output; iterators and other templates
  over any type; regular expressions, command line, logging, tests and benchmarks; vendored code.
\<close>

end
